(* ===== verification/LatePrelude.thy ===== *)
theory LatePrelude
  imports Main "HOL-Library.Word" "HOL-Library.Monad_Syntax"
begin

text \<open>
  What every component of the lateOS model shares: the machine-integer types of
  \<^verbatim>\<open>include/sys/defs.h\<close>, C's conversions and truncating division, characters as the
  signed bytes gcc gives \<^verbatim>\<open>char\<close>, and the generic facts on lists, folds and
  page-aligned words that carry the component proofs.

  Conventions. A function that may not return, or whose C text is undefined at some
  input (an out-of-bounds access, a NULL dereference), has an \<open>option\<close> result and \<open>None\<close>
  there. Physical and kernel-virtual addresses are \<open>64 word\<close>; a C \<^verbatim>\<open>int\<close> whose
  overflow matters is an \<open>int\<close> cut back to 32 bits by \<open>to_int32\<close>.
\<close>

unbundle bit_operations_syntax

named_theorems c_arith \<open>C conversions and divisions on concrete shapes\<close>
named_theorems frame_simps \<open>what an operation leaves unchanged\<close>

section \<open>Machine integers\<close>

type_synonym u64 = "64 word"
type_synonym u32 = "32 word"
type_synonym u16 = "16 word"
type_synonym u8 = "8 word"

text \<open>The value of an \<^verbatim>\<open>int\<close> after an assignment from a wider integer, as gcc wraps it.\<close>

definition to_int32 :: "int \<Rightarrow> int" where
  "to_int32 x = signed_take_bit 31 x"

lemma to_int32_id [c_arith]: "- (2 ^ 31) \<le> x \<Longrightarrow> x < 2 ^ 31 \<Longrightarrow> to_int32 x = x"
  by (simp add: to_int32_def signed_take_bit_int_eq_self)

lemma to_int32_range: "- (2 ^ 31) \<le> to_int32 x \<and> to_int32 x < 2 ^ 31"
  using signed_take_bit_int_greater_eq_minus_exp [of 31 x] signed_take_bit_int_less_exp [of 31 x]
  by (simp add: to_int32_def)

lemma word_of_to_int32 [simp]: "(word_of_int (to_int32 x) :: u32) = word_of_int x"
  by (simp add: to_int32_def word_of_int_eq_iff take_bit_signed_take_bit)

text \<open>C's \<^verbatim>\<open>/\<close> and \<^verbatim>\<open>%\<close> round towards zero.\<close>

definition cdiv :: "int \<Rightarrow> int \<Rightarrow> int" where
  "cdiv a b = sgn a * sgn b * (\<bar>a\<bar> div \<bar>b\<bar>)"

definition cmod :: "int \<Rightarrow> int \<Rightarrow> int" where
  "cmod a b = a - cdiv a b * b"

lemma cdiv_nonneg [c_arith]: "0 \<le> a \<Longrightarrow> 0 < b \<Longrightarrow> cdiv a b = a div b"
  by (cases "a = 0") (auto simp: cdiv_def)

lemma cmod_nonneg [c_arith]: "0 \<le> a \<Longrightarrow> 0 < b \<Longrightarrow> cmod a b = a mod b"
  by (simp add: cmod_def cdiv_nonneg minus_div_mult_eq_mod)

section \<open>Characters\<close>

abbreviation NUL :: char where "NUL \<equiv> CHR 0x00"
abbreviation NL :: char where "NL \<equiv> CHR 0x0A"
abbreviation CR :: char where "CR \<equiv> CHR 0x0D"

text \<open>\<^verbatim>\<open>char\<close> is signed on x86-64: the integer value of a character in an expression.\<close>

definition c2i :: "char \<Rightarrow> int" where
  "c2i c = (let n = int (of_char c) in if n < 128 then n else n - 256)"

text \<open>The character a store of an integer into a \<^verbatim>\<open>char\<close> leaves.\<close>

definition i2c :: "int \<Rightarrow> char" where
  "i2c n = char_of (nat (n mod 256))"

lemma of_char_less_256: "of_char (c :: char) < (256 :: nat)"
  by (metis of_char_mod_256 mod_less_divisor zero_less_numeral)

lemma c2i_inj: "c2i a = c2i b \<longleftrightarrow> a = b"
proof
  assume eq: "c2i a = c2i b"
  have "of_char a = (of_char b :: nat)"
  proof -
    define x y where "x = int (of_char a)" and "y = int (of_char b)"
    have "x < 256" "0 \<le> x" "y < 256" "0 \<le> y"
      using of_char_less_256 [of a] of_char_less_256 [of b] by (simp_all add: x_def y_def)
    moreover have "(if x < 128 then x else x - 256) = (if y < 128 then y else y - 256)"
      using eq unfolding c2i_def x_def y_def Let_def .
    ultimately have "x = y" by (auto split: if_splits)
    then show ?thesis by (simp add: x_def y_def)
  qed
  then show "a = b" by simp
qed simp

lemma i2c_c2i [simp]: "i2c (c2i c) = c"
proof -
  have "nat (c2i c mod 256) = of_char c"
  proof (cases "of_char c < (128 :: nat)")
    case True
    then show ?thesis by (simp add: c2i_def Let_def nat_mod_as_int)
  next
    case False
    then have "c2i c = int (of_char c) - 256" by (simp add: c2i_def Let_def)
    then have "c2i c mod 256 = int (of_char c) mod 256" by simp
    then show ?thesis using of_char_less_256 [of c] by simp
  qed
  then show ?thesis by (simp add: i2c_def)
qed

lemma c2i_NUL [simp]: "c2i NUL = 0"
  by (simp add: c2i_def)

section \<open>Lists and loops\<close>

text \<open>The index a \<^verbatim>\<open>for\<close> loop over \<open>0 .. n - 1\<close> returns from: the first one that satisfies \<open>P\<close>.\<close>

definition first_index :: "(nat \<Rightarrow> bool) \<Rightarrow> nat \<Rightarrow> nat option" where
  "first_index P n = find P [0..<n]"

lemma first_index_Some:
  "first_index P n = Some i \<longleftrightarrow> i < n \<and> P i \<and> (\<forall>j < i. \<not> P j)"
  by (auto simp: first_index_def find_Some_iff)

lemma first_index_None: "first_index P n = None \<longleftrightarrow> (\<forall>i < n. \<not> P i)"
  by (auto simp: first_index_def find_None_iff)

lemma find_SomeD: "find P xs = Some x \<Longrightarrow> P x \<and> x \<in> set xs"
  by (auto simp: find_Some_iff)

lemma find_map: "find P (map f xs) = map_option f (find (\<lambda>x. P (f x)) xs)"
  by (induction xs) auto

lemma find_append: "find P (xs @ ys) = (case find P xs of Some x \<Rightarrow> Some x | None \<Rightarrow> find P ys)"
  by (induction xs) auto

lemma first_index_cong:
  "(\<And>i. i < n \<Longrightarrow> P i = Q i) \<Longrightarrow> first_index P n = first_index Q n"
  unfolding first_index_def by (rule find_cong) auto

text \<open>A loop that rewrites one array cell per iteration is the pointwise map of the array.\<close>

lemma fold_fun_upd_pointwise:
  "distinct xs \<Longrightarrow> fold (\<lambda>i q. q(i := f i (q i))) xs q = (\<lambda>j. if j \<in> set xs then f j (q j) else q j)"
  by (induction xs arbitrary: q) (auto simp: fun_eq_iff)

lemma fold_invariant_upt:
  assumes "P 0 s" and "\<And>i s. i < n \<Longrightarrow> P i s \<Longrightarrow> P (Suc i) (f i s)"
  shows "P n (fold f [0..<n] s)"
  using assms by (induction n) auto

lemma takeWhile_neq_append:
  "x \<notin> set xs \<Longrightarrow> takeWhile (\<lambda>y. y \<noteq> x) (xs @ x # ys) = xs"
  by (induction xs) auto

lemma all_less_add: "(\<forall>j < m + n. P j) \<longleftrightarrow> (\<forall>j < m. P j) \<and> (\<forall>j < n. P (m + j))" for m n :: nat
  by (induction n) (auto simp: less_Suc_eq)

end
