(* ===== verification/CStrings.thy ===== *)
theory CStrings
  imports LatePrelude
begin

text \<open>
  The kernel's byte and string routines: \<^verbatim>\<open>sys/string.c\<close>, \<^verbatim>\<open>memset\<close> of
  \<^verbatim>\<open>sys/paging.c\<close> and \<^verbatim>\<open>memcpy\<close> of \<^verbatim>\<open>sys/process.c\<close>, with the libc copies of the same
  routines in \<^verbatim>\<open>libc/string_sys.c\<close>. Memory is a map from addresses to characters; a
  pointer is an address, so aliasing and overlap are visible. Every \<^verbatim>\<open>while\<close> loop that
  scans for a terminating NUL may run for ever, hence \<open>partial_function (option)\<close>.
  \<open>cstr m p s\<close> says that a NUL-terminated string \<open>s\<close> starts at \<open>p\<close>; each routine is shown
  to return on such strings and to compute a function of the strings (the \<open>_s\<close>
  definitions), which is how the components above use it.
\<close>

type_synonym addr = int
type_synonym mem = "addr \<Rightarrow> char"

section \<open>The routines\<close>

partial_function (option) strcmp :: "mem \<Rightarrow> addr \<Rightarrow> addr \<Rightarrow> int option" where
  "strcmp m s t =
     (if m s = m t then (if m s = NUL then Some 0 else strcmp m (s + 1) (t + 1))
      else Some (c2i (m s) - c2i (m t)))"

partial_function (option) strcpy :: "mem \<Rightarrow> addr \<Rightarrow> addr \<Rightarrow> mem option" where
  "strcpy m string2 string1 =
     (if m string1 \<noteq> NUL then strcpy (m(string2 := m string1)) (string2 + 1) (string1 + 1)
      else Some (m(string2 := NUL)))"

partial_function (option) strlen_loop :: "mem \<Rightarrow> addr \<Rightarrow> int \<Rightarrow> int option" where
  "strlen_loop m string len =
     (if m string \<noteq> NUL then strlen_loop m (string + 1) (to_int32 (len + 1)) else Some len)"

definition strlen :: "mem \<Rightarrow> addr \<Rightarrow> int option" where
  "strlen m string = strlen_loop m string 0"

partial_function (option) strcat_seek :: "mem \<Rightarrow> addr \<Rightarrow> addr option" where
  "strcat_seek m string1 = (if m string1 \<noteq> NUL then strcat_seek m (string1 + 1) else Some string1)"

partial_function (option) strcat_copy :: "mem \<Rightarrow> addr \<Rightarrow> addr \<Rightarrow> (mem \<times> addr) option" where
  "strcat_copy m string1 string2 =
     (if m string2 \<noteq> NUL then strcat_copy (m(string1 := m string2)) (string1 + 1) (string2 + 1)
      else Some (m(string1 := NUL), string1))"

text \<open>\<open>strcat\<close> returns the memory and the pointer to the new terminator, as the code does.\<close>

definition strcat :: "mem \<Rightarrow> addr \<Rightarrow> addr \<Rightarrow> (mem \<times> addr) option" where
  "strcat m string1 string2 = do {
     e \<leftarrow> strcat_seek m string1;
     strcat_copy m e string2
   }"

partial_function (option) substring_loop :: "mem \<Rightarrow> addr \<Rightarrow> int \<Rightarrow> int \<Rightarrow> addr option" where
  "substring_loop m string i index =
     (if m string \<noteq> NUL then
        (if i > index then Some string else substring_loop m (string + 1) (i + 1) index)
      else Some string)"

definition substring :: "mem \<Rightarrow> addr \<Rightarrow> int \<Rightarrow> addr option" where
  "substring m string index = substring_loop m string 0 index"

partial_function (option) starts_with_loop :: "mem \<Rightarrow> addr \<Rightarrow> addr \<Rightarrow> int \<Rightarrow> int option" where
  "starts_with_loop m string1 string2 count =
     (if m string1 = m string2 \<and> m string1 \<noteq> NUL
      then starts_with_loop m (string1 + 1) (string2 + 1) (count + 1)
      else Some (count - 1))"

definition starts_with :: "mem \<Rightarrow> addr \<Rightarrow> addr \<Rightarrow> int option" where
  "starts_with m string1 string2 = starts_with_loop m string1 string2 0"

definition resetString :: "mem \<Rightarrow> addr \<Rightarrow> mem" where
  "resetString m str = m(str := NUL)"

text \<open>\<open>strtoInt\<close>: the length is taken first, then every character is a digit, checked or not.\<close>

fun strtoInt_loop :: "mem \<Rightarrow> addr \<Rightarrow> nat \<Rightarrow> int \<Rightarrow> int" where
  "strtoInt_loop m num 0 dec = dec"
| "strtoInt_loop m num (Suc k) dec =
     strtoInt_loop m (num + 1) k (to_int32 (dec * 10 + (c2i (m num) - c2i (CHR ''0''))))"

definition strtoInt :: "mem \<Rightarrow> addr \<Rightarrow> int option" where
  "strtoInt m num = do {
     len \<leftarrow> strlen m num;
     Some (strtoInt_loop m num (nat len) 0)
   }"

text \<open>\<open>memset\<close> and \<open>memcpy\<close>; \<open>memcpy\<close> runs backwards when the source lies below the destination.\<close>

fun memset :: "mem \<Rightarrow> addr \<Rightarrow> int \<Rightarrow> nat \<Rightarrow> mem" where
  "memset m p c 0 = m"
| "memset m p c (Suc n) = memset (m(p := i2c c)) (p + 1) c n"

fun memcpy_down :: "mem \<Rightarrow> addr \<Rightarrow> addr \<Rightarrow> nat \<Rightarrow> mem" where
  "memcpy_down m d s 0 = m"
| "memcpy_down m d s (Suc n) = memcpy_down (m(d - 1 := m (s - 1))) (d - 1) (s - 1) n"

fun memcpy_up :: "mem \<Rightarrow> addr \<Rightarrow> addr \<Rightarrow> nat \<Rightarrow> mem" where
  "memcpy_up m d s 0 = m"
| "memcpy_up m d s (Suc n) = memcpy_up (m(d := m s)) (d + 1) (s + 1) n"

text \<open>The count is an \<^verbatim>\<open>int\<close>: a negative one never meets the loop's test for zero.\<close>

definition memcpy :: "mem \<Rightarrow> addr \<Rightarrow> addr \<Rightarrow> int \<Rightarrow> mem option" where
  "memcpy m dest src n =
     (if n < 0 then None
      else Some (if src < dest then memcpy_down m (dest + n) (src + n) (nat n)
                 else memcpy_up m dest src (nat n)))"

section \<open>Strings in memory\<close>

fun cstr :: "mem \<Rightarrow> addr \<Rightarrow> string \<Rightarrow> bool" where
  "cstr m p [] = (m p = NUL)"
| "cstr m p (c # s) = (m p = c \<and> c \<noteq> NUL \<and> cstr m (p + 1) s)"

definition cell_range :: "addr \<Rightarrow> nat \<Rightarrow> addr set" where
  "cell_range p n = {p ..< p + int n}"

lemma cstr_no_NUL: "cstr m p s \<Longrightarrow> NUL \<notin> set s"
  by (induction s arbitrary: p) auto

lemma cstr_upd_outside:
  "a \<notin> cell_range p (Suc (length s)) \<Longrightarrow> cstr (m(a := c)) p s = cstr m p s"
  by (induction s arbitrary: p) (auto simp: cell_range_def)

lemma cstr_unique: "cstr m p s \<Longrightarrow> cstr m p t \<Longrightarrow> s = t"
proof (induction s arbitrary: p t)
  case Nil
  then show ?case by (cases t) auto
next
  case (Cons c s)
  then show ?case by (cases t) auto
qed

lemma cstr_append: "cstr m p (s @ t) \<longleftrightarrow>
    (\<forall>i < length s. m (p + int i) = s ! i \<and> s ! i \<noteq> NUL) \<and> cstr m (p + int (length s)) t"
proof (induction s arbitrary: p)
  case (Cons c s)
  have "(\<forall>i < length (c # s). m (p + int i) = (c # s) ! i \<and> (c # s) ! i \<noteq> NUL)
    \<longleftrightarrow> m p = c \<and> c \<noteq> NUL \<and> (\<forall>i < length s. m (p + 1 + int i) = s ! i \<and> s ! i \<noteq> NUL)"
    by (auto simp: less_Suc_eq_0_disj add.assoc all_conj_distrib)
  then show ?case using Cons.IH [of "p + 1"] by (simp add: algebra_simps)
qed simp

text \<open>The bytes from \<open>i\<close> on are those of \<open>s\<close>, with no terminator.\<close>

definition cells :: "(int \<Rightarrow> char) \<Rightarrow> int \<Rightarrow> string \<Rightarrow> bool" where
  "cells buf i s \<longleftrightarrow> (\<forall>j < length s. buf (i + int j) = s ! j)"

lemma cells_append: "cells buf i (s @ t) \<longleftrightarrow> cells buf i s \<and> cells buf (i + int (length s)) t"
  by (simp add: cells_def all_less_add nth_append add.assoc)

lemma cells_Cons: "cells buf i (x # s) \<longleftrightarrow> buf i = x \<and> cells buf (i + 1) s"
  using cells_append [of buf i "[x]" s] by (simp add: cells_def [of buf i "[x]"])

lemma cells_Nil: "cells buf i []"
  by (simp add: cells_def)

lemma cells_upd: "a \<notin> cell_range i (length s) \<Longrightarrow> cells (buf(a := x)) i s = cells buf i s"
proof -
  assume a: "a \<notin> cell_range i (length s)"
  have "i + int j \<noteq> a" if "j < length s" for j using a that by (auto simp: cell_range_def)
  then show ?thesis by (simp add: cells_def)
qed

lemma cstr_cells: "cstr m p s \<longleftrightarrow> cells m p s \<and> NUL \<notin> set s \<and> m (p + int (length s)) = NUL"
proof (induction s arbitrary: p)
  case (Cons x s)
  then show ?case by (auto simp: cells_Cons algebra_simps)
qed (simp add: cells_Nil)

text \<open>The string that starts at an address.\<close>

partial_function (option) read_cstr :: "mem \<Rightarrow> addr \<Rightarrow> string option" where
  "read_cstr m p = (if m p = NUL then Some [] else do { s \<leftarrow> read_cstr m (p + 1); Some (m p # s) })"

lemma read_cstr_cstr: "cstr m p s \<Longrightarrow> read_cstr m p = Some s"
  by (induction s arbitrary: p) (auto simp: read_cstr.simps [of m])

section \<open>The functions on strings that the routines compute\<close>

fun strcmp_s :: "string \<Rightarrow> string \<Rightarrow> int" where
  "strcmp_s [] [] = 0"
| "strcmp_s [] (d # t) = - c2i d"
| "strcmp_s (c # s) [] = c2i c"
| "strcmp_s (c # s) (d # t) = (if c = d then strcmp_s s t else c2i c - c2i d)"

fun common_prefix :: "string \<Rightarrow> string \<Rightarrow> string" where
  "common_prefix (c # s) (d # t) = (if c = d then c # common_prefix s t else [])"
| "common_prefix _ _ = []"

definition starts_with_s :: "string \<Rightarrow> string \<Rightarrow> int" where
  "starts_with_s s t = int (length (common_prefix s t)) - 1"

definition substring_s :: "string \<Rightarrow> int \<Rightarrow> string" where
  "substring_s s index = drop (nat (index + 1)) s"

fun digits_val :: "int \<Rightarrow> string \<Rightarrow> int" where
  "digits_val dec [] = dec"
| "digits_val dec (c # s) = digits_val (to_int32 (dec * 10 + (c2i c - c2i (CHR ''0'')))) s"


section \<open>The routines compute these functions\<close>

lemma strlen_loop_cstr:
  "cstr m p s \<Longrightarrow> 0 \<le> n \<Longrightarrow> n + int (length s) < 2 ^ 31 \<Longrightarrow>
   strlen_loop m p n = Some (n + int (length s))"
  by (induction s arbitrary: p n) (auto simp: strlen_loop.simps [of m] c_arith)

lemma strlen_cstr:
  "cstr m p s \<Longrightarrow> length s < 2 ^ 31 \<Longrightarrow> strlen m p = Some (int (length s))"
  by (simp add: strlen_def strlen_loop_cstr)

lemma strcmp_cstr: "cstr m p s \<Longrightarrow> cstr m q t \<Longrightarrow> strcmp m p q = Some (strcmp_s s t)"
proof (induction s t arbitrary: p q rule: strcmp_s.induct)
  case (2 d t)
  then show ?case by (auto simp: strcmp.simps [of m p q])
next
  case (3 c s)
  then show ?case by (auto simp: strcmp.simps [of m p q])
next
  case (4 c s d t)
  then show ?case by (auto simp: strcmp.simps [of m p q])
qed (simp add: strcmp.simps)

lemma strcmp_s_eq_0: "NUL \<notin> set s \<Longrightarrow> NUL \<notin> set t \<Longrightarrow> strcmp_s s t = 0 \<longleftrightarrow> s = t"
proof (induction s t rule: strcmp_s.induct)
  case (2 d t)
  then show ?case using c2i_inj [of d NUL] by auto
next
  case (3 c s)
  then show ?case using c2i_inj [of c NUL] by auto
next
  case (4 c s d t)
  then show ?case using c2i_inj [of c d] by auto
qed simp

lemma starts_with_loop_cstr:
  "cstr m p s \<Longrightarrow> cstr m q t \<Longrightarrow>
   starts_with_loop m p q n = Some (n + int (length (common_prefix s t)) - 1)"
proof (induction s arbitrary: p q n t)
  case Nil
  then show ?case by (cases t) (auto simp: starts_with_loop.simps [of m p q])
next
  case (Cons c s)
  then show ?case by (cases t) (auto simp: starts_with_loop.simps [of m p q])
qed

lemma starts_with_cstr:
  "cstr m p s \<Longrightarrow> cstr m q t \<Longrightarrow> starts_with m p q = Some (starts_with_s s t)"
  by (simp add: starts_with_def starts_with_s_def starts_with_loop_cstr)

lemma common_prefix_whole: "common_prefix (t @ s) t = t"
  by (induction t) auto

lemma substring_loop_cstr:
  "cstr m p s \<Longrightarrow> \<exists>k \<le> length s. substring_loop m p i index = Some (p + int k)
     \<and> k = min (length s) (nat (index + 1 - i))"
proof (induction s arbitrary: p i)
  case Nil
  then show ?case by (simp add: substring_loop.simps [of m p])
next
  case (Cons c s)
  then have head: "m p \<noteq> NUL" and tail: "cstr m (p + 1) s" by auto
  show ?case
  proof (cases "i > index")
    case True
    then show ?thesis using head by (simp add: substring_loop.simps [of m p])
  next
    case False
    have "substring_loop m (p + 1) (i + 1) index
        = Some (p + 1 + int (min (length s) (nat (index + 1 - (i + 1)))))"
      using Cons.IH [OF tail, of "i + 1"] by auto
    moreover have "Suc (min (length s) (nat (index - i))) = min (Suc (length s)) (nat (index + 1 - i))"
    proof -
      have "nat (index + 1 - i) = Suc (nat (index - i))" using False by arith
      then show ?thesis by simp
    qed
    ultimately show ?thesis using head False
      by (simp add: substring_loop.simps [of m p] flip: of_nat_Suc)
  qed
qed

section \<open>Copies\<close>

lemma strcpy_forward:
  assumes "cstr m src s" and "dst \<le> src \<or> src + int (length s) < dst"
  shows "\<exists>m'. strcpy m dst src = Some m' \<and> cstr m' dst s
    \<and> (\<forall>a. a \<notin> cell_range dst (Suc (length s)) \<longrightarrow> m' a = m a)"
  using assms
proof (induction s arbitrary: m dst src)
  case Nil
  then show ?case by (auto simp: strcpy.simps [of m dst src] cell_range_def)
next
  case (Cons c s)
  let ?m1 = "m(dst := m src)"
  have src: "m src = c" "c \<noteq> NUL" "cstr m (src + 1) s" using Cons.prems by auto
  have "cstr ?m1 (src + 1) s"
    using src Cons.prems(2) by (subst cstr_upd_outside) (auto simp: cell_range_def)
  moreover have "dst + 1 \<le> src + 1 \<or> src + 1 + int (length s) < dst + 1"
    using Cons.prems(2) by auto
  ultimately obtain m' where m': "strcpy ?m1 (dst + 1) (src + 1) = Some m'" "cstr m' (dst + 1) s"
      "\<forall>a. a \<notin> cell_range (dst + 1) (Suc (length s)) \<longrightarrow> m' a = ?m1 a"
    using Cons.IH by blast
  have "m' dst = c" using m'(3) src by (simp add: cell_range_def)
  moreover have "a \<notin> cell_range dst (Suc (length (c # s))) \<Longrightarrow> m' a = m a" for a
    using m'(3) by (auto simp: cell_range_def)
  ultimately show ?case using m' src by (auto simp: strcpy.simps [of m dst src])
qed

text \<open>Copying a string onto its own tail overwrites the terminator before it is read.\<close>

lemma strcpy_onto_tail:
  assumes "src < dst" and "\<forall>a. src \<le> a \<and> a < dst \<longrightarrow> m a \<noteq> NUL"
  shows "strcpy m dst src = None"
proof (rule ccontr)
  assume "strcpy m dst src \<noteq> None"
  then obtain m' where ret: "strcpy m dst src = Some m'" by blast
  have "\<not> (src < dst \<and> (\<forall>a. src \<le> a \<and> a < dst \<longrightarrow> m a \<noteq> NUL))"
  proof (rule strcpy.raw_induct [where
      P = "\<lambda>m d s r. \<not> (s < d \<and> (\<forall>a. s \<le> a \<and> a < d \<longrightarrow> m a \<noteq> NUL))", OF _ ret])
    fix f :: "mem \<Rightarrow> addr \<Rightarrow> addr \<Rightarrow> mem option" and m :: mem and d s :: addr and r
    assume IH: "\<And>m d s r. f m d s = Some r \<Longrightarrow>
        \<not> (s < d \<and> (\<forall>a. s \<le> a \<and> a < d \<longrightarrow> m a \<noteq> NUL))"
      and eq: "(if m s \<noteq> NUL then f (m(d := m s)) (d + 1) (s + 1) else Some (m(d := NUL))) = Some r"
    show "\<not> (s < d \<and> (\<forall>a. s \<le> a \<and> a < d \<longrightarrow> m a \<noteq> NUL))"
    proof
      assume inv: "s < d \<and> (\<forall>a. s \<le> a \<and> a < d \<longrightarrow> m a \<noteq> NUL)"
      moreover have "s \<le> s" by simp
      ultimately have "m s \<noteq> NUL" by blast
      then have "f (m(d := m s)) (d + 1) (s + 1) = Some r" using eq by (simp del: fun_upd_apply)
      from IH [OF this] inv \<open>m s \<noteq> NUL\<close> show False by (auto split: if_splits)
    qed
  qed
  then show False using assms by blast
qed

lemma strcat_seek_cstr: "cstr m p s \<Longrightarrow> strcat_seek m p = Some (p + int (length s))"
  by (induction s arbitrary: p) (auto simp: strcat_seek.simps [of m])

lemma strcat_copy_strcpy:
  "strcat_copy m d s = Some (m', e) \<Longrightarrow> strcpy m d s = Some m'"
proof -
  assume ret: "strcat_copy m d s = Some (m', e)"
  have "strcpy m d s = Some (fst (m', e))"
  proof (rule strcat_copy.raw_induct [where P = "\<lambda>m d s r. strcpy m d s = Some (fst r)", OF _ ret])
    fix f m d s r
    assume "\<And>m d s r. f m d s = Some r \<Longrightarrow> strcpy m d s = Some (fst r)"
      and "(if m s \<noteq> NUL then f (m(d := m s)) (d + 1) (s + 1) else Some (m(d := NUL), d)) = Some r"
    then show "strcpy m d s = Some (fst r)"
      by (cases "m s \<noteq> NUL") (auto simp: strcpy.simps [of m d s])
  qed
  then show ?thesis by simp
qed

lemma strcat_copy_returns:
  assumes "cstr m src s" and "src + int (length s) < dst \<or> dst \<le> src"
  shows "\<exists>m'. strcat_copy m dst src = Some (m', dst + int (length s))"
  using assms
proof (induction s arbitrary: m dst src)
  case Nil
  then show ?case by (auto simp: strcat_copy.simps [of m dst src])
next
  case (Cons c s)
  have "cstr (m(dst := m src)) (src + 1) s"
    using Cons.prems by (subst cstr_upd_outside) (auto simp: cell_range_def)
  moreover have "src + 1 + int (length s) < dst + 1 \<or> dst + 1 \<le> src + 1"
    using Cons.prems(2) by auto
  ultimately obtain m' where
      "strcat_copy (m(dst := m src)) (dst + 1) (src + 1) = Some (m', dst + 1 + int (length s))"
    using Cons.IH by blast
  moreover have "m src \<noteq> NUL" using Cons.prems(1) by auto
  ultimately show ?case
    by (simp add: strcat_copy.simps [of m dst src] algebra_simps del: fun_upd_apply)
qed

lemma memcpy_up_eq:
  "dst \<le> src \<Longrightarrow> memcpy_up m dst src n =
     (\<lambda>a. if a \<in> cell_range dst n then m (src + (a - dst)) else m a)"
  by (induction n arbitrary: m dst src) (auto simp: fun_eq_iff cell_range_def)

lemma memcpy_down_eq:
  "src < dst \<Longrightarrow> memcpy_down m (dst + int n) (src + int n) n =
     (\<lambda>a. if a \<in> cell_range dst n then m (src + (a - dst)) else m a)"
proof (induction n arbitrary: m)
  case (Suc n)
  have "memcpy_down m (dst + int (Suc n)) (src + int (Suc n)) (Suc n)
      = memcpy_down (m(dst + int n := m (src + int n))) (dst + int n) (src + int n) n"
    by simp
  also have "\<dots> = (\<lambda>a. if a \<in> cell_range dst (Suc n) then m (src + (a - dst)) else m a)"
    using Suc.prems by (subst Suc.IH) (auto simp: fun_eq_iff cell_range_def)
  finally show ?case .
qed (simp add: cell_range_def)

lemma memset_eq: "memset m p c n = (\<lambda>a. if a \<in> cell_range p n then i2c c else m a)"
  by (induction n arbitrary: m p) (auto simp: fun_eq_iff cell_range_def)

lemma strtoInt_loop_cstr:
  "cstr m p s \<Longrightarrow> strtoInt_loop m p (length s) dec = digits_val dec s"
  by (induction s arbitrary: p dec) auto


text \<open>Decimal numerals, the strings \<open>strtoInt\<close> reads back.\<close>

fun dec_str :: "nat \<Rightarrow> string" where
  "dec_str n = (if n < 10 then [char_of (48 + n)]
     else dec_str (n div 10) @ [char_of (48 + n mod 10)])"

declare dec_str.simps [simp del]

lemma c2i_digit: "d < 10 \<Longrightarrow> c2i (char_of (48 + d)) - c2i (CHR ''0'') = int d"
  by (simp add: c2i_def Let_def of_char_of)

lemma digits_val_append: "digits_val dec (s @ t) = digits_val (digits_val dec s) t"
  by (induction s arbitrary: dec) auto

lemma digits_val_dec_str: "n < 2 ^ 31 \<Longrightarrow> digits_val 0 (dec_str n) = int n"
proof (induction n rule: dec_str.induct)
  case (1 n)
  show ?case
  proof (cases "n < 10")
    case True
    then show ?thesis by (simp add: dec_str.simps [of n] c2i_digit c_arith)
  next
    case False
    have "digits_val 0 (dec_str n)
        = to_int32 (int (n div 10) * 10 + (c2i (char_of (48 + n mod 10)) - c2i (CHR ''0'')))"
      using False 1 by (simp add: dec_str.simps [of n] digits_val_append)
    also have "\<dots> = to_int32 (int (n div 10) * 10 + int (n mod 10))"
      by (simp add: c2i_digit)
    also have "int (n div 10) * 10 + int (n mod 10) = int n"
      by (metis div_mult_mod_eq of_nat_add of_nat_mult of_nat_numeral)
    finally show ?thesis using 1(2) by (simp add: c_arith)
  qed
qed

lemma strtoInt_cstr:
  "cstr m p s \<Longrightarrow> length s < 2 ^ 31 \<Longrightarrow> strtoInt m p = Some (digits_val 0 s)"
  by (simp add: strtoInt_def strlen_cstr strtoInt_loop_cstr)

section \<open>What the routines guarantee\<close>

text \<open>On NUL-terminated strings \<open>strcmp\<close> returns, and it returns 0 exactly when the two
  strings are equal; this is the test every name lookup of the kernel rests on.\<close>

theorem strcmp_zero_iff_equal:
  assumes "cstr m p s" and "cstr m q t"
  shows "\<exists>r. strcmp m p q = Some r \<and> (r = 0 \<longleftrightarrow> s = t)"
  using strcmp_cstr [OF assms] strcmp_s_eq_0 assms [THEN cstr_no_NUL] by auto

text \<open>A memory with ''ab'' at address 0 and at address 10.\<close>

definition ab_mem :: mem where
  "ab_mem = (\<lambda>_. NUL)(0 := CHR ''a'', 1 := CHR ''b'', 10 := CHR ''a'', 11 := CHR ''b'')"

theorem strcmp_zero_iff_equal_witness:
  "cstr ab_mem 0 ''ab'' \<and> cstr ab_mem 10 ''ab''
   \<and> (\<exists>r. strcmp ab_mem 0 10 = Some r \<and> (r = 0 \<longleftrightarrow> ''ab'' = ''ab''))"
proof -
  have h: "cstr ab_mem 0 ''ab''" "cstr ab_mem 10 ''ab''" by (simp_all add: ab_mem_def)
  show ?thesis using h strcmp_zero_iff_equal [OF h] by blast
qed

text \<open>\<open>strcpy\<close> of a string \<open>s\<close> returns exactly when the destination does not lie inside the
  source string behind its first character (there it overwrites the terminator it is looking
  for and never stops); when it returns, the destination holds \<open>s\<close> and no byte outside
  its \<open>length s + 1\<close> cells has changed.\<close>

theorem strcpy_returns_iff:
  assumes "cstr m src s"
  shows "(strcpy m dst src \<noteq> None \<longleftrightarrow> dst \<le> src \<or> src + int (length s) < dst)
    \<and> (\<forall>m'. strcpy m dst src = Some m' \<longrightarrow> cstr m' dst s
         \<and> (\<forall>a. a \<notin> cell_range dst (Suc (length s)) \<longrightarrow> m' a = m a))"
proof (cases "dst \<le> src \<or> src + int (length s) < dst")
  case True
  then show ?thesis using strcpy_forward [OF assms] by fastforce
next
  case False
  have "m a \<noteq> NUL" if "src \<le> a \<and> a < dst" for a
  proof -
    have "nat (a - src) < length s" and "a = src + int (nat (a - src))" using that False by auto
    then show ?thesis using assms cstr_append [of m src s "[]"] by (metis append_Nil2)
  qed
  then have "strcpy m dst src = None" using False by (intro strcpy_onto_tail) auto
  then show ?thesis using False by simp
qed

theorem strcpy_returns_iff_witness:
  "cstr ab_mem 0 ''ab'' \<and> strcpy ab_mem 1 0 = None \<and> strcpy ab_mem 20 0 \<noteq> None"
proof -
  have h: "cstr ab_mem 0 ''ab''" by (simp add: ab_mem_def)
  show ?thesis using h strcpy_returns_iff [OF h, of 1] strcpy_returns_iff [OF h, of 20] by simp
qed

text \<open>\<open>memcpy\<close> copies correctly even when the two ranges overlap (it is a \<open>memmove\<close>):
  for a count that is not negative, every destination byte gets the value its source byte
  had before the call, and all other bytes keep theirs.\<close>

theorem memcpy_is_memmove:
  "0 \<le> n \<Longrightarrow> memcpy m dest src n =
     Some (\<lambda>a. if a \<in> cell_range dest (nat n) then m (src + (a - dest)) else m a)"
  using memcpy_down_eq [of src dest m "nat n"] memcpy_up_eq [of dest src m "nat n"]
  by (simp add: memcpy_def)

theorem memcpy_is_memmove_witness:
  "\<exists>m'. memcpy ab_mem 1 0 2 = Some m' \<and> m' 1 = CHR ''a'' \<and> m' 2 = CHR ''b''"
  using memcpy_is_memmove [of 2 ab_mem 1 0] by (simp add: cell_range_def ab_mem_def)

text \<open>\<open>strtoInt\<close> reads back every decimal numeral below \<open>2 ^ 31\<close>.\<close>

theorem strtoInt_dec_str:
  "n < 2 ^ 31 \<Longrightarrow> cstr m p (dec_str n) \<Longrightarrow> length (dec_str n) < 2 ^ 31 \<Longrightarrow>
   strtoInt m p = Some (int n)"
  by (simp add: strtoInt_cstr digits_val_dec_str)

theorem strtoInt_dec_str_witness:
  "strtoInt ((\<lambda>_. NUL)(0 := CHR ''4'', 1 := CHR ''2'')) 0 = Some 42"
proof -
  have d: "dec_str 42 = ''42''" by code_simp
  show ?thesis using strtoInt_dec_str [of 42 "(\<lambda>_. NUL)(0 := CHR ''4'', 1 := CHR ''2'')" 0]
    by (simp add: d)
qed

end
