(* ===== verification/Frames.thy ===== *)
theory Frames
  imports LatePrelude
begin

text \<open>
  The physical frame allocator of \<^verbatim>\<open>sys/paging.c\<close> and \<^verbatim>\<open>include/sys/mem.h\<close>: the
  \<^verbatim>\<open>pagelist\<close> array of \<^verbatim>\<open>freelist\<close> nodes, the \<^verbatim>\<open>head\<close> pointer, the scan of the boot
  loader's memory map that links the nodes, and \<^verbatim>\<open>getFreeFrame\<close> and \<^verbatim>\<open>free\<close>. A node
  pointer is the node's index in \<^verbatim>\<open>pagelist\<close>, NULL is \<open>None\<close>; an index outside the array
  and a NULL dereference are \<open>None\<close> results. The record also holds the paging component's
  other statics and the physical memory, by 64-bit words, that the page tables live in.
\<close>

definition MAXPAGES :: nat where "MAXPAGES = 75000"
definition pageSize :: u64 where "pageSize = 0x1000"
definition kernbase :: u64 where "kernbase = 0xffffffff80000000"
definition validatebits :: u64 where "validatebits = 0xFFFFFFFFFFFFF000"

record freelist =
  address :: u64
  ref_count :: int
  next_node :: "nat option"

record paging =
  pagelist :: "nat \<Rightarrow> freelist"
  head :: "nat option"
  k_cr3 :: u64
  pml4e :: u64
  pdpte :: u64
  pde :: u64
  pte :: u64
  pm :: "u64 \<Rightarrow> u64"

record smap_t =
  smap_base :: u64
  smap_length :: u64
  smap_type :: u32

section \<open>The boot loader's memory map\<close>

text \<open>The module list is an array of 32-bit words: tag, size in bytes, payload.\<close>

partial_function (option) seek_smap :: "u32 list \<Rightarrow> nat \<Rightarrow> nat option" where
  "seek_smap w i =
     (if i + 1 < length w then
        (if w ! i \<noteq> 0x9001 then seek_smap w (i + unat (w ! (i + 1) + 2)) else Some i)
      else None)"

definition join64 :: "u32 \<Rightarrow> u32 \<Rightarrow> u64" where
  "join64 lo hi = ucast lo OR push_bit 32 (ucast hi)"

text \<open>A packed \<^verbatim>\<open>smap_t\<close> takes 20 bytes, five words.\<close>

definition read_smap :: "u32 list \<Rightarrow> nat \<Rightarrow> nat \<Rightarrow> smap_t option" where
  "read_smap w i k =
     (let off = i + 2 + 5 * k in
      if off + 4 < length w then
        Some \<lparr>smap_base = join64 (w ! off) (w ! (off + 1)),
              smap_length = join64 (w ! (off + 2)) (w ! (off + 3)), smap_type = w ! (off + 4)\<rparr>
      else None)"

definition smap_entries :: "u32 list \<Rightarrow> smap_t list option" where
  "smap_entries w = do {
     i \<leftarrow> seek_smap w 0;
     those (map (read_smap w i) [0..<(unat (w ! (i + 1)) + 19) div 20])
   }"

section \<open>Linking the free frames\<close>

type_synonym build = "(nat \<Rightarrow> freelist) \<times> nat option \<times> nat option"

definition link_frame :: "u64 \<Rightarrow> build \<Rightarrow> build option" where
  "link_frame base = (\<lambda>(pl, hd0, last0).
     (let index = unat (base div pageSize) in
      if MAXPAGES \<le> index then None
      else (case hd0 of
          None \<Rightarrow> Some (pl(index := \<lparr>address = base, ref_count = 0, next_node = hd0\<rparr>),
                        Some index, Some index)
        | Some h \<Rightarrow> (case last0 of
            None \<Rightarrow> None
          | Some l \<Rightarrow>
             (let pl1 = pl(index := \<lparr>address = base, ref_count = 0, next_node = None\<rparr>)
              in Some (pl1(l := (pl1 l)\<lparr>next_node := Some index\<rparr>), hd0, Some index))))))"

definition usable :: "u64 \<Rightarrow> u64 \<Rightarrow> u64 \<Rightarrow> bool" where
  "usable physfree limit base \<longleftrightarrow> base > physfree + 0x1000 \<and> base + pageSize < limit"

partial_function (option) region_loop :: "u64 \<Rightarrow> u64 \<Rightarrow> u64 \<Rightarrow> build \<Rightarrow> build option" where
  "region_loop physfree limit base st =
     (if base < limit then
        Option.bind (if usable physfree limit base then link_frame base st else Some st)
          (\<lambda>st'. region_loop physfree limit (base + pageSize) st')
      else Some st)"

fun smap_loop :: "u64 \<Rightarrow> smap_t list \<Rightarrow> build \<times> u64 \<Rightarrow> (build \<times> u64) option" where
  "smap_loop physfree [] st = Some st"
| "smap_loop physfree (e # es) (st, lastFreeFrame) =
     (if smap_type e = 1 \<and> smap_length e \<noteq> 0 then do {
        st' \<leftarrow> region_loop physfree (smap_base e + smap_length e) (smap_base e) st;
        smap_loop physfree es (st', smap_base e + smap_length e)
      }
      else smap_loop physfree es (st, lastFreeFrame))"

text \<open>The part of \<open>initializeFreelist\<close> before it calls \<open>setupPageTables 0 lastFreeFrame\<close>.\<close>

definition initializeFreelist :: "u32 list \<Rightarrow> u64 \<Rightarrow> paging \<Rightarrow> (paging \<times> u64) option" where
  "initializeFreelist modulep physfree s = do {
     es \<leftarrow> smap_entries modulep;
     ((pl, hd0, last0), lastFreeFrame) \<leftarrow> smap_loop physfree es ((pagelist s, head s, None), 0);
     Some (s\<lparr>pagelist := pl, head := hd0\<rparr>, lastFreeFrame)
   }"

section \<open>Taking and returning a frame\<close>

definition getFreeFrame :: "paging \<Rightarrow> (u64 \<times> paging) option" where
  "getFreeFrame s = (case head s of
      None \<Rightarrow> None
    | Some i \<Rightarrow>
       (let temp = (pagelist s i)\<lparr>ref_count := 1\<rparr>
        in Some (address temp, s\<lparr>pagelist := (pagelist s)(i := temp), head := next_node temp\<rparr>)))"

text \<open>\<^verbatim>\<open>free\<close> of \<^verbatim>\<open>sys/paging.c\<close> returns at once.\<close>

definition free :: "u64 \<Rightarrow> paging \<Rightarrow> paging" where
  "free add s = s"

section \<open>The free list as a list\<close>

primrec chain :: "(nat \<Rightarrow> freelist) \<Rightarrow> nat option \<Rightarrow> nat list \<Rightarrow> bool" where
  "chain pl h [] = (h = None)"
| "chain pl h (i # is) = (h = Some i \<and> chain pl (next_node (pl i)) is)"

definition free_frames :: "paging \<Rightarrow> u64 list \<Rightarrow> bool" where
  "free_frames s fs \<longleftrightarrow>
     (\<exists>is. chain (pagelist s) (head s) is \<and> distinct is \<and> fs = map (\<lambda>i. address (pagelist s i)) is)"

lemma chain_upd: "i \<notin> set is \<Longrightarrow> chain (pl(i := x)) h is = chain pl h is"
  by (induction "is" arbitrary: h) auto

lemma chain_unique: "chain pl h is \<Longrightarrow> chain pl h js \<Longrightarrow> is = js"
proof (induction "is" arbitrary: h js)
  case Nil
  then show ?case by (cases js) auto
next
  case (Cons i "is")
  then show ?case by (cases js) auto
qed

lemma chain_snoc:
  assumes "chain pl h (is @ [i])" and "j \<notin> set (is @ [i])" and "next_node x = None"
    and "distinct (is @ [i])"
  shows "chain (pl(j := x, i := (pl i)\<lparr>next_node := Some j\<rparr>)) h (is @ [i, j])"
  using assms
proof (induction "is" arbitrary: h)
  case Nil
  then show ?case by auto
next
  case (Cons k "is")
  then show ?case by auto
qed

lemma free_frames_unique: "free_frames s fs \<Longrightarrow> free_frames s gs \<Longrightarrow> fs = gs"
  by (auto simp: free_frames_def dest: chain_unique)

lemma free_frames_frame [frame_simps]:
  "pagelist s' = pagelist s \<Longrightarrow> head s' = head s \<Longrightarrow> free_frames s' fs = free_frames s fs"
  by (simp add: free_frames_def)

subsection \<open>The contract of a frame source\<close>

text \<open>What the page-table code asks of the allocator: frames come out in the order of an
  abstract list, each once, and taking one fails exactly when the list is empty.\<close>

locale frame_source =
  fixes take1 :: "'s \<Rightarrow> (u64 \<times> 's) option"
    and avail :: "'s \<Rightarrow> u64 list \<Rightarrow> bool"
  assumes take1_empty: "avail s [] \<Longrightarrow> take1 s = None"
    and take1_cons: "avail s (f # fs) \<Longrightarrow> \<exists>s'. take1 s = Some (f, s') \<and> avail s' fs"
begin

fun take_n :: "nat \<Rightarrow> 's \<Rightarrow> (u64 list \<times> 's) option" where
  "take_n 0 s = Some ([], s)"
| "take_n (Suc n) s = do { (f, s') \<leftarrow> take1 s; (fs, s'') \<leftarrow> take_n n s'; Some (f # fs, s'') }"

lemma take_n_avail:
  "avail s fs \<Longrightarrow> n \<le> length fs \<Longrightarrow>
   \<exists>s'. take_n n s = Some (take n fs, s') \<and> avail s' (drop n fs)"
proof (induction n arbitrary: s fs)
  case (Suc n)
  then obtain f gs where fs: "fs = f # gs" by (cases fs) auto
  then obtain s1 where "take1 s = Some (f, s1)" "avail s1 gs"
    using take1_cons Suc.prems(1) by blast
  then show ?case using Suc.IH [of s1 gs] Suc.prems(2) fs by auto
qed simp

lemma take_n_exhausted:
  "avail s fs \<Longrightarrow> length fs < n \<Longrightarrow> take_n n s = None"
proof (induction n arbitrary: s fs)
  case (Suc n)
  show ?case
  proof (cases fs)
    case Nil
    then show ?thesis using Suc.prems take1_empty by simp
  next
    case (Cons f gs)
    then obtain s1 where "take1 s = Some (f, s1)" "avail s1 gs"
      using take1_cons Suc.prems(1) by blast
    then show ?thesis using Suc.IH [of s1 gs] Suc.prems(2) Cons by simp
  qed
qed simp

end

lemma getFreeFrame_cons:
  assumes "free_frames s (f # fs)"
  shows "\<exists>s'. getFreeFrame s = Some (f, s') \<and> free_frames s' fs \<and> pm s' = pm s
    \<and> k_cr3 s' = k_cr3 s \<and> pml4e s' = pml4e s \<and> pdpte s' = pdpte s \<and> pde s' = pde s \<and> pte s' = pte s"
proof -
  obtain i "is" where c: "chain (pagelist s) (Some i) (i # is)" "head s = Some i"
      "distinct (i # is)" "f = address (pagelist s i)" "fs = map (\<lambda>i. address (pagelist s i)) is"
    using assms by (auto simp: free_frames_def Cons_eq_map_conv)
  let ?x = "(pagelist s i)\<lparr>ref_count := 1\<rparr>"
  have "chain ((pagelist s)(i := ?x)) (next_node ?x) is"
    using c by (simp add: chain_upd)
  moreover have "fs = map (\<lambda>j. address (((pagelist s)(i := ?x)) j)) is"
    using c by auto
  ultimately show ?thesis using c
    by (auto simp: getFreeFrame_def free_frames_def Let_def)
qed

interpretation frames: frame_source getFreeFrame free_frames
proof
  show "getFreeFrame s = None" if "free_frames s []" for s
    using that by (auto simp: free_frames_def getFreeFrame_def)
  show "\<exists>s'. getFreeFrame s = Some (f, s') \<and> free_frames s' fs" if "free_frames s (f # fs)" for s f fs
    using getFreeFrame_cons [OF that] by blast
qed


section \<open>The scan links exactly the usable frames\<close>

definition build_inv :: "build \<Rightarrow> nat list \<Rightarrow> bool" where
  "build_inv st xs = (case st of (pl, hd0, lst) \<Rightarrow>
     chain pl hd0 xs \<and> distinct xs \<and> lst = (if xs = [] then None else Some (last xs))
     \<and> (\<forall>i \<in> set xs. address (pl i) = of_nat i * pageSize))"

lemma link_frame_inv:
  assumes inv: "build_inv st xs" and new: "j \<notin> set xs" and j: "j < MAXPAGES"
    and base: "base = of_nat j * pageSize" "unat (base div pageSize) = j"
  shows "\<exists>st'. link_frame base st = Some st' \<and> build_inv st' (xs @ [j])"
proof -
  obtain pl hd0 lst where st: "st = (pl, hd0, lst)" by (cases st)
  show ?thesis
  proof (cases xs rule: rev_cases)
    case Nil
    then show ?thesis using inv st j base
      by (auto simp: build_inv_def link_frame_def Let_def)
  next
    case (snoc ys i)
    have hd0: "hd0 \<noteq> None" and lst: "lst = Some i" and c: "chain pl hd0 (ys @ [i])"
      and ij: "i \<noteq> j" and d: "distinct (ys @ [i])"
      using inv st snoc new by (auto simp: build_inv_def) (cases ys, auto)
    let ?x = "\<lparr>address = base, ref_count = 0, next_node = None\<rparr>"
    have "chain (pl(j := ?x, i := (pl i)\<lparr>next_node := Some j\<rparr>)) hd0 (ys @ [i, j])"
      using c new snoc d by (intro chain_snoc) auto
    then show ?thesis using hd0 lst inv st snoc j base ij new
      by (auto simp: build_inv_def link_frame_def Let_def)
  qed
qed

lemma page_step:
  assumes "base < limit" and "unat limit + 4096 < 2 ^ 64"
  shows "unat (base + pageSize) = unat base + 4096"
proof -
  have "unat base < unat limit" using assms(1) by (simp add: word_less_nat_alt)
  then show ?thesis using assms(2) by (simp add: pageSize_def unat_word_ariths)
qed

lemma page_index: "unat (base div pageSize) = unat base div 4096"
  by (simp add: pageSize_def unat_div)

lemma page_base:
  "4096 dvd unat base \<Longrightarrow> of_nat (unat base div 4096) * pageSize = base"
proof -
  assume "4096 dvd unat base"
  then have "unat base div 4096 * 4096 = unat base" by simp
  then have "of_nat (unat base div 4096 * 4096) = base" by simp
  then show ?thesis by (simp add: pageSize_def)
qed

definition region_frames :: "u64 \<Rightarrow> u64 \<Rightarrow> u64 \<Rightarrow> nat list" where
  "region_frames physfree base limit =
     filter (\<lambda>i. usable physfree limit (of_nat i * pageSize))
       [unat base div 4096 ..< (unat limit + 4095) div 4096]"

lemma region_frames_step:
  assumes "base < limit" and "unat limit + 4096 < 2 ^ 64" and "4096 dvd unat base"
  shows "region_frames physfree base limit =
     (if usable physfree limit base then [unat base div 4096] else [])
     @ region_frames physfree (base + pageSize) limit"
proof -
  have "unat base < unat limit" using assms(1) by (simp add: word_less_nat_alt)
  then have "unat base div 4096 < (unat limit + 4095) div 4096" by linarith
  moreover have "(unat base + 4096) div 4096 = Suc (unat base div 4096)" by simp
  ultimately show ?thesis
    unfolding region_frames_def using page_step [OF assms(1,2)] page_base [OF assms(3)]
    by (simp add: upt_conv_Cons)
qed

lemma region_frames_done:
  "\<not> base < limit \<Longrightarrow> 4096 dvd unat base \<Longrightarrow> region_frames physfree base limit = []"
proof -
  assume "\<not> base < limit" and "4096 dvd unat base"
  then have "unat limit \<le> unat base" "unat base div 4096 * 4096 = unat base"
    by (auto simp: word_less_nat_alt)
  then have "(unat limit + 4095) div 4096 \<le> unat base div 4096" by linarith
  then show ?thesis by (simp add: region_frames_def)
qed

lemma region_loop_links:
  assumes "build_inv st xs" and "4096 dvd unat base" and "unat limit \<le> MAXPAGES * 4096"
    and "\<forall>i \<in> set xs. i < unat base div 4096"
  shows "\<exists>st'. region_loop physfree limit base st = Some st'
           \<and> build_inv st' (xs @ region_frames physfree base limit)"
  using assms
proof (induction "unat limit - unat base" arbitrary: base st xs rule: less_induct)
  case less
  show ?case
  proof (cases "base < limit")
    case False
    then show ?thesis using less.prems(1,2)
      by (simp add: region_loop.simps [of physfree limit base] region_frames_done)
  next
    case True
    have lim: "unat limit + 4096 < 2 ^ 64" using less.prems(3) by (simp add: MAXPAGES_def)
    have lt: "unat base < unat limit" using True by (simp add: word_less_nat_alt)
    note step = page_step [OF True lim]
    let ?j = "unat base div 4096"
    let ?ys = "if usable physfree limit base then [?j] else []"
    have j: "?j < MAXPAGES" using lt less.prems(3) by (simp add: div_less_iff_less_mult)
    have "\<exists>st1. (if usable physfree limit base then link_frame base st else Some st) = Some st1
        \<and> build_inv st1 (xs @ ?ys)"
    proof (cases "usable physfree limit base")
      case True
      have "?j \<notin> set xs" using less.prems(4) by auto
      then show ?thesis
        using True link_frame_inv [OF less.prems(1) _ j] page_base [OF less.prems(2)] page_index
        by simp
    qed (use less.prems(1) in simp)
    then obtain st1 where st1:
        "(if usable physfree limit base then link_frame base st else Some st) = Some st1"
        "build_inv st1 (xs @ ?ys)" by blast
    have "\<exists>st'. region_loop physfree limit (base + pageSize) st1 = Some st'
        \<and> build_inv st' ((xs @ ?ys) @ region_frames physfree (base + pageSize) limit)"
      using st1(2) less.prems lt step by (intro less.hyps) auto
    then show ?thesis using st1(1) True region_frames_step [OF True lim less.prems(2)]
      by (simp add: region_loop.simps [of physfree limit base])
  qed
qed

text \<open>The memory map is in ascending order, page-aligned and within the 75000 nodes.\<close>

definition e_limit :: "smap_t \<Rightarrow> u64" where
  "e_limit e = smap_base e + smap_length e"

definition e_used :: "smap_t \<Rightarrow> bool" where
  "e_used e \<longleftrightarrow> smap_type e = 1 \<and> smap_length e \<noteq> 0"

fun regions_ok :: "nat \<Rightarrow> smap_t list \<Rightarrow> bool" where
  "regions_ok lo [] = True"
| "regions_ok lo (e # es) =
     (if e_used e then lo \<le> unat (smap_base e) \<and> 4096 dvd unat (smap_base e)
        \<and> smap_base e \<le> e_limit e
        \<and> unat (e_limit e) \<le> MAXPAGES * 4096 \<and> regions_ok ((unat (e_limit e) + 4095) div 4096 * 4096) es
      else regions_ok lo es)"

fun map_frames :: "u64 \<Rightarrow> smap_t list \<Rightarrow> nat list" where
  "map_frames physfree [] = []"
| "map_frames physfree (e # es) =
     (if e_used e then region_frames physfree (smap_base e) (e_limit e) else []) @ map_frames physfree es"

lemma smap_loop_links:
  assumes "build_inv st xs" and "regions_ok lo es" and "\<forall>i \<in> set xs. i * 4096 < lo"
  shows "\<exists>st' last'. smap_loop physfree es (st, l0) = Some (st', last')
           \<and> build_inv st' (xs @ map_frames physfree es)"
  using assms
proof (induction es arbitrary: lo st xs l0)
  case (Cons e es)
  show ?case
  proof (cases "e_used e")
    case False
    have "\<exists>st' last'. smap_loop physfree es (st, l0) = Some (st', last')
        \<and> build_inv st' (xs @ map_frames physfree es)"
      using False Cons.prems by (intro Cons.IH) auto
    moreover have "smap_loop physfree (e # es) (st, l0) = smap_loop physfree es (st, l0)"
      using False by (auto simp: e_used_def)
    ultimately show ?thesis using False by simp
  next
    case True
    then have ok: "lo \<le> unat (smap_base e)" "4096 dvd unat (smap_base e)"
      "smap_base e \<le> e_limit e"
      "unat (e_limit e) \<le> MAXPAGES * 4096" "regions_ok ((unat (e_limit e) + 4095) div 4096 * 4096) es"
      using Cons.prems(2) by auto
    have "\<forall>i \<in> set xs. i < unat (smap_base e) div 4096"
      using Cons.prems(3) ok(1,2) by (fastforce elim: dvdE)
    from region_loop_links [OF Cons.prems(1) ok(2,4) this]
    obtain st1 where st1: "region_loop physfree (e_limit e) (smap_base e) st = Some st1"
      "build_inv st1 (xs @ region_frames physfree (smap_base e) (e_limit e))" by blast
    have base_lim: "unat (smap_base e) \<le> unat (e_limit e)"
      using ok(3) by (simp add: word_le_nat_alt)
    have "i * 4096 < (unat (e_limit e) + 4095) div 4096 * 4096"
      if "i \<in> set (xs @ region_frames physfree (smap_base e) (e_limit e))" for i
    proof (cases "i \<in> set xs")
      case True
      then have "i * 4096 < unat (e_limit e)" using Cons.prems(3) ok(1) base_lim by fastforce
      then show ?thesis by linarith
    next
      case False
      then show ?thesis using that by (auto simp: region_frames_def)
    qed
    then have "\<exists>st' last'. smap_loop physfree es (st1, e_limit e) = Some (st', last')
        \<and> build_inv st' ((xs @ region_frames physfree (smap_base e) (e_limit e)) @ map_frames physfree es)"
      by (intro Cons.IH [OF st1(2) ok(5)]) blast
    then show ?thesis using st1(1) True by (simp add: e_used_def e_limit_def)
  qed
qed simp


lemma map_frames_usable:
  "i \<in> set (map_frames physfree es) \<Longrightarrow> physfree + 0x1000 < of_nat i * pageSize"
  by (induction es) (auto simp: region_frames_def usable_def split: if_splits)

text \<open>An empty state and a memory map with one region, for the examples.\<close>

definition paging0 :: paging where
  "paging0 = \<lparr>pagelist = (\<lambda>_. \<lparr>address = 0, ref_count = 0, next_node = None\<rparr>), head = None,
     k_cr3 = 0, pml4e = 0, pdpte = 0, pde = 0, pte = 0, pm = (\<lambda>_. 0)\<rparr>"

text \<open>A state whose free list is the one frame at 0x5000.\<close>

definition paging1 :: paging where
  "paging1 = paging0\<lparr>head := Some 5,
     pagelist := (\<lambda>_. \<lparr>address = 0x5000, ref_count = 0, next_node = None\<rparr>)\<rparr>"

lemma free_frames_paging1: "free_frames paging1 [0x5000]"
proof -
  have "chain (pagelist paging1) (head paging1) [5]" by (simp add: paging1_def)
  then show ?thesis unfolding free_frames_def by (intro exI [of _ "[5]"]) (simp add: paging1_def)
qed

definition modulep0 :: "u32 list" where
  "modulep0 = [0x9002, 1, 7, 0x9001, 20, 0x200000, 0, 0x4000, 0, 1]"

definition smap0 :: smap_t where
  "smap0 = \<lparr>smap_base = 0x200000, smap_length = 0x4000, smap_type = 1\<rparr>"

section \<open>What the allocator guarantees\<close>

text \<open>C20: from a page-aligned, ascending memory map that fits the 75000 nodes,
  \<open>initializeFreelist\<close> terminates and builds a free list that holds exactly the usable frames
  of the type-1 regions, in address order, each once, and none at or below the kernel's end
  plus one page.\<close>

theorem initializeFreelist_free_frames:
  assumes "smap_entries w = Some es" and "regions_ok 0 es" and "head s = None"
  shows "\<exists>s' last. initializeFreelist w physfree s = Some (s', last)
    \<and> free_frames s' (map (\<lambda>i. of_nat i * pageSize) (map_frames physfree es))
    \<and> distinct (map_frames physfree es)
    \<and> (\<forall>i \<in> set (map_frames physfree es). physfree + 0x1000 < of_nat i * pageSize)"
proof -
  have "build_inv (pagelist s, None, None) []" by (simp add: build_inv_def)
  from smap_loop_links [OF this assms(2), of physfree 0]
  obtain pl h l last where r: "smap_loop physfree es ((pagelist s, None, None), 0) = Some ((pl, h, l), last)"
      "build_inv (pl, h, l) (map_frames physfree es)"
    by auto
  let ?s' = "s\<lparr>pagelist := pl, head := h\<rparr>"
  have "initializeFreelist w physfree s = Some (?s', last)"
    using r(1) assms(1,3) by (simp add: initializeFreelist_def)
  moreover have "free_frames ?s' (map (\<lambda>i. of_nat i * pageSize) (map_frames physfree es))"
    using r(2) by (auto simp: free_frames_def build_inv_def)
  moreover have "distinct (map_frames physfree es)" using r(2) by (simp add: build_inv_def)
  ultimately show ?thesis using map_frames_usable by blast
qed

theorem initializeFreelist_free_frames_witness:
  "\<exists>s' last. initializeFreelist modulep0 0x100000 paging0 = Some (s', last)
     \<and> free_frames s' [0x200000, 0x201000, 0x202000]"
proof -
  have e: "smap_entries modulep0 = Some [smap0]"
    by (simp add: smap_entries_def modulep0_def seek_smap.simps read_smap_def join64_def smap0_def Let_def)
  have r: "regions_ok 0 [smap0]" and h: "head paging0 = None"
    by (simp_all add: smap0_def e_used_def e_limit_def MAXPAGES_def paging0_def)
  have "map (\<lambda>i. of_nat i * pageSize) (map_frames 0x100000 [smap0]) = [0x200000, 0x201000, 0x202000]"
    by (simp add: smap0_def e_used_def e_limit_def region_frames_def usable_def pageSize_def upt_conv_Cons)
  then show ?thesis using initializeFreelist_free_frames [OF e r h, where physfree = "0x100000"] by auto
qed

text \<open>The frames handed out by successive calls of \<open>getFreeFrame\<close> are the free list in
  order, so no frame is handed out twice; one call more than there are free frames
  dereferences the NULL head.\<close>

theorem getFreeFrame_fifo:
  assumes "free_frames s fs"
  shows "(n \<le> length fs \<longrightarrow> (\<exists>s'. frames.take_n n s = Some (take n fs, s') \<and> free_frames s' (drop n fs)))
    \<and> (length fs < n \<longrightarrow> frames.take_n n s = None)"
  using frames.take_n_avail [OF assms] frames.take_n_exhausted [OF assms] by blast


theorem getFreeFrame_fifo_witness:
  "free_frames paging1 [0x5000] \<and> (\<exists>s'. frames.take_n 1 paging1 = Some ([0x5000], s'))
     \<and> frames.take_n 2 paging1 = None"
proof -
  have f: "free_frames paging1 [0x5000]" by (rule free_frames_paging1)
  have "\<exists>s'. frames.take_n 1 paging1 = Some (take 1 [0x5000], s')"
    using getFreeFrame_fifo [OF f, of 1] by fastforce
  moreover have "frames.take_n 2 paging1 = None"
    using getFreeFrame_fifo [OF f, of 2] by simp
  ultimately show ?thesis using f by simp
qed

end
