(* ===== verification/PageTables.thy ===== *)
theory PageTables
  imports Frames
begin

text \<open>
  The four-level page tables of \<^verbatim>\<open>sys/paging.c\<close>. A table is a frame of 512 64-bit
  entries in physical memory; the kernel reaches it through its direct map, at \<open>kernbase\<close>
  plus the frame, and \<open>kread\<close>, \<open>kwrite\<close> and \<open>kzero\<close> are \<^verbatim>\<open>p[i]\<close>, \<^verbatim>\<open>p[i] = v\<close> and
  \<^verbatim>\<open>memset(p, 0, pageSize)\<close> on such a pointer. The kernel's own statics \<open>pml4e\<close> and
  \<open>pdpte\<close> are held as direct-map pointers to their frames; \<open>setupPageTables\<close> returns the
  extra virtual addresses that the C statics hold for the same frames.
  \<open>tbl\<close> and \<open>translate\<close> are the hardware's walk; the theorems say what one call of
  \<open>initTaskPagetables\<close> does to the translation of every user address.
\<close>

section \<open>Reading and writing entries\<close>

definition kread :: "paging \<Rightarrow> u64 \<Rightarrow> u64 \<Rightarrow> u64" where
  "kread s ptr i = pm s (ptr - kernbase + 8 * i)"

definition kwrite :: "paging \<Rightarrow> u64 \<Rightarrow> u64 \<Rightarrow> u64 \<Rightarrow> paging" where
  "kwrite s ptr i v = s\<lparr>pm := (pm s)(ptr - kernbase + 8 * i := v)\<rparr>"

definition in_frame :: "u64 \<Rightarrow> u64 \<Rightarrow> bool" where
  "in_frame f a \<longleftrightarrow> unat f \<le> unat a \<and> unat a < unat f + 4096"

definition zero_frame :: "(u64 \<Rightarrow> u64) \<Rightarrow> u64 \<Rightarrow> u64 \<Rightarrow> u64" where
  "zero_frame m f = (\<lambda>a. if in_frame f a then 0 else m a)"

definition kzero :: "paging \<Rightarrow> u64 \<Rightarrow> paging" where
  "kzero s ptr = s\<lparr>pm := zero_frame (pm s) (ptr - kernbase)\<rparr>"

definition ix4 :: "u64 \<Rightarrow> u64" where "ix4 v = drop_bit 39 v AND 511"
definition ix3 :: "u64 \<Rightarrow> u64" where "ix3 v = drop_bit 30 v AND 511"
definition ix2 :: "u64 \<Rightarrow> u64" where "ix2 v = drop_bit 21 v AND 511"
definition ix1 :: "u64 \<Rightarrow> u64" where "ix1 v = drop_bit 12 v AND 511"

section \<open>Mapping a page into a task's tables\<close>

definition setNewPagePDPTE :: "u64 \<Rightarrow> u64 \<Rightarrow> u64 \<Rightarrow> paging \<Rightarrow> paging option" where
  "setNewPagePDPTE virt physical pml4 s = do {
     (pdpte0, s) \<leftarrow> getFreeFrame s;
     let s = kwrite s pml4 (ix4 virt) ((pdpte0 AND validatebits) OR 7);
     let pdpte0 = kernbase + pdpte0;
     let s = kzero s pdpte0;
     (pdpe, s) \<leftarrow> getFreeFrame s;
     let s = kwrite s pdpte0 (ix3 virt) ((pdpe AND validatebits) OR 7);
     let pdpe = kernbase + pdpe;
     let s = kzero s pdpe;
     (pte0, s) \<leftarrow> getFreeFrame s;
     let s = kwrite s pdpe (ix2 virt) ((pte0 AND validatebits) OR 7);
     let pte0 = kernbase + pte0;
     let s = kzero s pte0;
     Some (kwrite s pte0 (ix1 virt) ((physical AND validatebits) OR 7))
   }"

definition setNewPagePDPE :: "u64 \<Rightarrow> u64 \<Rightarrow> u64 \<Rightarrow> u64 \<Rightarrow> paging \<Rightarrow> paging option" where
  "setNewPagePDPE virt physical pml4 pdpte0 s = do {
     (pdpe, s) \<leftarrow> getFreeFrame s;
     let s = kwrite s pdpte0 (ix3 virt) ((pdpe AND validatebits) OR 7);
     let pdpe = kernbase + pdpe;
     let s = kzero s pdpe;
     (pte0, s) \<leftarrow> getFreeFrame s;
     let s = kwrite s pdpe (ix2 virt) ((pte0 AND validatebits) OR 7);
     let pte0 = kernbase + pte0;
     let s = kzero s pte0;
     Some (kwrite s pte0 (ix1 virt) ((physical AND validatebits) OR 7))
   }"

definition setExistingPagePDPE :: "u64 \<Rightarrow> u64 \<Rightarrow> u64 \<Rightarrow> u64 \<Rightarrow> paging \<Rightarrow> paging option" where
  "setExistingPagePDPE virt physical pml4 pdpte0 s =
     (let pdpe = kernbase + (kread s pdpte0 (ix3 virt) AND validatebits) in
      if kread s pdpe (ix2 virt) AND 1 = 0 then do {
        (pte0, s) \<leftarrow> getFreeFrame s;
        let s = kwrite s pdpe (ix2 virt) ((pte0 AND validatebits) OR 7);
        let pte0 = kernbase + pte0;
        let s = kzero s pte0;
        Some (kwrite s pte0 (ix1 virt) ((physical AND validatebits) OR 7))
      }
      else
        (let pte0 = kernbase + (kread s pdpe (ix2 virt) AND validatebits)
         in Some (kwrite s pte0 (ix1 virt) ((physical AND validatebits) OR 7))))"

definition setExistingPagePDPTE :: "u64 \<Rightarrow> u64 \<Rightarrow> u64 \<Rightarrow> paging \<Rightarrow> paging option" where
  "setExistingPagePDPTE virt physical pml4 s =
     (let pdpte0 = kernbase + (kread s pml4 (ix4 virt) AND validatebits) in
      if kread s pdpte0 (ix3 virt) AND 1 = 0 then setNewPagePDPE virt physical pml4 pdpte0 s
      else setExistingPagePDPE virt physical pml4 pdpte0 s)"

definition initTaskPagetables :: "u64 \<Rightarrow> u64 \<Rightarrow> u64 \<Rightarrow> paging \<Rightarrow> paging option" where
  "initTaskPagetables virt physical pml4 s =
     (let s = kwrite s pml4 511 ((kread s (pml4e s) 511 AND validatebits) OR 7) in
      if kread s pml4 (ix4 virt) AND 1 = 0 then setNewPagePDPTE virt physical pml4 s
      else setExistingPagePDPTE virt physical pml4 s)"

section \<open>The hardware's walk\<close>

fun tbl :: "(u64 \<Rightarrow> u64) \<Rightarrow> u64 \<Rightarrow> u64 list \<Rightarrow> u64 option" where
  "tbl m T [] = Some T"
| "tbl m T (i # is) =
     (if m (T + 8 * i) AND 1 = 0 then None else tbl m (m (T + 8 * i) AND validatebits) is)"

definition path :: "u64 \<Rightarrow> u64 list" where
  "path v = [ix4 v, ix3 v, ix2 v]"

text \<open>The page-table entry that a walk of \<open>v\<close> from the table at \<open>T\<close> ends in, if it is present.\<close>

definition translate :: "(u64 \<Rightarrow> u64) \<Rightarrow> u64 \<Rightarrow> u64 \<Rightarrow> u64 option" where
  "translate m T v = (case tbl m T (path v) of
      None \<Rightarrow> None
    | Some P \<Rightarrow> (if m (P + 8 * ix1 v) AND 1 = 0 then None else Some (m (P + 8 * ix1 v))))"

definition same_page :: "u64 \<Rightarrow> u64 \<Rightarrow> bool" where
  "same_page v w \<longleftrightarrow> path v = path w \<and> ix1 v = ix1 w"

section \<open>Frames and indices\<close>

lemma unat_ix:
  "unat (ix1 v) = unat v div 2 ^ 12 mod 512" "unat (ix2 v) = unat v div 2 ^ 21 mod 512"
  "unat (ix3 v) = unat v div 2 ^ 30 mod 512" "unat (ix4 v) = unat v div 2 ^ 39 mod 512"
proof -
  have a: "x AND 511 = take_bit 9 x" for x :: u64 by (simp add: take_bit_eq_mask mask_eq_exp_minus_1)
  have lt: "unat v < 2 ^ LENGTH(64)" by (rule unsigned_less)
  have "unat (drop_bit n v AND 511) = unat v div 2 ^ n mod 512" for n
    using lt unfolding a
    by (simp only: unsigned_take_bit_eq unsigned_drop_bit_eq) (simp add: take_bit_eq_mod drop_bit_eq_div)
  then show "unat (ix1 v) = unat v div 2 ^ 12 mod 512" "unat (ix2 v) = unat v div 2 ^ 21 mod 512"
    "unat (ix3 v) = unat v div 2 ^ 30 mod 512" "unat (ix4 v) = unat v div 2 ^ 39 mod 512"
    unfolding ix1_def ix2_def ix3_def ix4_def by blast+
qed


definition aligned :: "u64 \<Rightarrow> bool" where
  "aligned f \<longleftrightarrow> f AND validatebits = f"

lemma validatebits_not_mask: "validatebits = NOT (mask 12)"
  by (simp add: validatebits_def mask_eq_exp_minus_1)

lemma aligned_and [simp, intro]: "aligned (x AND validatebits)"
  by (simp add: aligned_def and.assoc)

lemma aligned_dvd: "aligned f \<Longrightarrow> 4096 dvd unat f"
proof -
  assume "aligned f"
  then have f: "f AND NOT (mask 12) = f" by (simp add: aligned_def validatebits_not_mask)
  have "take_bit 12 f = (f AND NOT (mask 12)) AND mask 12" by (simp only: f take_bit_eq_mask)
  also have "\<dots> = 0" by (simp add: and.assoc)
  finally have "unat (take_bit 12 f) = 0" by simp
  then have "take_bit 12 (unat f) = 0" by (simp only: unsigned_take_bit_eq)
  then have "unat f mod 4096 = 0" by (simp add: take_bit_eq_mod)
  then show ?thesis by (rule mod_0_imp_dvd)
qed

lemma and_511: "x AND 511 < (512 :: u64)"
proof -
  have "x AND 511 = take_bit 9 x" by (simp add: take_bit_eq_mask mask_eq_exp_minus_1)
  moreover have "unat (take_bit 9 x) = take_bit 9 (unat x)" by (simp only: unsigned_take_bit_eq)
  moreover have "take_bit 9 (unat x) < 512" using take_bit_nat_less_exp [of 9 "unat x"] by simp
  ultimately show ?thesis by (simp add: word_less_nat_alt)
qed

lemma unat_entry:
  assumes "aligned p" and "i < (512 :: u64)"
  shows "unat (p + 8 * i) = unat p + 8 * unat i" and "8 * unat i < 4096"
proof -
  have i: "unat i < 512" using assms(2) by (simp add: word_less_nat_alt)
  then show "8 * unat i < 4096" by simp
  obtain k where k: "unat p = 4096 * k" using aligned_dvd [OF assms(1)] unfolding dvd_def by blast
  have "unat p < 2 ^ 64" using unsigned_less [of p] by simp
  then have "k < 2 ^ 52" using k by simp
  then have "unat p + 8 * unat i < 2 ^ 64" using k i by simp
  moreover have "unat (8 * i) = 8 * unat i" using i by (simp add: unat_word_ariths)
  ultimately show "unat (p + 8 * i) = unat p + 8 * unat i"
    by (simp add: unat_word_ariths)
qed

lemma entry_inj:
  assumes "aligned p" "aligned q" "i < (512 :: u64)" "j < 512"
  shows "p + 8 * i = q + 8 * j \<longleftrightarrow> p = q \<and> i = j"
proof
  assume eq: "p + 8 * i = q + 8 * j"
  obtain k l where k: "unat p = 4096 * k" and l: "unat q = 4096 * l"
    using aligned_dvd [OF assms(1)] aligned_dvd [OF assms(2)] unfolding dvd_def by blast
  have e: "4096 * k + 8 * unat i = 4096 * l + 8 * unat j"
    using arg_cong [OF eq, of unat] unat_entry [OF assms(1,3)] unat_entry [OF assms(2,4)] k l by simp
  have "(4096 * k + 8 * unat i) div 4096 = k" "(4096 * l + 8 * unat j) div 4096 = l"
    using unat_entry(2) [OF assms(1,3)] unat_entry(2) [OF assms(2,4)] by simp_all
  with e have "k = l" by simp
  then have "unat p = unat q" "unat i = unat j" using e k l by auto
  then show "p = q \<and> i = j" by (simp add: word_unat_eq_iff)
qed simp

lemma in_frame_entry:
  assumes "aligned f" "aligned p" "i < (512 :: u64)"
  shows "in_frame f (p + 8 * i) \<longleftrightarrow> p = f"
proof -
  obtain k l where kl: "unat p = 4096 * k" "unat f = 4096 * l"
    using aligned_dvd [OF assms(1)] aligned_dvd [OF assms(2)] unfolding dvd_def by blast
  have "in_frame f (p + 8 * i) \<longleftrightarrow> k = l"
    using unat_entry [OF assms(2,3)] kl by (auto simp: in_frame_def)
  moreover have "k = l \<longleftrightarrow> p = f" using kl by (auto simp: word_unat_eq_iff)
  ultimately show ?thesis by simp
qed

lemma zero_frame_entry:
  "aligned f \<Longrightarrow> aligned p \<Longrightarrow> i < (512 :: u64) \<Longrightarrow>
   zero_frame m f (p + 8 * i) = (if p = f then 0 else m (p + 8 * i))"
  by (simp add: zero_frame_def in_frame_entry)

lemma zero_frame_upd:
  "\<not> in_frame f a \<Longrightarrow> zero_frame (m(a := v)) f = (zero_frame m f)(a := v)"
  by (auto simp: zero_frame_def fun_eq_iff)

lemma ix_less [simp]: "ix4 v < 512" "ix3 v < 512" "ix2 v < 512" "ix1 v < 512"
  by (simp_all add: ix4_def ix3_def ix2_def ix1_def and_511)

lemma entry_bits [simp]:
  "((x AND validatebits) OR 7) AND 1 = (1 :: u64)"
  "((x AND validatebits) OR 7) AND validatebits = x AND validatebits"
  by (simp_all add: bit.conj_disj_distrib2 and.assoc) (simp_all add: validatebits_def)

lemma kread_direct [simp]: "kread s (kernbase + f) i = pm s (f + 8 * i)"
  by (simp add: kread_def)

lemma kwrite_pm [simp]: "pm (kwrite s (kernbase + f) i v) = (pm s)(f + 8 * i := v)"
  by (simp add: kwrite_def)

lemma kzero_pm [simp]: "pm (kzero s (kernbase + f)) = zero_frame (pm s) f"
  by (simp add: kzero_def)

lemma kwrite_frame [simp, frame_simps]:
  "pagelist (kwrite s p i v) = pagelist s" "head (kwrite s p i v) = head s"
  "pml4e (kwrite s p i v) = pml4e s" "free_frames (kwrite s p i v) fs = free_frames s fs"
  by (simp_all add: kwrite_def free_frames_def)

lemma kzero_frame [simp, frame_simps]:
  "pagelist (kzero s p) = pagelist s" "head (kzero s p) = head s"
  "pml4e (kzero s p) = pml4e s" "free_frames (kzero s p) fs = free_frames s fs"
  by (simp_all add: kzero_def free_frames_def)

section \<open>Paths through a table tree\<close>

text \<open>A user path: at most three indices, the first one below the kernel's slot 511.\<close>

definition upath :: "u64 list \<Rightarrow> bool" where
  "upath p \<longleftrightarrow> length p \<le> 3 \<and> (\<forall>i \<in> set p. i < 512) \<and> (p \<noteq> [] \<longrightarrow> hd p \<noteq> 511)"

text \<open>A tree of tables: no two user paths lead to the same frame.\<close>

definition pt_wf :: "(u64 \<Rightarrow> u64) \<Rightarrow> u64 \<Rightarrow> bool" where
  "pt_wf m M \<longleftrightarrow> aligned M
     \<and> (\<forall>p q F. upath p \<longrightarrow> upath q \<longrightarrow> tbl m M p = Some F \<longrightarrow> tbl m M q = Some F \<longrightarrow> p = q)"

definition user_tables :: "(u64 \<Rightarrow> u64) \<Rightarrow> u64 \<Rightarrow> u64 set" where
  "user_tables m M = {F. \<exists>p. upath p \<and> tbl m M p = Some F}"

lemma upath_path [simp]: "upath (path v) \<longleftrightarrow> ix4 v \<noteq> 511"
  by (auto simp: upath_def path_def)

lemma upath_prefix: "upath (p @ q) \<Longrightarrow> upath p"
  by (auto simp: upath_def)

lemma upath_Nil [simp]: "upath []"
  by (simp add: upath_def)

lemma tbl_append: "tbl m T (p @ q) = (case tbl m T p of None \<Rightarrow> None | Some F \<Rightarrow> tbl m F q)"
  by (induction p arbitrary: T) auto

lemma tbl_cong:
  assumes "\<And>p i r F. q = p @ i # r \<Longrightarrow> tbl m M p = Some F \<Longrightarrow> m' (F + 8 * i) = m (F + 8 * i)"
  shows "tbl m' M q = tbl m M q"
  using assms
proof (induction q arbitrary: M)
  case (Cons i q)
  have head: "m' (M + 8 * i) = m (M + 8 * i)" using Cons.prems [of "[]" i q M] by simp
  show ?case
  proof (cases "m (M + 8 * i) AND 1 = 0")
    case False
    have "tbl m' (m (M + 8 * i) AND validatebits) q = tbl m (m (M + 8 * i) AND validatebits) q"
      using Cons.prems False by (intro Cons.IH) (metis (no_types) Cons_eq_appendI tbl.simps(2))
    then show ?thesis using head False by simp
  qed (simp add: head)
qed simp

lemma tbl_aligned: "aligned M \<Longrightarrow> tbl m M p = Some F \<Longrightarrow> aligned F"
  by (induction p arbitrary: M) (auto split: if_splits)

lemma pt_wf_aligned: "pt_wf m M \<Longrightarrow> aligned M"
  by (simp add: pt_wf_def)

text \<open>Writing one entry of a user table changes only the walks that pass through it.\<close>

lemma tbl_write_other:
  assumes wf: "pt_wf m M" and T: "upath p" "tbl m M p = Some T" and i: "i < 512"
    and q: "upath q" "\<nexists>r. q = p @ i # r"
  shows "tbl (m(T + 8 * i := v)) M q = tbl m M q"
proof (rule tbl_cong)
  fix p' j r F
  assume split: "q = p' @ j # r" and F: "tbl m M p' = Some F"
  have up: "upath p'" "j < 512" using q(1) split by (auto simp: upath_def)
  have al: "aligned T" "aligned F" using tbl_aligned pt_wf_aligned [OF wf] T(2) F by blast+
  have "\<not> (F = T \<and> j = i)"
    using wf T up(1) F q(2) split unfolding pt_wf_def by blast
  then show "(m(T + 8 * i := v)) (F + 8 * j) = m (F + 8 * j)"
    using entry_inj [OF al(2,1) up(2) i] by auto
qed

lemma tbl_write_through:
  assumes "pt_wf m M" and "upath p" "tbl m M p = Some T" and "i < 512" and "v AND 1 \<noteq> 0"
  shows "tbl (m(T + 8 * i := v)) M (p @ i # r) = tbl (m(T + 8 * i := v)) (v AND validatebits) r"
proof -
  have "tbl (m(T + 8 * i := v)) M p = tbl m M p"
    using assms by (intro tbl_write_other) auto
  then show ?thesis using assms(3,5) by (simp add: tbl_append)
qed

lemma tbl_zero_fresh:
  assumes "aligned M" and "aligned f" and "f \<notin> user_tables m M" and "upath q"
  shows "tbl (zero_frame m f) M q = tbl m M q"
proof (rule tbl_cong)
  fix p i r F
  assume split: "q = p @ i # r" and F: "tbl m M p = Some F"
  have "upath p" "i < 512" using assms(4) split by (auto simp: upath_def)
  moreover have "F \<noteq> f" using assms(3) F calculation by (auto simp: user_tables_def)
  moreover have "aligned F" using tbl_aligned assms(1) F by blast
  ultimately show "zero_frame m f (F + 8 * i) = m (F + 8 * i)"
    using zero_frame_entry assms(2) by simp
qed


section \<open>Linking a fresh table\<close>

text \<open>The entry a new table at \<open>f\<close> gets, and the memory once the table is linked and cleared.\<close>

abbreviation link_mem :: "(u64 \<Rightarrow> u64) \<Rightarrow> u64 \<Rightarrow> u64 \<Rightarrow> u64 \<Rightarrow> u64 \<Rightarrow> u64" where
  "link_mem m T i f \<equiv> zero_frame (m(T + 8 * i := (f AND validatebits) OR 7)) f"

lemma link_tbl:
  assumes wf: "pt_wf m M" and up: "upath (p @ [i])" and T: "tbl m M p = Some T"
    and absent: "m (T + 8 * i) AND 1 = 0" and f: "aligned f" "f \<notin> user_tables m M"
    and q: "upath q"
  shows "tbl (link_mem m T i f) M q = (if q = p @ [i] then Some f else tbl m M q)"
proof -
  let ?m0 = "zero_frame m f" and ?v = "(f AND validatebits) OR 7"
  have p: "upath p" and i: "i < 512" using up by (auto simp: upath_def)
  have al: "aligned M" "aligned T" using pt_wf_aligned [OF wf] tbl_aligned [OF _ T] by auto
  have Tf: "T \<noteq> f" using f(2) p T by (auto simp: user_tables_def)
  have m': "link_mem m T i f = ?m0(T + 8 * i := ?v)"
    using Tf in_frame_entry [OF f(1) al(2) i] by (simp add: zero_frame_upd)
  have same: "upath r \<Longrightarrow> tbl ?m0 M r = tbl m M r" for r
    using al(1) f by (rule tbl_zero_fresh)
  have wf0: "pt_wf ?m0 M" using wf same by (simp add: pt_wf_def)
  have T0: "tbl ?m0 M p = Some T" using T same p by simp
  show ?thesis
  proof (cases "\<exists>r. q = p @ i # r")
    case True
    then obtain r where r: "q = p @ i # r" by blast
    have thru: "tbl (link_mem m T i f) M q = tbl (link_mem m T i f) f r"
    proof -
      have v: "?v AND 1 = 1" by (rule entry_bits(1))
      have vf: "?v AND validatebits = f" using f(1) entry_bits(2) [of f] unfolding aligned_def by metis
      have "?v AND 1 \<noteq> 0" unfolding v by simp
      from tbl_write_through [OF wf0 p T0 i this, of r] show ?thesis
        unfolding m' r vf .
    qed
    have none: "tbl m M q = None" using T absent by (simp add: r tbl_append)
    show ?thesis
    proof (cases r)
      case Nil
      then show ?thesis using thru r by simp
    next
      case (Cons j r')
      have "j < 512" using q r Cons by (auto simp: upath_def)
      then have "link_mem m T i f (f + 8 * j) = 0"
        using f(1) by (simp add: zero_frame_entry)
      then show ?thesis using thru none r Cons by simp
    qed
  next
    case False
    then have "tbl (?m0(T + 8 * i := ?v)) M q = tbl ?m0 M q"
      using wf0 p T0 i q by (intro tbl_write_other) auto
    then show ?thesis using False m' same q by auto
  qed
qed

lemma link_wf:
  assumes wf: "pt_wf m M" and up: "upath (p @ [i])" and T: "tbl m M p = Some T"
    and absent: "m (T + 8 * i) AND 1 = 0" and f: "aligned f" "f \<notin> user_tables m M"
  shows "pt_wf (link_mem m T i f) M"
    and "user_tables (link_mem m T i f) M = insert f (user_tables m M)"
proof -
  note l = link_tbl [OF assms]
  have fresh: "upath q \<Longrightarrow> tbl m M q \<noteq> Some f" for q using f(2) by (auto simp: user_tables_def)
  then show "pt_wf (link_mem m T i f) M"
    using wf l unfolding pt_wf_def by (auto split: if_splits)
  have "tbl m M (p @ [i]) = None" using T absent by (simp add: tbl_append)
  then show "user_tables (link_mem m T i f) M = insert f (user_tables m M)"
    using l up unfolding user_tables_def by (auto split: if_splits) (metis option.distinct(1))
qed

lemma link_translate:
  assumes wf: "pt_wf m M" and up: "upath (p @ [i])" and T: "tbl m M p = Some T"
    and absent: "m (T + 8 * i) AND 1 = 0" and f: "aligned f" "f \<notin> user_tables m M"
    and w: "ix4 w \<noteq> 511"
  shows "translate (link_mem m T i f) M w = translate m M w"
proof -
  have l: "tbl (link_mem m T i f) M (path w) = (if path w = p @ [i] then Some f else tbl m M (path w))"
    using link_tbl [OF assms(1-6), of "path w"] w by simp
  have none: "tbl m M (p @ [i]) = None" using T absent by (simp add: tbl_append)
  show ?thesis
  proof (cases "path w = p @ [i]")
    case True
    then show ?thesis using l none f(1) by (simp add: translate_def zero_frame_entry)
  next
    case False
    show ?thesis
    proof (cases "tbl m M (path w)")
      case None
      then show ?thesis using l False by (simp add: translate_def)
    next
      case (Some P)
      have p: "upath p" "i < 512" using up by (auto simp: upath_def)
      have "P \<noteq> f" using f(2) Some w by (auto simp: user_tables_def intro: upath_path [THEN iffD2])
      moreover have "P \<noteq> T"
      proof
        assume "P = T"
        then have "path w = p" using wf Some T p w unfolding pt_wf_def by simp
        then show False using up by (auto simp: upath_def path_def)
      qed
      moreover have "aligned P" "aligned T"
        using tbl_aligned pt_wf_aligned [OF wf] Some T by blast+
      ultimately have "link_mem m T i f (P + 8 * ix1 w) = m (P + 8 * ix1 w)"
        using f(1) p(2) entry_inj [of P T "ix1 w" i] by (simp add: zero_frame_entry)
      then show ?thesis using l False Some by (simp add: translate_def)
    qed
  qed
qed

section \<open>Writing a leaf entry\<close>

lemma leaf_tbl:
  assumes "pt_wf m M" and "ix4 v \<noteq> 511" and "tbl m M (path v) = Some P" and "upath q"
  shows "tbl (m(P + 8 * ix1 v := e)) M q = tbl m M q"
proof -
  have "\<nexists>r. q = path v @ ix1 v # r" using assms(4) by (auto simp: upath_def path_def)
  then show ?thesis using assms by (intro tbl_write_other) auto
qed

lemma leaf_wf:
  assumes "pt_wf m M" and "ix4 v \<noteq> 511" and "tbl m M (path v) = Some P"
  shows "pt_wf (m(P + 8 * ix1 v := e)) M"
    and "user_tables (m(P + 8 * ix1 v := e)) M = user_tables m M"
  using assms leaf_tbl [OF assms] by (auto simp: pt_wf_def user_tables_def)

lemma leaf_translate:
  assumes wf: "pt_wf m M" and v: "ix4 v \<noteq> 511" and P: "tbl m M (path v) = Some P"
    and e: "e AND 1 \<noteq> 0" and w: "ix4 w \<noteq> 511"
  shows "translate (m(P + 8 * ix1 v := e)) M w = (if same_page v w then Some e else translate m M w)"
proof -
  have l: "tbl (m(P + 8 * ix1 v := e)) M (path w) = tbl m M (path w)"
    using leaf_tbl [OF wf v P] w by simp
  show ?thesis
  proof (cases "tbl m M (path w)")
    case None
    then have "path v \<noteq> path w" using P by auto
    then show ?thesis using l None by (simp add: translate_def same_page_def)
  next
    case (Some Q)
    have "aligned P" "aligned Q" using tbl_aligned pt_wf_aligned [OF wf] P Some by blast+
    then have "Q + 8 * ix1 w = P + 8 * ix1 v \<longleftrightarrow> Q = P \<and> ix1 w = ix1 v"
      by (rule entry_inj [OF _ _ ix_less(4) ix_less(4), rotated])
    moreover have "Q = P \<longleftrightarrow> path v = path w"
      using wf P Some v w unfolding pt_wf_def by (metis option.inject upath_path)
    ultimately show ?thesis using l Some e by (auto simp: translate_def same_page_def)
  qed
qed


section \<open>One new table, as a state change\<close>

text \<open>A task's table tree with the frames still free: none of them is one of its tables.\<close>

definition space :: "paging \<Rightarrow> u64 \<Rightarrow> u64 list \<Rightarrow> bool" where
  "space s M fs \<longleftrightarrow> pt_wf (pm s) M \<and> free_frames s fs \<and> distinct fs
     \<and> (\<forall>f \<in> set fs. aligned f \<and> f \<notin> user_tables (pm s) M)"

text \<open>Taking a frame, entering it at \<open>ptr[i]\<close> and clearing it: the block that the four
  functions above repeat for each missing level.\<close>

definition new_table :: "u64 \<Rightarrow> u64 \<Rightarrow> paging \<Rightarrow> (u64 \<times> paging) option" where
  "new_table ptr i s = do {
     (f, s) \<leftarrow> getFreeFrame s;
     let s = kwrite s ptr i ((f AND validatebits) OR 7);
     Some (kernbase + f, kzero s (kernbase + f))
   }"

lemma setNewPagePDPTE_tables:
  "setNewPagePDPTE virt physical pml4 s = do {
     (p3, s) \<leftarrow> new_table pml4 (ix4 virt) s;
     (p2, s) \<leftarrow> new_table p3 (ix3 virt) s;
     (p1, s) \<leftarrow> new_table p2 (ix2 virt) s;
     Some (kwrite s p1 (ix1 virt) ((physical AND validatebits) OR 7))
   }"
  by (simp add: setNewPagePDPTE_def new_table_def Let_def split: option.split bind_splits)

lemma setNewPagePDPE_tables:
  "setNewPagePDPE virt physical pml4 p3 s = do {
     (p2, s) \<leftarrow> new_table p3 (ix3 virt) s;
     (p1, s) \<leftarrow> new_table p2 (ix2 virt) s;
     Some (kwrite s p1 (ix1 virt) ((physical AND validatebits) OR 7))
   }"
  by (simp add: setNewPagePDPE_def new_table_def Let_def split: option.split bind_splits)

lemma setExistingPagePDPE_tables:
  "setExistingPagePDPE virt physical pml4 p3 s =
     (let p2 = kernbase + (kread s p3 (ix3 virt) AND validatebits) in
      if kread s p2 (ix2 virt) AND 1 = 0 then do {
        (p1, s) \<leftarrow> new_table p2 (ix2 virt) s;
        Some (kwrite s p1 (ix1 virt) ((physical AND validatebits) OR 7))
      }
      else Some (kwrite s (kernbase + (kread s p2 (ix2 virt) AND validatebits)) (ix1 virt)
                   ((physical AND validatebits) OR 7)))"
  by (simp add: setExistingPagePDPE_def new_table_def Let_def split: option.split bind_splits)

text \<open>\<open>maps\<close>: the translation of one page has become \<open>e\<close>, that of every other user page is as before.\<close>

definition keeps :: "paging \<Rightarrow> paging \<Rightarrow> u64 \<Rightarrow> bool" where
  "keeps s s' M \<longleftrightarrow> (\<forall>w. ix4 w \<noteq> 511 \<longrightarrow> translate (pm s') M w = translate (pm s) M w)"

definition maps :: "paging \<Rightarrow> paging \<Rightarrow> u64 \<Rightarrow> u64 \<Rightarrow> u64 \<Rightarrow> bool" where
  "maps s s' M v e \<longleftrightarrow> (\<forall>w. ix4 w \<noteq> 511 \<longrightarrow>
     translate (pm s') M w = (if same_page v w then Some e else translate (pm s) M w))"

lemma keeps_maps: "keeps s s1 M \<Longrightarrow> maps s1 s' M v e \<Longrightarrow> maps s s' M v e"
  by (simp add: keeps_def maps_def)

text \<open>What a step on the tree of \<open>M\<close> may touch: the tables of \<open>M\<close> and the frames it consumes.\<close>

definition touches :: "paging \<Rightarrow> paging \<Rightarrow> u64 \<Rightarrow> u64 list \<Rightarrow> bool" where
  "touches s s' M fs \<longleftrightarrow> pml4e s' = pml4e s \<and> user_tables (pm s') M \<subseteq> user_tables (pm s) M \<union> set fs
     \<and> (\<forall>a. (\<forall>f \<in> user_tables (pm s) M \<union> set fs. \<not> in_frame f a) \<longrightarrow> pm s' a = pm s a)"

lemma touches_trans:
  "touches s s1 M (f # fs) \<Longrightarrow> user_tables (pm s1) M = insert f (user_tables (pm s) M) \<Longrightarrow>
   touches s1 s' M fs \<Longrightarrow> touches s s' M (f # fs)"
  by (auto simp: touches_def)

lemma new_table_space:
  assumes sp: "space s M (f # fs)" and up: "upath (p @ [i])" and T: "tbl (pm s) M p = Some T"
    and absent: "pm s (T + 8 * i) AND 1 = 0"
  obtains s' where "new_table (kernbase + T) i s = Some (kernbase + f, s')" "space s' M fs"
    "tbl (pm s') M (p @ [i]) = Some f" "keeps s s' M" "touches s s' M (f # fs)"
    "user_tables (pm s') M = insert f (user_tables (pm s) M)"
    "\<forall>j < 512. pm s' (f + 8 * j) = 0"
proof -
  have wf: "pt_wf (pm s) M" and ff: "free_frames s (f # fs)" and d: "distinct (f # fs)"
    and fresh: "\<And>g. g \<in> set (f # fs) \<Longrightarrow> aligned g \<and> g \<notin> user_tables (pm s) M"
    using sp by (auto simp: space_def)
  from getFreeFrame_cons [OF ff] obtain s1 where s1: "getFreeFrame s = Some (f, s1)"
    "free_frames s1 fs" "pm s1 = pm s" "pml4e s1 = pml4e s" by blast
  let ?s' = "kzero (kwrite s1 (kernbase + T) i ((f AND validatebits) OR 7)) (kernbase + f)"
  have pm': "pm ?s' = link_mem (pm s) T i f" using s1(3) by simp
  have fr: "aligned f" "f \<notin> user_tables (pm s) M" using fresh by auto
  note link = link_wf [OF wf up T absent fr]
  have "new_table (kernbase + T) i s = Some (kernbase + f, ?s')"
    using s1(1) by (simp add: new_table_def)
  moreover have "space ?s' M fs"
    unfolding space_def pm' using link s1(2) d fresh by auto
  moreover have "tbl (pm ?s') M (p @ [i]) = Some f"
    unfolding pm' using link_tbl [OF wf up T absent fr up] by simp
  moreover have "keeps s ?s' M"
    unfolding keeps_def pm' using link_translate [OF wf up T absent fr] by blast
  moreover have "\<forall>j < 512. pm ?s' (f + 8 * j) = 0"
    unfolding pm' using fr(1) by (simp add: zero_frame_entry)
  moreover have "touches s ?s' M (f # fs)"
  proof -
    have "T \<in> user_tables (pm s) M" using T upath_prefix [OF up] by (auto simp: user_tables_def)
    moreover have "in_frame T (T + 8 * i)"
      using in_frame_entry [of T T i] tbl_aligned [OF pt_wf_aligned [OF wf] T] up
      by (auto simp: upath_def)
    moreover have "user_tables (pm ?s') M \<subseteq> user_tables (pm s) M \<union> set (f # fs)" using link(2) pm' by auto
    ultimately show ?thesis using pm' s1(4) unfolding touches_def by (auto simp: zero_frame_def)
  qed
  ultimately show thesis using that link(2) pm' by simp
qed

lemma leaf_space:
  assumes "space s M fs" and "ix4 v \<noteq> 511" and "tbl (pm s) M (path v) = Some P" and "e AND 1 \<noteq> 0"
  shows "space (kwrite s (kernbase + P) (ix1 v) e) M fs"
    and "maps s (kwrite s (kernbase + P) (ix1 v) e) M v e"
  using assms leaf_wf [of "pm s" M v P e] leaf_translate [of "pm s" M v P e]
  by (auto simp: space_def maps_def)

lemma upath_levels: "ix4 v \<noteq> 511 \<Longrightarrow> upath ([] @ [ix4 v])" "ix4 v \<noteq> 511 \<Longrightarrow> upath ([ix4 v] @ [ix3 v])"
  "ix4 v \<noteq> 511 \<Longrightarrow> upath ([ix4 v, ix3 v] @ [ix2 v])"
  by (auto simp: upath_def)

text \<open>The outcome of mapping one page: \<open>fs\<close> was free before, \<open>fs'\<close> is free now.\<close>

definition page_mapped :: "paging \<Rightarrow> paging \<Rightarrow> u64 \<Rightarrow> u64 \<Rightarrow> u64 \<Rightarrow> u64 list \<Rightarrow> u64 list \<Rightarrow> bool" where
  "page_mapped s s' M v e fs fs' \<longleftrightarrow> space s' M fs' \<and> maps s s' M v e \<and> touches s s' M fs"

lemma page_mapped_step:
  "keeps s s1 M \<Longrightarrow> touches s s1 M (f # fs) \<Longrightarrow>
   user_tables (pm s1) M = insert f (user_tables (pm s) M) \<Longrightarrow>
   page_mapped s1 s' M v e fs fs' \<Longrightarrow> page_mapped s s' M v e (f # fs) fs'"
  by (auto simp: page_mapped_def intro: keeps_maps touches_trans)

lemma leaf_mapped:
  assumes sp: "space s M fs" and v: "ix4 v \<noteq> 511" and P: "tbl (pm s) M (path v) = Some P"
    and e: "e AND 1 \<noteq> 0"
  shows "page_mapped s (kwrite s (kernbase + P) (ix1 v) e) M v e fs fs"
proof -
  have "P \<in> user_tables (pm s) M" using P v by (auto simp: user_tables_def intro: upath_path [THEN iffD2])
  moreover have "in_frame P (P + 8 * ix1 v)"
    using in_frame_entry [of P P "ix1 v"] tbl_aligned [OF _ P] sp pt_wf_aligned
    by (auto simp: space_def)
  moreover have "user_tables (pm (kwrite s (kernbase + P) (ix1 v) e)) M = user_tables (pm s) M"
    using leaf_wf(2) [OF _ v P, of e] sp by (simp add: space_def)
  ultimately have "touches s (kwrite s (kernbase + P) (ix1 v) e) M fs"
    by (auto simp: touches_def)
  then show ?thesis using leaf_space [OF assms] by (simp add: page_mapped_def)
qed

lemma level2_mapped:
  assumes sp: "space s M (f # fs)" and v: "ix4 v \<noteq> 511" and e: "e AND 1 \<noteq> 0"
    and T: "tbl (pm s) M [ix4 v, ix3 v] = Some T" and absent: "pm s (T + 8 * ix2 v) AND 1 = 0"
  shows "\<exists>s'. (do { (p1, s) \<leftarrow> new_table (kernbase + T) (ix2 v) s; Some (kwrite s p1 (ix1 v) e) }) = Some s'
    \<and> page_mapped s s' M v e (f # fs) fs"
proof -
  obtain s1 where s1: "new_table (kernbase + T) (ix2 v) s = Some (kernbase + f, s1)" "space s1 M fs"
    "tbl (pm s1) M ([ix4 v, ix3 v] @ [ix2 v]) = Some f" "keeps s s1 M" "touches s s1 M (f # fs)"
    "user_tables (pm s1) M = insert f (user_tables (pm s) M)"
    using new_table_space [OF sp upath_levels(3) [OF v] T absent] .
  have "page_mapped s1 (kwrite s1 (kernbase + f) (ix1 v) e) M v e fs fs"
    using s1(3) by (intro leaf_mapped [OF s1(2) v _ e]) (simp add: path_def)
  then show ?thesis using s1 page_mapped_step [OF s1(4-6)] by simp
qed

lemma level3_mapped:
  assumes sp: "space s M (f2 # f1 # fs)" and v: "ix4 v \<noteq> 511" and e: "e AND 1 \<noteq> 0"
    and T: "tbl (pm s) M [ix4 v] = Some T" and absent: "pm s (T + 8 * ix3 v) AND 1 = 0"
  shows "\<exists>s'. (do { (p2, s) \<leftarrow> new_table (kernbase + T) (ix3 v) s;
       (p1, s) \<leftarrow> new_table p2 (ix2 v) s; Some (kwrite s p1 (ix1 v) e) }) = Some s'
    \<and> page_mapped s s' M v e (f2 # f1 # fs) fs"
proof -
  obtain s1 where s1: "new_table (kernbase + T) (ix3 v) s = Some (kernbase + f2, s1)"
    "space s1 M (f1 # fs)" "tbl (pm s1) M ([ix4 v] @ [ix3 v]) = Some f2" "keeps s s1 M"
    "touches s s1 M (f2 # f1 # fs)" "user_tables (pm s1) M = insert f2 (user_tables (pm s) M)"
    "\<forall>j < 512. pm s1 (f2 + 8 * j) = 0"
    using new_table_space [OF sp upath_levels(2) [OF v] T absent] .
  then have "tbl (pm s1) M [ix4 v, ix3 v] = Some f2" "pm s1 (f2 + 8 * ix2 v) AND 1 = 0" by simp_all
  from level2_mapped [OF s1(2) v e this] show ?thesis
    using s1(1) page_mapped_step [OF s1(4-6)] by auto
qed

lemma level4_mapped:
  assumes sp: "space s M (f3 # f2 # f1 # fs)" and v: "ix4 v \<noteq> 511" and e: "e AND 1 \<noteq> 0"
    and absent: "pm s (M + 8 * ix4 v) AND 1 = 0"
  shows "\<exists>s'. (do { (p3, s) \<leftarrow> new_table (kernbase + M) (ix4 v) s;
       (p2, s) \<leftarrow> new_table p3 (ix3 v) s;
       (p1, s) \<leftarrow> new_table p2 (ix2 v) s; Some (kwrite s p1 (ix1 v) e) }) = Some s'
    \<and> page_mapped s s' M v e (f3 # f2 # f1 # fs) fs"
proof -
  have T: "tbl (pm s) M [] = Some M" by simp
  obtain s1 where s1: "new_table (kernbase + M) (ix4 v) s = Some (kernbase + f3, s1)"
    "space s1 M (f2 # f1 # fs)" "tbl (pm s1) M ([] @ [ix4 v]) = Some f3" "keeps s s1 M"
    "touches s s1 M (f3 # f2 # f1 # fs)" "user_tables (pm s1) M = insert f3 (user_tables (pm s) M)"
    "\<forall>j < 512. pm s1 (f3 + 8 * j) = 0"
    using new_table_space [OF sp upath_levels(1) [OF v] T absent] .
  then have "tbl (pm s1) M [ix4 v] = Some f3" "pm s1 (f3 + 8 * ix3 v) AND 1 = 0" by simp_all
  from level3_mapped [OF s1(2) v e this] show ?thesis
    using s1(1) page_mapped_step [OF s1(4-6)] by auto
qed

text \<open>The first statement of \<open>initTaskPagetables\<close>: slot 511, which no user path goes through.\<close>

lemma slot511_space:
  fixes x :: u64
  assumes sp: "space s M fs"
  defines "s0 \<equiv> kwrite s (kernbase + M) 511 x"
  shows "space s0 M fs" and "keeps s s0 M" and "touches s s0 M fs" and "user_tables (pm s0) M = user_tables (pm s) M"
    and "\<And>q. upath q \<Longrightarrow> tbl (pm s0) M q = tbl (pm s) M q"
proof -
  have wf: "pt_wf (pm s) M" using sp by (simp add: space_def)
  have al: "aligned M" using wf by (rule pt_wf_aligned)
  show t: "tbl (pm s0) M q = tbl (pm s) M q" if q: "upath q" for q
  proof -
    have "\<nexists>r. q = [] @ 511 # r" using q by (auto simp: upath_def)
    then show ?thesis unfolding s0_def kwrite_pm
      using wf q by (intro tbl_write_other [where p = "[]"]) auto
  qed
  then show u: "user_tables (pm s0) M = user_tables (pm s) M" by (auto simp: user_tables_def)
  show "space s0 M fs" using sp t u by (auto simp: space_def s0_def pt_wf_def)
  have "in_frame M (M + 8 * 511)" using in_frame_entry [OF al al, of 511] by simp
  moreover have "M \<in> user_tables (pm s) M" by (auto simp: user_tables_def intro: exI [of _ "[]"])
  ultimately show "touches s s0 M fs" using u by (auto simp: touches_def s0_def)
  show "keeps s s0 M"
    unfolding keeps_def
  proof (intro allI impI)
    fix w assume w: "ix4 w \<noteq> 511"
    show "translate (pm s0) M w = translate (pm s) M w"
    proof (cases "tbl (pm s) M (path w)")
      case None
      then show ?thesis using t [of "path w"] w by (simp add: translate_def)
    next
      case (Some P)
      have "P \<noteq> M"
      proof
        assume "P = M"
        then have "path w = []" using wf Some w unfolding pt_wf_def
          by (metis tbl.simps(1) upath_Nil upath_path)
        then show False by (simp add: path_def)
      qed
      moreover have "aligned P" using tbl_aligned [OF al Some] .
      ultimately have "pm s0 (P + 8 * ix1 w) = pm s (P + 8 * ix1 w)"
        using entry_inj [OF _ al, of P "ix1 w" 511] by (simp add: s0_def)
      then show ?thesis using t [of "path w"] w Some by (simp add: translate_def)
    qed
  qed
qed


lemma tbl_snoc_present:
  "tbl m M p = Some T \<Longrightarrow> m (T + 8 * i) AND 1 \<noteq> 0 \<Longrightarrow>
   tbl m M (p @ [i]) = Some (m (T + 8 * i) AND validatebits)"
  by (simp add: tbl_append)

lemma page_mapped_keeps:
  "keeps s s1 M \<Longrightarrow> touches s s1 M fs \<Longrightarrow> user_tables (pm s1) M = user_tables (pm s) M \<Longrightarrow>
   page_mapped s1 s' M v e fs fs' \<Longrightarrow> page_mapped s s' M v e fs fs'"
  by (auto simp: page_mapped_def touches_def intro: keeps_maps)

lemma mapped_below_slot511:
  assumes sp: "space s M fs" and len: "3 \<le> length fs" and v: "ix4 v \<noteq> 511"
    and e: "e = (physical AND validatebits) OR 7"
  shows "\<exists>s' k. k \<le> 3
    \<and> (if kread s (kernbase + M) (ix4 v) AND 1 = 0 then setNewPagePDPTE v physical (kernbase + M) s
       else setExistingPagePDPTE v physical (kernbase + M) s) = Some s'
    \<and> page_mapped s s' M v e fs (drop k fs)"
proof -
  obtain f3 f2 f1 gs where fs: "fs = f3 # f2 # f1 # gs"
    using len by (auto simp: numeral_3_eq_3 Suc_le_length_iff)
  note sp' = sp [unfolded fs]
  have e1: "e AND 1 \<noteq> 0" unfolding e entry_bits by simp
  show ?thesis
  proof (cases "pm s (M + 8 * ix4 v) AND 1 = 0")
    case True
    from level4_mapped [OF sp' v e1 this] show ?thesis
      unfolding fs by (auto simp: setNewPagePDPTE_tables True e intro!: exI [of _ 3])
  next
    case False
    define T3 where "T3 = pm s (M + 8 * ix4 v) AND validatebits"
    have t3: "tbl (pm s) M [ix4 v] = Some T3"
      using tbl_snoc_present [of "pm s" M "[]" M "ix4 v"] False by (simp add: T3_def)
    show ?thesis
    proof (cases "pm s (T3 + 8 * ix3 v) AND 1 = 0")
      case True
      from level3_mapped [OF sp' v e1 t3 True] show ?thesis
        unfolding fs by (auto simp: setExistingPagePDPTE_def setNewPagePDPE_tables Let_def
            T3_def [symmetric] True False e intro!: exI [of _ 2])
    next
      case no3: False
      define T2 where "T2 = pm s (T3 + 8 * ix3 v) AND validatebits"
      have t2: "tbl (pm s) M [ix4 v, ix3 v] = Some T2"
        using tbl_snoc_present [OF t3, of "ix3 v"] no3 by (simp add: T2_def)
      show ?thesis
      proof (cases "pm s (T2 + 8 * ix2 v) AND 1 = 0")
        case True
        from level2_mapped [OF sp' v e1 t2 True] show ?thesis
          unfolding fs by (auto simp: setExistingPagePDPTE_def setExistingPagePDPE_tables Let_def
              T3_def [symmetric] T2_def [symmetric] True False no3 e intro!: exI [of _ 1])
      next
        case no2: False
        define T1 where "T1 = pm s (T2 + 8 * ix2 v) AND validatebits"
        have t1: "tbl (pm s) M (path v) = Some T1"
          using tbl_snoc_present [OF t2, of "ix2 v"] no2 by (simp add: T1_def path_def)
        from leaf_mapped [OF sp v t1 e1] show ?thesis
          by (auto simp: setExistingPagePDPTE_def setExistingPagePDPE_tables Let_def
              T3_def [symmetric] T2_def [symmetric] T1_def [symmetric] False no3 no2 e intro!: exI [of _ 0])
      qed
    qed
  qed
qed

lemma initTaskPagetables_step:
  assumes "space s M fs" and "3 \<le> length fs" and "ix4 v \<noteq> 511"
  shows "\<exists>s' k. k \<le> 3 \<and> initTaskPagetables v physical (kernbase + M) s = Some s'
    \<and> space s' M (drop k fs)
    \<and> maps s s' M v ((physical AND validatebits) OR 7)
    \<and> touches s s' M fs"
proof -
  let ?s0 = "kwrite s (kernbase + M) 511 ((kread s (pml4e s) 511 AND validatebits) OR 7)"
  note s0 = slot511_space [OF assms(1), where x = "(kread s (pml4e s) 511 AND validatebits) OR 7"]
  from mapped_below_slot511 [OF s0(1) assms(2,3) refl, of physical] obtain s' k where
    "k \<le> 3" "initTaskPagetables v physical (kernbase + M) s = Some s'"
    "page_mapped ?s0 s' M v ((physical AND validatebits) OR 7) fs (drop k fs)"
    by (auto simp: initTaskPagetables_def Let_def)
  moreover from this(3) have "page_mapped s s' M v ((physical AND validatebits) OR 7) fs (drop k fs)"
    by (rule page_mapped_keeps [OF s0(2-4)])
  ultimately show ?thesis unfolding page_mapped_def by blast
qed


section \<open>What one call of \<open>initTaskPagetables\<close> does\<close>

text \<open>C6: with three frames free, \<open>initTaskPagetables\<close> on a well-formed table tree of a task
  succeeds for every user address: afterwards that page translates to the given frame,
  present, writable and user-accessible, every other user page of the task translates as
  before, the tree is again well-formed with at most three frames fewer, and no memory
  outside the task's tables and the frames consumed has changed.\<close>

theorem initTaskPagetables_maps:
  assumes "space s M fs" and "3 \<le> length fs" and "ix4 v \<noteq> 511"
  shows "\<exists>s' k. k \<le> 3 \<and> initTaskPagetables v physical (kernbase + M) s = Some s'
    \<and> space s' M (drop k fs)
    \<and> maps s s' M v ((physical AND validatebits) OR 7)
    \<and> touches s s' M fs"
  by (rule initTaskPagetables_step [OF assms])

text \<open>A concrete space for the examples: physical memory is all zero, the task's top table is at
  0x1000, and the frames 0x2000 to 0x5000 are free.\<close>

definition paging4 :: paging where
  "paging4 = paging0\<lparr>head := Some 2,
     pagelist := (\<lambda>i. \<lparr>address = of_nat i * pageSize, ref_count = 0,
       next_node = (if i < 5 then Some (Suc i) else None)\<rparr>)\<rparr>"

lemma tbl_zero_mem: "tbl (\<lambda>_. 0) M p = Some F \<Longrightarrow> p = [] \<and> F = M"
  by (cases p) auto

lemma space_paging4: "space paging4 0x1000 [0x2000, 0x3000, 0x4000, 0x5000]"
proof -
  have "chain (pagelist paging4) (head paging4) [2, 3, 4, 5]" by (simp add: paging4_def)
  then have "free_frames paging4 [0x2000, 0x3000, 0x4000, 0x5000]"
    unfolding free_frames_def
    by (intro exI [of _ "[2, 3, 4, 5]"]) (simp add: paging4_def pageSize_def)
  moreover have "pm paging4 = (\<lambda>_. 0)" by (simp add: paging4_def paging0_def)
  moreover have "pt_wf (\<lambda>_. 0) 0x1000"
    by (auto simp: pt_wf_def aligned_def validatebits_def dest: tbl_zero_mem)
  moreover have "user_tables (\<lambda>_. 0) 0x1000 = {0x1000}"
    by (auto simp: user_tables_def dest: tbl_zero_mem intro: exI [of _ "[]"])
  ultimately show ?thesis by (simp add: space_def aligned_def validatebits_def)
qed

theorem initTaskPagetables_maps_witness:
  "\<exists>s'. initTaskPagetables 0x400000 0x9000 (kernbase + 0x1000) paging4 = Some s'
     \<and> translate (pm s') 0x1000 0x400000 = Some 0x9007"
proof -
  have v: "ix4 0x400000 \<noteq> 511" by (simp add: ix4_def)
  from initTaskPagetables_maps [OF space_paging4 _ v, of "0x9000"]
  obtain s' where s': "initTaskPagetables 0x400000 0x9000 (kernbase + 0x1000) paging4 = Some s'"
    "maps paging4 s' 0x1000 0x400000 ((0x9000 AND validatebits) OR 7)" by auto
  have "same_page 0x400000 0x400000" by (simp add: same_page_def)
  then have "translate (pm s') 0x1000 0x400000 = Some ((0x9000 AND validatebits) OR 7)"
    using s'(2) v unfolding maps_def by simp
  then show ?thesis using s'(1) by (simp add: validatebits_def)
qed

text \<open>Another task's tree that shares no frame with what the step may touch.\<close>

lemma touches_other:
  assumes t: "touches s s' M fs" and al: "aligned N" and others: "\<And>f. f \<in> user_tables (pm s) M \<union> set fs \<Longrightarrow> aligned f"
    and disj: "user_tables (pm s) N \<inter> (user_tables (pm s) M \<union> set fs) = {}" and w: "ix4 w \<noteq> 511"
  shows "translate (pm s') N w = translate (pm s) N w"
proof -
  have same: "pm s' (F + 8 * i) = pm s (F + 8 * i)"
    if F: "upath p" "tbl (pm s) N p = Some F" and i: "i < 512" for p F i
  proof -
    have "F \<in> user_tables (pm s) N" using F by (auto simp: user_tables_def)
    then have "\<forall>f \<in> user_tables (pm s) M \<union> set fs. \<not> in_frame f (F + 8 * i)"
      using disj others in_frame_entry [OF _ tbl_aligned [OF al F(2)] i] by blast
    then show ?thesis using t by (simp add: touches_def)
  qed
  have "tbl (pm s') N (path w) = tbl (pm s) N (path w)"
  proof (rule tbl_cong)
    fix p i r F
    assume split: "path w = p @ i # r" and F: "tbl (pm s) N p = Some F"
    have "upath (p @ i # r)" using w split upath_path by metis
    then have "upath p" "i < 512" by (auto simp: upath_def)
    then show "pm s' (F + 8 * i) = pm s (F + 8 * i)" using same F by blast
  qed
  then show ?thesis using same [of "path w"] w by (simp add: translate_def split: option.split)
qed

lemma space_aligned:
  "space s M fs \<Longrightarrow> f \<in> user_tables (pm s) M \<union> set fs \<Longrightarrow> aligned f"
  by (auto simp: space_def user_tables_def dest: tbl_aligned [OF pt_wf_aligned])

text \<open>C7: mapping a page into one task's tables leaves the address space of every other
  task alone whose tables share no frame with the first task's tables or the free list.\<close>

theorem initTaskPagetables_isolation:
  assumes sp: "space s M fs" and "3 \<le> length fs" and "ix4 v \<noteq> 511"
    and "aligned N" and "user_tables (pm s) N \<inter> (user_tables (pm s) M \<union> set fs) = {}"
  shows "\<exists>s'. initTaskPagetables v physical (kernbase + M) s = Some s'
    \<and> (\<forall>w. ix4 w \<noteq> 511 \<longrightarrow> translate (pm s') N w = translate (pm s) N w)"
proof -
  obtain s' where s': "initTaskPagetables v physical (kernbase + M) s = Some s'" "touches s s' M fs"
    using initTaskPagetables_step [OF assms(1-3), of physical] by blast
  have "translate (pm s') N w = translate (pm s) N w" if "ix4 w \<noteq> 511" for w
    using space_aligned [OF sp] by (intro touches_other [OF s'(2) assms(4) _ assms(5) that]) blast
  then show ?thesis using s'(1) by blast
qed

theorem initTaskPagetables_isolation_witness:
  "\<exists>s'. initTaskPagetables 0x400000 0x9000 (kernbase + 0x1000) paging4 = Some s'
     \<and> (\<forall>w. ix4 w \<noteq> 511 \<longrightarrow> translate (pm s') 0x8000 w = translate (pm paging4) 0x8000 w)"
proof -
  have pm4: "pm paging4 = (\<lambda>_. 0)" by (simp add: paging4_def paging0_def)
  have "user_tables (pm paging4) M = {M}" for M
    unfolding pm4 by (auto simp: user_tables_def dest: tbl_zero_mem intro: exI [of _ "[]"])
  then have d: "user_tables (pm paging4) 0x8000
      \<inter> (user_tables (pm paging4) 0x1000 \<union> set [0x2000, 0x3000, 0x4000, 0x5000]) = {}"
    by simp
  show ?thesis
    by (rule initTaskPagetables_isolation [OF space_paging4 _ _ _ d])
      (simp_all add: ix4_def aligned_def validatebits_def)
qed

end
