(* ===== verification/KernelMap.thy ===== *)
theory KernelMap
  imports PageTables
begin

text \<open>
  The kernel's own address space in \<^verbatim>\<open>sys/paging.c\<close>: \<open>setupPageTables\<close> builds the direct
  map of physical memory at \<open>kernbase\<close> before paging is on (so its table pointers are physical
  addresses), \<open>mapNewFrame\<close> and its helpers enter one page there later, and \<open>getNewPage\<close> and
  \<open>kmalloc\<close> hand out mapped pages. \<open>kernel_map\<close> is the direct map as an invariant;
  under it \<open>mapNewFrame\<close> rewrites the entry that is already there, so \<open>getNewPage\<close> is
  \<open>getFreeFrame\<close> with a kernel pointer for its result.
\<close>

section \<open>Entering a page into the kernel's tables\<close>

definition mapNewFrameNew :: "u64 \<Rightarrow> u64 \<Rightarrow> paging \<Rightarrow> paging option" where
  "mapNewFrameNew virt physical s = do {
     (pdpte0, s) \<leftarrow> getFreeFrame s;
     let s = kwrite s (pml4e s) (ix4 virt) ((pdpte0 AND validatebits) OR 3);
     let pdpte0 = kernbase + pdpte0;
     (pdpe, s) \<leftarrow> getFreeFrame s;
     let s = kwrite s pdpte0 (ix3 virt) ((pdpe AND validatebits) OR 3);
     let pdpe = kernbase + pdpe;
     (pte0, s) \<leftarrow> getFreeFrame s;
     let s = kwrite s pdpe (ix2 virt) ((pte0 AND validatebits) OR 3);
     let pte0 = kernbase + pte0;
     Some (kwrite s pte0 (ix1 virt) ((physical AND validatebits) OR 3))
   }"

text \<open>The next two use the static \<open>pdpte\<close>, not the table their caller has just read.\<close>

definition mapFreeFrameExistYes :: "u64 \<Rightarrow> u64 \<Rightarrow> paging \<Rightarrow> paging option" where
  "mapFreeFrameExistYes virt physical s = do {
     (pdpe, s) \<leftarrow> getFreeFrame s;
     let s = kwrite s (pdpte s) (ix3 virt) ((pdpe AND validatebits) OR 3);
     let pdpe = kernbase + pdpe;
     (pte0, s) \<leftarrow> getFreeFrame s;
     let s = kwrite s pdpe (ix2 virt) ((pte0 AND validatebits) OR 3);
     let pte0 = kernbase + pte0;
     Some (kwrite s pte0 (ix1 virt) ((physical AND validatebits) OR 3))
   }"

definition mapFreeFrameExistNo :: "u64 \<Rightarrow> u64 \<Rightarrow> paging \<Rightarrow> paging option" where
  "mapFreeFrameExistNo virt physical s =
     (let pdpe = kernbase + (kread s (pdpte s) (ix3 virt) AND validatebits) in
      if kread s pdpe (ix2 virt) AND 1 = 0 then do {
        (pte0, s) \<leftarrow> getFreeFrame s;
        let s = kwrite s pdpe (ix2 virt) ((pte0 AND validatebits) OR 3);
        let pte0 = kernbase + pte0;
        Some (kwrite s pte0 (ix1 virt) ((physical AND validatebits) OR 3))
      }
      else
        (let pte0 = kernbase + (kread s pdpe (ix2 virt) AND validatebits)
         in Some (kwrite s pte0 (ix1 virt) ((physical AND validatebits) OR 3))))"

definition mapFreeFrameExist :: "u64 \<Rightarrow> u64 \<Rightarrow> paging \<Rightarrow> paging option" where
  "mapFreeFrameExist virt physical s =
     (let pdpte0 = kernbase + (kread s (pml4e s) (ix4 virt) AND validatebits) in
      if kread s pdpte0 (ix3 virt) AND 1 = 0 then mapFreeFrameExistYes virt physical s
      else mapFreeFrameExistNo virt physical s)"

definition mapNewFrame :: "u64 \<Rightarrow> u64 \<Rightarrow> paging \<Rightarrow> paging option" where
  "mapNewFrame virt physical s =
     (if kread s (pml4e s) (ix4 virt) AND 1 = 0 then mapNewFrameNew virt physical s
      else mapFreeFrameExist virt physical s)"

section \<open>Pages for the kernel\<close>

definition getNewPage :: "paging \<Rightarrow> (u64 \<times> paging) option" where
  "getNewPage s = do {
     (newframe, s) \<leftarrow> getFreeFrame s;
     s \<leftarrow> mapNewFrame (kernbase + newframe) newframe s;
     Some (kernbase + newframe, s)
   }"

fun kmalloc_more :: "nat \<Rightarrow> paging \<Rightarrow> paging option" where
  "kmalloc_more 0 s = Some s"
| "kmalloc_more (Suc n) s = do { (_, s) \<leftarrow> getNewPage s; kmalloc_more n s }"

text \<open>The first page's address is returned; the others are taken on the assumption that the
  free list hands out neighbours.\<close>

definition kmalloc :: "int \<Rightarrow> paging \<Rightarrow> (u64 \<times> paging) option" where
  "kmalloc bytes s =
     (let no_pages = cdiv bytes 4096 + 1 in do {
        (add, s) \<leftarrow> getNewPage s;
        s \<leftarrow> kmalloc_more (nat (no_pages - 1)) s;
        Some (add, s)
      })"

section \<open>Building the direct map\<close>

text \<open>Before paging is on a table pointer is the frame itself.\<close>

definition pwrite :: "paging \<Rightarrow> u64 \<Rightarrow> u64 \<Rightarrow> u64 \<Rightarrow> paging" where
  "pwrite s f i v = s\<lparr>pm := (pm s)(f + 8 * i := v)\<rparr>"

definition mapCurrentPageTable :: "u64 \<Rightarrow> u64 \<Rightarrow> u64 \<Rightarrow> paging \<Rightarrow> u64 \<times> paging" where
  "mapCurrentPageTable virt num physical s =
     (let virt = virt + num * pageSize
      in (virt, pwrite s (pte s) (ix1 virt) ((physical AND validatebits) OR 3)))"

partial_function (option) setup_loop :: "u64 \<Rightarrow> u64 \<Rightarrow> u64 \<Rightarrow> paging \<Rightarrow> (u64 \<times> paging) option" where
  "setup_loop virt physbase physfree s =
     (if physbase < physfree then
        Option.bind
          (if ix1 virt \<noteq> 0 then Some (pwrite s (pte s) (ix1 virt) ((physbase AND validatebits) OR 3))
           else do {
             (f, s) \<leftarrow> getFreeFrame s;
             let s = s\<lparr>pte := f\<rparr>;
             let s = pwrite s (pde s) (ix2 virt) ((f AND validatebits) OR 3);
             Some (pwrite s f (ix1 virt) ((physbase AND validatebits) OR 3))
           })
          (\<lambda>s. setup_loop (virt + pageSize) (physbase + pageSize) physfree s)
      else Some (virt, s))"

text \<open>The statics of the result are the direct-map pointers to the table frames; the second
  component is what the C statics hold, virtual addresses just above the map that
  \<open>mapCurrentPageTable\<close> enters for the same frames.\<close>

definition setupPageTables :: "u64 \<Rightarrow> u64 \<Rightarrow> paging \<Rightarrow> (paging \<times> u64 list) option" where
  "setupPageTables physbase physfree s = do {
     (p4, s) \<leftarrow> getFreeFrame s;
     (p3, s) \<leftarrow> getFreeFrame s;
     let s = pwrite s p4 (ix4 kernbase) ((p3 AND validatebits) OR 3);
     (p2, s) \<leftarrow> getFreeFrame s;
     let s = pwrite s p3 (ix3 kernbase) ((p2 AND validatebits) OR 3);
     (p1, s) \<leftarrow> getFreeFrame s;
     let s = pwrite s p2 (ix2 kernbase) ((p1 AND validatebits) OR 3);
     (virt, s) \<leftarrow> setup_loop kernbase physbase physfree (s\<lparr>pde := p2, pte := p1\<rparr>);
     let (a4, s) = mapCurrentPageTable virt 1 p4 (s\<lparr>k_cr3 := p4\<rparr>);
     let (a3, s) = mapCurrentPageTable virt 2 p3 s;
     let (a2, s) = mapCurrentPageTable virt 3 p2 s;
     let (a1, s) = mapCurrentPageTable virt 4 (pte s) s;
     Some (s\<lparr>pml4e := kernbase + p4, pdpte := kernbase + p3, pde := kernbase + p2,
             pte := kernbase + pte s\<rparr>, [a4, a3, a2, a1])
   }"

section \<open>Under the direct map a new kernel page is just a frame\<close>

text \<open>The direct map as an invariant: the statics point to the tables of \<open>k_cr3\<close>, and every page
  below \<open>lim\<close> has its own entry.\<close>

definition kernel_map :: "paging \<Rightarrow> u64 \<Rightarrow> bool" where
  "kernel_map s lim \<longleftrightarrow> pml4e s = kernbase + k_cr3 s
     \<and> pdpte s = kernbase + (pm s (k_cr3 s + 8 * 511) AND validatebits)
     \<and> (\<forall>f. aligned f \<longrightarrow> f < lim \<longrightarrow>
          ix4 (kernbase + f) = 511 \<and> translate (pm s) (k_cr3 s) (kernbase + f) = Some (f OR 3))"

lemma mapNewFrame_present:
  assumes "kernel_map s lim" and f: "aligned f" "f < lim"
  shows "mapNewFrame (kernbase + f) f s = Some s"
proof -
  define v where "v = kernbase + f"
  define T3 where "T3 = pm s (k_cr3 s + 4088) AND validatebits"
  define T2 where "T2 = pm s (T3 + 8 * ix3 v) AND validatebits"
  define T1 where "T1 = pm s (T2 + 8 * ix2 v) AND validatebits"
  have st: "pml4e s = kernbase + k_cr3 s" "pdpte s = kernbase + T3" "ix4 v = 511"
      "translate (pm s) (k_cr3 s) v = Some (f OR 3)"
    using assms by (auto simp: kernel_map_def v_def T3_def)
  from st(3,4) have w: "pm s (k_cr3 s + 4088) AND 1 \<noteq> 0" "pm s (T3 + 8 * ix3 v) AND 1 \<noteq> 0"
      "pm s (T2 + 8 * ix2 v) AND 1 \<noteq> 0" "pm s (T1 + 8 * ix1 v) = f OR 3"
    by (auto simp: translate_def path_def T3_def T2_def T1_def split: if_splits option.splits)
  have "mapNewFrame v f s = Some (kwrite s (kernbase + T1) (ix1 v) ((f AND validatebits) OR 3))"
    using w(1-3) st(1-3)
    by (simp add: mapNewFrame_def mapFreeFrameExist_def mapFreeFrameExistNo_def Let_def
        T3_def [symmetric] T2_def [symmetric] T1_def [symmetric])
  also have "kwrite s (kernbase + T1) (ix1 v) ((f AND validatebits) OR 3) = s"
    using w(4) f(1) by (simp add: kwrite_def aligned_def fun_upd_idem)
  finally show ?thesis by (simp add: v_def)
qed

lemma getNewPage_direct:
  assumes km: "kernel_map s lim" and ff: "free_frames s (f # fs)" and f: "aligned f" "f < lim"
  shows "\<exists>s'. getNewPage s = Some (kernbase + f, s') \<and> free_frames s' fs \<and> pm s' = pm s \<and> kernel_map s' lim"
proof -
  obtain s1 where s1: "getFreeFrame s = Some (f, s1)" "free_frames s1 fs" "pm s1 = pm s"
      "k_cr3 s1 = k_cr3 s" "pml4e s1 = pml4e s" "pdpte s1 = pdpte s"
    using getFreeFrame_cons [OF ff] by blast
  have km1: "kernel_map s1 lim" using km s1 by (simp add: kernel_map_def)
  show ?thesis using s1 km1 mapNewFrame_present [OF km1 f] by (simp add: getNewPage_def)
qed

text \<open>Frames the direct map reaches.\<close>

definition mapped_frames :: "u64 \<Rightarrow> u64 list \<Rightarrow> bool" where
  "mapped_frames lim fs \<longleftrightarrow> (\<forall>f \<in> set fs. aligned f \<and> f < lim)"

text \<open>The second provider of the \<open>frame_source\<close> contract: kernel pages instead of frames.\<close>

definition free_pages :: "paging \<Rightarrow> u64 list \<Rightarrow> bool" where
  "free_pages s ps \<longleftrightarrow> (\<exists>lim fs. kernel_map s lim \<and> free_frames s fs \<and> mapped_frames lim fs
     \<and> ps = map (\<lambda>f. kernbase + f) fs)"

interpretation pages: frame_source getNewPage free_pages
proof
  show "getNewPage s = None" if "free_pages s []" for s
    using that frames.take1_empty by (auto simp: free_pages_def getNewPage_def)
  show "\<exists>s'. getNewPage s = Some (p, s') \<and> free_pages s' ps" if fp: "free_pages s (p # ps)" for s p ps
  proof -
    obtain lim f fs where f: "kernel_map s lim" "free_frames s (f # fs)" "mapped_frames lim (f # fs)"
        "p = kernbase + f" "ps = map (\<lambda>f. kernbase + f) fs"
      using fp by (auto simp: free_pages_def map_eq_Cons_conv)
    have "aligned f" "f < lim" "mapped_frames lim fs" using f(3) by (auto simp: mapped_frames_def)
    with getNewPage_direct [OF f(1,2)] f(4,5) show ?thesis by (auto simp: free_pages_def)
  qed
qed

lemma kmalloc_more_take_n:
  "kmalloc_more n s = (case pages.take_n n s of None \<Rightarrow> None | Some (_, s') \<Rightarrow> Some s')"
  by (induction n arbitrary: s) (auto split: option.splits bind_splits)

text \<open>With the direct map in place and enough free frames, \<open>kmalloc\<close> of \<open>bytes\<close> bytes
  returns the kernel address of the first free frame and takes \<open>bytes / 4096 + 1\<close> frames off the
  list; every further page is one of these frames, whether or not it follows the first one.\<close>

theorem kmalloc_takes:
  assumes "free_pages s ps" and "0 \<le> bytes" and "nat (bytes div 4096) < length ps"
  shows "\<exists>s'. kmalloc bytes s = Some (hd ps, s') \<and> free_pages s' (drop (nat (bytes div 4096) + 1) ps)"
proof -
  let ?n = "nat (bytes div 4096)"
  obtain p qs where ps: "ps = p # qs" using assms(3) by (cases ps) auto
  then obtain s1 where s1: "getNewPage s = Some (p, s1)" "free_pages s1 qs"
    using pages.take1_cons assms(1) by blast
  have "?n \<le> length qs" using assms(3) ps by simp
  then obtain s2 where "pages.take_n ?n s1 = Some (take ?n qs, s2)" "free_pages s2 (drop ?n qs)"
    using pages.take_n_avail [OF s1(2)] by blast
  then show ?thesis
    using s1(1) ps assms(2) by (simp add: kmalloc_def Let_def cdiv_nonneg kmalloc_more_take_n)
qed


text \<open>A kernel map that covers the one page at frame 0, which is also the free frame.\<close>

definition paging_k :: paging where
  "paging_k = paging0\<lparr>head := Some 0, k_cr3 := 0x10000, pml4e := kernbase + 0x10000,
     pdpte := kernbase + 0x11000,
     pm := (\<lambda>_. 0)(0x10FF8 := 0x11003, 0x11FF0 := 0x12003, 0x12000 := 0x13003, 0x13000 := 3)\<rparr>"

lemma free_pages_paging_k: "free_pages paging_k [kernbase]"
proof -
  have "kernel_map paging_k 1"
    by (auto simp: kernel_map_def paging_k_def translate_def path_def ix4_def ix3_def ix2_def ix1_def
        kernbase_def validatebits_def word_less_1)
  moreover have "chain (pagelist paging_k) (head paging_k) [0]"
    by (simp add: paging_k_def paging0_def)
  then have "free_frames paging_k [0]"
    unfolding free_frames_def by (intro exI [of _ "[0]"]) (simp add: paging_k_def paging0_def)
  moreover have "mapped_frames 1 [0]" by (simp add: mapped_frames_def aligned_def)
  ultimately show ?thesis unfolding free_pages_def by (intro exI [of _ 1] exI [of _ "[0]"]) simp
qed

theorem kmalloc_takes_witness: "\<exists>s'. kmalloc 24 paging_k = Some (kernbase, s')"
  using kmalloc_takes [OF free_pages_paging_k, of 24] by auto

end
