(* ===== verification/CowTables.thy ===== *)
theory CowTables
  imports KernelMap
begin

text \<open>
  Copy-on-write duplication and tear-down of a task's page tables: \<open>copytables\<close> and
  \<open>deallocTask\<close> of \<^verbatim>\<open>sys/paging.c\<close>, each four nested loops over the table levels.
  The loop over a level is a recursion over its list of indices, so that a lemma about one
  level uses the lemma about the level below.
\<close>

definition indices :: "nat \<Rightarrow> u64 list" where
  "indices n = map of_nat [0..<n]"

section \<open>Copying the tables of a forked task\<close>

text \<open>\<^verbatim>\<open>pagelist[frame / pageSize].ref_count += 1\<close>.\<close>

definition inc_ref :: "u64 \<Rightarrow> paging \<Rightarrow> paging option" where
  "inc_ref frame s =
     (let i = unat (frame div pageSize) in
      if MAXPAGES \<le> i then None
      else Some (s\<lparr>pagelist := (pagelist s)(i := (pagelist s i)\<lparr>ref_count := ref_count (pagelist s i) + 1\<rparr>)\<rparr>))"

text \<open>A shared page: write permission off, the copy-on-write mark (bit 9) on.\<close>

definition cow_entry :: "u64 \<Rightarrow> u64" where
  "cow_entry e = (e AND 0xFFFFFFFFFFFFFFFD) OR 0x200"

fun copy_ptes :: "u64 \<Rightarrow> u64 \<Rightarrow> u64 list \<Rightarrow> paging \<Rightarrow> paging option" where
  "copy_ptes pte0 pteChild [] s = Some s"
| "copy_ptes pte0 pteChild (l # ls) s =
     (if kread s pte0 l AND 1 \<noteq> 0 then do {
        s \<leftarrow> inc_ref (kread s pte0 l AND validatebits) s;
        let s = kwrite s pte0 l (cow_entry (kread s pte0 l));
        let s = kwrite s pteChild l (kread s pte0 l);
        copy_ptes pte0 pteChild ls s
      }
      else copy_ptes pte0 pteChild ls s)"

fun copy_pdpes :: "u64 \<Rightarrow> u64 \<Rightarrow> u64 list \<Rightarrow> paging \<Rightarrow> paging option" where
  "copy_pdpes pdpe pdpeChild [] s = Some s"
| "copy_pdpes pdpe pdpeChild (k # ks) s =
     (if kread s pdpe k AND 1 \<noteq> 0 then do {
        (pteChild, s) \<leftarrow> getNewPage s;
        let s = kzero s pteChild;
        let s = kwrite s pdpeChild k (((pteChild - kernbase) AND validatebits) OR 7);
        s \<leftarrow> copy_ptes (kernbase + (kread s pdpe k AND validatebits)) pteChild (indices 512) s;
        copy_pdpes pdpe pdpeChild ks s
      }
      else copy_pdpes pdpe pdpeChild ks s)"

fun copy_pdptes :: "u64 \<Rightarrow> u64 \<Rightarrow> u64 list \<Rightarrow> paging \<Rightarrow> paging option" where
  "copy_pdptes pdpte0 pdpteChild [] s = Some s"
| "copy_pdptes pdpte0 pdpteChild (j # js) s =
     (if kread s pdpte0 j AND 1 \<noteq> 0 then do {
        (pdpeChild, s) \<leftarrow> getNewPage s;
        let s = kzero s pdpeChild;
        let s = kwrite s pdpteChild j (((pdpeChild - kernbase) AND validatebits) OR 7);
        s \<leftarrow> copy_pdpes (kernbase + (kread s pdpte0 j AND validatebits)) pdpeChild (indices 512) s;
        copy_pdptes pdpte0 pdpteChild js s
      }
      else copy_pdptes pdpte0 pdpteChild js s)"

fun copy_pml4es :: "u64 \<Rightarrow> u64 \<Rightarrow> u64 list \<Rightarrow> paging \<Rightarrow> paging option" where
  "copy_pml4es pml4eParent pml4eChild [] s = Some s"
| "copy_pml4es pml4eParent pml4eChild (i # is) s =
     (if kread s pml4eParent i AND 1 \<noteq> 0 then do {
        (pdpteChild, s) \<leftarrow> getNewPage s;
        let s = kzero s pdpteChild;
        let s = kwrite s pml4eChild i (((pdpteChild - kernbase) AND validatebits) OR 7);
        s \<leftarrow> copy_pdptes (kernbase + (kread s pml4eParent i AND validatebits)) pdpteChild (indices 512) s;
        copy_pml4es pml4eParent pml4eChild is s
      }
      else copy_pml4es pml4eParent pml4eChild is s)"

text \<open>The arguments are the \<open>pml4e\<close> fields of the two tasks.\<close>

definition copytables :: "u64 \<Rightarrow> u64 \<Rightarrow> paging \<Rightarrow> paging option" where
  "copytables p c s =
     (let pml4eParent = p + kernbase; pml4eChild = c + kernbase;
          s = kwrite s pml4eChild 511 (kread s pml4eParent 511)
      in copy_pml4es pml4eParent pml4eChild (indices 511) s)"

section \<open>Clearing the tables of a task\<close>

fun clear_ptes :: "u64 \<Rightarrow> u64 list \<Rightarrow> paging \<Rightarrow> paging" where
  "clear_ptes pte0 [] s = s"
| "clear_ptes pte0 (l # ls) s =
     (let s = (if kread s pte0 l AND 1 \<noteq> 0 then free (kread s pte0 l AND validatebits) s else s)
      in clear_ptes pte0 ls (kwrite s pte0 l 0))"

fun clear_pdpes :: "u64 \<Rightarrow> u64 list \<Rightarrow> paging \<Rightarrow> paging" where
  "clear_pdpes pdpe [] s = s"
| "clear_pdpes pdpe (k # ks) s =
     (let s = (if kread s pdpe k AND 1 \<noteq> 0
               then (let s = clear_ptes (kernbase + (kread s pdpe k AND validatebits)) (indices 512) s
                     in free (kread s pdpe k AND validatebits) s)
               else s)
      in clear_pdpes pdpe ks (kwrite s pdpe k 0))"

fun clear_pdptes :: "u64 \<Rightarrow> u64 list \<Rightarrow> paging \<Rightarrow> paging" where
  "clear_pdptes pdpte0 [] s = s"
| "clear_pdptes pdpte0 (j # js) s =
     (let s = (if kread s pdpte0 j AND 1 \<noteq> 0
               then (let s = clear_pdpes (kernbase + (kread s pdpte0 j AND validatebits)) (indices 512) s
                     in free (kread s pdpte0 j AND validatebits) s)
               else s)
      in clear_pdptes pdpte0 js (kwrite s pdpte0 j 0))"

fun clear_pml4es :: "u64 \<Rightarrow> u64 list \<Rightarrow> paging \<Rightarrow> paging" where
  "clear_pml4es pml4 [] s = s"
| "clear_pml4es pml4 (i # is) s =
     (let s = (if kread s pml4 i AND 1 \<noteq> 0
               then (let s = clear_pdptes (kernbase + (kread s pml4 i AND validatebits)) (indices 512) s
                     in free (kread s pml4 i AND validatebits) s)
               else s)
      in clear_pml4es pml4 is (kwrite s pml4 i 0))"

definition deallocTask :: "u64 \<Rightarrow> paging \<Rightarrow> paging" where
  "deallocTask pm4 s = clear_pml4es (pm4 + kernbase) (indices 511) s"

subsection \<open>Clearing writes zeros only\<close>

definition only_zeros :: "paging \<Rightarrow> paging \<Rightarrow> bool" where
  "only_zeros s s' \<longleftrightarrow> (\<forall>a. pm s' a = pm s a \<or> pm s' a = 0)
     \<and> pagelist s' = pagelist s \<and> head s' = head s"

lemma only_zeros_refl [simp]: "only_zeros s s"
  by (simp add: only_zeros_def)

lemma only_zeros_trans: "only_zeros s t \<Longrightarrow> only_zeros t u \<Longrightarrow> only_zeros s u"
  by (auto simp: only_zeros_def) metis

lemma only_zeros_write:
  "only_zeros (kwrite t p i 0) u \<Longrightarrow> only_zeros s t \<Longrightarrow> only_zeros s u"
  by (rule only_zeros_trans [of s "kwrite t p i 0"], rule only_zeros_trans [of s t])
    (auto simp: only_zeros_def kwrite_def)

lemma only_zeros_clear_ptes: "only_zeros s (clear_ptes p ls s)"
  by (induction p ls s rule: clear_ptes.induct)
    (auto simp: Let_def free_def intro: only_zeros_write)

lemma only_zeros_clear_pdpes: "only_zeros s (clear_pdpes p ls s)"
  by (induction p ls s rule: clear_pdpes.induct)
    (auto simp: Let_def free_def intro: only_zeros_write only_zeros_clear_ptes)

lemma only_zeros_clear_pdptes: "only_zeros s (clear_pdptes p ls s)"
  by (induction p ls s rule: clear_pdptes.induct)
    (auto simp: Let_def free_def intro: only_zeros_write only_zeros_clear_pdpes)

lemma only_zeros_clear_pml4es: "only_zeros s (clear_pml4es p ls s)"
  by (induction p ls s rule: clear_pml4es.induct)
    (auto simp: Let_def free_def intro: only_zeros_write only_zeros_clear_pdptes)

lemma clear_pml4es_zero:
  "i \<in> set is \<Longrightarrow> pm (clear_pml4es (kernbase + M) is s) (M + 8 * i) = 0"
proof (induction "is" arbitrary: s)
  case (Cons j js)
  define t where "t = kwrite (if kread s (kernbase + M) j AND 1 \<noteq> 0
      then free (kread s (kernbase + M) j AND validatebits)
        (clear_pdptes (kernbase + (kread s (kernbase + M) j AND validatebits)) (indices 512) s)
      else s) (kernbase + M) j 0"
  have eq: "clear_pml4es (kernbase + M) (j # js) s = clear_pml4es (kernbase + M) js t"
    by (simp add: t_def Let_def free_def)
  show ?case
  proof (cases "i = j")
    case True
    then have "pm t (M + 8 * i) = 0" by (simp add: t_def)
    then show ?thesis
      using only_zeros_clear_pml4es [of t "kernbase + M" js] unfolding eq only_zeros_def by metis
  next
    case False
    then show ?thesis using Cons unfolding eq by simp
  qed
qed simp

lemma mem_indices: "i < 511 \<Longrightarrow> i \<in> set (indices 511)" for i :: u64
  by (auto simp: indices_def image_iff word_less_nat_alt intro!: bexI [of _ "unat i"])

text \<open>After \<open>deallocTask\<close> no user address of the task translates any more; the call
  writes nothing but zeros and takes no frame off the free list, nor does it put one back.\<close>

theorem deallocTask_unmaps:
  "(\<forall>w. ix4 w \<noteq> 511 \<longrightarrow> translate (pm (deallocTask M s)) M w = None)
   \<and> (\<forall>a. pm (deallocTask M s) a = pm s a \<or> pm (deallocTask M s) a = 0)
   \<and> free_frames (deallocTask M s) fs = free_frames s fs"
proof -
  have k: "M + kernbase = kernbase + M" by simp
  have "translate (pm (deallocTask M s)) M w = None" if "ix4 w \<noteq> 511" for w
  proof -
    have "ix4 w < 511" using that ix_less(1) [of w] by (simp add: word_less_nat_alt unat_arith_simps)
    then have "pm (deallocTask M s) (M + 8 * ix4 w) = 0"
      unfolding deallocTask_def k by (intro clear_pml4es_zero mem_indices)
    then show ?thesis by (simp add: translate_def path_def)
  qed
  moreover have "only_zeros s (deallocTask M s)"
    unfolding deallocTask_def by (rule only_zeros_clear_pml4es)
  ultimately show ?thesis by (simp add: only_zeros_def free_frames_def)
qed

theorem deallocTask_unmaps_witness:
  "translate (pm (deallocTask 0x10000 paging_k)) 0x10000 0x400000 = None"
  using deallocTask_unmaps [of "0x10000" paging_k "[]"] by (simp add: ix4_def)

end
