(* ===== verification/Tasks.thy ===== *)
theory Tasks
  imports CStrings CowTables
begin

text \<open>
  The task table of \<^verbatim>\<open>include/sys/process.h\<close> and \<^verbatim>\<open>sys/process.c\<close>: the task structure,
  the \<open>taskQueue\<close> array of \<open>MAX_TASKS\<close> (C: \<^verbatim>\<open>MAX\<close>) slots, the slot allocator \<open>newPID\<close>, the boot tasks and
  the lists of virtual memory areas. A \<^verbatim>\<open>taskStruct *\<close> always points into \<open>taskQueue\<close> and
  is held as the index; an index outside the table is a \<open>None\<close> result, and so is a \<open>strcpy\<close>
  into one of the 100-byte fields of a string that does not fit. A VMA list is never shared
  between tasks, so it is a list with the head first; NULL is \<open>[]\<close>. The processor's
  registers that the kernel loads and saves are fields of the kernel state.
\<close>

section \<open>Data\<close>

datatype task_state = RUNNING | SLEEP | ZOMBIE | IDLE | READY | WAIT | HANG

text \<open>The C enumeration numbers the states in this order.\<close>

fun state_code :: "task_state \<Rightarrow> nat" where
  "state_code RUNNING = 0" | "state_code SLEEP = 1" | "state_code ZOMBIE = 2"
| "state_code IDLE = 3" | "state_code READY = 4" | "state_code WAIT = 5" | "state_code HANG = 6"

instantiation task_state :: linorder
begin

definition less_eq_task_state :: "task_state \<Rightarrow> task_state \<Rightarrow> bool" where
  "less_eq_task_state a b \<longleftrightarrow> state_code a \<le> state_code b"

definition less_task_state :: "task_state \<Rightarrow> task_state \<Rightarrow> bool" where
  "less_task_state a b \<longleftrightarrow> state_code a < state_code b"

instance
proof
  fix a b c :: task_state
  show "a < b \<longleftrightarrow> a \<le> b \<and> \<not> b \<le> a" by (auto simp: less_task_state_def less_eq_task_state_def)
  show "a \<le> a" by (simp add: less_eq_task_state_def)
  show "a \<le> b \<Longrightarrow> b \<le> c \<Longrightarrow> a \<le> c" by (simp add: less_eq_task_state_def)
  show "a \<le> b \<Longrightarrow> b \<le> a \<Longrightarrow> a = b" by (cases a; cases b) (auto simp: less_eq_task_state_def)
  show "a \<le> b \<or> b \<le> a" by (auto simp: less_eq_task_state_def)
qed

end

definition MAX_TASKS :: nat where "MAX_TASKS = 1100"
definition STACK_S :: u64 where "STACK_S = 0x100FFFFF0000"
definition VADDR_MASK :: u64 where "VADDR_MASK = 0xFFFFFFFFFFFFF000"

record vmaStruct =
  beginAddress :: u64
  lastAddress :: u64
  vm_offset :: u64

text \<open>The fields of \<open>struct Register\<close> that the kernel uses.\<close>

record Register =
  rip :: u64
  rsp :: u64

record file_t =
  f_fd :: int
  file_name :: string
  aval :: int
  f_offset :: u64
  f_entry :: int
  f_flags :: u64
  f_inode_num :: u64
  f_size :: u64
  f_address :: u64

record taskStruct =
  name :: string
  kstack :: "nat \<Rightarrow> u64"
  ustack :: u64
  time :: int
  state :: task_state
  pid :: nat
  ppid :: nat
  task_rsp :: u64
  task_pml4e :: u64
  child_count :: int
  vm :: "vmaStruct list"
  curr_dir :: string
  fd :: "nat \<Rightarrow> file_t"
  fd_c :: int
  regs :: Register

text \<open>The kernel: the table, \<open>currentTask\<close>, the processor's \<open>cr3\<close>, \<open>rsp\<close>, jump target and TSS ring-0 stack,
  the (link-time) address of every slot's \<open>kstack[511]\<close>, and the paging component.\<close>

record kernel =
  taskQueue :: "nat \<Rightarrow> taskStruct"
  currentTask :: nat
  cr3 :: u64
  cpu_rsp :: u64
  cpu_rip :: u64
  tss_rsp0 :: u64
  kstack_top :: "nat \<Rightarrow> u64"
  pg :: paging

abbreviation cur :: "kernel \<Rightarrow> taskStruct" where
  "cur k \<equiv> taskQueue k (currentTask k)"

definition upd_task :: "nat \<Rightarrow> (taskStruct \<Rightarrow> taskStruct) \<Rightarrow> kernel \<Rightarrow> kernel" where
  "upd_task i f k = k\<lparr>taskQueue := (taskQueue k)(i := f (taskQueue k i))\<rparr>"

definition strcpy_field :: "nat \<Rightarrow> string \<Rightarrow> string option" where
  "strcpy_field n s = (if length s < n then Some s else None)"

lemma upd_task_simps [simp]:
  "taskQueue (upd_task i f k) j = (if j = i then f (taskQueue k i) else taskQueue k j)"
  "currentTask (upd_task i f k) = currentTask k" "cr3 (upd_task i f k) = cr3 k"
  "cpu_rsp (upd_task i f k) = cpu_rsp k" "cpu_rip (upd_task i f k) = cpu_rip k" "tss_rsp0 (upd_task i f k) = tss_rsp0 k"
  "kstack_top (upd_task i f k) = kstack_top k" "pg (upd_task i f k) = pg k"
  by (simp_all add: upd_task_def)

section \<open>The table\<close>

definition stillAlive :: "kernel \<Rightarrow> nat \<Rightarrow> bool" where
  "stillAlive k i \<longleftrightarrow> state (taskQueue k i) = RUNNING \<or> state (taskQueue k i) = SLEEP
     \<or> state (taskQueue k i) = WAIT \<or> state (taskQueue k i) = HANG"

text \<open>What \<open>ps\<close> prints: pid and name of every live task, in table order.\<close>

definition ps :: "kernel \<Rightarrow> (nat \<times> string) list" where
  "ps k = map (\<lambda>i. (pid (taskQueue k i), name (taskQueue k i))) (filter (stillAlive k) [0..<MAX_TASKS])"

definition checkTaskState :: "kernel \<Rightarrow> nat \<Rightarrow> bool" where
  "checkTaskState k i \<longleftrightarrow> state (taskQueue k i) = READY"

text \<open>\<open>None\<close> is the \<open>-1\<close> of a full table; every caller then indexes \<open>taskQueue[-1]\<close>.\<close>

definition newPID :: "kernel \<Rightarrow> nat option" where
  "newPID k = first_index (checkTaskState k) MAX_TASKS"

definition initFirstTask :: "kernel \<Rightarrow> kernel" where
  "initFirstTask k = k\<lparr>taskQueue :=
     fold (\<lambda>i q. q(i := (q i)\<lparr>state := READY, fd_c := 0, time := 0\<rparr>)) [0..<MAX_TASKS] (taskQueue k)\<rparr>"

definition setupTask :: "string \<Rightarrow> u64 \<Rightarrow> kernel \<Rightarrow> kernel option" where
  "setupTask nm function k = do {
     p \<leftarrow> newPID k;
     n \<leftarrow> strcpy_field 100 nm;
     Some (upd_task p (\<lambda>t. t\<lparr>pid := p, name := n, state := RUNNING,
       regs := (regs t)\<lparr>rip := function, rsp := kstack_top k p\<rparr>, task_pml4e := cr3 k\<rparr>) k)
   }"

text \<open>\<open>initTask\<close>, with the addresses of the two kernel functions.\<close>

definition initTask :: "u64 \<Rightarrow> u64 \<Rightarrow> kernel \<Rightarrow> kernel option" where
  "initTask in_addr idle_addr k = do {
     k \<leftarrow> setupTask ''init'' in_addr k;
     setupTask ''idle'' idle_addr k
   }"

definition initTaskVariables :: "string \<Rightarrow> kernel \<Rightarrow> (nat \<times> kernel) option" where
  "initTaskVariables filename k = do {
     p \<leftarrow> newPID k;
     n \<leftarrow> strcpy_field 100 filename;
     Some (p, upd_task p (\<lambda>t. t\<lparr>name := n, curr_dir := ''/'', ppid := 0, pid := p, vm := [],
       state := RUNNING\<rparr>) k)
   }"

lemma initFirstTask_eq:
  "taskQueue (initFirstTask k) = (\<lambda>i. if i < MAX_TASKS
     then (taskQueue k i)\<lparr>state := READY, fd_c := 0, time := 0\<rparr> else taskQueue k i)"
  using fold_fun_upd_pointwise [of "[0..<MAX_TASKS]"
      "\<lambda>_ t. t\<lparr>state := READY, fd_c := 0, time := 0\<rparr>" "taskQueue k"]
  by (simp add: initFirstTask_def)

lemma newPID_Some: "newPID k = Some p \<Longrightarrow> p < MAX_TASKS \<and> state (taskQueue k p) = READY"
  by (auto simp: newPID_def first_index_Some checkTaskState_def)

section \<open>Virtual memory areas\<close>

record Elf64_Phdr =
  p_type :: u32
  p_flags :: u32
  p_offset :: u64
  p_vaddr :: u64
  p_paddr :: u64
  p_filesz :: u64
  p_memsz :: u64
  p_align :: u64

text \<open>\<open>setupVMA\<close> fills the area of a segment and returns the first page to map.\<close>

definition setupVMA :: "vmaStruct \<Rightarrow> Elf64_Phdr \<Rightarrow> vmaStruct \<times> u64" where
  "setupVMA v ep =
     (let v = v\<lparr>beginAddress := p_vaddr ep, lastAddress := p_vaddr ep + p_memsz ep\<rparr>;
          memCount = beginAddress v;
          memCount = (if p_vaddr ep mod pageSize \<noteq> 0 then p_vaddr ep AND VADDR_MASK else memCount)
      in (v, memCount))"

definition validateTaskVM :: "taskStruct \<Rightarrow> vmaStruct list" where
  "validateTaskVM t = (if vm t = [] then [] else vm t)"

text \<open>A node fresh from \<open>kmalloc\<close> holds arbitrary bytes.\<close>

definition setMyVMA :: "vmaStruct \<Rightarrow> nat \<Rightarrow> u64 \<Rightarrow> u64 \<Rightarrow> kernel \<Rightarrow> kernel option" where
  "setMyVMA garbage ts from toend k = do {
     (_, p) \<leftarrow> kmalloc 32 (pg k);
     Some (upd_task ts (\<lambda>t. t\<lparr>vm := garbage\<lparr>beginAddress := from, lastAddress := toend\<rparr> # vm t\<rparr>)
       (k\<lparr>pg := p\<rparr>))
   }"

definition shiftTaskVMA :: "vmaStruct \<Rightarrow> nat \<Rightarrow> u64 \<Rightarrow> u64 \<Rightarrow> kernel \<Rightarrow> kernel option" where
  "shiftTaskVMA garbage ts from toend k = do {
     (_, p) \<leftarrow> kmalloc 32 (pg k);
     Some (upd_task ts (\<lambda>t. t\<lparr>vm := garbage\<lparr>beginAddress := from, lastAddress := toend\<rparr> # vm t\<rparr>)
       (k\<lparr>pg := p\<rparr>))
   }"

fun copy_nodes :: "vmaStruct list \<Rightarrow> paging \<Rightarrow> (vmaStruct list \<times> paging) option" where
  "copy_nodes [] p = Some ([], p)"
| "copy_nodes (a # as) p = do {
     (_, p) \<leftarrow> kmalloc 32 p;
     (ds, p) \<leftarrow> copy_nodes as p;
     Some (a # ds, p)
   }"

definition copyVMA :: "nat \<Rightarrow> nat \<Rightarrow> kernel \<Rightarrow> kernel option" where
  "copyVMA curTask copyTask k = do {
     (ds, p) \<leftarrow> copy_nodes (vm (taskQueue k curTask)) (pg k);
     Some (upd_task copyTask (\<lambda>t. t\<lparr>vm := ds\<rparr>) (k\<lparr>pg := p\<rparr>))
   }"

lemma copy_nodes_same: "copy_nodes as p = Some (ds, p') \<Longrightarrow> ds = as"
  by (induction as arbitrary: p ds p') (auto split: bind_splits)

subsection \<open>Growing the heap\<close>

text \<open>One round of \<open>malloc\<close>'s loop: a frame is mapped at the end of the heap area.\<close>

definition grow1 :: "u64 \<Rightarrow> u64 \<Rightarrow> paging \<Rightarrow> (u64 \<times> paging) option" where
  "grow1 pml4 v p = do {
     (s_add, p) \<leftarrow> getFreeFrame p;
     p \<leftarrow> initTaskPagetables v s_add pml4 p;
     Some (s_add, p)
   }"

fun malloc_loop :: "u64 \<Rightarrow> nat \<Rightarrow> u64 \<Rightarrow> paging \<Rightarrow> (u64 \<times> paging) option" where
  "malloc_loop pml4 0 v p = Some (v, p)"
| "malloc_loop pml4 (Suc n) v p = do {
     (_, p) \<leftarrow> grow1 pml4 v p;
     malloc_loop pml4 n (v + pageSize) p
   }"

text \<open>\<open>malloc\<close> grows the second area of the list, which must exist; the result is its old end.
  A negative request gives at most one round: C's division truncates towards zero.\<close>

definition malloc :: "int \<Rightarrow> kernel \<Rightarrow> (u64 \<times> kernel) option" where
  "malloc no_of_bytes k = (case vm (cur k) of
      v0 # v1 # vs \<Rightarrow> do {
        (e, p) \<leftarrow> malloc_loop (task_pml4e (cur k) + kernbase) (nat (cdiv no_of_bytes 4096 + 1))
                    (lastAddress v1) (pg k);
        Some (lastAddress v1, upd_task (currentTask k)
          (\<lambda>t. t\<lparr>vm := v0 # v1\<lparr>lastAddress := e\<rparr> # vs\<rparr>) (k\<lparr>pg := p\<rparr>))
      }
    | _ \<Rightarrow> None)"

end
