(* ===== verification/Scheduler.thy ===== *)
theory Scheduler
  imports Tasks
begin

text \<open>
  The round-robin scheduler of \<^verbatim>\<open>sys/process.c\<close>: the search for the next running task and
  the switch of stacks, page tables and instruction pointers. The search is a loop with no
  bound of its own; it is shown to stop, to pick the next RUNNING task in cyclic order, and
  never to pass over a task that stays RUNNING for a whole round.
\<close>

partial_function (option) sched_loop :: "(nat \<Rightarrow> taskStruct) \<Rightarrow> nat \<Rightarrow> nat \<Rightarrow> nat option" where
  "sched_loop q final nextPID =
     (if nextPID \<noteq> final then
        (if state (q nextPID) = RUNNING then Some nextPID
         else sched_loop q final ((nextPID + 1) mod MAX_TASKS))
      else Some nextPID)"

text \<open>\<open>resume\<close> is the address of the label \<^verbatim>\<open>1:\<close> after the \<open>retq\<close>, where a task that was
  switched away continues. The push of the target and the \<open>retq\<close> leave the stack pointer as it was.\<close>

definition schedule :: "u64 \<Rightarrow> kernel \<Rightarrow> kernel option" where
  "schedule resume k = do {
     let finalTask = currentTask k;
     nextPID \<leftarrow> sched_loop (taskQueue k) (pid (taskQueue k finalTask))
                  ((pid (taskQueue k finalTask) + 1) mod MAX_TASKS);
     let k = k\<lparr>currentTask := nextPID\<rparr>;
     let k = k\<lparr>tss_rsp0 := kstack_top k (currentTask k)\<rparr>;
     let k = upd_task finalTask (\<lambda>t. t\<lparr>regs := (regs t)\<lparr>rsp := cpu_rsp k\<rparr>\<rparr>) k;
     let k = k\<lparr>cpu_rsp := rsp (regs (cur k))\<rparr>;
     let k = k\<lparr>cr3 := task_pml4e (cur k)\<rparr>;
     let k = upd_task finalTask (\<lambda>t. t\<lparr>regs := (regs t)\<lparr>rip := resume\<rparr>\<rparr>) k;
     Some (k\<lparr>cpu_rip := rip (regs (cur k))\<rparr>)
   }"

section \<open>The search\<close>

text \<open>The reference: the first RUNNING slot after \<open>c\<close> in cyclic order, or \<open>c\<close> itself.\<close>

definition sched_order :: "nat \<Rightarrow> nat list" where
  "sched_order c = [Suc c..<MAX_TASKS] @ [0..<c]"

definition next_task :: "(nat \<Rightarrow> taskStruct) \<Rightarrow> nat \<Rightarrow> nat" where
  "next_task q c = (case find (\<lambda>i. state (q i) = RUNNING) (sched_order c) of
      Some i \<Rightarrow> i | None \<Rightarrow> c)"

lemma MAX_TASKS_pos [simp]: "0 < MAX_TASKS"
  by (simp add: MAX_TASKS_def)

lemma sched_loop_below:
  "n \<le> c \<Longrightarrow> c < MAX_TASKS \<Longrightarrow> sched_loop q c n =
     Some (case find (\<lambda>i. state (q i) = RUNNING) [n..<c] of Some i \<Rightarrow> i | None \<Rightarrow> c)"
proof (induction "c - n" arbitrary: n)
  case 0
  then show ?case by (subst sched_loop.simps) simp
next
  case (Suc d)
  then have "n < c" by simp
  then show ?case
    using Suc.hyps(1) [of "Suc n"] Suc.hyps(2) Suc.prems
    by (simp add: sched_loop.simps [of q c n] upt_conv_Cons)
qed

lemma sched_loop_above:
  "c < n \<Longrightarrow> n < MAX_TASKS \<Longrightarrow> sched_loop q c n =
     Some (case find (\<lambda>i. state (q i) = RUNNING) ([n..<MAX_TASKS] @ [0..<c]) of Some i \<Rightarrow> i | None \<Rightarrow> c)"
proof (induction "MAX_TASKS - n" arbitrary: n)
  case (Suc d)
  show ?case
  proof (cases "Suc n = MAX_TASKS")
    case True
    then show ?thesis
      using Suc.prems sched_loop_below [of 0 c q]
      by (simp add: sched_loop.simps [of q c n] upt_conv_Cons)
  next
    case False
    then show ?thesis
      using Suc.hyps(1) [of "Suc n"] Suc.hyps(2) Suc.prems
      by (simp add: sched_loop.simps [of q c n] upt_conv_Cons)
  qed
qed simp

lemma sched_loop_next_task:
  assumes "c < MAX_TASKS"
  shows "sched_loop q c ((c + 1) mod MAX_TASKS) = Some (next_task q c)"
proof (cases "Suc c = MAX_TASKS")
  case True
  then show ?thesis using sched_loop_below [of 0 c q] assms
    by (simp add: next_task_def sched_order_def)
next
  case False
  then show ?thesis using sched_loop_above [of c "Suc c" q] assms
    by (simp add: next_task_def sched_order_def)
qed

lemma next_task_less: "c < MAX_TASKS \<Longrightarrow> next_task q c < MAX_TASKS"
  by (auto simp: next_task_def sched_order_def split: option.split dest!: find_SomeD)

lemma next_task_running:
  "p < MAX_TASKS \<Longrightarrow> state (q p) = RUNNING \<Longrightarrow> p \<noteq> c \<Longrightarrow> state (q (next_task q c)) = RUNNING"
proof -
  assume p: "p < MAX_TASKS" "state (q p) = RUNNING" "p \<noteq> c"
  then have "p \<in> set (sched_order c)" by (auto simp: sched_order_def)
  then have "find (\<lambda>i. state (q i) = RUNNING) (sched_order c) \<noteq> None"
    using p(2) by (auto simp: find_None_iff)
  then obtain n where "find (\<lambda>i. state (q i) = RUNNING) (sched_order c) = Some n" by blast
  then show ?thesis using find_SomeD by (simp add: next_task_def) fastforce
qed

text \<open>How far \<open>p\<close> is ahead of \<open>c\<close> in cyclic order.\<close>

definition ahead :: "nat \<Rightarrow> nat \<Rightarrow> nat" where
  "ahead c p = (if c \<le> p then p - c else p + MAX_TASKS - c)"

lemma ahead_less: "c < MAX_TASKS \<Longrightarrow> p < MAX_TASKS \<Longrightarrow> ahead c p < MAX_TASKS"
  by (auto simp: ahead_def)

lemma ahead_0: "c < MAX_TASKS \<Longrightarrow> ahead c p = 0 \<longleftrightarrow> c = p"
  by (auto simp: ahead_def)

text \<open>The task at position \<open>j\<close> of the cyclic order is \<open>j + 1\<close> ahead.\<close>

lemma sched_order_nth:
  "c < MAX_TASKS \<Longrightarrow> j < length (sched_order c) \<Longrightarrow> ahead c (sched_order c ! j) = Suc j"
  by (auto simp: sched_order_def nth_append ahead_def)

lemma sched_order_mem:
  "c < MAX_TASKS \<Longrightarrow> p < MAX_TASKS \<Longrightarrow> p \<noteq> c \<Longrightarrow>
   \<exists>j < length (sched_order c). sched_order c ! j = p"
proof -
  assume "c < MAX_TASKS" "p < MAX_TASKS" "p \<noteq> c"
  then have "p \<in> set (sched_order c)" by (auto simp: sched_order_def)
  then show ?thesis by (auto simp: in_set_conv_nth)
qed

lemma next_task_ahead:
  assumes c: "c < MAX_TASKS" and p: "p < MAX_TASKS" "state (q p) = RUNNING" "p \<noteq> c"
  shows "ahead c (next_task q c) \<le> ahead c p" and "0 < ahead c (next_task q c)"
proof -
  obtain j where j: "j < length (sched_order c)" "sched_order c ! j = p"
    using sched_order_mem [OF c p(1,3)] by blast
  have "find (\<lambda>i. state (q i) = RUNNING) (sched_order c) \<noteq> None"
    using p(2) j by (auto simp: find_None_iff in_set_conv_nth)
  then obtain n where n: "find (\<lambda>i. state (q i) = RUNNING) (sched_order c) = Some n" by blast
  then obtain i where i: "i < length (sched_order c)" "n = sched_order c ! i"
      "\<forall>j < i. state (q (sched_order c ! j)) \<noteq> RUNNING"
    by (auto simp: find_Some_iff)
  have "i \<le> j" using i(3) j p(2) by (metis not_le)
  moreover have "ahead c p = Suc j" using sched_order_nth [OF c j(1)] j(2) by simp
  moreover have "ahead c (next_task q c) = Suc i"
    using n i(2) sched_order_nth [OF c i(1)] by (simp add: next_task_def)
  ultimately show "ahead c (next_task q c) \<le> ahead c p" and "0 < ahead c (next_task q c)"
    by simp_all
qed

lemma ahead_split:
  "c < MAX_TASKS \<Longrightarrow> n < MAX_TASKS \<Longrightarrow> p < MAX_TASKS \<Longrightarrow> ahead c n \<le> ahead c p \<Longrightarrow>
   ahead n p = ahead c p - ahead c n"
  by (auto simp: ahead_def split: if_splits)

lemma next_task_two:
  assumes "\<And>i. i < MAX_TASKS \<Longrightarrow> state (q i) = RUNNING \<longleftrightarrow> i = a \<or> i = b" 
    and "a < MAX_TASKS" "b < MAX_TASKS" "a \<noteq> b"
  shows "next_task q a = b"
proof -
  have r: "state (q (next_task q a)) = RUNNING"
    by (rule next_task_running [of b]) (use assms(1) [of b] assms(3,4) in simp_all)
  have l: "next_task q a < MAX_TASKS" using assms(2) by (rule next_task_less)
  have "ahead a (next_task q a) > 0" 
    by (rule next_task_ahead [of a b]) (use assms(1) [of b] assms(2-4) in simp_all)
  then have "next_task q a \<noteq> a" by (auto simp: ahead_def)
  then show ?thesis using r assms(1) [OF l] by simp
qed
section \<open>What the scheduler guarantees\<close>

text \<open>A kernel whose current task is the slot its pid names.\<close>

definition cur_ok :: "kernel \<Rightarrow> bool" where
  "cur_ok k \<longleftrightarrow> currentTask k < MAX_TASKS \<and> pid (cur k) = currentTask k"

lemma schedule_eq:
  assumes "cur_ok k"
  defines "n \<equiv> next_task (taskQueue k) (currentTask k)"
  shows "\<exists>k'. schedule resume k = Some k' \<and> currentTask k' = n
    \<and> (\<forall>i. i \<noteq> currentTask k \<longrightarrow> taskQueue k' i = taskQueue k i)
    \<and> taskQueue k' (currentTask k) = (cur k)\<lparr>regs := \<lparr>rip = resume, rsp = cpu_rsp k, \<dots> = Register.more (regs (cur k))\<rparr>\<rparr>
    \<and> kstack_top k' = kstack_top k \<and> tss_rsp0 k' = kstack_top k n
    \<and> cr3 k' = task_pml4e (taskQueue k n) \<and> pg k' = pg k
    \<and> (n \<noteq> currentTask k \<longrightarrow> cpu_rsp k' = rsp (regs (taskQueue k n)) \<and> cpu_rip k' = rip (regs (taskQueue k n)))
    \<and> (n = currentTask k \<longrightarrow> cpu_rsp k' = cpu_rsp k \<and> cpu_rip k' = resume)"
  using assms(1) sched_loop_next_task [of "currentTask k" "taskQueue k"]
  by (auto simp: schedule_def cur_ok_def n_def Let_def)

text \<open>C8: \<open>schedule\<close> always returns; it makes the first RUNNING task after the current one, in
  cyclic pid order, the current task, and stays with the current one only when no other task
  is RUNNING. No task's state changes, and the chosen task's page tables and kernel stack
  are the ones installed.\<close>

theorem schedule_round_robin:
  assumes "cur_ok k"
  shows "\<exists>k'. schedule resume k = Some k'
    \<and> currentTask k' = next_task (taskQueue k) (currentTask k)
    \<and> (\<forall>i. state (taskQueue k' i) = state (taskQueue k i))
    \<and> cr3 k' = task_pml4e (cur k') \<and> tss_rsp0 k' = kstack_top k' (currentTask k')"
proof -
  obtain k' where "schedule resume k = Some k'"
    "currentTask k' = next_task (taskQueue k) (currentTask k)"
    "\<forall>i. i \<noteq> currentTask k \<longrightarrow> taskQueue k' i = taskQueue k i"
    "taskQueue k' (currentTask k) = (cur k)\<lparr>regs := \<lparr>rip = resume, rsp = cpu_rsp k, \<dots> = Register.more (regs (cur k))\<rparr>\<rparr>"
    "kstack_top k' = kstack_top k" "tss_rsp0 k' = kstack_top k (next_task (taskQueue k) (currentTask k))"
    "cr3 k' = task_pml4e (taskQueue k (next_task (taskQueue k) (currentTask k)))"
    using schedule_eq [OF assms, of resume] by blast
  moreover from this have "state (taskQueue k' i) = state (taskQueue k i)" for i
    by (cases "i = currentTask k") auto
  moreover have "task_pml4e (taskQueue k' i) = task_pml4e (taskQueue k i)" for i
    using calculation(3,4) by (cases "i = currentTask k") auto
  ultimately show ?thesis by simp
qed


text \<open>A kernel with a single RUNNING task, in slot 3; slot 7 is the current one.\<close>

definition task0 :: taskStruct where
  "task0 = \<lparr>name = [], kstack = (\<lambda>_. 0), ustack = 0, time = 0, state = READY, pid = 0, ppid = 0,
     task_rsp = 0, task_pml4e = 0, child_count = 0, vm = [], curr_dir = ''/'',
     fd = (\<lambda>_. \<lparr>f_fd = 0, file_name = [], aval = 0, f_offset = 0, f_entry = 0, f_flags = 0,
            f_inode_num = 0, f_size = 0, f_address = 0\<rparr>),
     fd_c = 0, regs = \<lparr>rip = 0, rsp = 0\<rparr>\<rparr>"

definition kernel0 :: kernel where
  "kernel0 = \<lparr>taskQueue = (\<lambda>i. task0\<lparr>pid := i, state := (if i = 3 then RUNNING else READY)\<rparr>),
     currentTask = 7, cr3 = 0, cpu_rsp = 0x1234, cpu_rip = 0, tss_rsp0 = 0,
     kstack_top = (\<lambda>i. of_nat i * 0x2000), pg = paging0\<rparr>"

lemma cur_ok_kernel0: "cur_ok kernel0"
  by (simp add: cur_ok_def kernel0_def MAX_TASKS_def)

lemma next_task_kernel0: "next_task (taskQueue kernel0) 7 = 3"
proof -
  have "state (taskQueue kernel0 (next_task (taskQueue kernel0) 7)) = RUNNING"
    by (rule next_task_running [of 3]) (simp_all add: kernel0_def MAX_TASKS_def)
  then show ?thesis by (simp add: kernel0_def task0_def split: if_splits)
qed

theorem schedule_round_robin_witness:
  "\<exists>k'. schedule 0x500 kernel0 = Some k' \<and> currentTask k' = 3"
  using schedule_round_robin [OF cur_ok_kernel0, of "0x500"] next_task_kernel0
  by (auto simp: kernel0_def)

subsection \<open>No RUNNING task is passed over for ever\<close>

text \<open>One slice: \<open>schedule\<close>, then the chosen task does anything that leaves the current task
  and its pid as they are and keeps task \<open>p\<close> RUNNING.\<close>

definition slice :: "nat \<Rightarrow> u64 \<Rightarrow> kernel \<Rightarrow> kernel \<Rightarrow> bool" where
  "slice p resume k k'' \<longleftrightarrow> (\<exists>k'. schedule resume k = Some k' \<and> currentTask k'' = currentTask k'
     \<and> cur_ok k'' \<and> state (taskQueue k'' p) = RUNNING)"

lemma slice_progress:
  assumes s: "slice p resume k k''" and k: "cur_ok k" "state (taskQueue k p) = RUNNING"
    and p: "p < MAX_TASKS" "currentTask k \<noteq> p"
  shows "ahead (currentTask k'') p < ahead (currentTask k) p"
proof -
  let ?c = "currentTask k" and ?n = "next_task (taskQueue k) (currentTask k)"
  have c: "?c < MAX_TASKS" using k(1) by (simp add: cur_ok_def)
  have n: "currentTask k'' = ?n"
    using s schedule_round_robin [OF k(1), of resume] by (auto simp: slice_def)
  note a = next_task_ahead [where q = "taskQueue k", OF c p(1) k(2) p(2) [symmetric]]
  have "ahead ?n p = ahead ?c p - ahead ?c ?n"
    using a by (intro ahead_split c next_task_less p)
  then show ?thesis using a n by simp
qed

lemma fairness_within:
  assumes slices: "\<And>n. slice p resume (ks n) (ks (Suc n))" and p: "p < MAX_TASKS"
  shows "cur_ok (ks m) \<Longrightarrow> state (taskQueue (ks m) p) = RUNNING \<Longrightarrow>
    ahead (currentTask (ks m)) p \<le> d \<Longrightarrow> \<exists>n \<le> d. currentTask (ks (m + n)) = p"
proof (induction d arbitrary: m)
  case 0
  then have "currentTask (ks m) = p" using ahead_0 by (simp add: cur_ok_def)
  then show ?case by simp
next
  case (Suc d)
  show ?case
  proof (cases "currentTask (ks m) = p")
    case True
    then show ?thesis by (intro exI [of _ 0]) simp
  next
    case False
    have next': "cur_ok (ks (Suc m))" "state (taskQueue (ks (Suc m)) p) = RUNNING"
      using slices [of m] by (auto simp: slice_def)
    have "ahead (currentTask (ks (Suc m))) p \<le> d"
      using slice_progress [OF slices Suc.prems(1,2) p False] Suc.prems(3) by simp
    then obtain n where "n \<le> d" "currentTask (ks (Suc m + n)) = p"
      using Suc.IH [OF next'] by blast
    then show ?thesis by (intro exI [of _ "Suc n"]) simp
  qed
qed

text \<open>C9: fairness: in any sequence of time slices during which task \<open>p\<close> stays RUNNING,
  whatever the other tasks do, \<open>p\<close> becomes the current task after at most \<open>MAX\<close> - 1 calls of
  \<open>schedule\<close>.\<close>

theorem schedule_fair:
  assumes "cur_ok (ks 0)" and "state (taskQueue (ks 0) p) = RUNNING" and "p < MAX_TASKS"
    and "\<And>n. slice p resume (ks n) (ks (Suc n))"
  shows "\<exists>n < MAX_TASKS. currentTask (ks n) = p"
proof -
  have "ahead (currentTask (ks 0)) p \<le> MAX_TASKS - 1"
    using ahead_less [of "currentTask (ks 0)" p] assms(1,3) by (auto simp: cur_ok_def)
  from fairness_within [OF assms(4,3,1,2) this]
  obtain n where n: "n \<le> MAX_TASKS - 1" "currentTask (ks (0 + n)) = p" by blast
  have "n < MAX_TASKS" using n(1) by (simp add: MAX_TASKS_def)
  then show ?thesis using n(2) by auto
qed

text \<open>Context switch round trip: let \<open>schedule\<close> leave task \<open>a\<close> for another task, and let a
  later call switch to \<open>a\<close> again while \<open>a\<close>'s saved registers and page-table root are
  untouched; then the processor has \<open>a\<close>'s stack pointer of the first call, continues at the
  label behind the switch, on \<open>a\<close>'s page tables and with \<open>a\<close>'s kernel stack in the TSS.\<close>

theorem schedule_resumes:
  assumes "cur_ok k1" and "schedule resume k1 = Some k1'" and "currentTask k1' \<noteq> currentTask k1"
    and "cur_ok k2" and "schedule resume k2 = Some k2'" and "currentTask k2' = currentTask k1"
    and "currentTask k2 \<noteq> currentTask k1"
    and "regs (taskQueue k2 (currentTask k1)) = regs (taskQueue k1' (currentTask k1))"
    and "task_pml4e (taskQueue k2 (currentTask k1)) = task_pml4e (cur k1)"
    and "kstack_top k2 = kstack_top k1"
  shows "cpu_rsp k2' = cpu_rsp k1 \<and> cpu_rip k2' = resume
    \<and> cr3 k2' = task_pml4e (cur k1) \<and> tss_rsp0 k2' = kstack_top k1 (currentTask k1)"
proof -
  have saved: "regs (taskQueue k1' (currentTask k1))
      = \<lparr>rip = resume, rsp = cpu_rsp k1, \<dots> = Register.more (regs (cur k1))\<rparr>"
    using schedule_eq [OF assms(1), of resume] assms(2) by auto
  have n: "next_task (taskQueue k2) (currentTask k2) = currentTask k1"
    using schedule_eq [OF assms(4), of resume] assms(5,6) by auto
  show ?thesis
    using schedule_eq [OF assms(4), of resume] assms(5,7-10) saved unfolding n by auto
qed


text \<open>A task of the example that stays in slot 3 once it is there.\<close>

definition kernel3 :: kernel where
  "kernel3 = kernel0\<lparr>currentTask := 3\<rparr>"

lemma cur_ok_kernel3: "cur_ok kernel3"
  by (simp add: cur_ok_def kernel3_def kernel0_def MAX_TASKS_def)

lemma next_task_kernel3: "next_task (taskQueue kernel3) 3 = 3"
proof -
  have "find (\<lambda>i. state (taskQueue kernel3 i) = RUNNING) (sched_order 3) = None"
    by (auto simp: find_None_iff sched_order_def kernel3_def kernel0_def task0_def)
  then show ?thesis by (simp add: next_task_def)
qed

theorem schedule_fair_witness:
  "\<exists>n < MAX_TASKS. currentTask (case n of 0 \<Rightarrow> kernel0 | Suc _ \<Rightarrow> kernel3) = 3"
proof -
  let ?ks = "\<lambda>n. case n of 0 \<Rightarrow> kernel0 | Suc _ \<Rightarrow> kernel3"
  have run: "state (taskQueue kernel3 3) = RUNNING" "state (taskQueue kernel0 3) = RUNNING"
    by (simp_all add: kernel3_def kernel0_def)
  have "slice 3 0x500 (?ks n) (?ks (Suc n))" for n
  proof (cases n)
    case 0
    then show ?thesis
      using schedule_round_robin [OF cur_ok_kernel0, of "0x500"] next_task_kernel0 cur_ok_kernel3 run
      by (auto simp: slice_def kernel3_def kernel0_def)
  next
    case (Suc m)
    then show ?thesis
      using schedule_round_robin [OF cur_ok_kernel3, of "0x500"] next_task_kernel3 cur_ok_kernel3 run
      by (auto simp: slice_def kernel3_def)
  qed
  then show ?thesis
    using schedule_fair [of ?ks 3 "0x500"] cur_ok_kernel0 run by (simp add: MAX_TASKS_def)
qed

text \<open>Two RUNNING tasks that alternate.\<close>

definition kernel_ab :: kernel where
  "kernel_ab = kernel0\<lparr>taskQueue := (\<lambda>i. task0\<lparr>pid := i,
     state := (if i = 3 \<or> i = 7 then RUNNING else READY), task_pml4e := of_nat i * 0x1000\<rparr>)\<rparr>"

lemma cur_ok_ab: "cur_ok kernel_ab" by (simp add: cur_ok_def kernel_ab_def kernel0_def MAX_TASKS_def)

theorem schedule_resumes_witness:
  "\<exists>k1 k2. schedule 0x500 kernel_ab = Some k1 \<and> currentTask k1 = 3 
     \<and> schedule 0x500 k1 = Some k2 \<and> currentTask k2 = 7 \<and> cpu_rsp k2 = 0x1234 \<and> cpu_rip k2 = 0x500"
proof -
  have n7: "next_task (taskQueue kernel_ab) 7 = 3"
    by (rule next_task_two) (auto simp: kernel_ab_def kernel0_def task0_def MAX_TASKS_def)
  have c7: "currentTask kernel_ab = 7" by (simp add: kernel_ab_def kernel0_def)
  obtain k1 where k1: "schedule 0x500 kernel_ab = Some k1" "currentTask k1 = 3"
    "\<forall>i. i \<noteq> 7 \<longrightarrow> taskQueue k1 i = taskQueue kernel_ab i"
    "taskQueue k1 7 = (cur kernel_ab)\<lparr>regs := \<lparr>rip = 0x500, rsp = cpu_rsp kernel_ab,
        \<dots> = Register.more (regs (cur kernel_ab))\<rparr>\<rparr>" "kstack_top k1 = kstack_top kernel_ab"
    using schedule_eq [OF cur_ok_ab, of "0x500"] n7 c7 by auto
  have st: "taskQueue k1 i = (if i = 7 then (cur kernel_ab)\<lparr>regs := \<lparr>rip = 0x500, rsp = cpu_rsp kernel_ab,
        \<dots> = Register.more (regs (cur kernel_ab))\<rparr>\<rparr> else taskQueue kernel_ab i)" for i
    using k1(3,4) by simp
  have n3: "next_task (taskQueue k1) 3 = 7"
    by (rule next_task_two) (auto simp: st c7, auto simp: kernel_ab_def kernel0_def task0_def MAX_TASKS_def split: if_splits)
  have ok: "cur_ok k1" by (auto simp: cur_ok_def k1(2) st, auto simp: kernel_ab_def MAX_TASKS_def)
  obtain k2 where k2: "schedule 0x500 k1 = Some k2" "currentTask k2 = 7"
    using schedule_eq [OF ok, of "0x500"] n3 k1(2) by auto
  have "cpu_rsp k2 = cpu_rsp kernel_ab \<and> cpu_rip k2 = 0x500"
    using schedule_resumes [OF cur_ok_ab k1(1) _ ok k2(1)] k1 k2 c7 by simp
  then show ?thesis using k1 k2 by (simp add: kernel_ab_def kernel0_def)
qed

end
