(* ===== verification/Lifecycle.thy ===== *)
theory Lifecycle
  imports Scheduler
begin

text \<open>
  The life of a task in \<^verbatim>\<open>sys/process.c\<close>: \<open>exit\<close>, \<open>kill\<close>, \<open>wait\<close>, \<open>waitpid\<close>, \<open>sleep\<close>,
  with \<open>taskTimer\<close> of \<^verbatim>\<open>sys/idt.c\<close> and \<open>wake_process\<close> of \<^verbatim>\<open>sys/keyboard.c\<close>, which make a
  waiting task RUNNING again. A call that ends in \<open>schedule\<close> does not return to its caller
  before the task is chosen again: \<open>Blocked\<close> is the kernel after the switch, and the
  \<open>_resume\<close> functions are what the code does from there.
\<close>

datatype outcome = Returned int kernel | Blocked kernel

text \<open>\<open>exit\<close> and \<open>kill\<close> share the loop that hands the children of a task to \<open>init\<close> (pid 0)
  and the wake-up of a waiting parent.\<close>

definition reparent :: "nat \<Rightarrow> kernel \<Rightarrow> kernel" where
  "reparent p k = k\<lparr>taskQueue :=
     fold (\<lambda>i q. q(i := (if ppid (q i) = p then (q i)\<lparr>ppid := 0\<rparr> else q i))) [0..<MAX_TASKS] (taskQueue k)\<rparr>"

definition wake_waiting :: "nat \<Rightarrow> kernel \<Rightarrow> kernel" where
  "wake_waiting p k = (if state (taskQueue k p) = WAIT then upd_task p (\<lambda>t. t\<lparr>state := RUNNING\<rparr>) k else k)"

definition exit_mark :: "kernel \<Rightarrow> kernel option" where
  "exit_mark k = (let c = currentTask k;
       k = upd_task c (\<lambda>t. t\<lparr>state := ZOMBIE\<rparr>) k;
       k = reparent (pid (taskQueue k c)) k
     in if ppid (taskQueue k c) < MAX_TASKS then Some (wake_waiting (ppid (taskQueue k c)) k) else None)"

definition exit :: "u64 \<Rightarrow> kernel \<Rightarrow> kernel option" where
  "exit resume k = do {
     k \<leftarrow> exit_mark k;
     schedule resume k
   }"

text \<open>\<open>kill\<close> takes any pid: outside the table it writes outside the table (\<open>None\<close>), inside it
  does not look at the slot's state.\<close>

definition kill :: "int \<Rightarrow> kernel \<Rightarrow> (int \<times> kernel) option" where
  "kill p k =
     (if 0 \<le> p \<and> p < int MAX_TASKS then
       (let i = nat p;
            k = upd_task i (\<lambda>t. t\<lparr>state := ZOMBIE\<rparr>) k;
            k = reparent i k
        in if ppid (taskQueue k i) < MAX_TASKS
           then Some (1, wake_waiting (ppid (taskQueue k i)) k) else None)
      else None)"

text \<open>The frees of the VMA nodes and of the page tables do nothing; the tables are cleared.\<close>

definition removeProcess :: "nat \<Rightarrow> kernel \<Rightarrow> kernel" where
  "removeProcess i k = k\<lparr>pg := free (task_pml4e (taskQueue k i)) (deallocTask (task_pml4e (taskQueue k i)) (pg k))\<rparr>"

definition is_child_zombie :: "kernel \<Rightarrow> nat \<Rightarrow> bool" where
  "is_child_zombie k i \<longleftrightarrow> ppid (taskQueue k i) = pid (cur k) \<and> state (taskQueue k i) = ZOMBIE"

definition reap :: "nat \<Rightarrow> kernel \<Rightarrow> outcome" where
  "reap i k = Returned (int i) (upd_task i (\<lambda>t. t\<lparr>state := READY\<rparr>) (removeProcess i k))"

definition wait_block :: "u64 \<Rightarrow> kernel \<Rightarrow> outcome option" where
  "wait_block resume k = do {
     k \<leftarrow> schedule resume (upd_task (currentTask k) (\<lambda>t. t\<lparr>state := WAIT\<rparr>) k);
     Some (Blocked k)
   }"

text \<open>One pass of \<open>wait\<close>'s loop up to the call of \<open>schedule\<close>, and its continuation.\<close>

definition wait_enter :: "u64 \<Rightarrow> kernel \<Rightarrow> outcome option" where
  "wait_enter resume k = (case first_index (is_child_zombie k) MAX_TASKS of
      Some i \<Rightarrow> Some (reap i k)
    | None \<Rightarrow> wait_block resume k)"

definition wait_resume :: "u64 \<Rightarrow> kernel \<Rightarrow> outcome option" where
  "wait_resume resume k = (case first_index (is_child_zombie k) MAX_TASKS of
      Some i \<Rightarrow> Some (reap i k)
    | None \<Rightarrow> wait_enter resume k)"

text \<open>\<open>waitpid\<close> sets WAIT once, before its loop: a task woken by another child's exit calls
  \<open>schedule\<close> again while RUNNING.\<close>

definition waitpid_enter :: "u64 \<Rightarrow> int \<Rightarrow> kernel \<Rightarrow> outcome option" where
  "waitpid_enter resume p k =
     (if 0 \<le> p \<and> p < int MAX_TASKS then
        (if is_child_zombie k (nat p) then Some (reap (nat p) k) else wait_block resume k)
      else None)"

definition waitpid_resume :: "u64 \<Rightarrow> int \<Rightarrow> kernel \<Rightarrow> outcome option" where
  "waitpid_resume resume p k =
     (if is_child_zombie k (nat p) then Some (reap (nat p) k)
      else do { k \<leftarrow> schedule resume k; Some (Blocked k) })"

definition getTaskPID :: "kernel \<Rightarrow> nat" where
  "getTaskPID k = pid (cur k)"

definition getTaskPPID :: "kernel \<Rightarrow> nat" where
  "getTaskPPID k = ppid (cur k)"

text \<open>\<open>seconds\<close> is unsigned, \<open>time\<close> is an \<open>int\<close>.\<close>

definition sleep :: "u64 \<Rightarrow> u32 \<Rightarrow> kernel \<Rightarrow> outcome option" where
  "sleep resume seconds k =
     (if seconds = 0 then Some (Returned 0 k)
      else do {
        k \<leftarrow> schedule resume (upd_task (currentTask k)
               (\<lambda>t. t\<lparr>time := to_int32 (uint seconds), state := HANG\<rparr>) k);
        Some (Blocked k)
      })"

text \<open>\<open>taskTimer\<close>, called once a second.\<close>

definition tick_task :: "taskStruct \<Rightarrow> taskStruct" where
  "tick_task t =
     (let t = (if state t = HANG \<and> time t > 0 then t\<lparr>time := time t - 1\<rparr> else t)
      in if state t = HANG \<and> time t = 0 then t\<lparr>state := RUNNING\<rparr> else t)"

definition taskTimer :: "kernel \<Rightarrow> kernel" where
  "taskTimer k = k\<lparr>taskQueue := fold (\<lambda>i q. q(i := tick_task (q i))) [0..<MAX_TASKS] (taskQueue k)\<rparr>"

definition wokeUP :: "nat \<Rightarrow> kernel \<Rightarrow> kernel" where
  "wokeUP i k = upd_task i (\<lambda>t. t\<lparr>state := RUNNING\<rparr>) k"

definition wake_process :: "kernel \<Rightarrow> kernel" where
  "wake_process k = (case first_index (\<lambda>i. state (taskQueue k i) = SLEEP) MAX_TASKS of
      Some i \<Rightarrow> wokeUP i k
    | None \<Rightarrow> k)"

section \<open>The loops in closed form\<close>

lemma reparent_queue:
  "taskQueue (reparent p k) = (\<lambda>i. if i < MAX_TASKS \<and> ppid (taskQueue k i) = p
     then (taskQueue k i)\<lparr>ppid := 0\<rparr> else taskQueue k i)"
  using fold_fun_upd_pointwise [of "[0..<MAX_TASKS]"
      "\<lambda>_ t. if ppid t = p then t\<lparr>ppid := 0\<rparr> else t" "taskQueue k"]
  by (auto simp: reparent_def fun_eq_iff)

lemma reparent_frame [simp, frame_simps]:
  "currentTask (reparent p k) = currentTask k" "pg (reparent p k) = pg k"
  "kstack_top (reparent p k) = kstack_top k"
  by (simp_all add: reparent_def)

lemma reparent_fields [simp]:
  "state (taskQueue (reparent p k) i) = state (taskQueue k i)"
  "pid (taskQueue (reparent p k) i) = pid (taskQueue k i)"
  by (simp_all add: reparent_queue)

lemma taskTimer_queue:
  "taskQueue (taskTimer k) = (\<lambda>i. if i < MAX_TASKS then tick_task (taskQueue k i) else taskQueue k i)"
  using fold_fun_upd_pointwise [of "[0..<MAX_TASKS]" "\<lambda>_ t. tick_task t" "taskQueue k"]
  by (simp add: taskTimer_def)

lemma wake_waiting_simps [simp]:
  "currentTask (wake_waiting p k) = currentTask k"
  "pid (taskQueue (wake_waiting p k) i) = pid (taskQueue k i)"
  "ppid (taskQueue (wake_waiting p k) i) = ppid (taskQueue k i)"
  "state (taskQueue (wake_waiting p k) i) =
     (if i = p \<and> state (taskQueue k i) = WAIT then RUNNING else state (taskQueue k i))"
  by (auto simp: wake_waiting_def)

lemma removeProcess_simps [simp]:
  "taskQueue (removeProcess i k) = taskQueue k" "currentTask (removeProcess i k) = currentTask k"
  by (simp_all add: removeProcess_def)


section \<open>Leaving\<close>

lemma exit_mark_eq:
  assumes "cur_ok k" and "ppid (cur k) < MAX_TASKS"
  shows "\<exists>k'. exit_mark k = Some k' \<and> currentTask k' = currentTask k
    \<and> (\<forall>i. pid (taskQueue k' i) = pid (taskQueue k i))
    \<and> (\<forall>i. ppid (taskQueue k' i) = (if i < MAX_TASKS \<and> ppid (taskQueue k i) = pid (cur k) then 0 else ppid (taskQueue k i)))
    \<and> (\<forall>i. state (taskQueue k' i) =
         (if i = currentTask k then ZOMBIE
          else if i = ppid (taskQueue k' (currentTask k)) \<and> state (taskQueue k i) = WAIT then RUNNING
          else state (taskQueue k i)))"
  using assms by (auto simp: exit_mark_def Let_def reparent_queue cur_ok_def)

text \<open>No orphan keeps a dead parent: after \<open>exit\<close> has marked the current task, every slot
  whose parent it was belongs to pid 0, all other parents are unchanged, and the dead task
  is a ZOMBIE.\<close>

theorem exit_reparents:
  assumes "cur_ok k" and "ppid (cur k) < MAX_TASKS"
  shows "\<exists>k'. exit_mark k = Some k' \<and> state (taskQueue k' (currentTask k)) = ZOMBIE
    \<and> (\<forall>i < MAX_TASKS. ppid (taskQueue k' i) =
         (if ppid (taskQueue k i) = pid (cur k) then 0 else ppid (taskQueue k i)))"
  using exit_mark_eq [OF assms] by auto

text \<open>Slot 1 is the parent of slot 2, which is current and the parent of slot 5.\<close>

definition kernel_fam :: kernel where
  "kernel_fam = kernel0\<lparr>currentTask := 2, taskQueue := (\<lambda>i. task0\<lparr>pid := i,
     ppid := (if i = 2 then 1 else if i = 5 then 2 else 0),
     state := (if i = 1 then WAIT else if i = 2 \<or> i = 5 then RUNNING else READY)\<rparr>)\<rparr>"

lemma kernel_fam_simps [simp]:
  "currentTask kernel_fam = 2" "pid (taskQueue kernel_fam i) = i"
  "ppid (taskQueue kernel_fam i) = (if i = 2 then 1 else if i = 5 then 2 else 0)"
  "state (taskQueue kernel_fam i) = (if i = 1 then WAIT else if i = 2 \<or> i = 5 then RUNNING else READY)"
  by (simp_all add: kernel_fam_def)

lemma cur_ok_fam: "cur_ok kernel_fam"
  by (simp add: cur_ok_def MAX_TASKS_def)

theorem exit_reparents_witness:
  "\<exists>k'. exit_mark kernel_fam = Some k' \<and> state (taskQueue k' 2) = ZOMBIE \<and> ppid (taskQueue k' 5) = 0"
proof -
  have p: "ppid (cur kernel_fam) < MAX_TASKS" by (simp add: MAX_TASKS_def)
  have five: "5 < MAX_TASKS" by (simp add: MAX_TASKS_def)
  from exit_reparents [OF cur_ok_fam p] show ?thesis using five by fastforce
qed

section \<open>Waiting\<close>

lemma wait_enter_child:
  assumes "i < MAX_TASKS" and "is_child_zombie k i"
  shows "\<exists>j k'. wait_enter resume k = Some (Returned (int j) k') \<and> wait_resume resume k = Some (Returned (int j) k')
    \<and> j < MAX_TASKS \<and> is_child_zombie k j \<and> currentTask k' = currentTask k
    \<and> state (taskQueue k' j) = READY \<and> (\<forall>m. m \<noteq> j \<longrightarrow> taskQueue k' m = taskQueue k m)"
proof -
  have "first_index (is_child_zombie k) MAX_TASKS \<noteq> None"
    using assms by (auto simp: first_index_None)
  then obtain j where j: "first_index (is_child_zombie k) MAX_TASKS = Some j" by blast
  then have "j < MAX_TASKS" "is_child_zombie k j" by (simp_all add: first_index_Some)
  then show ?thesis using j by (auto simp: wait_enter_def wait_resume_def reap_def)
qed

text \<open>C10: the exit/wait handshake: when the current task exits while its parent is in \<open>wait\<close>,
  the parent becomes RUNNING, and when it is next the current task (with this table) its
  \<open>wait\<close> returns the pid of a dead child of its own, whose slot is then free for \<open>newPID\<close>.\<close>

theorem exit_wakes_waiting_parent:
  assumes "cur_ok k" and "ppid (cur k) = p" and "p < MAX_TASKS" and "p \<noteq> pid (cur k)"
    and "pid (taskQueue k p) = p" and "state (taskQueue k p) = WAIT"
  shows "\<exists>k1. exit_mark k = Some k1 \<and> state (taskQueue k1 p) = RUNNING
    \<and> (\<forall>k2. taskQueue k2 = taskQueue k1 \<and> currentTask k2 = p \<longrightarrow>
         (\<exists>j k3. wait_resume resume k2 = Some (Returned (int j) k3)
            \<and> ppid (taskQueue k2 j) = p \<and> state (taskQueue k2 j) = ZOMBIE
            \<and> state (taskQueue k3 j) = READY \<and> newPID k3 \<noteq> None))"
proof -
  let ?c = "currentTask k"
  have c: "?c < MAX_TASKS" "p \<noteq> ?c" using assms(1,4) by (auto simp: cur_ok_def)
  obtain k1 where k1: "exit_mark k = Some k1" "ppid (taskQueue k1 ?c) = p"
      "\<forall>i. pid (taskQueue k1 i) = pid (taskQueue k i)"
      "\<forall>i. state (taskQueue k1 i) = (if i = ?c then ZOMBIE
          else if i = ppid (taskQueue k1 ?c) \<and> state (taskQueue k i) = WAIT then RUNNING
          else state (taskQueue k i))"
    using exit_mark_eq [OF assms(1)] assms(2,3,4) by auto
  have run: "state (taskQueue k1 p) = RUNNING" using k1(2,4) c(2) assms(6) by simp
  have "\<exists>j k3. wait_resume resume k2 = Some (Returned (int j) k3) \<and> ppid (taskQueue k2 j) = p
      \<and> state (taskQueue k2 j) = ZOMBIE \<and> state (taskQueue k3 j) = READY \<and> newPID k3 \<noteq> None"
    if k2: "taskQueue k2 = taskQueue k1" "currentTask k2 = p" for k2
  proof -
    have pidp: "pid (cur k2) = p" using k2 k1(3) assms(5) by simp
    have "is_child_zombie k2 ?c" using k2 k1(2,4) pidp by (simp add: is_child_zombie_def)
    from wait_enter_child [OF c(1) this, of resume] obtain j k3 where
      j: "wait_resume resume k2 = Some (Returned (int j) k3)" "j < MAX_TASKS" "is_child_zombie k2 j"
        "state (taskQueue k3 j) = READY" by blast
    moreover have "newPID k3 \<noteq> None"
      using j(2,4) by (auto simp: newPID_def first_index_None checkTaskState_def)
    ultimately show ?thesis using pidp by (auto simp: is_child_zombie_def)
  qed
  then show ?thesis using k1(1) run by blast
qed

theorem exit_wakes_waiting_parent_witness:
  "\<exists>k1. exit_mark kernel_fam = Some k1 \<and> state (taskQueue k1 1) = RUNNING"
  using exit_wakes_waiting_parent [OF cur_ok_fam, of 1] by (auto simp: MAX_TASKS_def)

lemma wait_cases:
  assumes "cur_ok k"
  shows "(\<exists>i < MAX_TASKS. is_child_zombie k i) \<longrightarrow>
      (\<exists>j k'. wait_enter resume k = Some (Returned (int j) k') \<and> is_child_zombie k j
         \<and> state (taskQueue k' j) = READY \<and> (\<forall>m. m \<noteq> j \<longrightarrow> taskQueue k' m = taskQueue k m))"
    and "\<not> (\<exists>i < MAX_TASKS. is_child_zombie k i) \<longrightarrow>
      (\<exists>k'. wait_enter resume k = Some (Blocked k') \<and> state (taskQueue k' (currentTask k)) = WAIT
         \<and> ((\<exists>p < MAX_TASKS. p \<noteq> currentTask k \<and> state (taskQueue k p) = RUNNING) \<longrightarrow>
              state (cur k') = RUNNING))"
proof -
  show "(\<exists>i < MAX_TASKS. is_child_zombie k i) \<longrightarrow>
      (\<exists>j k'. wait_enter resume k = Some (Returned (int j) k') \<and> is_child_zombie k j
         \<and> state (taskQueue k' j) = READY \<and> (\<forall>m. m \<noteq> j \<longrightarrow> taskQueue k' m = taskQueue k m))"
    using wait_enter_child by blast
  let ?k = "upd_task (currentTask k) (\<lambda>t. t\<lparr>state := WAIT\<rparr>) k"
  have ok: "cur_ok ?k" using assms by (simp add: cur_ok_def)
  from schedule_round_robin [OF this, of resume] obtain k' where
    k': "schedule resume ?k = Some k'" "currentTask k' = next_task (taskQueue ?k) (currentTask k)"
      "\<forall>i. state (taskQueue k' i) = state (taskQueue ?k i)" by auto
  have "state (cur k') = RUNNING"
    if "p < MAX_TASKS" "p \<noteq> currentTask k" "state (taskQueue k p) = RUNNING" for p
  proof -
    have "state (taskQueue ?k (next_task (taskQueue ?k) (currentTask k))) = RUNNING"
      by (rule next_task_running [of p]) (use that in simp_all)
    then show ?thesis using k'(2,3) by simp
  qed
  then show "\<not> (\<exists>i < MAX_TASKS. is_child_zombie k i) \<longrightarrow>
      (\<exists>k'. wait_enter resume k = Some (Blocked k') \<and> state (taskQueue k' (currentTask k)) = WAIT
         \<and> ((\<exists>p < MAX_TASKS. p \<noteq> currentTask k \<and> state (taskQueue k p) = RUNNING) \<longrightarrow>
              state (cur k') = RUNNING))"
    using k' by (auto simp: wait_enter_def wait_block_def first_index_None [THEN iffD2])
qed

text \<open>C19: \<open>wait\<close> never misses a dead child: with a ZOMBIE child in the table it returns at once
  with one, touching no other slot; with none it blocks: the caller is in state WAIT and
  \<open>schedule\<close> has chosen a RUNNING task if there is one.\<close>

theorem wait_returns_or_blocks:
  assumes "cur_ok k"
  shows "((\<exists>i < MAX_TASKS. is_child_zombie k i) \<longrightarrow>
      (\<exists>j k'. wait_enter resume k = Some (Returned (int j) k') \<and> is_child_zombie k j
         \<and> state (taskQueue k' j) = READY \<and> (\<forall>m. m \<noteq> j \<longrightarrow> taskQueue k' m = taskQueue k m)))
    \<and> (\<not> (\<exists>i < MAX_TASKS. is_child_zombie k i) \<longrightarrow>
      (\<exists>k'. wait_enter resume k = Some (Blocked k') \<and> state (taskQueue k' (currentTask k)) = WAIT
         \<and> ((\<exists>p < MAX_TASKS. p \<noteq> currentTask k \<and> state (taskQueue k p) = RUNNING) \<longrightarrow>
              state (cur k') = RUNNING)))"
  using wait_cases [OF assms, of resume] by blast

theorem wait_returns_or_blocks_witness:
  "\<exists>k'. wait_enter 0x500 kernel_fam = Some (Blocked k') \<and> state (taskQueue k' 2) = WAIT
     \<and> state (cur k') = RUNNING"
proof -
  have "\<not> (\<exists>i < MAX_TASKS. is_child_zombie kernel_fam i)" by (simp add: is_child_zombie_def)
  moreover have "\<exists>p < MAX_TASKS. p \<noteq> currentTask kernel_fam \<and> state (taskQueue kernel_fam p) = RUNNING"
    by (intro exI [of _ 5]) (simp add: MAX_TASKS_def)
  ultimately show ?thesis using wait_returns_or_blocks [OF cur_ok_fam, of "0x500"] by auto
qed

section \<open>Sleeping\<close>

lemma ticks_of:
  "i < MAX_TASKS \<Longrightarrow> taskQueue ((taskTimer ^^ n) k) i = (tick_task ^^ n) (taskQueue k i)"
  by (induction n) (simp_all add: taskTimer_queue)

lemma tick_task_counts:
  "state t = HANG \<Longrightarrow> int n < time t \<Longrightarrow> (tick_task ^^ n) t = t\<lparr>time := time t - int n\<rparr>"
proof (induction n)
  case (Suc n)
  then show ?case by (simp add: tick_task_def Let_def)
qed simp

lemma tick_task_running: "state t \<noteq> HANG \<Longrightarrow> (tick_task ^^ n) t = t"
  by (induction n) (simp_all add: tick_task_def)

lemma tick_task_wakes:
  assumes "state t = HANG" and "0 < time t" and "time t \<le> int n"
  shows "(tick_task ^^ n) t = t\<lparr>time := 0, state := RUNNING\<rparr>"
proof -
  let ?m = "nat (time t - 1)"
  have "(tick_task ^^ ?m) t = t\<lparr>time := 1\<rparr>"
    using tick_task_counts [OF assms(1), of ?m] assms(2) by simp
  then have step: "(tick_task ^^ Suc ?m) t = t\<lparr>time := 0, state := RUNNING\<rparr>"
    using assms(1) by (simp add: tick_task_def Let_def)
  have "n = (n - Suc ?m) + Suc ?m" using assms(2,3) by simp
  then have "(tick_task ^^ n) t = (tick_task ^^ (n - Suc ?m)) ((tick_task ^^ Suc ?m) t)"
    by (metis comp_apply funpow_add)
  then show ?thesis unfolding step by (simp add: tick_task_running)
qed

lemma tick_task_never: "state t = HANG \<Longrightarrow> time t < 0 \<Longrightarrow> (tick_task ^^ n) t = t"
  by (induction n) (simp_all add: tick_task_def)

text \<open>A task that calls \<open>sleep(s)\<close> stays in state HANG for exactly the next \<open>s\<close> calls of
  \<open>taskTimer\<close> (one per second) and is RUNNING from then on, for every \<open>0 < s < 2 ^ 31\<close>; for
  \<open>s \<ge> 2 ^ 31\<close>, whose \<open>int\<close> value is negative, it never wakes.\<close>

theorem sleep_wakes_after:
  assumes "cur_ok k" and "seconds \<noteq> 0"
  shows "\<exists>k'. sleep resume seconds k = Some (Blocked k')
    \<and> (\<forall>n. state (taskQueue ((taskTimer ^^ n) k') (currentTask k)) =
         (if uint seconds < 2 ^ 31 \<and> uint seconds \<le> int n then RUNNING else HANG))"
proof -
  let ?k = "upd_task (currentTask k) (\<lambda>t. t\<lparr>time := to_int32 (uint seconds), state := HANG\<rparr>) k"
  have ok: "cur_ok ?k" and c: "currentTask k < MAX_TASKS" using assms(1) by (simp_all add: cur_ok_def)
  from schedule_eq [OF ok, of resume] obtain k' where k': "schedule resume ?k = Some k'"
    "\<exists>r. taskQueue k' (currentTask k) = (cur ?k)\<lparr>regs := r\<rparr>" by auto
  then obtain r where r: "taskQueue k' (currentTask k) = (cur ?k)\<lparr>regs := r\<rparr>" by blast
  have t: "state (taskQueue k' (currentTask k)) = HANG"
    "time (taskQueue k' (currentTask k)) = to_int32 (uint seconds)" by (simp_all add: r)
  have pos: "0 < uint seconds" using assms(2) by (metis order_le_less uint_0_iff uint_ge_0)
  have "state (taskQueue ((taskTimer ^^ n) k') (currentTask k)) =
      (if uint seconds < 2 ^ 31 \<and> uint seconds \<le> int n then RUNNING else HANG)" for n
  proof (cases "uint seconds < 2 ^ 31")
    case True
    then have "to_int32 (uint seconds) = uint seconds" using pos by (intro to_int32_id) simp_all
    then show ?thesis
      using t pos True tick_task_counts [OF t(1), of n] tick_task_wakes [OF t(1), of n]
      by (auto simp: ticks_of [OF c] not_le)
  next
    case False
    have "uint seconds < 2 ^ 32" using uint_lt2p [of seconds] by simp
    then have "uint seconds div 2 ^ 31 = 1" using False by (intro int_div_pos_eq [of _ _ _ "uint seconds - 2 ^ 31"]) simp_all
    then have "to_int32 (uint seconds) < 0"
      unfolding to_int32_def by (intro signed_take_bit_negative_iff [THEN iffD2]) (simp add: bit_iff_odd)
    then show ?thesis using t False tick_task_never [OF t(1), of n] by (simp add: ticks_of [OF c])
  qed
  then show ?thesis using k'(1) assms(2) by (auto simp: sleep_def)
qed

theorem sleep_wakes_after_witness:
  "\<exists>k'. sleep 0x500 3 kernel_fam = Some (Blocked k') \<and> state (taskQueue ((taskTimer ^^ 2) k') 2) = HANG
     \<and> state (taskQueue ((taskTimer ^^ 3) k') 2) = RUNNING"
proof -
  obtain k' where k': "sleep 0x500 3 kernel_fam = Some (Blocked k')"
    "\<forall>n. state (taskQueue ((taskTimer ^^ n) k') 2) = (if (3::int) \<le> int n then RUNNING else HANG)"
    using sleep_wakes_after [OF cur_ok_fam, of 3 "0x500"] by auto
  have "state (taskQueue ((taskTimer ^^ 2) k') 2) = HANG" "state (taskQueue ((taskTimer ^^ 3) k') 2) = RUNNING"
    by (subst k'(2) [THEN spec], simp)+
  then show ?thesis using k'(1) by blast
qed

section \<open>Killing\<close>

text \<open>\<open>kill\<close> of any pid in the table, whatever the slot's state, marks the slot ZOMBIE and
  returns 1; in particular a free slot is lost to \<open>newPID\<close> although no task lives in it. A pid
  outside the table is not refused: the code writes outside \<open>taskQueue\<close>.\<close>

theorem kill_marks_any_slot:
  assumes "\<And>i. ppid (taskQueue k i) < MAX_TASKS"
  shows "(0 \<le> p \<and> p < int MAX_TASKS \<longrightarrow>
      (\<exists>k'. kill p k = Some (1, k') \<and> state (taskQueue k' (nat p)) = ZOMBIE \<and> newPID k' \<noteq> Some (nat p)))
    \<and> (\<not> (0 \<le> p \<and> p < int MAX_TASKS) \<longrightarrow> kill p k = None)"
proof (cases "0 \<le> p \<and> p < int MAX_TASKS")
  case True
  let ?i = "nat p"
  let ?k1 = "reparent ?i (upd_task ?i (\<lambda>t. t\<lparr>state := ZOMBIE\<rparr>) k)"
  let ?k2 = "wake_waiting (ppid (taskQueue ?k1 ?i)) ?k1"
  have "ppid (taskQueue ?k1 ?i) < MAX_TASKS" using assms by (simp add: reparent_queue)
  then have "kill p k = Some (1, ?k2)" using True by (simp add: kill_def Let_def)
  moreover have z: "state (taskQueue ?k2 ?i) = ZOMBIE" by simp
  moreover have "newPID ?k2 \<noteq> Some ?i" using z newPID_Some by fastforce
  ultimately show ?thesis using True by auto
next
  case False
  then show ?thesis by (auto simp: kill_def)
qed

theorem kill_marks_any_slot_witness:
  "\<exists>k'. kill 9 kernel_fam = Some (1, k') \<and> state (taskQueue k' 9) = ZOMBIE
     \<and> state (taskQueue kernel_fam 9) = READY"
proof -
  have "ppid (taskQueue kernel_fam i) < MAX_TASKS" for i by (simp add: MAX_TASKS_def)
  from kill_marks_any_slot [OF this, of 9] obtain k' where
    "kill 9 kernel_fam = Some (1, k')" "state (taskQueue k' (nat 9)) = ZOMBIE" by (auto simp: MAX_TASKS_def)
  then show ?thesis by auto
qed

end
