(* ===== verification/Terminal.thy ===== *)
theory Terminal
  imports CStrings
begin

text \<open>
  The text console of \<^verbatim>\<open>sys/kprintf.c\<close>: the cursor, scrolling, erasing and the formatted output
  of \<open>kprintf\<close>. Video memory is a map from byte offsets, relative to \<open>kernbase + videomem\<close>,
  to characters: offset \<open>160 * r + 2 * c\<close> is the character at row \<open>r\<close>, column \<open>c\<close>, the odd
  offset after it its attribute. \<open>temp2\<close> is the C pointer as such an offset. The theorems bound
  every write, describe scrolling, and compare the number formats with the numerals
  they should print.
\<close>

definition maxwidth :: int where "maxwidth = 80"
definition maxheight :: int where "maxheight = 24"

type_synonym vmem = "int \<Rightarrow> char"

record terminal =
  toLeft :: int
  numLines :: int
  temp2 :: int
  video :: vmem

section \<open>The operations\<close>

definition clear_cell :: "int \<times> vmem \<Rightarrow> int \<times> vmem" where
  "clear_cell = (\<lambda>(p, m). (p + 2, m(p := CHR '' '', p - 1 := CHR 0x07)))"

definition clearScreen :: "terminal \<Rightarrow> terminal" where
  "clearScreen t =
     (let (_, m) = fold (\<lambda>i. fold (\<lambda>j. clear_cell) [0..<80]) [0..<25] (0, video t)
      in t\<lparr>video := m, temp2 := 0, toLeft := 0, numLines := 0\<rparr>)"

definition roll_row :: "int \<Rightarrow> vmem \<Rightarrow> vmem" where
  "roll_row i m = fold (\<lambda>j m. m(i * (maxwidth * 2) + 2 * int j := m ((i + 1) * (maxwidth * 2) + 2 * int j))) [0..<80] m"

definition blank_row :: "int \<Rightarrow> vmem \<Rightarrow> vmem" where
  "blank_row i m = fold (\<lambda>j m. m(i * (maxwidth * 2) + 2 * int j := NUL)) [0..<80] m"

text \<open>\<open>rollUP\<close> works on a local \<open>temp2\<close>: the cursor stays.\<close>

definition rollUP :: "terminal \<Rightarrow> terminal" where
  "rollUP t = t\<lparr>video := blank_row (maxheight - 1) (fold (\<lambda>i. roll_row (int i)) [0..<24] (video t))\<rparr>"

text \<open>The test at the end of \<open>writeToSbush\<close>.\<close>

definition wrap_line :: "terminal \<Rightarrow> terminal" where
  "wrap_line t =
     (if toLeft t = 79 \<and> numLines t = maxheight - 1
      then (rollUP t)\<lparr>temp2 := maxwidth * 2 * 22, toLeft := 0\<rparr>
      else if toLeft t = 79 \<and> numLines t \<noteq> maxheight - 1
      then t\<lparr>numLines := numLines t + 1, toLeft := 0\<rparr>
      else t\<lparr>toLeft := toLeft t + 1\<rparr>)"

definition writeToSbush :: "char \<Rightarrow> terminal \<Rightarrow> terminal" where
  "writeToSbush ch t =
     (if ch = NL then
        (let t = t\<lparr>temp2 := 2 * max 0 (maxwidth * (numLines t + 1))\<rparr>;
             t = (if numLines t = maxheight - 1 then rollUP t else t\<lparr>numLines := numLines t + 1\<rparr>)
         in t\<lparr>toLeft := 0\<rparr>)
      else if ch = CR then
        wrap_line (t\<lparr>temp2 := 2 * max 0 (maxwidth * numLines t), toLeft := 0\<rparr>)
      else
        wrap_line (t\<lparr>video := (video t)(temp2 t := ch), temp2 := temp2 t + 2\<rparr>))"

definition backspace :: "terminal \<Rightarrow> terminal" where
  "backspace t =
     (if toLeft t = 0 then t
      else (let t = t\<lparr>toLeft := toLeft t - 1, temp2 := temp2 t - 2\<rparr>;
                t = writeToSbush (CHR '' '') t
            in t\<lparr>toLeft := toLeft t - 1, temp2 := temp2 t - 2\<rparr>))"

definition write_string :: "string \<Rightarrow> terminal \<Rightarrow> terminal" where
  "write_string s t = fold writeToSbush s t"

section \<open>Formatted output\<close>

text \<open>The variadic arguments; reading one as another type is undefined.\<close>

datatype arg = ArgInt int | ArgChar int | ArgStr string | ArgPtr u64

text \<open>The loop of \<^verbatim>\<open>%d\<close>, from the offset 10 * 5 that the code starts with.\<close>

fun d_loop :: "int \<Rightarrow> nat \<Rightarrow> bool \<Rightarrow> string" where
  "d_loop intVal offset zeroes =
     (if offset = 0 then []
      else (let modVal = cdiv intVal (int offset) in
        if zeroes \<and> modVal = 0 then d_loop intVal (offset div 10) zeroes
        else i2c (48 + modVal) # d_loop (cmod intVal (int offset)) (offset div 10) False))"

declare d_loop.simps [simp del]

definition d_text :: "int \<Rightarrow> string" where
  "d_text intVal =
     (let zero = (if intVal = 0 then ''0'' else []);
          (sign, intVal) = (if intVal < 0 then (''-'', to_int32 (intVal * -1)) else ([], intVal))
      in zero @ sign @ d_loop intVal (10 * 5) True)"

text \<open>The digits of \<^verbatim>\<open>%x\<close> (a signed argument) and of \<^verbatim>\<open>%p\<close> (an unsigned one), lowest first.\<close>

definition hex_char :: "int \<Rightarrow> char" where
  "hex_char r = (if r \<le> 9 then i2c (48 + r) else i2c (65 + (r - 10)))"

lemma cdiv_shrinks: "x \<noteq> 0 \<Longrightarrow> nat \<bar>cdiv x 16\<bar> < nat \<bar>x\<bar>"
proof -
  assume "x \<noteq> 0"
  then have "\<bar>cdiv x 16\<bar> = \<bar>x\<bar> div 16" by (simp add: cdiv_def abs_mult abs_sgn_eq)
  then show ?thesis using \<open>x \<noteq> 0\<close> by simp
qed

lemma cdiv_shrinks_int: "x \<noteq> 0 \<Longrightarrow> \<bar>cdiv x 16\<bar> < \<bar>x\<bar>"
  using cdiv_shrinks [of x] by simp

function x_digits :: "int \<Rightarrow> string" where
  "x_digits intVal = (if intVal = 0 then [] else hex_char (cmod intVal 16) # x_digits (cdiv intVal 16))"
  by auto
termination by (relation "measure (\<lambda>x. nat \<bar>x\<bar>)") (auto intro: cdiv_shrinks_int)

declare x_digits.simps [simp del]

fun p_digits :: "nat \<Rightarrow> string" where
  "p_digits intVal = (if intVal = 0 then [] else hex_char (int (intVal mod 16)) # p_digits (intVal div 16))"

declare p_digits.simps [simp del]

definition x_text :: "int \<Rightarrow> string" where
  "x_text intVal = rev (x_digits intVal)"

definition p_text :: "u64 \<Rightarrow> string" where
  "p_text intVal = ''0x'' @ rev (p_digits (unat intVal))"

text \<open>What one conversion prints; \<open>None\<close> when the argument is missing or of another type.
  A character that names no conversion is printed by the next round of the loop.\<close>

definition conversion :: "char \<Rightarrow> arg list \<Rightarrow> (string \<times> arg list) option" where
  "conversion c va = (case va of
      ArgInt i # va' \<Rightarrow> (if c = CHR ''d'' then Some (d_text i, va') else if c = CHR ''x'' then Some (x_text i, va') else None)
    | ArgChar i # va' \<Rightarrow> (if c = CHR ''c'' then Some ([i2c i], va') else None)
    | ArgStr s # va' \<Rightarrow> (if c = CHR ''s'' then Some (s, va') else None)
    | ArgPtr p # va' \<Rightarrow> (if c = CHR ''p'' then Some (p_text p, va') else None)
    | [] \<Rightarrow> None)"

fun format :: "string \<Rightarrow> arg list \<Rightarrow> string option" where
  "format [] va = Some []"
| "format (c # s) va =
     (if c = CHR 0x5C \<and> s \<noteq> [] \<and> hd s = CHR ''n'' then map_option (Cons NL) (format (tl s) va)
      else if c = CHR 0x5C \<and> s \<noteq> [] \<and> hd s = CHR ''r'' then map_option (Cons CR) (format (tl s) va)
      else if c \<noteq> CHR ''%'' then map_option (Cons c) (format s va)
      else if s \<noteq> [] \<and> hd s \<in> set ''dcsxp'' then do {
        (out, va) \<leftarrow> conversion (hd s) va;
        rest \<leftarrow> format (tl s) va;
        Some (out @ rest)
      }
      else format s va)"

definition kprintf :: "string \<Rightarrow> arg list \<Rightarrow> terminal \<Rightarrow> terminal option" where
  "kprintf fmt va t = map_option (\<lambda>s. write_string s t) (format fmt va)"

section \<open>Scrolling\<close>

lemma roll_row_upto:
  "n \<le> 80 \<Longrightarrow> fold (\<lambda>j m. m(i * (maxwidth * 2) + 2 * int j := m ((i + 1) * (maxwidth * 2) + 2 * int j))) [0..<n] m =
     (\<lambda>a. if \<exists>j < n. a = 160 * i + 2 * int j then m (a + 160) else m a)"
proof (induction n)
  case (Suc n)
  have "\<not> (\<exists>j < n. (i + 1) * (maxwidth * 2) + 2 * int n = 160 * i + 2 * int j)" using Suc.prems by (auto simp: maxwidth_def)
  then show ?case using Suc by (auto simp: fun_eq_iff less_Suc_eq maxwidth_def algebra_simps)
qed simp

text \<open>The characters of row \<open>i\<close>.\<close>

lemma row_cell: "(\<exists>j < (80::nat). a = 160 * i + 2 * int j) \<longleftrightarrow> even a \<and> a div 160 = i"
proof
  assume "even a \<and> a div 160 = i"
  moreover from this have "even (a mod 160)" by (simp add: dvd_mod)
  ultimately have "a = 160 * i + 2 * int (nat (a mod 160 div 2))" by auto
  moreover have "nat (a mod 160 div 2) < 80" by auto
  ultimately show "\<exists>j < (80::nat). a = 160 * i + 2 * int j" by blast
qed auto

lemma roll_row_eq: "roll_row i m = (\<lambda>a. if even a \<and> a div 160 = i then m (a + 160) else m a)"
  using roll_row_upto [of 80 i m] unfolding roll_row_def row_cell by simp

lemma roll_rows:
  "fold (\<lambda>i. roll_row (int i)) [0..<n] m =
     (\<lambda>a. if even a \<and> 0 \<le> a div 160 \<and> a div 160 < int n then m (a + 160) else m a)"
proof (induction n)
  case (Suc n)
  have "(a + 160) div 160 = a div 160 + 1" for a :: int by simp
  then show ?case using Suc by (auto simp: fun_eq_iff roll_row_eq)
qed (auto simp: fun_eq_iff)

lemma blank_row_eq: "blank_row i m = (\<lambda>a. if even a \<and> a div 160 = i then NUL else m a)"
proof -
  have "fold (\<lambda>j m. m(i * (maxwidth * 2) + 2 * int j := NUL)) [0..<n] m =
     (\<lambda>a. if \<exists>j < n. a = 160 * i + 2 * int j then NUL else m a)" for n
    by (induction n) (auto simp: fun_eq_iff less_Suc_eq maxwidth_def)
  from this [of 80] show ?thesis unfolding blank_row_def row_cell .
qed

lemma rollUP_video:
  "video (rollUP t) = (\<lambda>a. if even a \<and> 0 \<le> a \<and> a < 3680 then video t (a + 160)
     else if even a \<and> 3680 \<le> a \<and> a < 3840 then NUL else video t a)"
proof -
  have "a div 160 = 23 \<longleftrightarrow> 3680 \<le> a \<and> a < 3840" for a :: int by presburger
  moreover have "0 \<le> a div 160 \<and> a div 160 < 24 \<longleftrightarrow> 0 \<le> a \<and> a < 3840" for a :: int by presburger
  ultimately show ?thesis
    by (auto simp: rollUP_def blank_row_eq roll_rows maxheight_def fun_eq_iff)
qed

lemma rollUP_simps [simp]:
  "toLeft (rollUP t) = toLeft t" "numLines (rollUP t) = numLines t" "temp2 (rollUP t) = temp2 t"
  by (simp_all add: rollUP_def)

section \<open>Where the console writes\<close>

text \<open>The cursor lies on row \<open>r\<close>, \<open>e\<close> columns left of \<open>toLeft\<close>. Once the screen is full a newline
  puts the cursor on row 24, a wrapped line on row 22; a carriage return leaves \<open>toLeft\<close> one ahead.\<close>

definition cursor_ok :: "int \<Rightarrow> terminal \<Rightarrow> bool" where
  "cursor_ok e t \<longleftrightarrow> 0 \<le> toLeft t \<and> toLeft t \<le> 79 \<and> 0 \<le> numLines t \<and> numLines t \<le> 23
     \<and> (\<exists>r. temp2 t = 160 * r + 2 * toLeft t - 2 * e
          \<and> (r = numLines t \<or> numLines t = 23 \<and> (r = 22 \<or> r = 24))
          \<and> (r = 0 \<longrightarrow> e \<le> toLeft t))"

text \<open>The cells of the 25 by 80 text screen that hold characters.\<close>

definition full_screen :: terminal where
  "full_screen = \<lparr>toLeft = 0, numLines = 23, temp2 = 3840, video = (\<lambda>_. CHR '' '')\<rparr>"

definition text_cell :: "int \<Rightarrow> bool" where
  "text_cell a \<longleftrightarrow> 0 \<le> a \<and> a < 4000 \<and> even a"

definition same_outside :: "terminal \<Rightarrow> terminal \<Rightarrow> bool" where
  "same_outside t t' \<longleftrightarrow> (\<forall>a. \<not> text_cell a \<longrightarrow> video t' a = video t a)"

lemma same_outside_refl [simp]: "same_outside t t"
  by (simp add: same_outside_def)

lemma same_outside_trans: "same_outside t u \<Longrightarrow> same_outside u v \<Longrightarrow> same_outside t v"
  by (simp add: same_outside_def)

lemma same_outside_roll: "same_outside t (rollUP t)"
  by (auto simp: same_outside_def rollUP_video text_cell_def)

lemma wrap_line_ok:
  assumes "0 \<le> toLeft t" "toLeft t \<le> 79" "0 \<le> numLines t" "numLines t \<le> 23" "0 \<le> e" "e \<le> 1"
    and t2: "temp2 t = 160 * r + 2 * toLeft t + 2 - 2 * e"
    and r: "r = numLines t \<or> numLines t = 23 \<and> (r = 22 \<or> r = 24)"
  shows "\<exists>e'. 0 \<le> e' \<and> e' \<le> e \<and> cursor_ok e' (wrap_line t)" and "same_outside t (wrap_line t)"
proof -
  show "same_outside t (wrap_line t)"
    using same_outside_roll [of t] by (simp add: wrap_line_def same_outside_def)
  show "\<exists>e'. 0 \<le> e' \<and> e' \<le> e \<and> cursor_ok e' (wrap_line t)"
  proof (cases "toLeft t = 79")
    case False
    then have "cursor_ok e (wrap_line t)"
      using assms by (auto simp: cursor_ok_def wrap_line_def intro!: exI [of _ r])
    then show ?thesis using assms(5) by blast
  next
    case True
    show ?thesis
    proof (cases "numLines t = 23")
      case full: True
      then have "cursor_ok 0 (wrap_line t)"
        using True by (auto simp: cursor_ok_def wrap_line_def maxwidth_def maxheight_def intro!: exI [of _ 22])
      then show ?thesis using assms(5) by blast
    next
      case False
      then have "cursor_ok e (wrap_line t)"
        using True assms by (auto simp: cursor_ok_def wrap_line_def maxheight_def intro!: exI [of _ "r + 1"])
      then show ?thesis using assms(5) by blast
    qed
  qed
qed

lemma write_ok:
  assumes ok: "cursor_ok e t" and e: "0 \<le> e" "e \<le> 1"
  shows "\<exists>e'. 0 \<le> e' \<and> e' \<le> (if ch = CR then 1 else e) \<and> cursor_ok e' (writeToSbush ch t)"
    and "same_outside t (writeToSbush ch t)"
proof -
  obtain r where r: "temp2 t = 160 * r + 2 * toLeft t - 2 * e" "r = numLines t \<or> numLines t = 23 \<and> (r = 22 \<or> r = 24)"
      "r = 0 \<longrightarrow> e \<le> toLeft t"
    and b: "0 \<le> toLeft t" "toLeft t \<le> 79" "0 \<le> numLines t" "numLines t \<le> 23"
    using ok by (auto simp: cursor_ok_def)
  have "(\<exists>e'. 0 \<le> e' \<and> e' \<le> (if ch = CR then 1 else e) \<and> cursor_ok e' (writeToSbush ch t))
    \<and> same_outside t (writeToSbush ch t)"
  proof (cases "ch = NL \<or> ch = CR")
    case False
    let ?u = "t\<lparr>video := (video t)(temp2 t := ch), temp2 := temp2 t + 2\<rparr>"
    have eq: "writeToSbush ch t = wrap_line ?u" using False by (simp add: writeToSbush_def)
    have "text_cell (temp2 t)" using r b e by (auto simp: text_cell_def)
    then have "same_outside t ?u" by (auto simp: same_outside_def)
    then show ?thesis
      using wrap_line_ok [of ?u e r] r b e same_outside_trans False unfolding eq by auto
  next
    case True
    show ?thesis
    proof (cases "ch = CR")
      case True
      let ?u = "t\<lparr>temp2 := 2 * max 0 (maxwidth * numLines t), toLeft := 0\<rparr>"
      have eq: "writeToSbush ch t = wrap_line ?u" using True by (simp add: writeToSbush_def)
      show ?thesis using wrap_line_ok [of ?u 1 "numLines t"] b True unfolding eq
        by (auto simp: maxwidth_def same_outside_def)
    next
      case False
      then have "cursor_ok 0 (writeToSbush ch t) \<and> same_outside t (writeToSbush ch t)"
        using True b same_outside_roll [of t]
        by (auto simp: writeToSbush_def cursor_ok_def Let_def maxwidth_def maxheight_def same_outside_def rollUP_def
            intro!: exI [of _ "numLines t + 1"])
      then show ?thesis using e by auto
    qed
  qed
  then show "\<exists>e'. 0 \<le> e' \<and> e' \<le> (if ch = CR then 1 else e) \<and> cursor_ok e' (writeToSbush ch t)"
    and "same_outside t (writeToSbush ch t)" by blast+
qed

lemma backspace_ok:
  assumes ok: "cursor_ok 0 t"
  shows "cursor_ok 0 (backspace t) \<and> same_outside t (backspace t)"
proof (cases "toLeft t = 0")
  case True
  then show ?thesis using ok by (simp add: backspace_def)
next
  case False
  obtain r where r: "temp2 t = 160 * r + 2 * toLeft t" "r = numLines t \<or> numLines t = 23 \<and> (r = 22 \<or> r = 24)"
    and b: "0 \<le> toLeft t" "toLeft t \<le> 79" "0 \<le> numLines t" "numLines t \<le> 23"
    using ok by (auto simp: cursor_ok_def)
  have eq: "backspace t = t\<lparr>toLeft := toLeft t - 1, temp2 := temp2 t - 2, video := (video t)(temp2 t - 2 := CHR '' '')\<rparr>"
    using False b by (simp add: backspace_def writeToSbush_def wrap_line_def Let_def)
  have "text_cell (temp2 t - 2)" using r b False by (auto simp: text_cell_def)
  then show ?thesis using r b False unfolding eq by (auto simp: cursor_ok_def same_outside_def)
qed

text \<open>A sequence of console operations: \<open>Some ch\<close> prints a character, \<open>None\<close> erases one.\<close>

definition console_op :: "char option \<Rightarrow> terminal \<Rightarrow> terminal" where
  "console_op op t = (case op of Some ch \<Rightarrow> writeToSbush ch t | None \<Rightarrow> backspace t)"

lemma console_ops_ok:
  assumes "cursor_ok e t" "0 \<le> e" "e \<le> 1" and "None \<notin> set ops \<or> e = 0 \<and> Some CR \<notin> set ops"
  shows "(\<exists>e'. 0 \<le> e' \<and> e' \<le> 1 \<and> cursor_ok e' (fold console_op ops t)) \<and> same_outside t (fold console_op ops t)"
  using assms
proof (induction ops arbitrary: e t)
  case Nil
  then show ?case by auto
next
  case (Cons op ops)
  have step: "(\<exists>e'. 0 \<le> e' \<and> e' \<le> 1 \<and> cursor_ok e' (console_op op t) \<and> (None \<notin> set ops \<or> e' = 0 \<and> Some CR \<notin> set ops))
      \<and> same_outside t (console_op op t)"
  proof (cases op)
    case None
    then show ?thesis using Cons.prems backspace_ok [of t] by (auto simp: console_op_def intro: exI [of _ 0])
  next
    case (Some ch)
    obtain e' where "0 \<le> e'" "e' \<le> (if ch = CR then 1 else e)" "cursor_ok e' (writeToSbush ch t)"
      using write_ok(1) [OF Cons.prems(1-3), of ch] by blast
    moreover have "same_outside t (writeToSbush ch t)" by (rule write_ok(2) [OF Cons.prems(1-3)])
    ultimately show ?thesis using Some Cons.prems by (auto simp: console_op_def split: if_splits intro!: exI [of _ e'])
  qed
  then obtain e' where e': "0 \<le> e'" "e' \<le> 1" "cursor_ok e' (console_op op t)"
      "None \<notin> set ops \<or> e' = 0 \<and> Some CR \<notin> set ops" by blast
  from Cons.IH [OF e'(3,1,2,4)] step show ?case using same_outside_trans by auto
qed

lemma clearScreen_cursor: "cursor_ok 0 (clearScreen t)"
  by (simp add: clearScreen_def cursor_ok_def split_beta)

text \<open>C25: after \<open>clearScreen\<close>, whatever is printed and erased, the cursor stays within the screen
  and the console writes only the character cells of the 25 text rows: no attribute byte and no
  memory outside video memory. For sequences that erase, this needs that no carriage return
  is printed (a carriage return leaves the column count one ahead of the cursor, so that
  erasing can then leave the screen).\<close>

theorem console_stays_on_screen:
  assumes "None \<notin> set ops \<or> Some CR \<notin> set ops"
    and "t' = fold console_op ops (clearScreen t)"
  shows "0 \<le> numLines t' \<and> numLines t' \<le> 23 \<and> 0 \<le> toLeft t' \<and> toLeft t' \<le> 79
    \<and> 0 \<le> temp2 t' \<and> temp2 t' < 4000
    \<and> (\<forall>a. video t' a \<noteq> video (clearScreen t) a \<longrightarrow> 0 \<le> a \<and> a < 4000 \<and> even a)"
proof -
  obtain e where "0 \<le> e" "e \<le> 1" "cursor_ok e t'" "same_outside (clearScreen t) t'"
    using console_ops_ok [OF clearScreen_cursor, of ops t] assms by auto
  then show ?thesis by (auto simp: cursor_ok_def same_outside_def text_cell_def)
qed

theorem console_stays_on_screen_witness:
  "temp2 (fold console_op [Some (CHR ''a''), None, Some NL] (clearScreen full_screen)) < 4000"
  using console_stays_on_screen [of "[Some (CHR ''a''), None, Some NL]" _ full_screen, OF _ refl] by auto

section \<open>Lines on the screen\<close>

definition plain :: "string \<Rightarrow> bool" where
  "plain s \<longleftrightarrow> NL \<notin> set s \<and> CR \<notin> set s"

text \<open>The video memory with the characters of \<open>s\<close> from offset \<open>p\<close> on.\<close>

fun put_text :: "int \<Rightarrow> string \<Rightarrow> vmem \<Rightarrow> vmem" where
  "put_text p [] m = m"
| "put_text p (c # s) m = put_text (p + 2) s (m(p := c))"

lemma put_text_eq:
  "put_text p s m = (\<lambda>a. if \<exists>j < length s. a = p + 2 * int j then s ! nat ((a - p) div 2) else m a)"
proof (induction s arbitrary: p m)
  case (Cons c s)
  have "(\<exists>j < length (c # s). a = p + 2 * int j) \<longleftrightarrow> a = p \<or> (\<exists>j < length s. a = p + 2 + 2 * int j)" for a
    by (auto simp: less_Suc_eq_0_disj algebra_simps)
  moreover have "nat ((p + 2 + 2 * int j - p) div 2) = Suc (nat ((p + 2 + 2 * int j - (p + 2)) div 2))" for j
    by simp
  ultimately show ?case by (auto simp: Cons.IH fun_eq_iff)
qed simp

lemma put_text_upd: "q < p \<Longrightarrow> put_text p s (m(q := c)) = (put_text p s m)(q := c)"
  by (induction s arbitrary: p m) (simp_all add: fun_upd_twist)

lemma write_string_line:
  "plain s \<Longrightarrow> 0 \<le> toLeft t \<Longrightarrow> toLeft t + int (length s) \<le> 79 \<Longrightarrow>
   write_string s t = t\<lparr>video := put_text (temp2 t) s (video t),
     temp2 := temp2 t + 2 * int (length s), toLeft := toLeft t + int (length s)\<rparr>"
proof (induction s arbitrary: t)
  case (Cons c s)
  let ?u = "t\<lparr>video := (video t)(temp2 t := c), temp2 := temp2 t + 2, toLeft := toLeft t + 1\<rparr>"
  have "writeToSbush c t = ?u" using Cons.prems by (auto simp: writeToSbush_def wrap_line_def plain_def)
  moreover have "write_string s ?u = ?u\<lparr>video := put_text (temp2 ?u) s (video ?u),
     temp2 := temp2 ?u + 2 * int (length s), toLeft := toLeft ?u + int (length s)\<rparr>"
    using Cons.prems by (intro Cons.IH) (simp_all add: plain_def)
  ultimately show ?case by (simp add: write_string_def algebra_simps)
qed (simp add: write_string_def)

lemma backspace_eq:
  "0 < toLeft t \<Longrightarrow> toLeft t \<le> 79 \<Longrightarrow> backspace t =
   t\<lparr>video := (video t)(temp2 t - 2 := CHR '' ''), temp2 := temp2 t - 2, toLeft := toLeft t - 1\<rparr>"
  by (simp add: backspace_def writeToSbush_def wrap_line_def Let_def)

lemma backspaces_eq:
  "int n \<le> toLeft t \<Longrightarrow> toLeft t \<le> 79 \<Longrightarrow> (backspace ^^ n) t =
   t\<lparr>video := put_text (temp2 t - 2 * int n) (replicate n (CHR '' '')) (video t),
     temp2 := temp2 t - 2 * int n, toLeft := toLeft t - int n\<rparr>"
proof (induction n)
  case (Suc n)
  let ?u = "t\<lparr>video := put_text (temp2 t - 2 * int n) (replicate n (CHR '' '')) (video t),
     temp2 := temp2 t - 2 * int n, toLeft := toLeft t - int n\<rparr>"
  have "(backspace ^^ n) t = ?u" using Suc by simp
  then have "(backspace ^^ Suc n) t = backspace ?u" by simp
  also have "\<dots> = ?u\<lparr>video := (video ?u)(temp2 ?u - 2 := CHR '' ''), temp2 := temp2 ?u - 2, toLeft := toLeft ?u - 1\<rparr>"
    using Suc.prems by (intro backspace_eq) simp_all
  finally have eq: "(backspace ^^ Suc n) t = \<dots>" .
  have q: "temp2 t - 2 * int (Suc n) + 2 = temp2 t - 2 * int n"
    "temp2 t - 2 * int n - 2 = temp2 t - 2 * int (Suc n)" "toLeft t - int n - 1 = toLeft t - int (Suc n)" by simp_all
  have "put_text (temp2 t - 2 * int (Suc n)) (replicate (Suc n) (CHR '' '')) m
      = (put_text (temp2 t - 2 * int n) (replicate n (CHR '' '')) m)(temp2 t - 2 * int (Suc n) := CHR '' '')" for m
    by (simp only: replicate_Suc put_text.simps q) (simp add: put_text_upd)
  then show ?case unfolding eq by (simp add: q fun_upd_def)
qed simp

text \<open>Typing on a line and erasing it again: printing a text without control characters that
  fits on the current line puts its characters in consecutive cells, and as many backspaces
  leave blanks there and the cursor and everything else as it was.\<close>

theorem print_then_erase:
  assumes "plain s" and "0 \<le> toLeft t" and "toLeft t + int (length s) \<le> 79"
  shows "(\<forall>j < length s. video (write_string s t) (temp2 t + 2 * int j) = s ! j)
    \<and> (backspace ^^ length s) (write_string s t) =
        t\<lparr>video := put_text (temp2 t) (replicate (length s) (CHR '' '')) (video t)\<rparr>"
proof -
  note w = write_string_line [OF assms]
  have "put_text p (replicate (length s) (CHR '' '')) (put_text p s m) = put_text p (replicate (length s) (CHR '' '')) m" for p m
    by (auto simp: put_text_eq fun_eq_iff)
  moreover have "put_text p s m (p + 2 * int j) = s ! j" if "j < length s" for p m j
    using that by (auto simp: put_text_eq)
  ultimately show ?thesis using backspaces_eq [of "length s" "write_string s t"] assms unfolding w by simp
qed

theorem print_then_erase_witness:
  "video (write_string ''ls'' (clearScreen full_screen)) 2 = CHR ''s''
   \<and> temp2 ((backspace ^^ 2) (write_string ''ls'' (clearScreen full_screen))) = 0"
proof -
  have c: "toLeft (clearScreen full_screen) = 0" "temp2 (clearScreen full_screen) = 0" by (simp_all add: clearScreen_def split_beta)
  have "plain ''ls''" by (simp add: plain_def)
  from print_then_erase [OF this, of "clearScreen full_screen"] show ?thesis using c by (auto simp: numeral_2_eq_2 less_Suc_eq)
qed

subsection \<open>The bottom line\<close>

text \<open>Once the screen is full (row counter 23, cursor at the start of row 24, where a newline
  leaves it), printing a line and a newline moves rows 1 to 22 up and blanks row 23, but the line
  just printed stays where it is and the cursor returns to its start: it never scrolls into
  view and the next line overwrites it.\<close>

theorem bottom_line_lost:
  assumes "plain w" and "length w \<le> 79" and "numLines t = 23" and "temp2 t = 3840" and "toLeft t = 0"
    and "t' = writeToSbush NL (write_string w t)"
  shows "numLines t' = 23 \<and> temp2 t' = 3840 \<and> toLeft t' = 0
    \<and> (\<forall>r c. 0 \<le> r \<and> r < 22 \<and> 0 \<le> c \<and> c < 80 \<longrightarrow> video t' (160 * r + 2 * c) = video t (160 * (r + 1) + 2 * c))
    \<and> (\<forall>c. 0 \<le> c \<and> c < 80 \<longrightarrow> video t' (160 * 23 + 2 * c) = NUL)
    \<and> (\<forall>j < length w. video t' (3840 + 2 * int j) = w ! j)"
proof -
  let ?u = "t\<lparr>video := put_text 3840 w (video t), temp2 := 3840 + 2 * int (length w), toLeft := int (length w)\<rparr>"
  have u: "write_string w t = ?u" using write_string_line [of w t] assms by simp
  have t': "t' = (rollUP (?u\<lparr>temp2 := 3840\<rparr>))\<lparr>toLeft := 0\<rparr>"
    using assms(3,6) unfolding u by (simp add: writeToSbush_def maxheight_def maxwidth_def)
  have top: "put_text 3840 w (video t) a = video t a" if "a < 3840" for a
    using that by (auto simp: put_text_eq)
  have "video t' (160 * r + 2 * c) = video t (160 * (r + 1) + 2 * c)" if "0 \<le> r" "r < 22" "0 \<le> c" "c < 80" for r c
    using that by (simp add: t' rollUP_video top algebra_simps)
  moreover have "video t' (160 * 23 + 2 * c) = NUL" if "0 \<le> c" "c < 80" for c
    using that by (simp add: t' rollUP_video)
  moreover have "video t' (3840 + 2 * int j) = w ! j" if "j < length w" for j
    using that by (auto simp: t' rollUP_video put_text_eq)
  ultimately show ?thesis using assms(3) by (simp add: t')
qed

theorem bottom_line_lost_witness:
  "video (writeToSbush NL (write_string ''lost'' full_screen)) 3840 = CHR ''l''
   \<and> video (writeToSbush NL (write_string ''lost'' full_screen)) 3680 = NUL"
proof -
  have "plain ''lost''" by (simp add: plain_def)
  moreover have fs: "numLines full_screen = 23" "temp2 full_screen = 3840" "toLeft full_screen = 0"
    by (simp_all add: full_screen_def)
  ultimately have b: "(\<forall>c. 0 \<le> c \<and> c < 80 \<longrightarrow> video (writeToSbush NL (write_string ''lost'' full_screen)) (160 * 23 + 2 * c) = NUL)
     \<and> (\<forall>j < length ''lost''. video (writeToSbush NL (write_string ''lost'' full_screen)) (3840 + 2 * int j) = ''lost'' ! j)"
    using bottom_line_lost [of "''lost''" full_screen, OF _ _ fs refl] by simp
  show ?thesis using b [THEN conjunct1, THEN spec [of _ 0]] b [THEN conjunct2, THEN spec [of _ 0]] by simp
qed

section \<open>Number formats\<close>

text \<open>The hexadecimal numeral of a number, highest digit first.\<close>

fun hex_num :: "nat \<Rightarrow> string" where
  "hex_num n = (if n < 16 then [hex_char (int n)] else hex_num (n div 16) @ [hex_char (int (n mod 16))])"

declare hex_num.simps [simp del]

lemma p_digits_hex: "0 < n \<Longrightarrow> rev (p_digits n) = hex_num n"
proof (induction n rule: p_digits.induct)
  case (1 n)
  show ?case
  proof (cases "n < 16")
    case True
    then have "p_digits (n div 16) = []" by (simp add: p_digits.simps)
    then show ?thesis using 1 True by (simp add: p_digits.simps [of n] hex_num.simps [of n])
  next
    case False
    then show ?thesis using 1 by (simp add: p_digits.simps [of n] hex_num.simps [of n])
  qed
qed

lemma x_digits_p: "x_digits (int n) = p_digits n"
proof (induction n rule: p_digits.induct)
  case (1 n)
  then show ?case
    by (cases "n = 0")
      (simp_all add: x_digits.simps [of "int n"] x_digits.simps [of 0] p_digits.simps [of n] p_digits.simps [of 0]
        c_arith zdiv_int zmod_int)
qed

text \<open>\<^verbatim>\<open>%p\<close> prints \<^verbatim>\<open>0x\<close> and the hexadecimal numeral of every non-zero pointer, and
  \<^verbatim>\<open>%x\<close> that of every positive \<^verbatim>\<open>int\<close>; for zero both print no digit at all.\<close>

theorem hex_formats:
  "format ''%p'' [ArgPtr p] = Some (''0x'' @ (if p = 0 then [] else hex_num (unat p)))
   \<and> format ''%x'' [ArgInt (int n)] = Some (if n = 0 then [] else hex_num n)"
proof -
  have "rev (p_digits (unat p)) = (if p = 0 then [] else hex_num (unat p))" 
    using p_digits_hex [of "unat p"] by (auto simp: p_digits.simps unat_gt_0)
  moreover have "rev (x_digits (int n)) = (if n = 0 then [] else hex_num n)" 
    using p_digits_hex [of n] by (auto simp: x_digits_p p_digits.simps)
  ultimately show ?thesis by (simp add: conversion_def p_text_def x_text_def)
qed

text \<open>What \<^verbatim>\<open>%d\<close> prints for a positive number: the loop starts at 50, not at a power of ten.\<close>

lemma d_text_pos:
  "0 < i \<Longrightarrow> d_text i =
     (if 50 \<le> i then [i2c (48 + i div 50), i2c (48 + i mod 50 div 5)]
      else if 5 \<le> i then [i2c (48 + i div 5)] else [])"
proof -
  assume i: "0 < i"
  have "d_loop j 0 z = []" for j z by (simp add: d_loop.simps)
  moreover have "d_loop j 5 z = (if z \<and> j div 5 = 0 then [] else [i2c (48 + j div 5)])" if "0 \<le> j" for j z
    using that calculation by (simp add: d_loop.simps [of j 5] c_arith Let_def)
  ultimately have "d_loop i 50 True = (if i div 50 = 0 then (if i div 5 = 0 then [] else [i2c (48 + i div 5)])
      else [i2c (48 + i div 50), i2c (48 + i mod 50 div 5)])"
    using i by (simp add: d_loop.simps [of i 50] c_arith Let_def)
  moreover have "i div 50 = 0 \<longleftrightarrow> i < 50" "i div 5 = 0 \<longleftrightarrow> i < 5" using i by auto
  ultimately show ?thesis using i by (auto simp: d_text_def)
qed

lemma i2c_digit_inj: "0 \<le> a \<Longrightarrow> a < 10 \<Longrightarrow> 0 \<le> b \<Longrightarrow> b < 10 \<Longrightarrow> i2c (48 + a) = i2c (48 + b) \<longleftrightarrow> a = b"
proof
  assume ab: "0 \<le> a" "a < 10" "0 \<le> b" "b < 10" and "i2c (48 + a) = i2c (48 + b)"
  then have "of_char (i2c (48 + a)) = (of_char (i2c (48 + b)) :: nat)" by simp
  then show "a = b" using ab by (simp add: i2c_def of_char_of nat_eq_iff)
qed simp

lemma dec_str_length:
  "dec_str n \<noteq> []" "10 \<le> n \<Longrightarrow> 2 \<le> length (dec_str n)" "100 \<le> n \<Longrightarrow> 3 \<le> length (dec_str n)"
proof -
  show ne: "dec_str n \<noteq> []" for n by (simp add: dec_str.simps [of n])
  show two: "10 \<le> n \<Longrightarrow> 2 \<le> length (dec_str n)" for n
    using ne [of "n div 10"] by (simp add: dec_str.simps [of n] Suc_le_eq)
  assume "100 \<le> n"
  then have "10 \<le> n div 10" "10 \<le> n" by linarith+
  then show "3 \<le> length (dec_str n)" using two [of "n div 10"] by (simp add: dec_str.simps [of n])
qed

lemma i2c_char_of: "0 \<le> a \<Longrightarrow> a < 10 \<Longrightarrow> i2c (48 + a) = char_of (48 + nat a)"
  by (simp add: i2c_def nat_add_distrib)

text \<open>\<^verbatim>\<open>%d\<close> never prints the decimal numeral of a positive number, because its divisor
  starts at 10 * 5 instead of a power of ten; 0 is the one number it prints correctly.\<close>

theorem d_format_wrong:
  "format ''%d'' [ArgInt 0] = Some ''0''
   \<and> (0 < n \<longrightarrow> format ''%d'' [ArgInt (int n)] \<noteq> Some (dec_str n))"
proof -
  have "d_loop 0 50 True = []" by (simp add: d_loop.simps c_arith)
  then have "d_text 0 = ''0''" by (simp add: d_text_def)
  moreover have "d_text (int n) \<noteq> dec_str n" if n: "0 < n"
  proof
    assume eq: "d_text (int n) = dec_str n"
    note d = d_text_pos [of "int n"]
    consider "n < 5" | "5 \<le> n" "n < 10" | "10 \<le> n" "n < 50" | "50 \<le> n" "n < 100" | "100 \<le> n" by linarith
    then show False
    proof cases
      case 1
      then show False using eq d n dec_str_length(1) [of n] by simp
    next
      case 2
      then have "i2c (48 + int n div 5) = i2c (48 + int n)"
        using eq d by (simp add: dec_str.simps [of n] i2c_char_of [symmetric, of "int n", simplified])
      then show False using 2 i2c_digit_inj [of "int n div 5" "int n"] by simp
    next
      case 3
      then have "length (d_text (int n)) = 1" using d by simp
      then show False using 3 dec_str_length(2) [of n] unfolding eq by simp
    next
      case 4
      then have "n div 10 < 10" "int n div 50 = 1" by auto
      then have "i2c (48 + 1) = i2c (48 + int (n div 10))"
        using eq d 4 by (simp add: dec_str.simps [of n] dec_str.simps [of "n div 10"]
            i2c_char_of [symmetric, of "int (n div 10)", simplified])
      then have "n div 10 = 1" using i2c_digit_inj [of 1 "int (n div 10)"] \<open>n div 10 < 10\<close> by simp
      then show False using 4 by simp
    next
      case 5
      then have "length (d_text (int n)) = 2" using d by simp
      then show False using 5 dec_str_length(3) [of n] unfolding eq by simp
    qed
  qed
  ultimately show ?thesis by (simp add: conversion_def)
qed

theorem d_format_wrong_witness: "format ''%d'' [ArgInt 42] \<noteq> Some (dec_str 42)"
  using d_format_wrong [of 42] by simp

end
