(* ===== verification/Keyboard.thy ===== *)
theory Keyboard
  imports Lifecycle Terminal
begin

text \<open>
  The keyboard of \<^verbatim>\<open>sys/keyboard.c\<close>: scan codes, the shift state, the 4096-byte line buffer
  between the interrupt handler \<open>intWrite\<close> and the reader \<open>intRead\<close>, and the waking of a
  sleeping reader. The byte read from port 0x60 is an argument of the handlers. An access
  outside \<open>code_map\<close> or \<open>inpStr\<close> is a \<open>None\<close> result. The reader and the handler together are
  shown to implement a line discipline: a queue of finished lines and a line being edited.
\<close>

section \<open>State and operations\<close>

text \<open>\<open>rd_offset\<close> is the static \<^verbatim>\<open>offset\<close>, where the reader continues.\<close>

record console =
  caps :: int
  controlValue :: int
  rd_offset :: int
  strOffset :: int
  lineCount :: int
  inpStr :: "int \<Rightarrow> char"
  screen :: terminal

definition code_map :: "(char \<times> char) list" where
  "code_map =
   [(CHR 0x00, CHR 0x00), (CHR 0x00, CHR 0x00), (CHR ''1'', CHR 0x21), (CHR ''2'', CHR 0x40),
    (CHR ''3'', CHR 0x23), (CHR ''4'', CHR 0x24), (CHR ''5'', CHR 0x25), (CHR ''6'', CHR 0x5E),
    (CHR ''7'', CHR 0x26), (CHR ''8'', CHR 0x2A), (CHR ''9'', CHR 0x28), (CHR ''0'', CHR 0x29),
    (CHR 0x2D, CHR 0x5F), (CHR 0x3D, CHR 0x2B), (CHR 0x08, CHR 0x08), (CHR 0x09, CHR 0x09),
    (CHR ''q'', CHR ''Q''), (CHR ''w'', CHR ''W''), (CHR ''e'', CHR ''E''), (CHR ''r'', CHR ''R''),
    (CHR ''t'', CHR ''T''), (CHR ''y'', CHR ''Y''), (CHR ''u'', CHR ''U''), (CHR ''i'', CHR ''I''),
    (CHR ''o'', CHR ''O''), (CHR ''p'', CHR ''P''), (CHR 0x5B, CHR 0x7B), (CHR 0x5D, CHR 0x7D),
    (CHR 0x5E, CHR ''M''), (CHR 0x20, CHR 0x5E), (CHR ''a'', CHR ''A''), (CHR ''s'', CHR ''S''),
    (CHR ''d'', CHR ''D''), (CHR ''f'', CHR ''F''), (CHR ''g'', CHR ''G''), (CHR ''h'', CHR ''H''),
    (CHR ''j'', CHR ''J''), (CHR ''k'', CHR ''K''), (CHR ''l'', CHR ''L''), (CHR 0x3B, CHR 0x3A),
    (CHR 0x27, CHR 0x22), (CHR 0x60, CHR 0x7E), (CHR 0x00, CHR 0x00), (CHR 0x5C, CHR 0x7C),
    (CHR ''z'', CHR ''Z''), (CHR ''x'', CHR ''X''), (CHR ''c'', CHR ''C''), (CHR ''v'', CHR ''V''),
    (CHR ''b'', CHR ''B''), (CHR ''n'', CHR ''N''), (CHR ''m'', CHR ''M''), (CHR 0x2C, CHR 0x3C),
    (CHR 0x2E, CHR 0x3E), (CHR 0x2F, CHR 0x3F), (CHR 0x00, CHR 0x00), (CHR 0x00, CHR 0x00),
    (CHR 0x00, CHR 0x00), (CHR 0x20, CHR 0x20)]"

text \<open>\<^verbatim>\<open>code_map[code][index]\<close>.\<close>

definition key_char :: "int \<Rightarrow> int \<Rightarrow> char option" where
  "key_char code i =
     (if 0 \<le> code \<and> code < 58 \<and> (i = 0 \<or> i = 1)
      then Some ((if i = 0 then fst else snd) (code_map ! nat code)) else None)"

text \<open>\<open>PREG\<close> and \<open>RREG\<close> point into video memory, at row 24, columns 71 and 72.\<close>

definition setPREG :: "int \<Rightarrow> int \<Rightarrow> console \<Rightarrow> console option" where
  "setPREG code i c = do {
     ch \<leftarrow> key_char code i;
     Some (c\<lparr>screen := (screen c)\<lparr>video := (video (screen c))(0xF8E := ch)\<rparr>\<rparr>)
   }"

definition setRREG :: "int \<Rightarrow> int \<Rightarrow> console \<Rightarrow> console option" where
  "setRREG code i c = do {
     ch \<leftarrow> key_char code i;
     Some (c\<lparr>screen := (screen c)\<lparr>video := (video (screen c))(0xF90 := ch)\<rparr>\<rparr>)
   }"

definition kb :: "u8 \<Rightarrow> console \<Rightarrow> console option" where
  "kb port c =
     (let code = uint port in
      if code = 28 then do { c \<leftarrow> setPREG code 0 c; setRREG code 1 c }
      else if code = 29 then do {
        let c = c\<lparr>controlValue := 1\<rparr>;
        c \<leftarrow> setPREG code (controlValue c) c;
        setPREG code (controlValue c) c
      }
      else if code = 42 \<or> code = 54 then Some (c\<lparr>caps := 1\<rparr>)
      else if code > 0 then do {
        c \<leftarrow> (if controlValue c = 1 then Some (c\<lparr>controlValue := 0, caps := 1\<rparr>)
             else setPREG 29 (controlValue c) c);
        c \<leftarrow> setRREG code (caps c) c;
        Some (c\<lparr>caps := 0\<rparr>)
      }
      else Some c)"

definition getoffset :: "console \<Rightarrow> int" where
  "getoffset c = rd_offset c"

definition setoffset :: "int \<Rightarrow> console \<Rightarrow> console" where
  "setoffset i c = c\<lparr>rd_offset := i\<rparr>"

text \<open>\<^verbatim>\<open>inpStr[i] = ch\<close>.\<close>

definition put_inp :: "int \<Rightarrow> char \<Rightarrow> console \<Rightarrow> console option" where
  "put_inp i ch c = (if 0 \<le> i \<and> i < 4096 then Some (c\<lparr>inpStr := (inpStr c)(i := ch)\<rparr>) else None)"

definition echo_char :: "char \<Rightarrow> console \<Rightarrow> console option" where
  "echo_char ch c = do {
     t \<leftarrow> kprintf ''%c'' [ArgChar (c2i ch)] (screen c);
     c \<leftarrow> put_inp (strOffset c) ch (c\<lparr>screen := t\<rparr>);
     Some (c\<lparr>strOffset := strOffset c + 1\<rparr>)
   }"

definition intWrite :: "u8 \<Rightarrow> console \<times> kernel \<Rightarrow> (console \<times> kernel) option" where
  "intWrite port = (\<lambda>(c, k).
     (let code = uint port in
      if code > 58 then Some (c, k)
      else if code = 14 then
        (if rd_offset c \<noteq> strOffset c then do {
           c \<leftarrow> put_inp (strOffset c - 1) NUL c;
           Some (c\<lparr>strOffset := strOffset c - 1, screen := backspace (screen c)\<rparr>, k)
         }
         else Some (c, k))
      else if code = 28 then do {
        t \<leftarrow> kprintf [NL] [] (screen c);
        c \<leftarrow> put_inp (strOffset c) NL (c\<lparr>screen := t\<rparr>);
        Some (c\<lparr>lineCount := lineCount c + 1, strOffset := strOffset c + 1\<rparr>, wake_process k)
      }
      else if code = 29 then do {
        let c = c\<lparr>controlValue := 1\<rparr>;
        ch \<leftarrow> key_char code (controlValue c);
        c \<leftarrow> echo_char ch c;
        Some (c, k)
      }
      else if code = 42 \<or> code = 54 then Some (c\<lparr>caps := 1\<rparr>, k)
      else if code > 0 then do {
        let c = (if controlValue c = 1 then c\<lparr>controlValue := 0, caps := 1\<rparr> else c);
        key_pressed \<leftarrow> key_char code (caps c);
        c \<leftarrow> echo_char key_pressed (c\<lparr>caps := 0\<rparr>);
        Some (c, k)
      }
      else Some (c, k)))"

text \<open>The \<^verbatim>\<open>for\<close> loop of \<open>intRead\<close>: characters move to the caller's buffer up to a newline.\<close>

fun read_loop :: "nat \<Rightarrow> int \<Rightarrow> addr \<Rightarrow> (int \<Rightarrow> char) \<Rightarrow> mem \<Rightarrow> int option \<times> (int \<Rightarrow> char) \<times> mem" where
  "read_loop 0 i dst buf m = (None, buf, m)"
| "read_loop (Suc n) i dst buf m =
     (if buf i = NL then (Some i, buf, m)
      else read_loop n (i + 1) (dst + 1) (buf(i := NUL)) (m(dst := buf i)))"

text \<open>One round of \<open>intRead\<close>: it returns with a line, or the caller sleeps and \<open>schedule\<close> is called;
  when the caller runs again it starts the next round.\<close>

datatype read_outcome = Line console mem kernel | Asleep console mem kernel

definition intRead :: "addr \<Rightarrow> u64 \<Rightarrow> console \<Rightarrow> mem \<Rightarrow> kernel \<Rightarrow> read_outcome option" where
  "intRead inpString resume c m k =
     (if lineCount c > 0 then
        (if getoffset c < 0 then None
         else (case read_loop (nat (4096 - getoffset c)) (getoffset c) inpString (inpStr c) m of
             (Some i, buf, m) \<Rightarrow>
               Some (Line ((setoffset (i + 1) (c\<lparr>inpStr := buf\<rparr>))\<lparr>lineCount := lineCount c - 1\<rparr>) m
                 (upd_task (currentTask k) (\<lambda>t. t\<lparr>state := RUNNING\<rparr>) k))
           | (None, buf, m) \<Rightarrow> do { k \<leftarrow> schedule resume k; Some (Asleep (c\<lparr>inpStr := buf\<rparr>) m k) }))
      else do {
        k \<leftarrow> schedule resume (upd_task (currentTask k) (\<lambda>t. t\<lparr>state := SLEEP\<rparr>) k);
        Some (Asleep c m k)
      })"

section \<open>The contract of a line discipline\<close>

text \<open>The events of a user at a keyboard, and what they do to the finished lines and the
  line being typed.\<close>

datatype 'k event = Stroke 'k | Rub | Enter

fun edit :: "('k \<Rightarrow> char) \<Rightarrow> 'k event \<Rightarrow> string list \<times> string \<Rightarrow> string list \<times> string" where
  "edit ch (Stroke key) (ls, p) = (ls, p @ [ch key])"
| "edit ch Rub (ls, p) = (ls, butlast p)"
| "edit ch Enter (ls, p) = (ls @ [p], [])"

text \<open>Only typed characters are erased.\<close>

fun edit_ok :: "('k \<Rightarrow> bool) \<Rightarrow> 'k event list \<Rightarrow> nat \<Rightarrow> bool" where
  "edit_ok good [] n = True"
| "edit_ok good (Stroke key # es) n = (good key \<and> edit_ok good es (Suc n))"
| "edit_ok good (Rub # es) n = (0 < n \<and> edit_ok good es (n - 1))"
| "edit_ok good (Enter # es) n = edit_ok good es 0"

locale line_discipline =
  fixes holds :: "'s \<Rightarrow> string list \<Rightarrow> string \<Rightarrow> bool"
    and space_left :: "'s \<Rightarrow> nat"
    and good :: "'k \<Rightarrow> bool"
    and ch :: "'k \<Rightarrow> char"
    and press :: "'k event \<Rightarrow> 's \<Rightarrow> 's option"
    and take_line :: "'s \<Rightarrow> (string \<times> 's) option"
  assumes press_stroke: "holds s ls p \<Longrightarrow> good key \<Longrightarrow> 0 < space_left s \<Longrightarrow>
      \<exists>s'. press (Stroke key) s = Some s' \<and> holds s' ls (p @ [ch key]) \<and> space_left s' = space_left s - 1"
    and press_rub: "holds s ls (p @ [x]) \<Longrightarrow>
      \<exists>s'. press Rub s = Some s' \<and> holds s' ls p \<and> space_left s' = space_left s + 1"
    and press_enter: "holds s ls p \<Longrightarrow> 0 < space_left s \<Longrightarrow>
      \<exists>s'. press Enter s = Some s' \<and> holds s' (ls @ [p]) [] \<and> space_left s' = space_left s - 1"
    and take_line: "holds s (l # ls) p \<Longrightarrow>
      \<exists>s'. take_line s = Some (l, s') \<and> holds s' ls p \<and> space_left s' = space_left s"
begin

fun press_all :: "'k event list \<Rightarrow> 's \<Rightarrow> 's option" where
  "press_all [] s = Some s"
| "press_all (e # es) s = do { s \<leftarrow> press e s; press_all es s }"

fun take_lines :: "nat \<Rightarrow> 's \<Rightarrow> (string list \<times> 's) option" where
  "take_lines 0 s = Some ([], s)"
| "take_lines (Suc n) s = do { (l, s) \<leftarrow> take_line s; (ls, s) \<leftarrow> take_lines n s; Some (l # ls, s) }"

lemma press_all_edits:
  "holds s ls p \<Longrightarrow> edit_ok good es (length p) \<Longrightarrow> length es \<le> space_left s \<Longrightarrow>
   \<exists>s'. press_all es s = Some s' \<and> holds s' (fst (fold (edit ch) es (ls, p))) (snd (fold (edit ch) es (ls, p)))"
proof (induction es arbitrary: s ls p)
  case (Cons e es)
  show ?case
  proof (cases e)
    case (Stroke key)
    then obtain s1 where "press e s = Some s1" "holds s1 ls (p @ [ch key])" "space_left s1 = space_left s - 1"
      using press_stroke Cons.prems by fastforce
    then show ?thesis using Cons.IH [of s1 ls "p @ [ch key]"] Cons.prems Stroke by simp
  next
    case Rub
    then obtain q x where p: "p = q @ [x]" using Cons.prems(2) by (cases p rule: rev_cases) auto
    then obtain s1 where "press e s = Some s1" "holds s1 ls q" "space_left s1 = space_left s + 1"
      using press_rub Cons.prems Rub by blast
    then show ?thesis using Cons.IH [of s1 ls q] Cons.prems Rub p by simp
  next
    case Enter
    then obtain s1 where "press e s = Some s1" "holds s1 (ls @ [p]) []" "space_left s1 = space_left s - 1"
      using press_enter Cons.prems by fastforce
    then show ?thesis using Cons.IH [of s1 "ls @ [p]" "[]"] Cons.prems Enter by simp
  qed
qed simp

lemma take_lines_fifo:
  "holds s (ls @ ms) p \<Longrightarrow> \<exists>s'. take_lines (length ls) s = Some (ls, s') \<and> holds s' ms p"
proof (induction ls arbitrary: s)
  case (Cons l ls)
  then obtain s1 where "take_line s = Some (l, s1)" "holds s1 (ls @ ms) p" using take_line by fastforce
  then show ?case using Cons.IH [of s1] by auto
qed simp

end

section \<open>The keyboard implements it\<close>

text \<open>A keystroke: with or without shift, and its scan code.\<close>

type_synonym stroke = "bool \<times> u8"

definition good_key :: "stroke \<Rightarrow> bool" where
  "good_key = (\<lambda>(sh, code). 0 < code \<and> code < 58 \<and> code \<notin> {14, 28, 29, 42, 54})"

definition key_ch :: "stroke \<Rightarrow> char" where
  "key_ch = (\<lambda>(sh, code). (if sh then snd else fst) (code_map ! unat code))"

fun press_key :: "stroke event \<Rightarrow> console \<times> kernel \<Rightarrow> (console \<times> kernel) option" where
  "press_key (Stroke (sh, code)) s = do { s \<leftarrow> (if sh then intWrite 42 s else Some s); intWrite code s }"
| "press_key Rub s = intWrite 14 s"
| "press_key Enter s = intWrite 28 s"

definition take_typed :: "addr \<Rightarrow> mem \<Rightarrow> u64 \<Rightarrow> console \<times> kernel \<Rightarrow> (string \<times> console \<times> kernel) option" where
  "take_typed dst m resume = (\<lambda>(c, k). (case intRead dst resume c m k of
      Some (Line c' m' k') \<Rightarrow>
        Some (map (\<lambda>j. m' (dst + int j)) [0..<nat (rd_offset c' - rd_offset c - 1)], c', k')
    | _ \<Rightarrow> None))"

definition buffered :: "string list \<Rightarrow> string \<Rightarrow> string" where
  "buffered ls p = concat (map (\<lambda>l. l @ [NL]) ls) @ p"

text \<open>The buffer from the reader's offset to the writer's holds the finished lines and the line
  being typed, and no shift or control key is pending.\<close>

definition typed :: "console \<times> kernel \<Rightarrow> string list \<Rightarrow> string \<Rightarrow> bool" where
  "typed = (\<lambda>(c, k) ls p. caps c = 0 \<and> controlValue c = 0 \<and> lineCount c = int (length ls)
     \<and> 0 \<le> rd_offset c \<and> strOffset c = rd_offset c + int (length (buffered ls p)) \<and> strOffset c \<le> 4096
     \<and> cells (inpStr c) (rd_offset c) (buffered ls p) \<and> (\<forall>l \<in> set (p # ls). NL \<notin> set l))"

definition inp_room :: "console \<times> kernel \<Rightarrow> nat" where
  "inp_room = (\<lambda>(c, k). nat (4096 - strOffset c))"

lemma kprintf_char [simp]: "kprintf ''%c'' [ArgChar (c2i ch)] t = Some (writeToSbush ch t)"
  by (simp add: kprintf_def conversion_def write_string_def)

lemma kprintf_newline [simp]: "kprintf [NL] [] t = Some (writeToSbush NL t)"
  by (simp add: kprintf_def write_string_def)

lemma code_map_chars: "list_all (\<lambda>(a, b). a \<noteq> NL \<and> b \<noteq> NL) code_map" "length code_map = 58"
  by (simp_all add: code_map_def)

lemma good_key_code:
  assumes "good_key (sh, code)"
  shows "0 < uint code" and "uint code < 58" and "uint code \<notin> {14, 28, 29, 42, 54}"
    and "key_char (uint code) (if sh then 1 else 0) = Some (key_ch (sh, code))" and "key_ch (sh, code) \<noteq> NL"
proof -
  show c: "0 < uint code" "uint code < 58" "uint code \<notin> {14, 28, 29, 42, 54}"
    using assms by (auto simp: good_key_def word_less_def word_uint_eq_iff)
  show "key_char (uint code) (if sh then 1 else 0) = Some (key_ch (sh, code))"
    using c by (simp add: key_char_def key_ch_def)
  have "unat code < length code_map" using c(2) by (simp add: code_map_chars(2) nat_less_iff flip: nat_uint_eq)
  then have "case code_map ! unat code of (a, b) \<Rightarrow> a \<noteq> NL \<and> b \<noteq> NL"
    using code_map_chars(1) by (simp add: list_all_length)
  then show "key_ch (sh, code) \<noteq> NL" by (simp add: key_ch_def split_beta)
qed

lemma echo_char_eq:
  "0 \<le> strOffset c \<Longrightarrow> strOffset c < 4096 \<Longrightarrow> echo_char ch c =
   Some (c\<lparr>screen := writeToSbush ch (screen c), inpStr := (inpStr c)(strOffset c := ch), strOffset := strOffset c + 1\<rparr>)"
  by (simp add: echo_char_def put_inp_def)

lemma press_good_key:
  assumes "good_key (sh, code)" and "caps c = 0" "controlValue c = 0" and "0 \<le> strOffset c" "strOffset c < 4096"
  shows "press_key (Stroke (sh, code)) (c, k) =
    Some (c\<lparr>screen := writeToSbush (key_ch (sh, code)) (screen c),
      inpStr := (inpStr c)(strOffset c := key_ch (sh, code)), strOffset := strOffset c + 1\<rparr>, k)"
proof -
  note g = good_key_code [OF assms(1)]
  have A: "intWrite code (c\<lparr>caps := b\<rparr>, k) = map_option (\<lambda>c. (c, k)) (do {
      ch \<leftarrow> key_char (uint code) b; echo_char ch (c\<lparr>caps := 0\<rparr>) })" for b
    using g(1-3) assms(3) by (simp add: intWrite_def Let_def map_option_bind comp_def split: bind_splits option.split)
  have B: "intWrite 42 (c, k) = Some (c\<lparr>caps := 1\<rparr>, k)" by (simp add: intWrite_def)
  have C: "c\<lparr>caps := 0\<rparr> = c" using assms(2) by simp
  show ?thesis
  proof (cases sh)
    case True
    then show ?thesis using g(4) A [of 1] B C echo_char_eq [OF assms(4,5)] by simp
  next
    case False
    then show ?thesis using g(4) A [of 0] C echo_char_eq [OF assms(4,5)] by simp
  qed
qed

lemma typed_append:
  assumes "typed (c, k) ls p" and "strOffset c < 4096" and "x \<noteq> NL"
  shows "typed (c\<lparr>screen := t, inpStr := (inpStr c)(strOffset c := x), strOffset := strOffset c + 1\<rparr>, k) ls (p @ [x])"
  using assms by (auto simp: typed_def buffered_def cells_append cells_upd cell_range_def cells_Cons cells_Nil)

lemma typed_rub:
  assumes "typed (c, k) ls (p @ [x])"
  shows "typed (c\<lparr>inpStr := (inpStr c)(strOffset c - 1 := NUL), strOffset := strOffset c - 1, screen := t\<rparr>, k) ls p"
  using assms by (auto simp: typed_def buffered_def cells_append cells_upd cell_range_def)

lemma typed_enter:
  assumes "typed (c, k) ls p" and "strOffset c < 4096"
  shows "typed (c\<lparr>screen := t, inpStr := (inpStr c)(strOffset c := NL), lineCount := lineCount c + 1,
    strOffset := strOffset c + 1\<rparr>, k') (ls @ [p]) []"
  using assms by (auto simp: typed_def buffered_def cells_append cells_upd cell_range_def cells_Cons cells_Nil)

lemma read_loop_line:
  "cells buf i (l @ [NL]) \<Longrightarrow> NL \<notin> set l \<Longrightarrow> length l < n \<Longrightarrow>
   read_loop n i dst buf m = (Some (i + int (length l)),
     (\<lambda>a. if a \<in> cell_range i (length l) then NUL else buf a),
     (\<lambda>a. if a \<in> cell_range dst (length l) then l ! nat (a - dst) else m a))"
proof (induction l arbitrary: n i dst buf m)
  case Nil
  then show ?case by (cases n) (auto simp: cells_Cons cell_range_def)
next
  case (Cons x l)
  obtain n' where n: "n = Suc n'" using Cons.prems(3) by (cases n) auto
  have i: "buf i = x" "x \<noteq> NL" "cells buf (i + 1) (l @ [NL])" using Cons.prems by (auto simp: cells_Cons)
  then have "cells (buf(i := NUL)) (i + 1) (l @ [NL])" by (subst cells_upd) (auto simp: cell_range_def)
  moreover have "NL \<notin> set l" "length l < n'" using Cons.prems n by auto
  ultimately have ih: "read_loop n' (i + 1) (dst + 1) (buf(i := NUL)) (m(dst := x)) = (Some (i + 1 + int (length l)),
     (\<lambda>a. if a \<in> cell_range (i + 1) (length l) then NUL else (buf(i := NUL)) a),
     (\<lambda>a. if a \<in> cell_range (dst + 1) (length l) then l ! nat (a - (dst + 1)) else (m(dst := x)) a))"
    by (rule Cons.IH)
  have step: "read_loop n i dst buf m = read_loop n' (i + 1) (dst + 1) (buf(i := NUL)) (m(dst := x))"
    using n i by simp
  have eq: "read_loop n i dst buf m = (Some (i + int (length (x # l))),
     (\<lambda>a. if a \<in> cell_range (i + 1) (length l) then NUL else (buf(i := NUL)) a),
     (\<lambda>a. if a \<in> cell_range (dst + 1) (length l) then l ! nat (a - (dst + 1)) else (m(dst := x)) a))"
    unfolding step ih by simp
  have "(x # l) ! nat (a - dst) = l ! nat (a - (dst + 1))" if "a \<in> cell_range (dst + 1) (length l)" for a
  proof -
    have "nat (a - dst) = Suc (nat (a - (dst + 1)))" using that by (auto simp: cell_range_def)
    then show ?thesis by simp
  qed
  moreover have "a \<in> cell_range dst (length (x # l)) \<longleftrightarrow> a = dst \<or> a \<in> cell_range (dst + 1) (length l)" for a dst :: int
    by (auto simp: cell_range_def)
  moreover have "d \<notin> cell_range (d + 1) (length l)" for d by (simp add: cell_range_def)
  ultimately show ?case unfolding eq by (auto simp: fun_eq_iff)
qed

lemma buffered_Cons: "buffered (l # ls) p = (l @ [NL]) @ buffered ls p"
  by (simp add: buffered_def)

lemma intRead_line:
  assumes "typed (c, k) (l # ls) p"
  shows "\<exists>c' m'. intRead dst resume c m k = Some (Line c' m' (upd_task (currentTask k) (\<lambda>t. t\<lparr>state := RUNNING\<rparr>) k))
    \<and> typed (c', k') ls p \<and> rd_offset c' = rd_offset c + int (length l) + 1 \<and> strOffset c' = strOffset c
    \<and> (\<forall>j < length l. m' (dst + int j) = l ! j) \<and> (\<forall>a. a \<notin> cell_range dst (length l) \<longrightarrow> m' a = m a)"
proof -
  let ?i = "rd_offset c" and ?e = "rd_offset c + int (length l)"
  have t: "cells (inpStr c) ?i (l @ [NL])" "cells (inpStr c) (?e + 1) (buffered ls p)" "NL \<notin> set l"
      "0 \<le> ?i" "strOffset c = ?e + 1 + int (length (buffered ls p))" "strOffset c \<le> 4096" "lineCount c = int (Suc (length ls))"
    using assms by (auto simp: typed_def buffered_Cons cells_append cells_Cons cells_Nil algebra_simps)
  have "length l < nat (4096 - ?i)" using t(5,6) by linarith
  note r = read_loop_line [OF t(1,3) this, of dst m]
  let ?c = "c\<lparr>inpStr := (\<lambda>a. if a \<in> cell_range ?i (length l) then NUL else inpStr c a), rd_offset := ?e + 1,
    lineCount := lineCount c - 1\<rparr>"
  let ?m = "\<lambda>a. if a \<in> cell_range dst (length l) then l ! nat (a - dst) else m a"
  have "intRead dst resume c m k = Some (Line ?c ?m (upd_task (currentTask k) (\<lambda>t. t\<lparr>state := RUNNING\<rparr>) k))"
    using t r by (simp add: intRead_def getoffset_def setoffset_def)
  moreover have "typed (?c, k') ls p"
    using assms t by (auto simp: typed_def cells_def cell_range_def)
  ultimately show ?thesis by (intro exI [of _ ?c] exI [of _ ?m]) (auto simp: cell_range_def)
qed

lemma take_typed_line:
  assumes "typed s (l # ls) p"
  shows "\<exists>s'. take_typed dst m resume s = Some (l, s') \<and> typed s' ls p \<and> inp_room s' = inp_room s"
proof -
  obtain c k where s: "s = (c, k)" by (cases s)
  let ?k = "upd_task (currentTask k) (\<lambda>t. t\<lparr>state := RUNNING\<rparr>) k"
  from intRead_line [OF assms [unfolded s], of dst resume m ?k] obtain c' m' where
    r: "intRead dst resume c m k = Some (Line c' m' ?k)" "typed (c', ?k) ls p"
      "rd_offset c' = rd_offset c + int (length l) + 1" "strOffset c' = strOffset c"
      "\<forall>j < length l. m' (dst + int j) = l ! j" by blast
  then have "map (\<lambda>j. m' (dst + int j)) [0..<nat (rd_offset c' - rd_offset c - 1)] = l"
    by (intro nth_equalityI) simp_all
  then show ?thesis using r s by (simp add: take_typed_def inp_room_def)
qed

interpretation kbd: line_discipline typed inp_room good_key key_ch press_key "take_typed dst m resume" for dst m resume
proof
  fix s :: "console \<times> kernel" and ls p
  obtain c k where s: "s = (c, k)" by (cases s)
  have room: "0 < inp_room s \<longleftrightarrow> strOffset c < 4096" by (simp add: s inp_room_def)
  show "\<exists>s'. press_key (Stroke key) s = Some s' \<and> typed s' ls (p @ [key_ch key]) \<and> inp_room s' = inp_room s - 1"
    if "typed s ls p" "good_key key" "0 < inp_room s" for key
  proof -
    obtain sh code where key: "key = (sh, code)" by (cases key)
    have c: "caps c = 0" "controlValue c = 0" "0 \<le> strOffset c" using that(1) by (auto simp: s typed_def)
    show ?thesis
      using press_good_key [OF that(2) [unfolded key] c(1,2,3), of k] typed_append [OF that(1) [unfolded s]]
        good_key_code(5) [OF that(2) [unfolded key]] that(3) room
      by (auto simp: s key inp_room_def nat_diff_distrib)
  qed
  show "\<exists>s'. press_key Rub s = Some s' \<and> typed s' ls p \<and> inp_room s' = inp_room s + 1" if "typed s ls (p @ [x])" for x
  proof -
    have c: "rd_offset c < strOffset c" "0 \<le> rd_offset c" "strOffset c \<le> 4096"
      using that by (auto simp: s typed_def buffered_def)
    then show ?thesis using typed_rub [OF that [unfolded s]]
      by (auto simp: s intWrite_def put_inp_def inp_room_def Let_def)
  qed
  show "\<exists>s'. press_key Enter s = Some s' \<and> typed s' (ls @ [p]) [] \<and> inp_room s' = inp_room s - 1"
    if "typed s ls p" "0 < inp_room s"
  proof -
    have c: "0 \<le> strOffset c" using that(1) by (auto simp: s typed_def)
    then show ?thesis using typed_enter [OF that(1) [unfolded s]] that(2) room
      by (auto simp: s intWrite_def put_inp_def inp_room_def Let_def nat_diff_distrib)
  qed
  show "\<exists>s'. take_typed dst m resume s = Some (l, s') \<and> typed s' ls p \<and> inp_room s' = inp_room s"
    if "typed s (l # ls) p" for l dst m resume
    using that by (rule take_typed_line)
qed

section \<open>Typed lines reach the reader\<close>

fun type_keys :: "stroke event list \<Rightarrow> console \<times> kernel \<Rightarrow> (console \<times> kernel) option" where
  "type_keys [] s = Some s"
| "type_keys (e # es) s = do { s \<leftarrow> press_key e s; type_keys es s }"

lemma type_keys_press_all: "type_keys es = line_discipline.press_all press_key es"
proof (induction es)
  case Nil
  then show ?case by (simp add: fun_eq_iff kbd.press_all.simps)
next
  case (Cons e es)
  show ?case by (rule ext) (simp add: Cons.IH kbd.press_all.simps)
qed

text \<open>Keys change the kernel only by waking a sleeper.\<close>

lemma wake_none: "\<forall>i. state (taskQueue k i) \<noteq> SLEEP \<Longrightarrow> wake_process k = k"
  by (auto simp: wake_process_def first_index_Some split: option.splits)

lemma intWrite_kernel: "intWrite port (c, k) = Some (c', k') \<Longrightarrow> k' = k \<or> k' = wake_process k"
  by (auto simp: intWrite_def Let_def split: if_splits bind_splits)

lemma press_key_kernel: "press_key e (c, k) = Some (c', k') \<Longrightarrow> \<forall>i. state (taskQueue k i) \<noteq> SLEEP \<Longrightarrow> k' = k"
  using wake_none [of k]
  by (cases "(e, (c, k))" rule: press_key.cases) (auto split: bind_splits if_splits dest!: intWrite_kernel)

lemma type_keys_kernel: "type_keys es (c, k) = Some (c', k') \<Longrightarrow> \<forall>i. state (taskQueue k i) \<noteq> SLEEP \<Longrightarrow> k' = k"
proof (induction es arbitrary: c)
  case (Cons e es)
  obtain c1 k1 where p: "press_key e (c, k) = Some (c1, k1)" "type_keys es (c1, k1) = Some (c', k')"
    using Cons.prems(1) by (auto split: bind_splits)
  then show ?case using Cons.IH press_key_kernel [OF p(1) Cons.prems(2)] Cons.prems(2) by blast
qed simp

text \<open>C23: the keyboard is a line editor: from any consistent buffer, any sequence of typed
  characters, shifted or not, of backspaces over characters of the unfinished line, and of
  Enter keys, that fits into the buffer, leaves the finished lines and the unfinished line that
  this sequence edits to.\<close>

theorem keyboard_edits:
  assumes "typed s ls p" and "edit_ok good_key es (length p)" and "length es \<le> inp_room s"
  shows "\<exists>s'. type_keys es s = Some s'
    \<and> typed s' (fst (fold (edit key_ch) es (ls, p))) (snd (fold (edit key_ch) es (ls, p)))"
  using kbd.press_all_edits [OF assms] by (simp add: type_keys_press_all)

definition console0 :: console where
  "console0 = \<lparr>caps = 0, controlValue = 0, rd_offset = 0, strOffset = 0, lineCount = 0, inpStr = (\<lambda>_. NUL),
     screen = \<lparr>toLeft = 0, numLines = 0, temp2 = 0, video = (\<lambda>_. CHR '' '')\<rparr>\<rparr>"

lemma typed_console0: "typed (console0, k) [] []" "inp_room (console0, k) = 4096"
  by (simp_all add: typed_def console0_def buffered_def cells_def inp_room_def)

text \<open>The keys l, s with shift, backspace, s and Enter leave the line ''ls''.\<close>

theorem keyboard_edits_witness:
  "\<exists>s'. type_keys [Stroke (False, 38), Stroke (True, 31), Rub, Stroke (False, 31), Enter] (console0, kernel_fam) = Some s'
     \<and> typed s' [''ls''] []"
proof -
  have k: "edit_ok good_key [Stroke (False, 38), Stroke (True, 31), Rub, Stroke (False, 31), Enter] 0"
    by (simp add: good_key_def)
  have e: "fold (edit key_ch) [Stroke (False, 38), Stroke (True, 31), Rub, Stroke (False, 31), Enter] ([], []) = ([''ls''], [])"
    by (simp add: key_ch_def code_map_def)
  show ?thesis
    using keyboard_edits [OF typed_console0(1) [of kernel_fam], of "[Stroke (False, 38), Stroke (True, 31), Rub, Stroke (False, 31), Enter]"]
      k typed_console0(2) [of kernel_fam] unfolding e by simp
qed

lemma typed_keys_line:
  assumes "typed (c, k) [] []" and "\<forall>key \<in> set keys. good_key key" and "length keys < inp_room (c, k)"
  shows "\<exists>c1 k1. type_keys (map Stroke keys @ [Enter]) (c, k) = Some (c1, k1) \<and> typed (c1, k1) [map key_ch keys] []"
proof -
  let ?es = "map Stroke keys @ [Enter]"
  have ok: "edit_ok good_key (map Stroke ks @ [Enter]) n" if "set ks \<subseteq> set keys" for ks n
    using that assms(2) by (induction ks arbitrary: n) auto
  have "fold (edit key_ch) (map Stroke ks) (ls, p) = (ls, p @ map key_ch ks)" for ks ls p
    by (induction ks arbitrary: p) simp_all
  then have e: "fold (edit key_ch) ?es ([], []) = ([map key_ch keys], [])" by simp
  have "edit_ok good_key ?es (length [])" "length ?es \<le> inp_room (c, k)" using ok assms(3) by simp_all
  from kbd.press_all_edits [OF assms(1) this] show ?thesis unfolding e type_keys_press_all by auto
qed

text \<open>What the user types is what the program reads: if the buffer is empty, typing keys and
  then Enter makes the next \<open>intRead\<close> return at once with exactly these characters in the caller's
  buffer and no other byte of its memory changed; the buffer is then empty again and the caller is
  RUNNING. No terminating NUL is stored.\<close>

theorem typed_line_read:
  assumes "typed (c, k) [] []" and "\<forall>key \<in> set keys. good_key key" and "length keys < inp_room (c, k)"
  shows "\<exists>c1 k1 c2 m2 k2. type_keys (map Stroke keys @ [Enter]) (c, k) = Some (c1, k1)
    \<and> intRead dst resume c1 m k1 = Some (Line c2 m2 k2)
    \<and> (\<forall>j < length keys. m2 (dst + int j) = key_ch (keys ! j))
    \<and> (\<forall>a. a \<notin> cell_range dst (length keys) \<longrightarrow> m2 a = m a)
    \<and> typed (c2, k2) [] [] \<and> state (cur k2) = RUNNING"
proof -
  obtain c1 k1 where t: "type_keys (map Stroke keys @ [Enter]) (c, k) = Some (c1, k1)" "typed (c1, k1) [map key_ch keys] []"
    using typed_keys_line [OF assms] by blast
  let ?k2 = "upd_task (currentTask k1) (\<lambda>t. t\<lparr>state := RUNNING\<rparr>) k1"
  from intRead_line [OF t(2), of dst resume m ?k2] obtain c2 m2 where
    "intRead dst resume c1 m k1 = Some (Line c2 m2 ?k2)" "typed (c2, ?k2) [] []"
    "\<forall>j < length keys. m2 (dst + int j) = map key_ch keys ! j"
    "\<forall>a. a \<notin> cell_range dst (length keys) \<longrightarrow> m2 a = m a" by auto
  then show ?thesis using t(1) by (intro exI [of _ c1] exI [of _ k1] exI [of _ c2] exI [of _ m2] exI [of _ ?k2]) simp
qed

theorem typed_line_read_witness:
  "\<exists>c1 k1 c2 m2 k2. type_keys [Stroke (False, 25), Stroke (False, 31), Enter] (console0, kernel_fam) = Some (c1, k1)
     \<and> intRead 0 0x500 c1 (\<lambda>_. NUL) k1 = Some (Line c2 m2 k2) \<and> m2 0 = CHR ''p'' \<and> m2 1 = CHR ''s''"
proof -
  have g: "\<forall>key \<in> set [(False, 25), (False, 31)]. good_key key" by (simp add: good_key_def)
  have ch: "key_ch (False, 25) = CHR ''p''" "key_ch (False, 31) = CHR ''s''" by (simp_all add: key_ch_def code_map_def)
  obtain c1 k1 c2 m2 k2 where r: "type_keys [Stroke (False, 25), Stroke (False, 31), Enter] (console0, kernel_fam) = Some (c1, k1)"
      "intRead 0 0x500 c1 (\<lambda>_. NUL) k1 = Some (Line c2 m2 k2)"
      "\<forall>j < 2. m2 (0 + int j) = key_ch ([(False, 25), (False, 31)] ! j)"
    using typed_line_read [OF typed_console0(1) [of kernel_fam] g, of 0 "0x500" "\<lambda>_. NUL"] typed_console0(2) [of kernel_fam]
    by auto
  have "m2 0 = CHR ''p''" "m2 1 = CHR ''s''" using r(3) [THEN spec [of _ 0]] r(3) [THEN spec [of _ 1]] ch by simp_all
  then show ?thesis using r(1,2) by blast
qed

section \<open>Sleeping readers\<close>

text \<open>A reader that finds no finished line goes to SLEEP and the scheduler picks another task;
  the buffer is untouched. The next Enter key makes the first sleeping task of the table
  RUNNING again, whichever it is, so a lone reader is woken.\<close>

theorem reader_sleeps_and_wakes:
  assumes "cur_ok k" and "lineCount c \<le> 0" and "0 \<le> strOffset c" and "strOffset c < 4096"
    and "\<forall>i < MAX_TASKS. i \<noteq> currentTask k \<longrightarrow> state (taskQueue k i) \<noteq> SLEEP"
  shows "\<exists>k1. intRead dst resume c m k = Some (Asleep c m k1) \<and> state (taskQueue k1 (currentTask k)) = SLEEP
    \<and> (\<exists>c2 k2. intWrite 28 (c, k1) = Some (c2, k2) \<and> lineCount c2 = lineCount c + 1
         \<and> state (taskQueue k2 (currentTask k)) = RUNNING
         \<and> (\<forall>i. i \<noteq> currentTask k \<longrightarrow> state (taskQueue k2 i) = state (taskQueue k i)))"
proof -
  let ?c = "currentTask k" and ?k = "upd_task (currentTask k) (\<lambda>t. t\<lparr>state := SLEEP\<rparr>) k"
  have ok: "cur_ok ?k" and lt: "?c < MAX_TASKS" using assms(1) by (simp_all add: cur_ok_def)
  obtain k1 where k1: "schedule resume ?k = Some k1" "\<And>i. state (taskQueue k1 i) = state (taskQueue ?k i)"
  proof -
    from schedule_eq [OF ok, of resume] obtain k' r where
      "schedule resume ?k = Some k'" "\<forall>i. i \<noteq> ?c \<longrightarrow> taskQueue k' i = taskQueue ?k i"
      "taskQueue k' ?c = (taskQueue ?k ?c)\<lparr>regs := r\<rparr>" by auto
    moreover from this have "state (taskQueue k' i) = state (taskQueue ?k i)" for i by (cases "i = ?c") auto
    ultimately show thesis using that by blast
  qed
  have "first_index (\<lambda>i. state (taskQueue k1 i) = SLEEP) MAX_TASKS = Some ?c"
    using k1(2) lt assms(5) by (auto simp: first_index_Some)
  then have "wake_process k1 = wokeUP ?c k1" by (simp add: wake_process_def)
  then show ?thesis using k1 assms(2-4)
    by (auto simp: intRead_def intWrite_def put_inp_def wokeUP_def Let_def)
qed

theorem reader_sleeps_and_wakes_witness:
  "\<exists>k1 c2 k2. intRead 0 0x500 console0 (\<lambda>_. NUL) kernel_fam = Some (Asleep console0 (\<lambda>_. NUL) k1)
     \<and> state (taskQueue k1 2) = SLEEP \<and> intWrite 28 (console0, k1) = Some (c2, k2) \<and> state (taskQueue k2 2) = RUNNING"
proof -
  have "lineCount console0 \<le> 0" "0 \<le> strOffset console0" "strOffset console0 < 4096" by (simp_all add: console0_def)
  moreover have "\<forall>i < MAX_TASKS. i \<noteq> currentTask kernel_fam \<longrightarrow> state (taskQueue kernel_fam i) \<noteq> SLEEP" by simp
  ultimately show ?thesis
    using reader_sleeps_and_wakes [OF cur_ok_fam, of console0 0 "0x500" "\<lambda>_. NUL"] by auto
qed

section \<open>Scan codes outside the table\<close>

text \<open>With room in the buffer the interrupt handler is defined for every byte the keyboard can
  send except one: the guard lets code 58 (caps lock) through, and the handler then reads
  \<open>code_map[58]\<close>, past the end of the table of 58 rows.\<close>

theorem intWrite_undefined_iff:
  assumes "caps c \<in> {0, 1}" and "controlValue c \<in> {0, 1}"
    and "0 \<le> rd_offset c" and "rd_offset c \<le> strOffset c" and "strOffset c < 4096"
  shows "intWrite code (c, k) = None \<longleftrightarrow> code = 58"
proof -
  have u: "code = 58 \<longleftrightarrow> uint code = 58" "0 \<le> uint code" by (simp_all add: word_uint_eq_iff)
  have e: "echo_char ch c' \<noteq> None" if "strOffset c' = strOffset c" for ch c'
    using that assms(3-5) echo_char_eq [of c'] by simp
  have kc: "key_char (uint code) b = None \<longleftrightarrow> \<not> uint code < 58" if "b \<in> {0, 1}" for b
    using that u(2) by (auto simp: key_char_def)
  have k29: "key_char 29 1 \<noteq> None" by (simp add: key_char_def)
  consider "uint code > 58" | "uint code = 14" | "uint code = 28" | "uint code = 29" | "uint code \<in> {42, 54, 0}"
    | "uint code \<le> 58" "uint code \<notin> {14, 28, 29, 42, 54, 0}" using u(2) by force
  then show ?thesis
  proof cases
    case 1
    then show ?thesis using u by (simp add: intWrite_def)
  next
    case 2
    then show ?thesis using u assms(3-5) by (auto simp: intWrite_def put_inp_def)
  next
    case 3
    then show ?thesis using u assms(3-5) by (simp add: intWrite_def put_inp_def)
  next
    case 4
    obtain x where x: "key_char 29 1 = Some x" using k29 by blast
    then show ?thesis using 4 u e [of "c\<lparr>controlValue := 1\<rparr>" x]
      by (auto simp: intWrite_def Let_def split: bind_splits)
  next
    case 5
    then show ?thesis using u by (auto simp: intWrite_def)
  next
    case 6
    define cc where "cc = (if controlValue c = 1 then c\<lparr>controlValue := 0, caps := 1\<rparr> else c)"
    have "caps cc \<in> {0, 1}" "strOffset (cc\<lparr>caps := 0\<rparr>) = strOffset c" using assms(1) by (auto simp: cc_def)
    then have h: "key_char (uint code) (caps cc) = None \<longleftrightarrow> \<not> uint code < 58"
      "\<And>ch. echo_char ch (cc\<lparr>caps := 0\<rparr>) \<noteq> None" using kc e by blast+
    have "0 < uint code" using 6 by (simp add: order_less_le)
    then have eq: "intWrite code (c, k) = do { key_pressed \<leftarrow> key_char (uint code) (caps cc);
        c \<leftarrow> echo_char key_pressed (cc\<lparr>caps := 0\<rparr>); Some (c, k) }"
      using 6 by (simp add: intWrite_def Let_def cc_def)
    show ?thesis
    proof (cases "key_char (uint code) (caps cc)")
      case None
      then show ?thesis using h(1) 6 u(1) unfolding eq by simp
    next
      case (Some x)
      then show ?thesis using h(1) h(2) [of x] u(1) unfolding eq by auto
    qed
  qed
qed

theorem intWrite_undefined_iff_witness: "intWrite 58 (console0, kernel_fam) = None"
  using intWrite_undefined_iff [of console0 58 kernel_fam] by (simp add: console0_def)

end
