(* ===== verification/Paths.thy ===== *)
theory Paths
  imports CStrings
begin

text \<open>
  Path normalisation of \<^verbatim>\<open>sys/tarfs.c\<close>: \<open>deriveRelative\<close> rewrites a path in place, relative
  to the current directory, resolving every \<^verbatim>\<open>..\<close>. The local array \<^verbatim>\<open>file_path[100]\<close> is a
  string; \<open>None\<close> when it would overflow. The rewritten buffer is memory, so that the
  writes just before the buffer, which the code makes when a path climbs to the root, are visible.
  The result is compared with resolution on lists of path components.
\<close>

section \<open>The code\<close>

definition previousDir :: "string \<Rightarrow> bool" where
  "previousDir rest = (case rest of c # d # _ \<Rightarrow> c = CHR ''.'' \<and> d = CHR ''.'' | _ \<Rightarrow> False)"

text \<open>Both branches return 0.\<close>

definition getOffset :: "mem \<Rightarrow> addr \<Rightarrow> int \<Rightarrow> int" where
  "getOffset m path i = (if m (path + i) \<noteq> NUL then 0 else 0)"

text \<open>The inner \<^verbatim>\<open>while\<close>: back over a component, clearing it. The pointer is read before the test
  \<^verbatim>\<open>pathOffset >= 0\<close>.\<close>

function back_loop :: "mem \<Rightarrow> addr \<Rightarrow> int \<Rightarrow> mem \<times> int" where
  "back_loop m absPath pathOffset =
     (if m (absPath + pathOffset) \<noteq> CHR 0x2F \<and> pathOffset \<ge> 0
      then back_loop (resetString m (absPath + pathOffset)) absPath (pathOffset - 1)
      else (m, pathOffset))"
  by auto
termination by (relation "measure (\<lambda>(m, p, i). nat (i + 1))") auto

declare back_loop.simps [simp del]

text \<open>The \<^verbatim>\<open>for\<close> loop over the rest of \<open>file_path\<close>.\<close>

fun derive_loop :: "string \<Rightarrow> mem \<Rightarrow> addr \<Rightarrow> int \<Rightarrow> mem \<times> int" where
  "derive_loop [] m absPath pathOffset = (m, pathOffset)"
| "derive_loop (c # s) m absPath pathOffset =
     (if previousDir (c # s) then
        (let pathOffset = pathOffset - 1;
             m = resetString m (absPath + pathOffset);
             (m, pathOffset) = back_loop m absPath pathOffset
         in derive_loop (tl s) m absPath pathOffset)
      else derive_loop s (m(absPath + pathOffset := c)) absPath (pathOffset + 1))"

text \<open>\<open>file_path\<close>: an absolute path without its slash, or the current directory without its slash
  followed by the path.\<close>

definition file_path :: "string \<Rightarrow> string \<Rightarrow> string option" where
  "file_path cwd p =
     (let f = (if p \<noteq> [] \<and> hd p = CHR 0x2F then tl p else tl cwd @ p)
      in if length f < 100 then Some f else None)"

definition deriveRelative :: "string \<Rightarrow> mem \<Rightarrow> addr \<Rightarrow> string \<Rightarrow> mem option" where
  "deriveRelative cwd m absPath p = do {
     f \<leftarrow> file_path cwd p;
     let m = resetString m absPath;
     let (m, pathOffset) = derive_loop f m absPath (getOffset m absPath 0);
     let m = m(absPath + pathOffset := NUL);
     Some (resetString m (absPath + pathOffset + 1))
   }"

section \<open>Paths as lists of components\<close>

definition component :: "string \<Rightarrow> bool" where
  "component c \<longleftrightarrow> CHR 0x2F \<notin> set c \<and> NUL \<notin> set c"

text \<open>A component in which no two dots are adjacent, also not with what follows it.\<close>

fun no_dots :: "string \<Rightarrow> bool" where
  "no_dots [] = True"
| "no_dots (c # s) = (\<not> previousDir (c # s) \<and> no_dots s)"

definition dotdot :: string where "dotdot = ''..''"

definition join_path :: "string list \<Rightarrow> string" where
  "join_path cs = concat (map (\<lambda>c. c @ [CHR 0x2F]) cs)"

text \<open>Resolution: \<^verbatim>\<open>..\<close> drops the last directory, and the root is its own parent.\<close>

fun resolve :: "string list \<Rightarrow> string list \<Rightarrow> string list" where
  "resolve st [] = st"
| "resolve st (c # cs) = resolve (if c = dotdot then butlast st else st @ [c]) cs"

text \<open>Whether resolution climbs to the root (or above) on the way.\<close>

fun climbs :: "string list \<Rightarrow> string list \<Rightarrow> bool" where
  "climbs st [] = False"
| "climbs st (c # cs) = (if c = dotdot then length st \<le> 1 \<or> climbs (butlast st) cs else climbs (st @ [c]) cs)"

definition good_component :: "string \<Rightarrow> bool" where
  "good_component c \<longleftrightarrow> component c \<and> (c = dotdot \<or> no_dots c)"

section \<open>The loop step by step\<close>

lemma join_path_simps [simp]:
  "join_path [] = []" "join_path (c # cs) = c @ CHR 0x2F # join_path cs" "join_path (cs @ ds) = join_path cs @ join_path ds"
  by (simp_all add: join_path_def)

lemma previousDir_append:
  "no_dots (c # s) \<Longrightarrow> hd (t @ [CHR 0x2F]) \<noteq> CHR ''.'' \<Longrightarrow> \<not> previousDir (c # s @ t)"
  by (cases s; cases t) (auto simp: previousDir_def)

text \<open>A text without adjacent dots, followed by nothing that starts with a dot, is copied.\<close>

lemma derive_loop_copy:
  "no_dots s \<Longrightarrow> hd (t @ [CHR 0x2F]) \<noteq> CHR ''.'' \<Longrightarrow>
   \<exists>m'. derive_loop (s @ t) m p n = derive_loop t m' p (n + int (length s))
     \<and> cells m' (p + n) s \<and> (\<forall>a. a \<notin> cell_range (p + n) (length s) \<longrightarrow> m' a = m a)"
proof (induction s arbitrary: m n)
  case Nil
  then show ?case by (auto simp: cells_Nil)
next
  case (Cons c s)
  have "no_dots s" using Cons.prems(1) by simp
  from Cons.IH [OF this Cons.prems(2), of "m(p + n := c)" "n + 1"]
  obtain m' where m': "derive_loop (s @ t) (m(p + n := c)) p (n + 1) = derive_loop t m' p (n + 1 + int (length s))"
      "cells m' (p + (n + 1)) s" "\<forall>a. a \<notin> cell_range (p + (n + 1)) (length s) \<longrightarrow> m' a = (m(p + n := c)) a"
    by blast
  have "\<not> previousDir (c # s @ t)" using Cons.prems by (intro previousDir_append)
  then have "derive_loop ((c # s) @ t) m p n = derive_loop t m' p (n + int (length (c # s)))"
    using m'(1) by (simp add: algebra_simps)
  moreover have "m' (p + n) = c" using m'(3) by (simp add: cell_range_def)
  moreover have "m' a = m a" if "a \<notin> cell_range (p + n) (length (c # s))" for a
    using that m'(3) by (auto simp: cell_range_def)
  ultimately show ?case using m'(2) by (auto simp: cells_Cons algebra_simps)
qed

text \<open>The inner loop stops at the slash before the component, or one before the buffer.\<close>

lemma back_loop_component:
  assumes "\<forall>a. p + int k \<le> a \<and> a \<le> p + n \<longrightarrow> m a \<noteq> CHR 0x2F" and "int k \<le> n + 1"
    and "k = 0 \<or> m (p + int k - 1) = CHR 0x2F"
  shows "\<exists>m'. back_loop m p n = (m', int k - 1) \<and> (\<forall>a. a \<notin> {p + int k .. p + n} \<longrightarrow> m' a = m a)"
  using assms
proof (induction "nat (n + 1 - int k)" arbitrary: n m)
  case 0
  then have n: "n = int k - 1" by simp
  have "back_loop m p n = (m, n)"
    using 0(4) n by (subst back_loop.simps) (auto simp: add_diff_eq)
  then show ?case using n by auto
next
  case (Suc d)
  have n: "int k \<le> n" using Suc.hyps(2) by simp
  then have step: "back_loop m p n = back_loop (resetString m (p + n)) p (n - 1)"
    using Suc.prems(1) by (subst back_loop.simps) auto
  have "\<exists>m'. back_loop (resetString m (p + n)) p (n - 1) = (m', int k - 1)
      \<and> (\<forall>a. a \<notin> {p + int k .. p + (n - 1)} \<longrightarrow> m' a = resetString m (p + n) a)"
  proof (rule Suc.hyps(1))
    show "d = nat (n - 1 + 1 - int k)" using Suc.hyps(2) by simp
    show "\<forall>a. p + int k \<le> a \<and> a \<le> p + (n - 1) \<longrightarrow> resetString m (p + n) a \<noteq> CHR 0x2F"
      using Suc.prems(1) by (auto simp: resetString_def)
    show "k = 0 \<or> resetString m (p + n) (p + int k - 1) = CHR 0x2F"
      using Suc.prems(3) n by (auto simp: resetString_def)
  qed (use n in simp)
  then show ?case unfolding step using n by (auto simp: resetString_def)
qed

text \<open>The state of the loop after some components: the buffer holds the resolved directories, no byte
  outside it has changed but possibly the one before it.\<close>

definition resolved :: "mem \<Rightarrow> addr \<Rightarrow> string list \<Rightarrow> bool \<Rightarrow> mem \<Rightarrow> bool" where
  "resolved m0 p st climbed m \<longleftrightarrow> cells m p (join_path st)
     \<and> m (p - 1) = (if climbed then CHR 0x2F else m0 (p - 1))
     \<and> (\<forall>a. a < p - 1 \<longrightarrow> m a = m0 a)"

lemma resolved_push:
  assumes "resolved m0 p st b m" and "no_dots c" and "component c"
  shows "\<exists>m'. derive_loop (c @ CHR 0x2F # t) m p (int (length (join_path st))) =
      derive_loop t m' p (int (length (join_path (st @ [c])))) \<and> resolved m0 p (st @ [c]) b m'
      \<and> (\<forall>a. p + int (length (join_path (st @ [c]))) \<le> a \<longrightarrow> m' a = m a)"
proof -
  let ?n = "int (length (join_path st))"
  obtain m' where m': "derive_loop (c @ CHR 0x2F # t) m p ?n = derive_loop (CHR 0x2F # t) m' p (?n + int (length c))"
      "cells m' (p + ?n) c" "\<forall>a. a \<notin> cell_range (p + ?n) (length c) \<longrightarrow> m' a = m a"
    using derive_loop_copy [OF assms(2), of "CHR 0x2F # t" m p ?n] by auto
  let ?m = "m'(p + (?n + int (length c)) := CHR 0x2F)"
  have "\<not> previousDir (CHR 0x2F # t)" by (simp add: previousDir_def split: list.split)
  then have "derive_loop (c @ CHR 0x2F # t) m p ?n = derive_loop t ?m p (?n + int (length c) + 1)"
    unfolding m'(1) by simp
  moreover have "cells ?m p (join_path st)"
  proof -
    have "cells m p (join_path st)" using assms(1) by (simp add: resolved_def)
    then have "cells m' p (join_path st)"
      using m'(3) by (auto simp: cells_def cell_range_def)
    then show ?thesis by (subst cells_upd) (auto simp: cell_range_def)
  qed
  moreover have "cells ?m (p + ?n) c" using m'(2) by (subst cells_upd) (auto simp: cell_range_def)
  ultimately show ?thesis
    using assms(1) m'(3)
    by (intro exI [of _ ?m]) (auto simp: resolved_def cells_append cells_Cons cells_Nil cell_range_def algebra_simps)
qed

lemma resolved_pop:
  assumes "resolved m0 p st b m" and "\<forall>c \<in> set st. component c"
  shows "\<exists>m'. derive_loop (dotdot @ CHR 0x2F # t) m p (int (length (join_path st))) =
      derive_loop t m' p (int (length (join_path (butlast st)))) \<and> resolved m0 p (butlast st) (b \<or> length st \<le> 1) m'
      \<and> (\<forall>a. p + int (length (join_path st)) \<le> a \<longrightarrow> m' a = m a)"
proof -
  let ?n = "int (length (join_path st))" and ?k = "length (join_path (butlast st))"
  let ?m = "resetString m (p + (?n - 1))"
  have prev: "previousDir (dotdot @ CHR 0x2F # t)" by (simp add: previousDir_def dotdot_def)
  have slash: "\<not> previousDir (CHR 0x2F # t)" by (simp add: previousDir_def split: list.split)
  have cs: "cells m p (join_path st)" using assms(1) by (simp add: resolved_def)
  have k: "int ?k \<le> ?n" by (cases st rule: rev_cases) auto
  have pre: "cells m p (join_path (butlast st))"
  proof (cases st rule: rev_cases)
    case (snoc ys y)
    then have "join_path st = join_path ys @ y @ [CHR 0x2F]" by simp
    then show ?thesis using cs snoc by (simp only: cells_append butlast_snoc)
  qed (simp add: cells_Nil)
  have sl: "?k = 0 \<or> m (p + int ?k - 1) = CHR 0x2F"
  proof (cases "butlast st" rule: rev_cases)
    case (snoc xs x)
    then have j: "join_path (butlast st) = (join_path xs @ x) @ [CHR 0x2F]" by simp
    have "cells m (p + int (length (join_path xs @ x))) [CHR 0x2F]" using pre unfolding j cells_append by blast
    moreover have "p + int ?k - 1 = p + int (length (join_path xs @ x))" unfolding j by simp
    ultimately show ?thesis by (simp only: cells_Cons simp_thms)
  qed simp
  have comp: "?m a \<noteq> CHR 0x2F" if at: "p + int ?k \<le> a" "a \<le> p + (?n - 1)" for a
  proof (cases "a = p + (?n - 1)")
    case False
    then obtain xs c where st: "st = xs @ [c]" using at by (cases st rule: rev_cases) auto
    obtain j where "a - p - int ?k = int j" using at(1) zero_le_imp_eq_int [of "a - p - int ?k"] by auto
    then have a: "a = p + int ?k + int j" by simp
    have "int (length (join_path st)) = int ?k + int (length c) + 1" using st by simp
    then have j: "j < length c" "a = p + int ?k + int j" using at False a by linarith+
    have "cells m (p + int ?k) c" using cs st by (simp add: cells_append)
    then have "m (p + int ?k + int j) = c ! j" using j(1) by (auto simp: cells_def)
    then have "m a = c ! j" using j(2) by simp
    moreover have "c ! j \<noteq> CHR 0x2F" using assms(2) st nth_mem [OF j(1)] by (auto simp: component_def)
    ultimately show ?thesis using False by (simp add: resetString_def)
  qed (simp add: resetString_def)
  have kn: "?k = 0 \<or> int ?k < ?n" by (cases st rule: rev_cases) auto
  have "\<exists>m'. back_loop ?m p (?n - 1) = (m', int ?k - 1) \<and> (\<forall>a. a \<notin> {p + int ?k .. p + (?n - 1)} \<longrightarrow> m' a = ?m a)"
  proof (rule back_loop_component)
    show "\<forall>a. p + int ?k \<le> a \<and> a \<le> p + (?n - 1) \<longrightarrow> ?m a \<noteq> CHR 0x2F" using comp by blast
    show "?k = 0 \<or> ?m (p + int ?k - 1) = CHR 0x2F" using sl kn by (auto simp: resetString_def)
  qed (use k in simp)
  then obtain m1 where m1: "back_loop ?m p (?n - 1) = (m1, int ?k - 1)" 
      "\<And>a. a \<notin> {p + int ?k .. p + (?n - 1)} \<Longrightarrow> m1 a = ?m a" by blast
  let ?m' = "m1(p + (int ?k - 1) := CHR 0x2F)"
  have "derive_loop (dotdot @ CHR 0x2F # t) m p ?n = derive_loop t ?m' p (int ?k)"
    using prev slash m1(1) by (simp add: dotdot_def)
  moreover have same: "?m' a = m a" if "a < p + int ?k - 1 \<or> p + ?n \<le> a" "a \<noteq> p - 1" for a
    using that m1(2) [of a] k kn by (auto simp: resetString_def)
  moreover have "cells ?m' p (join_path (butlast st))"
  proof -
    have "cells m p (join_path (butlast st))" using cs by (cases st rule: rev_cases) (auto simp: cells_append cells_Nil)
    moreover have "?m' (p + int j) = m (p + int j)" if "j < ?k" for j
    proof (cases "int j = int ?k - 1")
      case True
      then have e: "p + int j = p + int ?k - 1" by simp
      have "m (p + int j) = CHR 0x2F" unfolding e using sl that by auto
      then show ?thesis using True by simp
    next
      case False
      then show ?thesis using that by (intro same) auto
    qed
    ultimately show ?thesis by (simp add: cells_def)
  qed
  moreover have "?m' (p - 1) = (if b \<or> length st \<le> 1 then CHR 0x2F else m0 (p - 1))"
  proof (cases "?k = 0")
    case True
    then have "length st \<le> 1" by (cases st rule: rev_cases; cases "butlast st") auto
    then show ?thesis using True by simp
  next
    case False
    then have "\<not> length st \<le> 1" by (cases st; cases "tl st") auto
    moreover have "?m' (p - 1) = m (p - 1)" using False m1(2) [of "p - 1"] kn by (auto simp: resetString_def)
    ultimately show ?thesis using assms(1) by (simp add: resolved_def)
  qed
  moreover have "?m' a = m0 a" if "a < p - 1" for a
    using that same [of a] assms(1) by (simp only: resolved_def) simp
  moreover have "?m' a = m a" if "p + ?n \<le> a" for a
    using that by (intro same) auto
  ultimately show ?thesis unfolding resolved_def by blast
qed

lemma resolved_run:
  assumes "resolved m0 p st b m" and "\<forall>c \<in> set st. component c" and "\<forall>c \<in> set cs. good_component c"
  shows "\<exists>m'. derive_loop (join_path cs @ t) m p (int (length (join_path st))) =
      derive_loop t m' p (int (length (join_path (resolve st cs)))) \<and> resolved m0 p (resolve st cs) (b \<or> climbs st cs) m'
      \<and> (\<forall>a. p + int (length (join_path st)) + int (length (join_path cs)) \<le> a \<longrightarrow> m' a = m a)
      \<and> (\<forall>c \<in> set (resolve st cs). component c)
      \<and> length (join_path (resolve st cs)) \<le> length (join_path st) + length (join_path cs)"
  using assms
proof (induction cs arbitrary: st b m)
  case Nil
  then show ?case by auto
next
  case (Cons c cs)
  show ?case
  proof (cases "c = dotdot")
    case True
    have comp: "\<forall>x \<in> set (butlast st). component x" using Cons.prems(2) by (auto dest: in_set_butlastD)
    have len: "length (join_path (butlast st)) \<le> length (join_path st)" by (cases st rule: rev_cases) auto
    obtain m1 where m1: "derive_loop (dotdot @ CHR 0x2F # join_path cs @ t) m p (int (length (join_path st))) =
        derive_loop (join_path cs @ t) m1 p (int (length (join_path (butlast st))))"
        "resolved m0 p (butlast st) (b \<or> length st \<le> 1) m1" "\<forall>a. p + int (length (join_path st)) \<le> a \<longrightarrow> m1 a = m a"
      using resolved_pop [OF Cons.prems(1,2), of "join_path cs @ t"] by blast
    obtain m' where m': "derive_loop (join_path cs @ t) m1 p (int (length (join_path (butlast st)))) =
        derive_loop t m' p (int (length (join_path (resolve (butlast st) cs))))"
        "resolved m0 p (resolve (butlast st) cs) ((b \<or> length st \<le> 1) \<or> climbs (butlast st) cs) m'"
        "\<forall>a. p + int (length (join_path (butlast st))) + int (length (join_path cs)) \<le> a \<longrightarrow> m' a = m1 a"
        "\<forall>c \<in> set (resolve (butlast st) cs). component c"
        "length (join_path (resolve (butlast st) cs)) \<le> length (join_path (butlast st)) + length (join_path cs)"
      using Cons.IH [OF m1(2) comp] Cons.prems(3) by auto
    have "(b \<or> length st \<le> 1) \<or> climbs (butlast st) cs \<longleftrightarrow> b \<or> climbs st (c # cs)" using True by auto
    moreover have "join_path (c # cs) @ t = dotdot @ CHR 0x2F # join_path cs @ t" using True by simp
    ultimately show ?thesis using m1(1,3) m' len True by (intro exI [of _ m']) auto
  next
    case False
    then have good: "no_dots c" "component c" using Cons.prems(3) by (auto simp: good_component_def)
    have comp: "\<forall>x \<in> set (st @ [c]). component x" using Cons.prems(2) good by auto
    obtain m1 where m1: "derive_loop (c @ CHR 0x2F # join_path cs @ t) m p (int (length (join_path st))) =
        derive_loop (join_path cs @ t) m1 p (int (length (join_path (st @ [c]))))"
        "resolved m0 p (st @ [c]) b m1" "\<forall>a. p + int (length (join_path (st @ [c]))) \<le> a \<longrightarrow> m1 a = m a"
      using resolved_push [OF Cons.prems(1) good, of "join_path cs @ t"] by blast
    obtain m' where m': "derive_loop (join_path cs @ t) m1 p (int (length (join_path (st @ [c])))) =
        derive_loop t m' p (int (length (join_path (resolve (st @ [c]) cs))))"
        "resolved m0 p (resolve (st @ [c]) cs) (b \<or> climbs (st @ [c]) cs) m'"
        "\<forall>a. p + int (length (join_path (st @ [c]))) + int (length (join_path cs)) \<le> a \<longrightarrow> m' a = m1 a"
        "\<forall>c \<in> set (resolve (st @ [c]) cs). component c"
        "length (join_path (resolve (st @ [c]) cs)) \<le> length (join_path (st @ [c])) + length (join_path cs)"
      using Cons.IH [OF m1(2) comp] Cons.prems(3) by auto
    have "join_path (c # cs) @ t = c @ CHR 0x2F # join_path cs @ t" by simp
    then show ?thesis using m1(1,3) m' False by (intro exI [of _ m']) auto
  qed
qed

section \<open>What \<open>deriveRelative\<close> computes\<close>

lemma resolve_plain: "dotdot \<notin> set st \<Longrightarrow> resolve xs (st @ cs) = resolve (xs @ st) cs"
  by (induction st arbitrary: xs) auto

lemma climbs_plain: "dotdot \<notin> set st \<Longrightarrow> climbs xs (st @ cs) = climbs (xs @ st) cs"
  by (induction st arbitrary: xs) auto

lemma deriveRelative_file_path:
  assumes f: "file_path cwd q = Some (join_path cs @ f)" and "\<forall>c \<in> set cs. good_component c"
    and "component f" "no_dots f"
  shows "\<exists>m'. deriveRelative cwd m p q = Some m' \<and> cstr m' p (join_path (resolve [] cs) @ f)
    \<and> length (join_path (resolve [] cs) @ f) < 100
    \<and> m' (p - 1) = (if climbs [] cs then CHR 0x2F else m (p - 1)) \<and> (\<forall>a. a < p - 1 \<longrightarrow> m' a = m a)"
proof -
  let ?m = "resetString m p" and ?r = "resolve [] cs"
  have "resolved ?m p [] False ?m" by (simp add: resolved_def cells_Nil)
  from resolved_run [OF this _ assms(2), of f]
  obtain m1 where m1: "derive_loop (join_path cs @ f) ?m p (int (length (join_path []))) =
      derive_loop f m1 p (int (length (join_path ?r)))" "resolved ?m p ?r (False \<or> climbs [] cs) m1"
      "\<forall>c \<in> set ?r. component c" "length (join_path ?r) \<le> length (join_path []) + length (join_path cs)"
    by auto
  from derive_loop_copy [OF assms(4), of "[]" m1 p "int (length (join_path ?r))"] obtain m2 where
    m2: "derive_loop f m1 p (int (length (join_path ?r))) = (m2, int (length (join_path ?r @ f)))"
      "cells m2 (p + int (length (join_path ?r))) f"
      "\<forall>a. a \<notin> cell_range (p + int (length (join_path ?r))) (length f) \<longrightarrow> m2 a = m1 a" by auto
  let ?n = "length (join_path ?r @ f)"
  let ?m' = "(m2(p + int ?n := NUL))(p + int ?n + 1 := NUL)"
  have run: "deriveRelative cwd m p q = Some ?m'"
    using f m1(1) m2(1) by (simp add: deriveRelative_def Let_def getOffset_def resetString_def)
  have "cells m1 p (join_path ?r)" using m1(2) by (simp add: resolved_def)
  then have "cells m2 p (join_path ?r)" using m2(3) by (auto simp: cells_def cell_range_def)
  then have "cells m2 p (join_path ?r @ f)" using m2(2) by (simp add: cells_append)
  then have "cells ?m' p (join_path ?r @ f)" by (simp add: cells_upd cell_range_def)
  moreover have "NUL \<notin> set (join_path ?r @ f)" using m1(3) assms(3) by (auto simp: component_def join_path_def)
  ultimately have "cstr ?m' p (join_path ?r @ f)" by (simp add: cstr_cells)
  moreover have "?n < 100" using m1(4) f by (auto simp: file_path_def Let_def split: if_splits)
  moreover have "?m' (p - 1) = (if climbs [] cs then CHR 0x2F else m (p - 1))" "\<forall>a. a < p - 1 \<longrightarrow> ?m' a = m a"
    using m1(2) m2(3) by (auto simp: resolved_def cell_range_def resetString_def)
  ultimately show ?thesis using run by blast
qed



section \<open>The callers' view\<close>

text \<open>The string in a buffer of \<open>n\<close> bytes.\<close>

definition read_field :: "mem \<Rightarrow> addr \<Rightarrow> nat \<Rightarrow> string" where
  "read_field m p n = takeWhile (\<lambda>c. c \<noteq> NUL) (map (\<lambda>i. m (p + int i)) [0..<n])"

fun put_cstr :: "addr \<Rightarrow> string \<Rightarrow> mem \<Rightarrow> mem" where
  "put_cstr p [] m = m(p := NUL)"
| "put_cstr p (c # s) m = put_cstr (p + 1) s (m(p := c))"

lemma read_field_cstr: "cstr m p s \<Longrightarrow> length s < n \<Longrightarrow> read_field m p n = s"
proof (induction s arbitrary: p n)
  case Nil
  then show ?case by (cases n) (simp_all add: read_field_def upt_conv_Cons del: upt_Suc)
next
  case (Cons c s)
  obtain n' where n: "n = Suc n'" using Cons.prems(2) by (cases n) auto
  have "map (\<lambda>i. m (p + int i)) [0..<n] = m p # map (\<lambda>i. m (p + 1 + int i)) [0..<n']"
    unfolding n by (simp add: map_upt_Suc algebra_simps del: upt_Suc)
  then show ?case using Cons n by (simp add: read_field_def)
qed

text \<open>The callers copy the path into a local \<^verbatim>\<open>char[100]\<close>, here at address 0 of the stack frame
  \<open>stk\<close>, and use the rewritten string.\<close>

definition derive_string :: "mem \<Rightarrow> string \<Rightarrow> string \<Rightarrow> string option" where
  "derive_string stk cwd p =
     (if length p < 100
      then map_option (\<lambda>m. read_field m 0 100) (deriveRelative cwd (put_cstr 0 p stk) 0 p) else None)"

lemma derive_string_file_path:
  assumes "file_path cwd p = Some (join_path cs @ f)" and "\<forall>c \<in> set cs. good_component c"
    and "component f" "no_dots f" and "length p < 100"
  shows "derive_string stk cwd p = Some (join_path (resolve [] cs) @ f)"
  using deriveRelative_file_path [OF assms(1-4), of "put_cstr 0 p stk" 0] assms(5)
  by (auto simp: derive_string_def read_field_cstr)

end
