(* ===== verification/Archive.thy ===== *)
theory Archive
  imports CStrings
begin

text \<open>
  The read-only tar archive linked into the kernel (\<^verbatim>\<open>sys/tarfs.c\<close>, \<^verbatim>\<open>include/sys/elf64.h\<close>):
  the scan \<open>init_tarfs\<close> that records the address of every header, the octal size field and
  the look-up of a file by name. A header takes 512 bytes; the fields used are the name at
  offset 0 and the size at offset 124. \<open>headers\<close> holds the \<open>filecount\<close> entries that have been
  filled, the rest of the C array is NULL. Also \<open>toBinaryFile\<close> of \<^verbatim>\<open>sys/string.c\<close>,
  which the kernel uses for a file's size.
\<close>

section \<open>Sizes\<close>

definition ustar_size :: int where "ustar_size = 124"

fun getsize_loop :: "mem \<Rightarrow> addr \<Rightarrow> nat \<Rightarrow> int \<Rightarrow> int \<Rightarrow> int" where
  "getsize_loop m headerSize 0 size0 count = size0"
| "getsize_loop m headerSize (Suc j) size0 count =
     getsize_loop m headerSize j
       (to_int32 (size0 + to_int32 ((c2i (m (headerSize + int j)) - 48) * count))) (to_int32 (count * 8))"

definition getsize :: "mem \<Rightarrow> addr \<Rightarrow> u32" where
  "getsize m headerSize = word_of_int (getsize_loop m headerSize (512 - 501) 0 1)"

definition moveTarfsHeader :: "mem \<Rightarrow> addr \<Rightarrow> addr \<Rightarrow> addr" where
  "moveTarfsHeader m tarfsAddr header =
     (let size0 = getsize m (header + ustar_size);
          tarfsAddr = tarfsAddr + uint ((size0 div 512 + 1) * 512)
      in if size0 mod 512 \<noteq> 0 then tarfsAddr + 512 else tarfsAddr)"

section \<open>The scan and the look-up\<close>

partial_function (option) init_loop :: "mem \<Rightarrow> addr \<Rightarrow> addr \<Rightarrow> addr list \<Rightarrow> addr list option" where
  "init_loop m tarfs_end tarfsAddr hs =
     (if tarfsAddr < tarfs_end then
        (if length hs < 200 then init_loop m tarfs_end (moveTarfsHeader m tarfsAddr tarfsAddr) (hs @ [tarfsAddr])
         else None)
      else Some hs)"

definition init_tarfs :: "mem \<Rightarrow> addr \<Rightarrow> addr \<Rightarrow> addr list option" where
  "init_tarfs m tarfs_start tarfs_end = init_loop m tarfs_end tarfs_start []"

text \<open>The result \<open>-1\<close> is converted to \<^verbatim>\<open>uint64_t\<close>.\<close>

fun file_loop :: "mem \<Rightarrow> string \<Rightarrow> addr list \<Rightarrow> addr option" where
  "file_loop m filename [] = Some (2 ^ 64 - 1)"
| "file_loop m filename (h # hs) = do {
     nm \<leftarrow> read_cstr m h;
     if strcmp_s filename nm = 0 then Some h else file_loop m filename hs
   }"

definition get_file_address :: "mem \<Rightarrow> addr list \<Rightarrow> string \<Rightarrow> addr option" where
  "get_file_address m hs filename = file_loop m filename hs"

section \<open>\<open>toBinaryFile\<close>\<close>

text \<open>Elements that the initialiser leaves out are 0.\<close>

definition octal_dict :: "int list" where
  "octal_dict = [0, 1, 10, 11, 100, 101, 111, 0]"

lemma cdiv_10_shrinks: "x \<noteq> 0 \<Longrightarrow> \<bar>cdiv x 10\<bar> < \<bar>x\<bar>"
proof -
  assume "x \<noteq> 0"
  then have "\<bar>cdiv x 10\<bar> = \<bar>x\<bar> div 10" by (simp add: cdiv_def abs_mult abs_sgn_eq)
  then show ?thesis using \<open>x \<noteq> 0\<close> by simp
qed

function binary_loop :: "int \<Rightarrow> int \<Rightarrow> u64 \<Rightarrow> u64 option" where
  "binary_loop oct i bin0 =
     (if oct \<noteq> 0 then
        (let temp = cmod oct 10 in
         if 0 \<le> temp \<and> temp < 8
         then binary_loop (cdiv oct 10) (to_int32 (i * 1000))
                (bin0 + word_of_int (to_int32 (octal_dict ! nat temp * i)))
         else None)
      else Some bin0)"
  by auto
termination by (relation "measure (\<lambda>(oct, i, b). nat \<bar>oct\<bar>)") (auto intro: cdiv_10_shrinks)

declare binary_loop.simps [simp del]

definition toBinaryFile :: "string \<Rightarrow> u64 option" where
  "toBinaryFile octal =
     binary_loop (fold (\<lambda>c oct. to_int32 ((c2i c - c2i (CHR ''0'')) + to_int32 (oct * 10))) octal 0) 1 0"

section \<open>Octal fields\<close>

definition oct_val :: "string \<Rightarrow> int" where
  "oct_val ds = foldl (\<lambda>v c. 8 * v + (c2i c - 48)) 0 ds"

lemma oct_val_snoc: "oct_val (ds @ [c]) = 8 * oct_val ds + (c2i c - 48)"
  by (simp add: oct_val_def)

text \<open>The numeral of \<open>n\<close> in \<open>k\<close> octal digits.\<close>

fun oct_str :: "nat \<Rightarrow> nat \<Rightarrow> string" where
  "oct_str 0 n = []"
| "oct_str (Suc k) n = oct_str k (n div 8) @ [char_of (48 + n mod 8)]"

lemma length_oct_str [simp]: "length (oct_str k n) = k"
  by (induction k arbitrary: n) simp_all

lemma oct_val_oct_str: "n < 8 ^ k \<Longrightarrow> oct_val (oct_str k n) = int n"
proof (induction k arbitrary: n)
  case (Suc k)
  have "n div 8 < 8 ^ k" using Suc.prems by (simp add: less_mult_imp_div_less mult.commute)
  moreover have "c2i (char_of (48 + n mod 8)) - 48 = int (n mod 8)" by (simp add: c2i_def Let_def of_char_of)
  ultimately show ?case using Suc.IH by (simp add: oct_val_snoc zmod_int zdiv_int)
qed (simp add: oct_val_def)

lemma getsize_loop_word:
  "j \<le> length ds \<Longrightarrow> cells m p ds \<Longrightarrow>
   (word_of_int (getsize_loop m p j s c) :: u32) = word_of_int (s + c * oct_val (take j ds))"
proof (induction j arbitrary: s c)
  case 0
  then show ?case by (simp add: oct_val_def)
next
  case (Suc j)
  have t: "take (Suc j) ds = take j ds @ [ds ! j]" using Suc.prems(1) by (simp add: take_Suc_conv_app_nth)
  have d: "m (p + int j) = ds ! j" using Suc.prems by (simp add: cells_def)
  have "(word_of_int (getsize_loop m p (Suc j) s c) :: u32) =
      word_of_int (to_int32 (s + to_int32 ((c2i (ds ! j) - 48) * c)) + to_int32 (c * 8) * oct_val (take j ds))"
    using Suc by (simp add: d)
  also have "\<dots> = word_of_int (s + (c2i (ds ! j) - 48) * c + (c * 8) * oct_val (take j ds))"
    by (simp only: wi_hom_add [symmetric] wi_hom_mult [symmetric] word_of_to_int32)
  finally show ?case unfolding t oct_val_snoc by (simp add: algebra_simps)
qed

lemma getsize_oct: "cells m p ds \<Longrightarrow> length ds = 11 \<Longrightarrow> getsize m p = word_of_int (oct_val ds)"
  using getsize_loop_word [of 11 ds m p 0 1] by (simp add: getsize_def)

text \<open>\<open>getsize\<close> reads the size field of a tar header back: the 11 octal digits of every size below
  2 ^ 32 give that size.\<close>

theorem getsize_roundtrip:
  assumes "n < 2 ^ 32" and "cells m p (oct_str 11 n)"
  shows "getsize m p = of_nat n \<and> unat (getsize m p) = n"
proof -
  have "getsize m p = word_of_int (int n)"
    using getsize_oct [OF assms(2)] oct_val_oct_str [of n 11] assms(1) by simp
  then show ?thesis using assms(1) by (simp add: unsigned_of_nat take_bit_nat_eq_self)
qed

theorem getsize_roundtrip_witness:
  "unat (getsize (\<lambda>a. if 0 \<le> a \<and> a < 11 then oct_str 11 1234 ! nat a else NUL) 0) = 1234"
  using getsize_roundtrip [of 1234 "\<lambda>a. if 0 \<le> a \<and> a < 11 then oct_str 11 1234 ! nat a else NUL" 0]
  by (simp add: cells_def)

section \<open>Well-formed archives\<close>

text \<open>An archive of named files: header, contents padded to blocks of 512 bytes, and at the end at
  least one block of zeros.\<close>

fun archive :: "mem \<Rightarrow> addr \<Rightarrow> (string \<times> string) list \<Rightarrow> addr \<Rightarrow> bool" where
  "archive m a [] e \<longleftrightarrow> a < e \<and> e \<le> a + 2 ^ 30 \<and> m a = NUL \<and> cells m (a + ustar_size) (replicate 11 NUL)"
| "archive m a ((nm, body) # es) e \<longleftrightarrow> cstr m a nm \<and> length nm < 100 \<and> length body < 2 ^ 31
     \<and> cells m (a + ustar_size) (oct_str 11 (length body)) \<and> cells m (a + 512) body
     \<and> archive m (a + 512 + 512 * int ((length body + 511) div 512)) es e"

fun entry_addrs :: "addr \<Rightarrow> (string \<times> string) list \<Rightarrow> addr list" where
  "entry_addrs a [] = [a]"
| "entry_addrs a ((nm, body) # es) = a # entry_addrs (a + 512 + 512 * int ((length body + 511) div 512)) es"

lemma archive_less: "archive m a es e \<Longrightarrow> a < e"
proof (induction es arbitrary: a)
  case (Cons f es)
  obtain nm body where f: "f = (nm, body)" by (cases f)
  have "a + 512 + 512 * int ((length body + 511) div 512) < e" using Cons f by auto
  then show ?case by linarith
qed simp

lemma moveTarfsHeader_entry:
  assumes "n < 2 ^ 31" and "cells m (h + ustar_size) (oct_str 11 n)"
  shows "moveTarfsHeader m a h = a + 512 + 512 * int ((n + 511) div 512)"
proof -
  have "getsize m (h + ustar_size) = word_of_int (int n)"
    using getsize_oct [OF assms(2)] oct_val_oct_str [of n 11] assms(1) by simp
  then have g: "unat (getsize m (h + ustar_size)) = n"
    using assms(1) by (simp add: unsigned_of_nat take_bit_nat_eq_self)
  define g where "g = getsize m (h + ustar_size)"
  have q: "n div 512 + 1 < 2 ^ 32" "(n div 512 + 1) * 512 < 2 ^ 32" using assms(1) by auto
  have d: "unat (g div 512) = n div 512" "unat (g mod 512) = n mod 512" using g by (simp_all add: g_def unat_div unat_mod)
  define x where "x = g div 512 + 1"
  have "unat x = n div 512 + 1" using q(1) d(1) by (simp add: x_def unat_word_ariths)
  then have "unat (x * 512) = (n div 512 + 1) * 512" using q(2) by (simp add: unat_word_ariths)
  then have "unat ((g div 512 + 1) * 512) = (n div 512 + 1) * 512" by (simp add: x_def)
  then have u: "uint ((g div 512 + 1) * 512) = int ((n div 512 + 1) * 512)" by (simp only: uint_nat)
  have z: "g mod 512 \<noteq> 0 \<longleftrightarrow> n mod 512 \<noteq> 0" using d(2) by (metis unat_eq_zero)
  have "(n + 511) div 512 = n div 512 + (if n mod 512 = 0 then 0 else 1)"
  proof -
    define q r where "q = n div 512" and "r = n mod 512"
    have n: "n = 512 * q + r" "r < 512" by (simp_all add: q_def r_def)
    have "(n + 511) div 512 = q + (r + 511) div 512" using n(1) by (metis add.assoc div_mult_self4 numeral_neq_zero)
    moreover have "(r + 511) div 512 = (if r = 0 then 0 else 1)" using n(2) by (auto intro: div_nat_eqI)
    ultimately show ?thesis by (simp add: q_def r_def)
  qed
  then show ?thesis using u z by (simp add: moveTarfsHeader_def Let_def g_def [symmetric])
qed

lemma moveTarfsHeader_end:
  assumes "cells m (h + ustar_size) (replicate 11 NUL)"
  shows "a + 2 ^ 30 \<le> moveTarfsHeader m a h"
proof -
  have v: "oct_val (replicate 11 NUL) = -58902408624" by (simp add: oct_val_def eval_nat_numeral)
  have "getsize m (h + ustar_size) = word_of_int (oct_val (replicate 11 NUL))"
    by (rule getsize_oct [OF assms]) simp
  then have "getsize m (h + ustar_size) = 1227133520" unfolding v by simp
  then show ?thesis by (simp add: moveTarfsHeader_def Let_def)
qed

lemma init_loop_entries:
  "archive m a es e \<Longrightarrow> length hs + length es < 200 \<Longrightarrow> init_loop m e a hs = Some (hs @ entry_addrs a es)"
proof (induction es arbitrary: a hs)
  case Nil
  have "init_loop m e (moveTarfsHeader m a a) (hs @ [a]) = Some (hs @ [a])"
    using Nil moveTarfsHeader_end [of m a a] by (subst init_loop.simps) auto
  then show ?case using Nil by (simp add: init_loop.simps [of m e a])
next
  case (Cons f es)
  obtain nm body where f: "f = (nm, body)" by (cases f)
  let ?b = "a + 512 + 512 * int ((length body + 511) div 512)"
  have "moveTarfsHeader m a a = ?b" using Cons.prems(1) f by (intro moveTarfsHeader_entry) auto
  moreover have "init_loop m e ?b (hs @ [a]) = Some ((hs @ [a]) @ entry_addrs ?b es)"
    using Cons.prems f by (intro Cons.IH) auto
  ultimately show ?case
    using Cons.prems(2) archive_less [OF Cons.prems(1)] f by (simp add: init_loop.simps [of m e a])
qed

lemma entry_addrs_nth:
  "archive m a es e \<Longrightarrow> i < length es \<Longrightarrow>
   cstr m (entry_addrs a es ! i) (fst (es ! i)) \<and> cells m (entry_addrs a es ! i + 512) (snd (es ! i))
   \<and> cells m (entry_addrs a es ! i + ustar_size) (oct_str 11 (length (snd (es ! i)))) \<and> length (snd (es ! i)) < 2 ^ 31"
proof (induction es arbitrary: a i)
  case (Cons f es)
  obtain nm body where f: "f = (nm, body)" by (cases f)
  show ?case
  proof (cases i)
    case 0
    then show ?thesis using Cons.prems f by simp
  next
    case (Suc j)
    then show ?thesis using Cons.prems f Cons.IH [of "a + 512 + 512 * int ((length body + 511) div 512)" j] by simp
  qed
qed simp

lemma length_entry_addrs [simp]: "length (entry_addrs a es) = Suc (length es)"
  by (induction a es rule: entry_addrs.induct) simp_all

text \<open>C27: \<open>init_tarfs\<close> finds every file: on a well-formed archive of fewer than 200 files it
  returns, and the table holds, in order, the address of each file's header, with the file's name
  and its contents 512 bytes further on, and the size field giving the length; one more
  entry points to the end-of-archive block, which the scan takes for a header.\<close>

theorem init_tarfs_lists_archive:
  assumes "archive m a es e" and "length es < 200"
  shows "\<exists>hs. init_tarfs m a e = Some hs \<and> length hs = length es + 1
    \<and> (\<forall>i < length es. cstr m (hs ! i) (fst (es ! i)) \<and> cells m (hs ! i + 512) (snd (es ! i))
         \<and> unat (getsize m (hs ! i + ustar_size)) = length (snd (es ! i)))"
proof -
  have "unat (getsize m (entry_addrs a es ! i + ustar_size)) = length (snd (es ! i))" if "i < length es" for i
  proof -
    note n = entry_addrs_nth [OF assms(1) that]
    have "getsize m (entry_addrs a es ! i + ustar_size) = word_of_int (int (length (snd (es ! i))))"
      using n getsize_oct [of m "entry_addrs a es ! i + ustar_size" "oct_str 11 (length (snd (es ! i)))"]
        oct_val_oct_str [of "length (snd (es ! i))" 11] by simp
    then show ?thesis using n by (simp add: unsigned_of_nat take_bit_nat_eq_self)
  qed
  then show ?thesis
    using init_loop_entries [OF assms(1), of "[]"] assms(2) entry_addrs_nth [OF assms(1)]
    by (auto simp: init_tarfs_def)
qed

text \<open>An archive with the one file \<^verbatim>\<open>a\<close>, which contains \<^verbatim>\<open>xyz\<close>, at address 4096.\<close>

definition small_tar :: mem where
  "small_tar = (\<lambda>i. if i = 4096 then CHR ''a''
     else if 4220 \<le> i \<and> i < 4231 then oct_str 11 3 ! nat (i - 4220)
     else if 4608 \<le> i \<and> i < 4611 then ''xyz'' ! nat (i - 4608) else NUL)"

lemma archive_small_tar: "archive small_tar 4096 [(''a'', ''xyz'')] 5632"
proof -
  have l: "length ''xyz'' = 3" by simp
  have "cells small_tar (4096 + ustar_size) (oct_str 11 (length ''xyz''))"
    unfolding l by (simp add: cells_def small_tar_def ustar_size_def)
  moreover have "cells small_tar (4096 + 512) ''xyz''"
    by (auto simp: cells_def small_tar_def)
  ultimately show ?thesis by (simp add: cells_def small_tar_def ustar_size_def)
qed

theorem init_tarfs_lists_archive_witness:
  "\<exists>hs. init_tarfs small_tar 4096 5632 = Some hs \<and> length hs = 2 \<and> cstr small_tar (hs ! 0) ''a''"
  using init_tarfs_lists_archive [OF archive_small_tar] by auto

section \<open>Looking a file up\<close>

lemma file_loop_find:
  "length names = length hs \<Longrightarrow> (\<forall>i < length hs. cstr m (hs ! i) (names ! i)) \<Longrightarrow> NUL \<notin> set filename \<Longrightarrow>
   file_loop m filename hs = Some (case find (\<lambda>i. names ! i = filename) [0..<length hs] of
     Some i \<Rightarrow> hs ! i | None \<Rightarrow> 2 ^ 64 - 1)"
proof (induction hs arbitrary: names)
  case (Cons h hs)
  obtain n ns where names: "names = n # ns" using Cons.prems(1) by (cases names) auto
  have n: "cstr m h n" "NUL \<notin> set n" using Cons.prems(2) names cstr_no_NUL by force+
  have ih: "file_loop m filename hs = Some (case find (\<lambda>i. ns ! i = filename) [0..<length hs] of
      Some i \<Rightarrow> hs ! i | None \<Rightarrow> 2 ^ 64 - 1)"
    using Cons.prems names by (intro Cons.IH) fastforce+
  have shift: "find (\<lambda>i. names ! i = filename) [0..<length (h # hs)] =
      (if n = filename then Some 0 else map_option Suc (find (\<lambda>i. ns ! i = filename) [0..<length hs]))"
    unfolding names by (simp add: upt_conv_Cons map_Suc_upt [symmetric] find_map del: upt_Suc)
  have "strcmp_s filename n = 0 \<longleftrightarrow> n = filename" using strcmp_s_eq_0 [OF Cons.prems(3) n(2)] by auto
  then show ?case using read_cstr_cstr [OF n(1)] ih unfolding shift by (auto split: option.split)
qed simp

lemma archive_end: "archive m a es e \<Longrightarrow> m (entry_addrs a es ! length es) = NUL"
  by (induction m a es e rule: archive.induct) auto

lemma init_tarfs_eq: "archive m a es e \<Longrightarrow> length es < 200 \<Longrightarrow> init_tarfs m a e = Some (entry_addrs a es)"
  using init_loop_entries [of m a es e "[]"] by (simp add: init_tarfs_def)

text \<open>The names the headers hold: those of the files and the empty one of the end marker.\<close>

lemma entry_names:
  assumes "archive m a es e" and "i < length (entry_addrs a es)"
  shows "cstr m (entry_addrs a es ! i) ((map fst es @ [[]]) ! i)"
proof (cases "i < length es")
  case True
  then show ?thesis using entry_addrs_nth [OF assms(1) True] by (simp add: nth_append)
next
  case False
  then have "i = length es" using assms(2) by simp
  then show ?thesis using archive_end [OF assms(1)] by (simp add: nth_append)
qed

text \<open>After \<open>init_tarfs\<close> on a well-formed archive, \<open>get_file_address\<close> of a non-empty name returns
  the header of the first file with exactly that name, and the 64-bit \<open>-1\<close> if there is none.\<close>

theorem get_file_address_first:
  assumes "archive m a es e" and "length es < 200" and "init_tarfs m a e = Some hs"
    and "NUL \<notin> set filename" and "filename \<noteq> []"
  shows "get_file_address m hs filename = Some (case find (\<lambda>i. fst (es ! i) = filename) [0..<length es] of
     Some i \<Rightarrow> hs ! i | None \<Rightarrow> 2 ^ 64 - 1)"
proof -
  have hs: "hs = entry_addrs a es" using init_tarfs_eq [OF assms(1,2)] assms(3) by simp
  have f: "get_file_address m hs filename = Some (case find (\<lambda>i. (map fst es @ [[]]) ! i = filename) [0..<length hs] of
     Some i \<Rightarrow> hs ! i | None \<Rightarrow> 2 ^ 64 - 1)"
    unfolding get_file_address_def hs using entry_names [OF assms(1)] assms(4) by (intro file_loop_find) auto
  have "find (\<lambda>i. (map fst es @ [[]]) ! i = filename) [0..<length es] = find (\<lambda>i. fst (es ! i) = filename) [0..<length es]"
    by (rule find_cong) (auto simp: nth_append)
  then have "find (\<lambda>i. (map fst es @ [[]]) ! i = filename) [0..<length hs] = find (\<lambda>i. fst (es ! i) = filename) [0..<length es]"
    using assms(5) by (simp add: hs find_append nth_append split: option.split)
  then show ?thesis using f by simp
qed

theorem get_file_address_first_witness:
  "\<exists>hs. init_tarfs small_tar 4096 5632 = Some hs \<and> get_file_address small_tar hs ''a'' = Some 4096
     \<and> get_file_address small_tar hs ''b'' = Some (2 ^ 64 - 1)"
proof -
  have i: "init_tarfs small_tar 4096 5632 = Some (entry_addrs 4096 [(''a'', ''xyz'')])"
    by (rule init_tarfs_eq [OF archive_small_tar]) simp
  show ?thesis using get_file_address_first [OF archive_small_tar _ i, of "''a''"]
      get_file_address_first [OF archive_small_tar _ i, of "''b''"] i by simp
qed

end
