(* ===== verification/Files.thy ===== *)
theory Files
  imports Paths Archive Scheduler
begin

text \<open>
  Files, directories and the working directory: the descriptor operations of
  \<^verbatim>\<open>sys/tarfs.c\<close> and \<open>chdir\<close> and \<open>getCurrentDirectory\<close> of \<^verbatim>\<open>sys/process.c\<close>. Strings that
  user programs pass are Isabelle strings; archive names are read from the archive's memory.
  A descriptor index outside \<^verbatim>\<open>fd[100]\<close> and a string too long for its array are \<open>None\<close>
  results.
\<close>

section \<open>The operations\<close>

text \<open>\<open>stk\<close> stands for the bytes of the kernel stack that a local array overlays.\<close>

record fs =
  tm :: mem
  headers :: "addr list"
  stk :: mem

text \<open>The search in the first 32 headers; a NULL header ends it.\<close>

fun check_loop :: "mem \<Rightarrow> string \<Rightarrow> addr list \<Rightarrow> int \<Rightarrow> int option" where
  "check_loop m path0 [] fileID = Some (-1)"
| "check_loop m path0 (h # hs) fileID = do {
     nm \<leftarrow> read_cstr m h;
     if strcmp_s nm path0 = 0 then Some fileID else check_loop m path0 hs (fileID + 1)
   }"

definition checkFile :: "fs \<Rightarrow> string \<Rightarrow> int option" where
  "checkFile f path0 = check_loop (tm f) path0 (take 32 (headers f)) 0"

definition isfileexists :: "fs \<Rightarrow> kernel \<Rightarrow> string \<Rightarrow> int option" where
  "isfileexists f k path0 = do {
     p \<leftarrow> derive_string (stk f) (curr_dir (cur k)) path0;
     checkFile f p
   }"

text \<open>The last byte of the name is read at \<^verbatim>\<open>strlen - 1\<close>, also of an empty name.\<close>

definition isValidDirectory :: "fs \<Rightarrow> kernel \<Rightarrow> string \<Rightarrow> int option" where
  "isValidDirectory f k path0 = do {
     i \<leftarrow> isfileexists f k path0;
     if i = -1 then Some (-1)
     else do {
       nm \<leftarrow> read_cstr (tm f) (headers f ! nat i);
       if tm f (headers f ! nat i + int (length nm) - 1) = CHR 0x2F then isfileexists f k path0
       else Some (-1)
     }
   }"

definition upd_fd :: "nat \<Rightarrow> (file_t \<Rightarrow> file_t) \<Rightarrow> kernel \<Rightarrow> kernel" where
  "upd_fd i g k = upd_task (currentTask k) (\<lambda>t. t\<lparr>fd := (fd t)(i := g (fd t i))\<rparr>) k"

definition setCurrentTaskVal :: "int \<Rightarrow> int \<Rightarrow> int \<Rightarrow> fs \<Rightarrow> kernel \<Rightarrow> (int \<times> kernel) option" where
  "setCurrentTaskVal setflag fileID flags f k =
     (let fileCounter = fd_c (cur k) + 3;
          k = upd_task (currentTask k) (\<lambda>t. t\<lparr>fd_c := fd_c t + 1\<rparr>) k;
          h = headers f ! nat fileID
      in if 0 \<le> fileCounter \<and> fileCounter < 100 then do {
           nm \<leftarrow> read_cstr (tm f) h;
           nm \<leftarrow> strcpy_field 50 nm;
           sz \<leftarrow> read_cstr (tm f) (h + ustar_size);
           sz \<leftarrow> toBinaryFile sz;
           let k = upd_fd (nat fileCounter) (\<lambda>d. d\<lparr>file_name := nm, f_entry := 0, aval := 1, f_size := sz,
             f_address := word_of_int h, f_fd := fileCounter\<rparr>) k;
           let k = (if setflag \<noteq> 10 then upd_fd (nat fileCounter) (\<lambda>d. d\<lparr>f_flags := word_of_int flags\<rparr>) k else k);
           Some (fileCounter, k)
         }
         else None)"

definition openDirFile :: "string \<Rightarrow> fs \<Rightarrow> kernel \<Rightarrow> (int \<times> kernel) option" where
  "openDirFile path0 f k =
     (if strcmp_s path0 [CHR 0x2F] = 0 then
        (let fdc = fd_c (cur k) + 3;
             k = upd_task (currentTask k) (\<lambda>t. t\<lparr>fd_c := fd_c t + 1\<rparr>) k
         in if 0 \<le> fdc \<and> fdc < 100
            then Some (fdc, upd_fd (nat fdc) (\<lambda>d. d\<lparr>f_entry := 0, file_name := [CHR 0x2F]\<rparr>) k) else None)
      else do {
        fileID \<leftarrow> isValidDirectory f k path0;
        if fileID = -1 then Some (fileID, k) else setCurrentTaskVal 10 fileID (-1) f k
      })"

definition openTarfsFile :: "string \<Rightarrow> int \<Rightarrow> fs \<Rightarrow> kernel \<Rightarrow> (int \<times> kernel) option" where
  "openTarfsFile path0 flags f k = do {
     fileID \<leftarrow> isfileexists f k path0;
     if fileID = -1 then Some (fileID, k) else setCurrentTaskVal 2 fileID flags f k
   }"

text \<open>\<open>setFilePath\<close> copies from \<^verbatim>\<open>(char *)header + 1\<close>.\<close>

fun path_loop :: "nat \<Rightarrow> addr \<Rightarrow> addr \<Rightarrow> mem \<Rightarrow> mem \<Rightarrow> mem" where
  "path_loop 0 path0 src t m = m"
| "path_loop (Suc n) path0 src t m = path_loop n (path0 + 1) (src + 1) t (m(path0 := t src))"

definition setFilePath :: "addr \<Rightarrow> int \<Rightarrow> addr \<Rightarrow> mem \<Rightarrow> mem \<Rightarrow> mem" where
  "setFilePath path0 count header t m = (path_loop (nat count) path0 (header + 1) t m)(path0 + count := NUL)"

definition readTarfsFile :: "int \<Rightarrow> addr \<Rightarrow> int \<Rightarrow> fs \<Rightarrow> kernel \<Rightarrow> mem \<Rightarrow> (int \<times> mem) option" where
  "readTarfsFile d buf count f k m =
     (if 0 \<le> d \<and> d < 100 then
        (let e = fd (cur k) (nat d);
             count = (if f_size e < word_of_int count then to_int32 (uint (f_size e)) else count)
         in Some (count, setFilePath buf count (uint (f_address e)) (tm f) m))
      else None)"

definition isRootDirectory :: "string \<Rightarrow> bool" where
  "isRootDirectory path0 \<longleftrightarrow> strcmp_s path0 [CHR 0x2F] = 0"

definition dir_match :: "string \<Rightarrow> string \<Rightarrow> bool" where
  "dir_match fileName nm \<longleftrightarrow> starts_with_s nm fileName > 0 \<or> isRootDirectory fileName"

fun readdir_loop :: "mem \<Rightarrow> string \<Rightarrow> addr list \<Rightarrow> int \<Rightarrow> int \<Rightarrow> (int \<times> string option) option" where
  "readdir_loop m fileName [] count entry = Some (entry, None)"
| "readdir_loop m fileName (h # hs) count entry = do {
     nm \<leftarrow> read_cstr m h;
     if dir_match fileName nm then
       (if count = 0 \<and> entry = 0 then readdir_loop m fileName hs (count + 1) (entry + 1)
        else if count = entry then Some (entry + 1, Some (substring_s nm (starts_with_s nm fileName)))
        else readdir_loop m fileName hs (count + 1) entry)
     else readdir_loop m fileName hs count entry
   }"

text \<open>The result is the string copied to the caller's buffer, or \<open>None\<close> for the return value 0.\<close>

definition readDirTarfsFile :: "int \<Rightarrow> fs \<Rightarrow> kernel \<Rightarrow> (string option \<times> kernel) option" where
  "readDirTarfsFile d f k =
     (if 0 \<le> d \<and> d < 100 then do {
        let e = fd (cur k) (nat d);
        (entry, r) \<leftarrow> readdir_loop (tm f) (file_name e) (take 32 (headers f)) 0 (f_entry e);
        Some (r, upd_fd (nat d) (\<lambda>e. e\<lparr>f_entry := entry\<rparr>) k)
      }
      else None)"

definition closeTarfsFile :: "int \<Rightarrow> kernel \<Rightarrow> (int \<times> kernel) option" where
  "closeTarfsFile fp k =
     (if 0 \<le> fp \<and> fp < 100 then
        (let k = upd_fd (nat fp) (\<lambda>e. e\<lparr>file_name := [], f_offset := 0, f_size := 0, aval := 0\<rparr>) k
         in Some (f_fd (fd (cur k) (nat fp)), k))
      else None)"

section \<open>The working directory\<close>

definition chdir :: "string \<Rightarrow> fs \<Rightarrow> kernel \<Rightarrow> (int \<times> kernel) option" where
  "chdir path0 f k = do {
     up \<leftarrow> (if strcmp_s ''../'' path0 = 0
           then do { p \<leftarrow> derive_string (stk f) (curr_dir (cur k)) path0; Some (strcmp_s p [] = 0) }
           else Some False);
     if up then Some (0, upd_task (currentTask k) (\<lambda>t. t\<lparr>curr_dir := [CHR 0x2F]\<rparr>) k)
     else do {
       i \<leftarrow> isValidDirectory f k path0;
       if i > -1 then do {
         p \<leftarrow> derive_string (stk f) (curr_dir (cur k)) path0;
         l \<leftarrow> strcpy_field 100 (CHR 0x2F # p);
         Some (0, upd_task (currentTask k) (\<lambda>t. t\<lparr>curr_dir := l\<rparr>) k)
       }
       else Some (-1, k)
     }
   }"

text \<open>The string left in the caller's buffer; with an empty \<open>curr_dir\<close> the code writes before it.\<close>

definition getCurrentDirectory :: "kernel \<Rightarrow> string option" where
  "getCurrentDirectory k =
     (let l = length (curr_dir (cur k)) in
      if l = 1 then Some (curr_dir (cur k)) else if l = 0 then None else Some (butlast (curr_dir (cur k))))"

section \<open>Looking names up\<close>

text \<open>The names of a list of headers.\<close>

definition names_of :: "mem \<Rightarrow> addr list \<Rightarrow> string list \<Rightarrow> bool" where
  "names_of m hs ns \<longleftrightarrow> list_all2 (cstr m) hs ns"

lemma names_of_Cons: "names_of m (h # hs) ns \<longleftrightarrow> (\<exists>n ns'. ns = n # ns' \<and> cstr m h n \<and> names_of m hs ns')"
  by (auto simp: names_of_def list_all2_Cons1)

lemma names_of_nth: "names_of m hs ns \<Longrightarrow> i < length hs \<Longrightarrow> cstr m (hs ! i) (ns ! i)"
  by (simp add: names_of_def list_all2_conv_all_nth)

lemma names_of_take: "names_of m hs ns \<Longrightarrow> names_of m (take n hs) (take n ns)"
  by (auto simp: names_of_def intro: list_all2_takeI)

lemma check_loop_find:
  "names_of m hs ns \<Longrightarrow> NUL \<notin> set path0 \<Longrightarrow> check_loop m path0 hs i =
   Some (case find (\<lambda>j. ns ! j = path0) [0..<length ns] of Some j \<Rightarrow> i + int j | None \<Rightarrow> -1)"
proof (induction hs arbitrary: ns i)
  case Nil
  then show ?case by (simp add: names_of_def)
next
  case (Cons h hs)
  obtain n ns' where n: "ns = n # ns'" "cstr m h n" "names_of m hs ns'" using Cons.prems(1) by (auto simp: names_of_Cons)
  have shift: "find (\<lambda>j. ns ! j = path0) [0..<length ns] =
      (if n = path0 then Some 0 else map_option Suc (find (\<lambda>j. ns' ! j = path0) [0..<length ns']))"
    unfolding n by (simp add: upt_conv_Cons map_Suc_upt [symmetric] find_map del: upt_Suc)
  have "strcmp_s n path0 = 0 \<longleftrightarrow> n = path0" using strcmp_s_eq_0 [OF cstr_no_NUL [OF n(2)] Cons.prems(2)] .
  then show ?case using Cons.IH [OF n(3) Cons.prems(2), of "i + 1"] read_cstr_cstr [OF n(2)]
    unfolding shift by (auto split: option.split)
qed

lemma checkFile_find:
  assumes "names_of (tm f) (headers f) ns" and "NUL \<notin> set path0"
  shows "checkFile f path0 = Some (case find (\<lambda>j. take 32 ns ! j = path0) [0..<length (take 32 ns)] of
     Some j \<Rightarrow> int j | None \<Rightarrow> -1)"
  using check_loop_find [OF names_of_take [OF assms(1)] assms(2), of 32 0] by (simp add: checkFile_def split: option.split)

text \<open>C28: \<open>open\<close>, \<open>opendir\<close> and \<open>chdir\<close> search only the first 32 headers of the archive: for a path that
  resolves to the name of a file which first occurs later, all three return -1 and change nothing,
  although \<open>get_file_address\<close>, which \<open>exec\<close> uses, finds the file's header.\<close>

theorem files_beyond_32_headers:
  assumes "archive (tm f) a es e" and "length es < 200" and "init_tarfs (tm f) a e = Some (headers f)"
    and "32 \<le> i" and "i < length es" and "fst (es ! i) = name0" and "\<forall>j < i. fst (es ! j) \<noteq> name0"
    and "NUL \<notin> set name0" and "name0 \<noteq> []"
    and "derive_string (stk f) (curr_dir (cur k)) p = Some name0" and "NUL \<notin> set p" and "p \<noteq> [CHR 0x2F]"
  shows "openTarfsFile p flags f k = Some (-1, k) \<and> openDirFile p f k = Some (-1, k) \<and> chdir p f k = Some (-1, k)
    \<and> get_file_address (tm f) (headers f) name0 = Some (headers f ! i)"
proof -
  let ?ns = "map fst es @ [[]]"
  have hs: "headers f = entry_addrs a es" using init_tarfs_eq [OF assms(1,2)] assms(3) by simp
  have n: "names_of (tm f) (headers f) ?ns"
    using entry_names [OF assms(1)] by (simp add: names_of_def list_all2_conv_all_nth hs)
  have "take 32 ?ns ! j \<noteq> name0" if "j < length (take 32 ?ns)" for j
    using that assms(4,5,7) by (auto simp: nth_append)
  then have "find (\<lambda>j. take 32 ?ns ! j = name0) [0..<length (take 32 ?ns)] = None"
    by (auto simp: find_None_iff)
  then have c: "checkFile f name0 = Some (-1)" using checkFile_find [OF n assms(8)] by simp
  have "find (\<lambda>i. fst (es ! i) = name0) [0..<length es] = Some i"
    using assms(5-7) first_index_Some [of "\<lambda>i. fst (es ! i) = name0" "length es" i] by (simp add: first_index_def)
  moreover have "find (\<lambda>j. ?ns ! j = name0) [0..<length (headers f)] = find (\<lambda>i. fst (es ! i) = name0) [0..<length es]"
  proof -
    have "find (\<lambda>i. ?ns ! i = name0) [0..<length es] = find (\<lambda>i. fst (es ! i) = name0) [0..<length es]"
      by (rule find_cong) (auto simp: nth_append)
    then show ?thesis using assms(9) by (simp add: hs find_append nth_append split: option.split)
  qed
  moreover have "file_loop (tm f) name0 (headers f) = Some (case find (\<lambda>i. ?ns ! i = name0) [0..<length (headers f)] of
     Some i \<Rightarrow> headers f ! i | None \<Rightarrow> 2 ^ 64 - 1)"
    using names_of_nth [OF n] assms(8) by (intro file_loop_find) (auto simp: hs)
  ultimately have g: "get_file_address (tm f) (headers f) name0 = Some (headers f ! i)" by (simp add: get_file_address_def)
  have ex: "isfileexists f k p = Some (-1)" using c assms(10) by (simp add: isfileexists_def)
  then have v: "isValidDirectory f k p = Some (-1)" by (simp add: isValidDirectory_def)
  have "strcmp_s p [CHR 0x2F] \<noteq> 0" using assms(11,12) by (simp add: strcmp_s_eq_0)
  moreover have "strcmp_s name0 [] \<noteq> 0" using assms(8,9) by (simp add: strcmp_s_eq_0)
  ultimately show ?thesis using g ex v assms(10) by (simp add: openTarfsFile_def openDirFile_def chdir_def)
qed

section \<open>Changing the working directory\<close>

definition plain_dirs :: "string list \<Rightarrow> bool" where
  "plain_dirs st \<longleftrightarrow> (\<forall>c \<in> set st. component c \<and> no_dots c)"

lemma derive_string_dirs:
  assumes "plain_dirs st" and "\<forall>c \<in> set cs. good_component c" and "length (join_path st @ join_path cs) < 100"
    and "join_path cs = [] \<or> hd (join_path cs) \<noteq> CHR 0x2F"
  shows "derive_string s (CHR 0x2F # join_path st) (join_path cs) = Some (join_path (resolve st cs))"
proof -
  have dd: "dotdot \<notin> set st" using assms(1) by (auto simp: plain_dirs_def dotdot_def previousDir_def)
  have "file_path (CHR 0x2F # join_path st) (join_path cs) = Some (join_path (st @ cs) @ [])"
    using assms(3,4) by (auto simp: file_path_def Let_def)
  moreover have "\<forall>c \<in> set (st @ cs). good_component c" using assms(1,2) by (auto simp: plain_dirs_def good_component_def)
  ultimately show ?thesis
    using derive_string_file_path [of "CHR 0x2F # join_path st" "join_path cs" "st @ cs" "[]" s] assms(3)
      resolve_plain [OF dd, of "[]" cs] by (simp add: component_def)
qed

lemma resolve_components:
  "\<forall>c \<in> set st. component c \<Longrightarrow> \<forall>c \<in> set cs. good_component c \<Longrightarrow> \<forall>c \<in> set (resolve st cs). component c"
proof (induction cs arbitrary: st)
  case (Cons c cs)
  have "\<forall>x \<in> set (if c = dotdot then butlast st else st @ [c]). component x"
    using Cons.prems by (auto simp: good_component_def dest: in_set_butlastD)
  from Cons.IH [OF this] Cons.prems(2) show ?case by simp
qed simp

lemma join_path_NUL: "\<forall>c \<in> set cs. component c \<Longrightarrow> NUL \<notin> set (join_path cs)"
  by (auto simp: join_path_def component_def)

lemma isValidDirectory_eq:
  assumes n: "names_of (tm f) (headers f) ns" and e: "derive_string (stk f) (curr_dir (cur k)) p = Some t"
    and t: "NUL \<notin> set t" "t \<noteq> []" "last t = CHR 0x2F"
  shows "\<exists>i. isValidDirectory f k p = Some i \<and> (i > -1 \<longleftrightarrow> t \<in> set (take 32 ns))"
proof -
  let ?find = "find (\<lambda>j. take 32 ns ! j = t) [0..<length (take 32 ns)]"
  have ex: "isfileexists f k p = Some (case ?find of Some j \<Rightarrow> int j | None \<Rightarrow> -1)"
    using e checkFile_find [OF n t(1)] by (simp add: isfileexists_def)
  show ?thesis
  proof (cases ?find)
    case None
    then have "t \<notin> set (take 32 ns)" by (auto simp: find_None_iff in_set_conv_nth)
    then show ?thesis using None ex by (simp add: isValidDirectory_def)
  next
    case (Some j)
    then have j: "j < length ns" "take 32 ns ! j = t" "j < 32" by (auto dest: find_SomeD)
    then have jn: "ns ! j = t" by simp
    have "length (headers f) = length ns" using n by (simp add: names_of_def list_all2_lengthD)
    then have c: "cstr (tm f) (headers f ! j) t" using names_of_nth [OF n, of j] j jn by simp
    then have "cells (tm f) (headers f ! j) t" by (simp add: cstr_cells)
    then have "tm f (headers f ! j + int (length t - 1)) = last t" using t(2) by (simp add: cells_def last_conv_nth)
    moreover have "headers f ! j + int (length t - 1) = headers f ! j + int (length t) - 1"
      using t(2) by (cases t) auto
    ultimately have "tm f (headers f ! j + int (length t) - 1) = CHR 0x2F" using t(3) by (simp add: add_diff_eq)
    then have "isValidDirectory f k p = Some (int j)"
      using ex Some read_cstr_cstr [OF c] by (simp add: isValidDirectory_def)
    moreover have "t \<in> set (take 32 ns)" using j by (auto simp: in_set_conv_nth)
    ultimately show ?thesis by simp
  qed
qed

lemma isValidDirectory_empty:
  assumes n: "names_of (tm f) (headers f) ns" and e: "derive_string (stk f) (curr_dir (cur k)) p = Some []"
  shows "isValidDirectory f k p = Some (case find (\<lambda>j. take 32 ns ! j = []) [0..<length (take 32 ns)] of
      Some j \<Rightarrow> if tm f (headers f ! j - 1) = CHR 0x2F then int j else -1 | None \<Rightarrow> -1)"
proof -
  let ?find = "find (\<lambda>j. take 32 ns ! j = []) [0..<length (take 32 ns)]"
  have ex: "isfileexists f k p = Some (case ?find of Some j \<Rightarrow> int j | None \<Rightarrow> -1)"
    using e checkFile_find [OF n, of "[]"] by (simp add: isfileexists_def)
  show ?thesis
  proof (cases ?find)
    case None
    then show ?thesis using ex by (simp add: isValidDirectory_def)
  next
    case (Some j)
    then have j: "j < length ns" "take 32 ns ! j = []" "j < 32" by (auto dest: find_SomeD)
    have "length (headers f) = length ns" using n by (simp add: names_of_def list_all2_lengthD)
    then have "cstr (tm f) (headers f ! j) []" using names_of_nth [OF n, of j] j by simp
    then have "read_cstr (tm f) (headers f ! j) = Some []" by (rule read_cstr_cstr)
    then show ?thesis using ex Some by (simp add: isValidDirectory_def)
  qed
qed

lemma find_first:
  "find P [0..<n] = Some j \<longleftrightarrow> j < n \<and> P j \<and> (\<forall>i < j. \<not> P i)"
  by (auto simp: find_Some_iff)

lemma join_path_dotdot:
  assumes "\<forall>c \<in> set cs. component c" and "join_path cs = ''../''"
  shows "cs = [dotdot]"
proof (cases cs)
  case (Cons c ds)
  then have e: "c @ CHR 0x2F # join_path ds = ''../''" using assms(2) by simp
  have "\<forall>x \<in> set c. x \<noteq> CHR 0x2F" using assms(1) Cons by (auto simp: component_def)
  then have "takeWhile (\<lambda>x. x \<noteq> CHR 0x2F) (c @ CHR 0x2F # join_path ds) = c" by (subst takeWhile_append2) auto
  then have c: "c = dotdot" unfolding e by (simp add: dotdot_def)
  then have "join_path ds = []" using e by (simp add: dotdot_def)
  then show ?thesis using Cons c by (cases ds) auto
qed (use assms(2) in simp)


section \<open>Reading a directory\<close>

text \<open>What a listing of \<open>dirname\<close> shows of an entry.\<close>

definition shown :: "string \<Rightarrow> string \<Rightarrow> string" where
  "shown dirname nm = substring_s nm (starts_with_s nm dirname)"

lemma readdir_loop_later:
  "names_of m hs ns \<Longrightarrow> 0 < entry \<Longrightarrow> 0 \<le> count \<Longrightarrow> count \<le> entry \<Longrightarrow>
   (let ms = filter (dir_match d) ns; j = nat (entry - count) in
    readdir_loop m d hs count entry =
      Some (if j < length ms then (entry + 1, Some (shown d (ms ! j))) else (entry, None)))"
proof (induction hs arbitrary: ns count)
  case Nil
  then show ?case by (simp add: names_of_def)
next
  case (Cons h hs)
  obtain n ns' where n: "ns = n # ns'" "cstr m h n" "names_of m hs ns'" using Cons.prems(1) by (auto simp: names_of_Cons)
  show ?case
  proof (cases "dir_match d n \<and> count \<noteq> entry")
    case True
    then have "nat (entry - count) = Suc (nat (entry - (count + 1)))"
      using Cons.prems(3,4) by (subst Suc_nat_eq_nat_zadd1) (auto simp: algebra_simps)
    then show ?thesis using Cons.IH [OF n(3) Cons.prems(2), of "count + 1"] Cons.prems(3,4) True n read_cstr_cstr [OF n(2)]
      by (simp add: Let_def)
  next
    case False
    then show ?thesis using Cons.IH [OF n(3) Cons.prems(2), of count] Cons.prems n read_cstr_cstr [OF n(2)]
      by (auto simp: Let_def shown_def)
  qed
qed

lemma readdir_loop_first:
  "names_of m hs ns \<Longrightarrow>
   (let ms = filter (dir_match d) ns in
    readdir_loop m d hs 0 0 = Some (if ms = [] then (0, None) else if length ms = 1 then (1, None)
      else (2, Some (shown d (ms ! 1)))))"
proof (induction hs arbitrary: ns)
  case Nil
  then show ?case by (simp add: names_of_def)
next
  case (Cons h hs)
  obtain n ns' where n: "ns = n # ns'" "cstr m h n" "names_of m hs ns'" using Cons.prems(1) by (auto simp: names_of_Cons)
  show ?case
  proof (cases "dir_match d n")
    case True
    show ?thesis using readdir_loop_later [OF n(3), of 1 1 d] True n read_cstr_cstr [OF n(2)]
      by (auto simp: Let_def)
  next
    case False
    then show ?thesis using Cons.IH [OF n(3)] n read_cstr_cstr [OF n(2)] by simp
  qed
qed

text \<open>The results of \<open>n\<close> calls of \<open>readDirTarfsFile\<close> in a row.\<close>

fun readdir_calls :: "nat \<Rightarrow> int \<Rightarrow> fs \<Rightarrow> kernel \<Rightarrow> string option list option" where
  "readdir_calls 0 d f k = Some []"
| "readdir_calls (Suc n) d f k = do {
     (r, k) \<leftarrow> readDirTarfsFile d f k;
     rs \<leftarrow> readdir_calls n d f k;
     Some (r # rs)
   }"

definition entry_of :: "int \<Rightarrow> kernel \<Rightarrow> int" where
  "entry_of d k = f_entry (fd (cur k) (nat d))"

definition dirname_of :: "int \<Rightarrow> kernel \<Rightarrow> string" where
  "dirname_of d k = file_name (fd (cur k) (nat d))"

lemma upd_fd_entry [simp]:
  "entry_of d (upd_fd (nat d) (\<lambda>e. e\<lparr>f_entry := i\<rparr>) k) = i"
  "dirname_of d (upd_fd (nat d) (\<lambda>e. e\<lparr>f_entry := i\<rparr>) k) = dirname_of d k"
  by (simp_all add: entry_of_def dirname_of_def upd_fd_def)

lemma readdir_calls_later:
  assumes n: "names_of (tm f) (headers f) ns" and d: "0 \<le> d" "d < 100"
  shows "0 < entry_of d k \<Longrightarrow> ms = filter (dir_match (dirname_of d k)) (take 32 ns) \<Longrightarrow> readdir_calls c d f k =
    Some (map (\<lambda>i. if nat (entry_of d k) + i < length ms then Some (shown (dirname_of d k) (ms ! (nat (entry_of d k) + i))) else None) [0..<c])"
proof (induction c arbitrary: k)
  case (Suc c)
  let ?e = "entry_of d k" and ?n = "dirname_of d k"
  let ?e' = "if nat ?e < length ms then ?e + 1 else ?e"
  let ?k = "upd_fd (nat d) (\<lambda>e. e\<lparr>f_entry := ?e'\<rparr>) k"
  have "readDirTarfsFile d f k = Some (if nat ?e < length ms then Some (shown ?n (ms ! nat ?e)) else None, ?k)"
    using readdir_loop_later [OF names_of_take [OF n, of 32] Suc.prems(1), of 0 ?n] d Suc.prems
    by (auto simp: readDirTarfsFile_def Let_def entry_of_def dirname_of_def)
  moreover have "readdir_calls c d f ?k = Some (map (\<lambda>i.
      if nat ?e' + i < length ms then Some (shown ?n (ms ! (nat ?e' + i))) else None) [0..<c])"
    using Suc.IH [of ?k] Suc.prems by simp
  moreover have "nat (?e + 1) = Suc (nat ?e)" using Suc.prems(1) by simp
  ultimately show ?case by (auto simp: map_upt_Suc Let_def simp del: upt_Suc)
qed simp

lemma readdir_lists_spec:
  assumes "names_of (tm f) (headers f) ns" and "0 \<le> d" and "d < 100" and "entry_of d k = 0"
    and "ms = tl (filter (dir_match (dirname_of d k)) (take 32 ns))"
  shows "readdir_calls c d f k =
    Some (map (\<lambda>i. if i < length ms then Some (shown (dirname_of d k) (ms ! i)) else None) [0..<c])"
proof (cases c)
  case (Suc c')
  let ?n = "dirname_of d k" and ?ms = "filter (dir_match (dirname_of d k)) (take 32 ns)"
  let ?k = "\<lambda>i. upd_fd (nat d) (\<lambda>e. e\<lparr>f_entry := i\<rparr>) k"
  note first = readdir_loop_first [OF names_of_take [OF assms(1), of 32], of ?n]
  have call: "readDirTarfsFile d f k = Some (if ?ms = [] then (None, ?k 0) else if length ?ms = 1 then (None, ?k 1)
      else (Some (shown ?n (?ms ! 1)), ?k 2))"
    using first assms(2-4) by (auto simp: readDirTarfsFile_def Let_def entry_of_def dirname_of_def)
  have z: "readdir_calls c d f k = Some (replicate c None)" if "?ms = []" for c
  proof -
    have "?k 0 = k" using assms(4)
      by (simp add: upd_fd_def upd_task_def entry_of_def fun_upd_idem)
    then show ?thesis using call that by (induction c) simp_all
  qed
  consider "?ms = []" | "length ?ms = 1" | "2 \<le> length ?ms"
    by (metis One_nat_def Suc_1 Suc_leI antisym_conv3 length_0_conv less_Suc_eq_0_disj less_one not_less)
  then show ?thesis
  proof cases
    case 1
    then show ?thesis using z assms(5) by (simp add: map_replicate_const)
  next
    case 2
    then have "?ms \<noteq> []" by auto
    have "readdir_calls c' d f (?k 1) = Some (map (\<lambda>i. None) [0..<c'])"
      using readdir_calls_later [OF assms(1-3) _ refl, of "?k 1" c'] 2 by simp
    then show ?thesis using call 2 \<open>?ms \<noteq> []\<close> assms(5) Suc
      by (cases ?ms) (auto simp: map_upt_Suc simp del: upt_Suc)
  next
    case 3
    then have "readdir_calls c' d f (?k 2) = Some (map (\<lambda>i.
        if 2 + i < length ?ms then Some (shown ?n (?ms ! (2 + i))) else None) [0..<c'])"
      using readdir_calls_later [OF assms(1-3) _ refl, of "?k 2" c'] by simp
    moreover have "ms ! i = ?ms ! Suc i" "length ms = length ?ms - 1" if "i < length ms" for i
      using that assms(5) by (simp_all add: nth_tl)
    moreover have "?ms \<noteq> []" "length ?ms \<noteq> 1" using 3 by auto
    ultimately show ?thesis using call 3 assms(5) Suc by (auto simp: map_upt_Suc Let_def nth_tl simp del: upt_Suc)
  qed
qed simp

text \<open>A directory is listed completely and once: after opening, the calls of
  \<open>readDirTarfsFile\<close> return the entries of the first 32 headers that match the directory, in
  archive order, without the first (the directory's own header), each stripped of the prefix it shares
  with the directory name; every call after the last entry returns 0.\<close>

theorem readdir_lists:
  assumes "names_of (tm f) (headers f) ns" and "0 \<le> d" and "d < 100" and "entry_of d k = 0"
    and "ms = tl (filter (dir_match (dirname_of d k)) (take 32 ns))"
  shows "readdir_calls c d f k =
    Some (map (\<lambda>i. if i < length ms then Some (shown (dirname_of d k) (ms ! i)) else None) [0..<c])"
  using assms by (rule readdir_lists_spec)

section \<open>Descriptors\<close>

text \<open>Descriptor numbers are never reused: opening an existing file returns the number of
  opens so far plus 3, and closing it marks the descriptor unused but keeps the count, so the
  next open returns the next number; after 97 opens the code writes past \<^verbatim>\<open>fd[100]\<close>,
  however many files have been closed.\<close>

theorem open_close_leaks:
  assumes "isfileexists f k p = Some i" and "i \<noteq> -1" and "cstr (tm f) (headers f ! nat i) nm" and "length nm < 50"
    and "cstr (tm f) (headers f ! nat i + ustar_size) sz" and "toBinaryFile sz = Some v" and "0 \<le> fd_c (cur k) + 3"
  shows "(fd_c (cur k) + 3 < 100 \<longrightarrow>
      (\<exists>k1 k2. openTarfsFile p flags f k = Some (fd_c (cur k) + 3, k1)
        \<and> file_name (fd (cur k1) (nat (fd_c (cur k) + 3))) = nm \<and> f_size (fd (cur k1) (nat (fd_c (cur k) + 3))) = v
        \<and> closeTarfsFile (fd_c (cur k) + 3) k1 = Some (fd_c (cur k) + 3, k2)
        \<and> aval (fd (cur k2) (nat (fd_c (cur k) + 3))) = 0 \<and> fd_c (cur k2) = fd_c (cur k) + 1))
    \<and> (100 \<le> fd_c (cur k) + 3 \<longrightarrow> openTarfsFile p flags f k = None)"
proof (intro conjI impI)
  have o: "openTarfsFile p flags f k = setCurrentTaskVal 2 i flags f k"
    using assms(1,2) by (simp add: openTarfsFile_def)
  show "openTarfsFile p flags f k = None" if "100 \<le> fd_c (cur k) + 3"
    using that unfolding o by (simp add: setCurrentTaskVal_def Let_def)
  let ?n = "fd_c (cur k) + 3"
  let ?k1 = "upd_fd (nat ?n) (\<lambda>d. d\<lparr>f_flags := word_of_int flags\<rparr>)
    (upd_fd (nat ?n) (\<lambda>d. d\<lparr>file_name := nm, f_entry := 0, aval := 1, f_size := v,
       f_address := word_of_int (headers f ! nat i), f_fd := ?n\<rparr>)
     (upd_task (currentTask k) (\<lambda>t. t\<lparr>fd_c := fd_c t + 1\<rparr>) k))"
  let ?k2 = "upd_fd (nat ?n) (\<lambda>e. e\<lparr>file_name := [], f_offset := 0, f_size := 0, aval := 0\<rparr>) ?k1"
  assume "fd_c (cur k) + 3 < 100"
  then have "openTarfsFile p flags f k = Some (?n, ?k1)" "closeTarfsFile ?n ?k1 = Some (?n, ?k2)"
    using assms(3-7) unfolding o
    by (simp_all add: setCurrentTaskVal_def Let_def read_cstr_cstr strcpy_field_def closeTarfsFile_def)
      (simp add: upd_fd_def)
  moreover have "file_name (fd (cur ?k1) (nat ?n)) = nm" "f_size (fd (cur ?k1) (nat ?n)) = v"
    "aval (fd (cur ?k2) (nat ?n)) = 0" "fd_c (cur ?k2) = fd_c (cur k) + 1" by (simp_all add: upd_fd_def)
  ultimately show "\<exists>k1 k2. openTarfsFile p flags f k = Some (fd_c (cur k) + 3, k1)
        \<and> file_name (fd (cur k1) (nat (fd_c (cur k) + 3))) = nm \<and> f_size (fd (cur k1) (nat (fd_c (cur k) + 3))) = v
        \<and> closeTarfsFile (fd_c (cur k) + 3) k1 = Some (fd_c (cur k) + 3, k2)
        \<and> aval (fd (cur k2) (nat (fd_c (cur k) + 3))) = 0 \<and> fd_c (cur k2) = fd_c (cur k) + 1" by blast
qed

lemma path_loop_eq:
  "path_loop n p s t m = (\<lambda>a. if a \<in> cell_range p n then t (s + (a - p)) else m a)"
proof (induction n arbitrary: p s m)
  case (Suc n)
  show ?case unfolding path_loop.simps Suc.IH by (auto simp: fun_eq_iff cell_range_def)
qed (simp add: cell_range_def)

text \<open>Reading a file does not read the file: the bytes that \<open>readTarfsFile\<close> stores are those of
  the tar header from its second byte on, that is the file's name without its first character,
  because the code advances a \<^verbatim>\<open>char *\<close> by one instead of a header pointer; the contents
  begin 512 bytes after the header.\<close>

theorem read_returns_header:
  assumes "0 \<le> d" and "d < 100" and "f_address (fd (cur k) (nat d)) = word_of_int h" and "0 \<le> h" and "h < 2 ^ 64"
    and "0 \<le> count" and "word_of_int count \<le> f_size (fd (cur k) (nat d))" and "cstr (tm f) h (c # nm)"
    and "int (length nm) < count"
  shows "\<exists>m'. readTarfsFile d buf count f k m = Some (count, m') \<and> cstr m' buf nm
    \<and> (\<forall>j. 0 \<le> j \<and> j < count \<longrightarrow> m' (buf + j) = tm f (h + 1 + j)) \<and> m' (buf + count) = NUL"
proof -
  let ?m = "(path_loop (nat count) buf (h + 1) (tm f) m)(buf + count := NUL)"
  have "uint (word_of_int h :: u64) = h" using assms(4,5) by (simp add: uint_word_of_int_eq take_bit_int_eq_self)
  moreover have "\<not> f_size (fd (cur k) (nat d)) < word_of_int count" using assms(7) by (simp only: not_less)
  ultimately have "readTarfsFile d buf count f k m = Some (count, ?m)"
    using assms(1-3) by (simp add: readTarfsFile_def Let_def setFilePath_def)
  moreover have b: "?m (buf + j) = tm f (h + 1 + j)" if "0 \<le> j" "j < count" for j
    using that by (simp add: path_loop_eq cell_range_def)
  moreover have "cstr ?m buf nm"
  proof -
    have n: "cstr (tm f) (h + 1) nm" using assms(8) by simp
    have "cells ?m buf nm" using n b assms(9) unfolding cells_def by (simp add: cstr_cells cells_def)
    moreover have "?m (buf + int (length nm)) = NUL" using n b [of "int (length nm)"] assms(9) by (simp add: cstr_cells)
    ultimately show ?thesis using n by (simp add: cstr_cells)
  qed
  moreover have "\<forall>j. 0 \<le> j \<and> j < count \<longrightarrow> ?m (buf + j) = tm f (h + 1 + j)" using b by blast
  moreover have "?m (buf + count) = NUL" by simp
  ultimately show ?thesis by (intro exI [of _ ?m] conjI)
qed

section \<open>Examples\<close>

text \<open>A table of three headers: \<^verbatim>\<open>bin/\<close>, \<^verbatim>\<open>bin/ls\<close> and \<^verbatim>\<open>bin/ps\<close>, each of octal size 3.\<close>

definition fs3 :: fs where
  "fs3 = \<lparr>tm = put_cstr 1124 ''3'' (put_cstr 1000 ''bin/'' (put_cstr 2124 ''3'' (put_cstr 2000 ''bin/ls''
     (put_cstr 3124 ''3'' (put_cstr 3000 ''bin/ps'' (\<lambda>_. NUL)))))), headers = [1000, 2000, 3000], stk = (\<lambda>_. NUL)\<rparr>"

lemma fs3_simps: "headers fs3 = [1000, 2000, 3000]" "stk fs3 = (\<lambda>_. NUL)"
  "names_of (tm fs3) (headers fs3) [''bin/'', ''bin/ls'', ''bin/ps'']"
  by (simp_all add: fs3_def names_of_def)

definition tar33 :: mem where
  "tar33 = (\<lambda>a. if a mod 512 = 0 then (if a < 16384 then CHR ''x'' else if a = 16384 then CHR ''a'' else NUL)
     else if 124 \<le> a mod 512 \<and> a mod 512 < 135 \<and> a < 16896 then CHR ''0'' else NUL)"

lemma tar33_size:
  assumes "0 \<le> i" and "i < 33"
  shows "cells tar33 (512 * i + ustar_size) (oct_str 11 0)"
proof -
  have "oct_str 11 0 = replicate 11 (CHR ''0'')" by code_simp
  moreover have "tar33 (512 * i + 124 + int j) = CHR ''0''" if "j < 11" for j
  proof -
    have "(512 * i + 124 + int j) mod 512 = (124 + int j) mod 512" by (simp add: add.assoc)
    also have "\<dots> = 124 + int j" using that by simp
    finally show ?thesis using that assms by (simp add: tar33_def)
  qed
  ultimately show ?thesis by (simp add: cells_def ustar_size_def)
qed

lemma tar33_tail: "16896 \<le> a \<Longrightarrow> tar33 a = NUL"
  by (simp add: tar33_def)

lemma tar33_name: "0 \<le> i \<Longrightarrow> i < 32 \<Longrightarrow> cstr tar33 (512 * i) ''x''"
proof -
  assume "0 \<le> i" "i < 32"
  moreover have "(512 * i + 1) mod 512 = 1" by simp
  ultimately show ?thesis by (simp add: tar33_def)
qed

lemma archive_tar33:
  "n \<le> 32 \<Longrightarrow> archive tar33 (512 * int (32 - n)) (replicate n (''x'', []) @ [(''a'', [])]) 17408"
proof (induction n)
  case 0
  have "cells tar33 (16384 + ustar_size) (oct_str 11 0)" using tar33_size [of 32] by simp
  moreover have "cells tar33 (16896 + ustar_size) (replicate 11 NUL)"
    by (simp add: cells_def tar33_tail ustar_size_def)
  moreover have "cstr tar33 16384 ''a''" "tar33 16896 = NUL" by (simp_all add: tar33_def)
  ultimately show ?case by (simp add: cells_Nil)
next
  case (Suc n)
  let ?i = "int (32 - Suc n)"
  have i: "0 \<le> ?i" "?i < 32" "int (32 - n) = ?i + 1" using Suc.prems by auto
  have "512 * ?i + 512 + 512 * int ((length [] + 511) div 512) = 512 * int (32 - n)" unfolding i(3) by simp
  moreover have "archive tar33 (512 * int (32 - n)) (replicate n (''x'', []) @ [(''a'', [])]) 17408"
    using Suc by simp
  moreover have "cstr tar33 (512 * ?i) ''x''" using i(1,2) by (rule tar33_name)
  moreover have "cells tar33 (512 * ?i + ustar_size) (oct_str 11 (length []))" using tar33_size [of ?i] i(1,2) by (simp only: list.size)
  ultimately show ?case by (simp add: cells_Nil del: of_nat_diff)
qed

theorem files_beyond_32_headers_witness:
  "\<exists>hs. init_tarfs tar33 0 17408 = Some hs
     \<and> (let f = \<lparr>tm = tar33, headers = hs, stk = tar33\<rparr> in openTarfsFile ''a'' 0 f kernel0 = Some (-1, kernel0))
     \<and> get_file_address tar33 hs ''a'' = Some (hs ! 32)"
proof -
  let ?es = "replicate 32 (''x'', []) @ [(''a'', [])]"
  have a: "archive tar33 0 ?es 17408" using archive_tar33 [of 32] by simp
  then have i: "init_tarfs tar33 0 17408 = Some (entry_addrs 0 ?es)" by (intro init_tarfs_eq) simp_all
  let ?f = "\<lparr>tm = tar33, headers = entry_addrs 0 ?es, stk = tar33\<rparr>"
  have "curr_dir (cur kernel0) = ''/''" by (simp add: kernel0_def task0_def)
  moreover have "derive_string tar33 ''/'' ''a'' = Some (join_path (resolve [] []) @ ''a'')"
    by (rule derive_string_file_path) (simp_all add: file_path_def component_def previousDir_def)
  ultimately have d: "derive_string (stk ?f) (curr_dir (cur kernel0)) ''a'' = Some ''a''" by simp
  have "openTarfsFile ''a'' 0 ?f kernel0 = Some (-1, kernel0) \<and> openDirFile ''a'' ?f kernel0 = Some (-1, kernel0)
    \<and> chdir ''a'' ?f kernel0 = Some (-1, kernel0) \<and> get_file_address (tm ?f) (headers ?f) ''a'' = Some (headers ?f ! 32)"
  proof (rule files_beyond_32_headers)
    show "archive (tm ?f) 0 ?es 17408" using a by simp
    show "init_tarfs (tm ?f) 0 17408 = Some (headers ?f)" using i by simp
    show "derive_string (stk ?f) (curr_dir (cur kernel0)) ''a'' = Some ''a''" using d .
  qed (simp_all add: nth_append)
  then show ?thesis using i by simp
qed

lemma kernel0_cur: "curr_dir (cur kernel0) = ''/''" "fd_c (cur kernel0) = 0"
  by (simp_all add: kernel0_def task0_def)


theorem readdir_lists_witness:
  "\<exists>k. dirname_of 3 k = ''bin/'' \<and> readdir_calls 3 3 fs3 k = Some [Some ''ls'', Some ''ps'', None]"
proof -
  let ?k = "upd_fd 3 (\<lambda>d. d\<lparr>file_name := ''bin/'', f_entry := 0\<rparr>) kernel0"
  have d: "dirname_of 3 ?k = ''bin/''" "entry_of 3 ?k = 0" by (simp_all add: dirname_of_def entry_of_def upd_fd_def)
  have m: "tl (filter (dir_match ''bin/'') (take 32 [''bin/'', ''bin/ls'', ''bin/ps''])) = [''bin/ls'', ''bin/ps'']"
    by (simp add: dir_match_def starts_with_s_def isRootDirectory_def)
  have "shown ''bin/'' ''bin/ls'' = ''ls''" "shown ''bin/'' ''bin/ps'' = ''ps''"
    by (simp_all add: shown_def substring_s_def starts_with_s_def)
  moreover have "[0..<3] = [0, 1, 2]" by (simp add: upt_rec)
  ultimately have "readdir_calls 3 3 fs3 ?k = Some [Some ''ls'', Some ''ps'', None]"
    using readdir_lists [OF fs3_simps(3) _ _ d(2) refl, of 3] unfolding d(1) m by simp
  then show ?thesis using d(1) by blast
qed

lemma toBinaryFile_3: "toBinaryFile ''3'' = Some 11"
  by (simp add: toBinaryFile_def c2i_def Let_def to_int32_def binary_loop.simps cdiv_def cmod_def octal_dict_def)

theorem open_close_leaks_witness:
  "\<exists>k1 k2. openTarfsFile ''bin/ls'' 0 fs3 kernel0 = Some (3, k1) \<and> closeTarfsFile 3 k1 = Some (3, k2) \<and> fd_c (cur k2) = 1"
proof -
  have "derive_string (\<lambda>_. NUL) ''/'' (join_path [''bin''] @ ''ls'') = Some (join_path (resolve [] [''bin'']) @ ''ls'')"
    by (rule derive_string_file_path)
      (simp_all add: file_path_def good_component_def component_def previousDir_def)
  then have "derive_string (\<lambda>_. NUL) ''/'' ''bin/ls'' = Some ''bin/ls''" by (simp add: dotdot_def)
  moreover have "checkFile fs3 ''bin/ls'' = Some 1"
    using checkFile_find [OF fs3_simps(3), of "''bin/ls''"] by (simp add: upt_rec)
  ultimately have e: "isfileexists fs3 kernel0 ''bin/ls'' = Some 1"
    using kernel0_cur(1) by (simp add: isfileexists_def fs3_simps)
  have c: "cstr (tm fs3) (headers fs3 ! nat 1) ''bin/ls''" "cstr (tm fs3) (headers fs3 ! nat 1 + ustar_size) ''3''"
    by (simp_all add: fs3_def ustar_size_def)
  show ?thesis using open_close_leaks [OF e _ c(1) _ c(2) toBinaryFile_3, of 0] kernel0_cur(2) by auto
qed

theorem read_returns_header_witness:
  "\<exists>m'. readTarfsFile 3 100 10 fs3 (upd_fd 3 (\<lambda>d. d\<lparr>f_address := 2000, f_size := 11\<rparr>) kernel0) (\<lambda>_. NUL) = Some (10, m')
     \<and> cstr m' 100 ''in/ls''"
proof -
  let ?k = "upd_fd 3 (\<lambda>d. d\<lparr>f_address := 2000, f_size := 11\<rparr>) kernel0"
  have k: "f_address (fd (cur ?k) (nat 3)) = word_of_int 2000" "word_of_int 10 \<le> f_size (fd (cur ?k) (nat 3))"
    by (simp_all add: upd_fd_def)
  have c: "cstr (tm fs3) 2000 (CHR ''b'' # ''in/ls'')" by (simp add: fs3_def)
  show ?thesis using read_returns_header [OF _ _ k(1) _ _ _ k(2) c, of 100 "\<lambda>_. NUL"] by auto
qed

end
