(* ===== verification/ForkTables.thy ===== *)
theory ForkTables
  imports CowTables
begin

text \<open>
  What \<open>copytables\<close> of \<^verbatim>\<open>sys/paging.c\<close> achieves. A tree of page tables is the list of its table
  frames (\<open>tables\<close>), \<open>copied\<close> relates the tree before the call to the two trees after it, and one
  induction step over the entries of a table (\<open>copy_level\<close>) serves the three upper levels.
\<close>

section \<open>Trees of tables\<close>

definition present :: "(u64 \<Rightarrow> u64) \<Rightarrow> u64 \<Rightarrow> u64 \<Rightarrow> bool" where
  "present m T i \<longleftrightarrow> m (T + 8 * i) AND 1 \<noteq> 0"

definition child :: "(u64 \<Rightarrow> u64) \<Rightarrow> u64 \<Rightarrow> u64 \<Rightarrow> u64" where
  "child m T i = m (T + 8 * i) AND validatebits"

fun tables :: "(u64 \<Rightarrow> u64) \<Rightarrow> nat \<Rightarrow> u64 \<Rightarrow> u64 list" where
  "tables m 0 T = [T]"
| "tables m (Suc d) T =
     T # concat (map (\<lambda>i. if present m T i then tables m d (child m T i) else []) (indices 512))"

definition below :: "(u64 \<Rightarrow> u64) \<Rightarrow> nat \<Rightarrow> u64 \<Rightarrow> u64 list \<Rightarrow> u64 list" where
  "below m d T is = concat (map (\<lambda>i. if present m T i then tables m d (child m T i) else []) is)"

lemma tables_Suc: "tables m (Suc d) T = T # below m d T (indices 512)"
  by (simp add: below_def)

lemma below_simps [simp]:
  "below m d T [] = []"
  "below m d T (i # is) = (if present m T i then tables m d (child m T i) else []) @ below m d T is"
  by (simp_all add: below_def)

declare tables.simps(2) [simp del]

lemma set_indices: "i \<in> set (indices n) \<longleftrightarrow> unat i < n" if "n \<le> 512" for i :: u64
proof
  assume "i \<in> set (indices n)"
  then show "unat i < n" using that by (auto simp: indices_def unat_of_nat)
next
  assume "unat i < n"
  then show "i \<in> set (indices n)" by (auto simp: indices_def image_iff intro!: bexI [of _ "unat i"])
qed

lemma set_indices_512 [simp]: "i \<in> set (indices 512) \<longleftrightarrow> i < 512" for i :: u64
  by (simp add: set_indices word_less_nat_alt)

lemma distinct_indices: "n \<le> 512 \<Longrightarrow> distinct (indices n)"
  by (auto simp: indices_def distinct_map inj_on_def word_unat_eq_iff unat_of_nat)

lemma child_aligned [simp]: "aligned (child m T i)"
  by (simp add: child_def)

lemma tables_root: "T \<in> set (tables m d T)"
  by (cases d) (simp_all add: tables_Suc)

lemma tables_aligned: "aligned T \<Longrightarrow> F \<in> set (tables m d T) \<Longrightarrow> aligned F"
proof (induction d arbitrary: T)
  case (Suc d)
  then show ?case by (auto simp: tables_Suc below_def split: if_splits intro: Suc.IH [OF child_aligned])
qed simp

lemma below_aligned: "F \<in> set (below m d T is) \<Longrightarrow> aligned F"
  by (auto simp: below_def split: if_splits intro: tables_aligned [OF child_aligned])

text \<open>Agreement of two memories on the entries of a set of tables.\<close>

definition agree :: "u64 set \<Rightarrow> (u64 \<Rightarrow> u64) \<Rightarrow> (u64 \<Rightarrow> u64) \<Rightarrow> bool" where
  "agree X m m' \<longleftrightarrow> (\<forall>F \<in> X. \<forall>i < 512. m' (F + 8 * i) = m (F + 8 * i))"

lemma agree_mono: "agree X m m' \<Longrightarrow> Y \<subseteq> X \<Longrightarrow> agree Y m m'"
  by (auto simp: agree_def)

lemma agree_sym: "agree X m m' \<Longrightarrow> agree X m' m"
  by (simp add: agree_def)

lemma agree_trans: "agree X m m1 \<Longrightarrow> agree X m1 m2 \<Longrightarrow> agree X m m2"
  by (simp add: agree_def)

lemma agree_entry:
  "agree X m m' \<Longrightarrow> T \<in> X \<Longrightarrow> i < 512 \<Longrightarrow> m' (T + 8 * i) = m (T + 8 * i)"
  by (simp add: agree_def)

lemma tables_agree: "agree (set (tables m d T)) m m' \<Longrightarrow> tables m' d T = tables m d T"
proof (induction d arbitrary: T)
  case (Suc d)
  have e: "present m' T i = present m T i" "child m' T i = child m T i" if "i < 512" for i
    using agree_entry [OF Suc.prems tables_root that] by (simp_all add: present_def child_def)
  have "(if present m' T i then tables m' d (child m' T i) else []) = (if present m T i then tables m d (child m T i) else [])"
    if i: "i \<in> set (indices 512)" for i
  proof (cases "present m T i")
    case True
    have "set (tables m d (child m T i)) \<subseteq> set (tables m (Suc d) T)"
      using i True by (auto simp: tables_Suc below_def)
    then show ?thesis using e i Suc.IH [OF agree_mono [OF Suc.prems]] by simp
  qed (use e i in simp)
  then have "map (\<lambda>i. if present m' T i then tables m' d (child m' T i) else []) (indices 512)
      = map (\<lambda>i. if present m T i then tables m d (child m T i) else []) (indices 512)"
    by (intro map_cong refl)
  then show ?case unfolding tables_Suc below_def by (simp only:)
qed simp

section \<open>The relation between the tree before and the two trees after\<close>

fun copied :: "nat \<Rightarrow> (u64 \<Rightarrow> u64) \<Rightarrow> (u64 \<Rightarrow> u64) \<Rightarrow> u64 \<Rightarrow> u64 \<Rightarrow> bool" where
  "copied 0 m m' T U \<longleftrightarrow> (\<forall>i < 512.
     if present m T i
     then m' (T + 8 * i) = cow_entry (m (T + 8 * i)) \<and> m' (U + 8 * i) = cow_entry (m (T + 8 * i))
     else m' (T + 8 * i) = m (T + 8 * i) \<and> \<not> present m' U i)"
| "copied (Suc d) m m' T U \<longleftrightarrow> (\<forall>i < 512.
     m' (T + 8 * i) = m (T + 8 * i) \<and> (present m' U i \<longleftrightarrow> present m T i)
     \<and> (present m T i \<longrightarrow> copied d m m' (child m T i) (child m' U i)))"

definition link :: "nat \<Rightarrow> (u64 \<Rightarrow> u64) \<Rightarrow> (u64 \<Rightarrow> u64) \<Rightarrow> u64 \<Rightarrow> u64 \<Rightarrow> u64 \<Rightarrow> bool" where
  "link d m m' T U i \<longleftrightarrow> m' (T + 8 * i) = m (T + 8 * i) \<and> (present m' U i \<longleftrightarrow> present m T i)
     \<and> (present m T i \<longrightarrow> copied d m m' (child m T i) (child m' U i))"

lemma copied_Suc: "copied (Suc d) m m' T U \<longleftrightarrow> (\<forall>i < 512. link d m m' T U i)"
  by (simp add: link_def)

declare copied.simps [simp del]

lemma copied_cong_before:
  "agree (set (tables m d T)) m m0 \<Longrightarrow> copied d m m' T U \<Longrightarrow> copied d m0 m' T U"
proof (induction d arbitrary: T U)
  case 0
  have "m0 (T + 8 * i) = m (T + 8 * i)" if "i < 512" for i using agree_entry [OF 0(1) _ that] by simp
  then show ?case using 0(2) by (auto simp: copied.simps(1) present_def split: if_splits)
next
  case (Suc d)
  have e: "m0 (T + 8 * i) = m (T + 8 * i)" if "i < 512" for i
    using agree_entry [OF Suc.prems(1) tables_root that] .
  have "copied d m0 m' (child m T i) (child m' U i)" if i: "i < 512" "present m T i" for i
  proof (rule Suc.IH)
    have "set (tables m d (child m T i)) \<subseteq> set (tables m (Suc d) T)"
      using i by (auto simp: tables_Suc below_def)
    then show "agree (set (tables m d (child m T i))) m m0" using Suc.prems(1) agree_mono by blast
    show "copied d m m' (child m T i) (child m' U i)" using Suc.prems(2) i by (simp add: copied.simps)
  qed
  then show ?case using Suc.prems(2) e by (simp add: copied.simps present_def child_def)
qed

lemma copied_cong_after:
  "agree (set (tables m d T) \<union> set (tables m' d U)) m' m2 \<Longrightarrow> copied d m m' T U \<Longrightarrow> copied d m m2 T U"
proof (induction d arbitrary: T U)
  case 0
  have "m2 (T + 8 * i) = m' (T + 8 * i)" "m2 (U + 8 * i) = m' (U + 8 * i)" if "i < 512" for i
    using agree_entry [OF 0(1) _ that] by simp_all
  then show ?case using 0(2) by (auto simp: copied.simps(1) present_def split: if_splits)
next
  case (Suc d)
  have e: "m2 (T + 8 * i) = m' (T + 8 * i)" "m2 (U + 8 * i) = m' (U + 8 * i)" if "i < 512" for i
    using agree_entry [OF Suc.prems(1) _ that] tables_root by blast+
  have "copied d m m2 (child m T i) (child m' U i)" if i: "i < 512" "present m T i" for i
  proof (rule Suc.IH)
    have "present m' U i" using Suc.prems(2) i by (simp add: copied.simps)
    then have "set (tables m d (child m T i)) \<subseteq> set (tables m (Suc d) T)"
        "set (tables m' d (child m' U i)) \<subseteq> set (tables m' (Suc d) U)"
      using i by (auto simp: tables_Suc below_def)
    then show "agree (set (tables m d (child m T i)) \<union> set (tables m' d (child m' U i))) m' m2"
      using Suc.prems(1) by (auto simp: agree_def)
    show "copied d m m' (child m T i) (child m' U i)" using Suc.prems(2) i by (simp add: copied.simps)
  qed
  then show ?case using Suc.prems(2) e by (simp add: copied.simps present_def child_def)
qed

text \<open>Reading a page through the two trees.\<close>

lemma copied_walk:
  assumes "copied d m m' T U" and "length p = d" and "\<forall>i \<in> set p. i < 512"
  shows "case tbl m T p of
      None \<Rightarrow> tbl m' T p = None \<and> tbl m' U p = None
    | Some F \<Rightarrow> tbl m' T p = Some F \<and> (\<exists>G. tbl m' U p = Some G \<and> copied 0 m m' F G)"
  using assms
proof (induction d arbitrary: T U p)
  case (Suc d)
  then obtain i q where p: "p = i # q" "length q = d" "i < 512" "\<forall>i \<in> set q. i < 512" by (cases p) auto
  have l: "link d m m' T U i" using Suc.prems(1) p(3) by (simp add: copied_Suc)
  show ?case
  proof (cases "present m T i")
    case True
    then have "copied d m m' (child m T i) (child m' U i)" using l by (simp add: link_def)
    from Suc.IH [OF this p(2,4)] show ?thesis
      using l True unfolding p(1) by (simp add: link_def present_def child_def split: option.splits)
  next
    case False
    then show ?thesis using l unfolding p(1) by (simp add: link_def present_def)
  qed
qed simp


section \<open>The last level\<close>

text \<open>Every data frame of a tree lies inside the frame table.\<close>

definition in_pagelist :: "u64 \<Rightarrow> bool" where
  "in_pagelist e \<longleftrightarrow> unat ((e AND validatebits) div pageSize) < MAXPAGES"

fun data_ok :: "(u64 \<Rightarrow> u64) \<Rightarrow> nat \<Rightarrow> u64 \<Rightarrow> bool" where
  "data_ok m 0 T \<longleftrightarrow> (\<forall>i < 512. present m T i \<longrightarrow> in_pagelist (m (T + 8 * i)))"
| "data_ok m (Suc d) T \<longleftrightarrow> (\<forall>i < 512. present m T i \<longrightarrow> data_ok m d (child m T i))"

declare data_ok.simps [simp del]

lemma data_ok_agree: "agree (set (tables m d T)) m m0 \<Longrightarrow> data_ok m d T \<Longrightarrow> data_ok m0 d T"
proof (induction d arbitrary: T)
  case 0
  have "m0 (T + 8 * i) = m (T + 8 * i)" if "i < 512" for i using agree_entry [OF 0(1) _ that] by simp
  then show ?case using 0(2) by (simp add: data_ok.simps present_def)
next
  case (Suc d)
  have e: "m0 (T + 8 * i) = m (T + 8 * i)" if "i < 512" for i
    using agree_entry [OF Suc.prems(1) tables_root that] .
  have "data_ok m0 d (child m T i)" if i: "i < 512" "present m T i" for i
  proof (rule Suc.IH)
    have "set (tables m d (child m T i)) \<subseteq> set (tables m (Suc d) T)"
      using i by (auto simp: tables_Suc below_def)
    then show "agree (set (tables m d (child m T i))) m m0" using Suc.prems(1) agree_mono by blast
    show "data_ok m d (child m T i)" using Suc.prems(2) i by (simp add: data_ok.simps)
  qed
  then show ?case using e by (simp add: data_ok.simps present_def child_def)
qed

text \<open>What every step of the copy leaves alone: the frames outside a set, the free list up to its
  first \<open>n\<close> frames, and the statics.\<close>

definition outside_same :: "u64 set \<Rightarrow> (u64 \<Rightarrow> u64) \<Rightarrow> (u64 \<Rightarrow> u64) \<Rightarrow> bool" where
  "outside_same X m m' \<longleftrightarrow> (\<forall>a. (\<forall>F \<in> X. \<not> in_frame F a) \<longrightarrow> m' a = m a)"

lemma outside_same_refl [simp]: "outside_same X m m"
  by (simp add: outside_same_def)

lemma outside_same_trans:
  "outside_same X m m1 \<Longrightarrow> outside_same Y m1 m2 \<Longrightarrow> X \<subseteq> Z \<Longrightarrow> Y \<subseteq> Z \<Longrightarrow> outside_same Z m m2"
  unfolding outside_same_def by (metis subsetD)

lemma outside_same_agree:
  "outside_same X m m' \<Longrightarrow> \<forall>F \<in> X \<union> Y. aligned F \<Longrightarrow> X \<inter> Y = {} \<Longrightarrow> agree Y m m'"
  unfolding outside_same_def agree_def by (metis UnCI disjoint_iff in_frame_entry)

lemma outside_same_write:
  "outside_same X m m' \<Longrightarrow> F \<in> X \<Longrightarrow> aligned F \<Longrightarrow> i < 512 \<Longrightarrow> outside_same X m (m'(F + 8 * i := v))"
  by (auto simp: outside_same_def in_frame_entry)

definition statics :: "paging \<Rightarrow> u64 \<times> u64 \<times> u64" where
  "statics s = (k_cr3 s, pml4e s, pdpte s)"

lemma inc_ref_frame:
  assumes "inc_ref e s = Some s'"
  shows "pm s' = pm s" "statics s' = statics s" "free_frames s fs \<Longrightarrow> free_frames s' fs"
proof -
  have chain: "chain (pl(i := (pl i)\<lparr>ref_count := r\<rparr>)) h is = chain pl h is" for pl i r h "is"
    by (induction "is" arbitrary: h) auto
  have addr: "address ((pl(i := (pl i)\<lparr>ref_count := r\<rparr>)) j) = address (pl j)" for pl i r j by simp
  show "pm s' = pm s" "statics s' = statics s"
    using assms by (auto simp: inc_ref_def Let_def statics_def split: if_splits)
  show "free_frames s' fs" if "free_frames s fs"
    using assms that by (auto simp: inc_ref_def Let_def free_frames_def chain addr split: if_splits)
qed

lemma kwrite_statics [simp]: "statics (kwrite s p i v) = statics s"
  by (simp add: statics_def kwrite_def)

lemma kzero_statics [simp]: "statics (kzero s p) = statics s"
  by (simp add: statics_def kzero_def)

definition shared :: "(u64 \<Rightarrow> u64) \<Rightarrow> (u64 \<Rightarrow> u64) \<Rightarrow> u64 \<Rightarrow> u64 \<Rightarrow> u64 \<Rightarrow> bool" where
  "shared m m' T U i \<longleftrightarrow> (if present m T i
     then m' (T + 8 * i) = cow_entry (m (T + 8 * i)) \<and> m' (U + 8 * i) = cow_entry (m (T + 8 * i))
     else m' (T + 8 * i) = m (T + 8 * i) \<and> m' (U + 8 * i) = m (U + 8 * i))"

lemma copy_ptes_spec:
  assumes TU: "aligned T" "aligned U" "T \<noteq> U"
  shows "distinct ls \<Longrightarrow> \<forall>i \<in> set ls. i < 512 \<Longrightarrow>
    \<forall>i \<in> set ls. present (pm s) T i \<longrightarrow> in_pagelist (pm s (T + 8 * i)) \<Longrightarrow>
    \<exists>s'. copy_ptes (kernbase + T) (kernbase + U) ls s = Some s'
      \<and> (\<forall>i \<in> set ls. shared (pm s) (pm s') T U i)
      \<and> (\<forall>i < 512. i \<notin> set ls \<longrightarrow> pm s' (T + 8 * i) = pm s (T + 8 * i) \<and> pm s' (U + 8 * i) = pm s (U + 8 * i))
      \<and> outside_same {T, U} (pm s) (pm s')
      \<and> statics s' = statics s \<and> (\<forall>fs. free_frames s fs \<longrightarrow> free_frames s' fs)"
proof (induction ls arbitrary: s)
  case (Cons l ls)
  have l: "l < 512" "l \<notin> set ls" "distinct ls" "\<forall>i \<in> set ls. i < 512" using Cons.prems(1,2) by auto
  show ?case
  proof (cases "present (pm s) T l")
    case False
    have data0: "\<forall>i \<in> set ls. present (pm s) T i \<longrightarrow> in_pagelist (pm s (T + 8 * i))" using Cons.prems(3) by simp
    obtain s' where s': "copy_ptes (kernbase + T) (kernbase + U) ls s = Some s'"
      "\<forall>i \<in> set ls. shared (pm s) (pm s') T U i"
      "\<forall>i < 512. i \<notin> set ls \<longrightarrow> pm s' (T + 8 * i) = pm s (T + 8 * i) \<and> pm s' (U + 8 * i) = pm s (U + 8 * i)"
      "outside_same {T, U} (pm s) (pm s')" "statics s' = statics s" "\<forall>fs. free_frames s fs \<longrightarrow> free_frames s' fs"
      using Cons.IH [OF l(3,4), of s] data0 by blast
    have "copy_ptes (kernbase + T) (kernbase + U) (l # ls) s = Some s'"
      using s'(1) False by (simp add: present_def)
    moreover have "shared (pm s) (pm s') T U l" using s'(3) l(1,2) False by (simp add: shared_def)
    ultimately show ?thesis using s'(2-6) by (intro exI [of _ s']) simp
  next
    case True
    let ?e = "pm s (T + 8 * l)"
    have "in_pagelist ?e" using Cons.prems(3) True by simp
    then obtain s1 where s1: "inc_ref (?e AND validatebits) s = Some s1"
      by (auto simp: inc_ref_def in_pagelist_def Let_def not_le)
    note f1 = inc_ref_frame [OF s1]
    define s2 where "s2 = kwrite (kwrite s1 (kernbase + T) l (cow_entry ?e)) (kernbase + U) l (cow_entry ?e)"
    have m2: "pm s2 = (pm s)(T + 8 * l := cow_entry ?e, U + 8 * l := cow_entry ?e)"
      by (simp add: s2_def f1(1))
    have e2: "pm s2 (T + 8 * i) = (if i = l then cow_entry ?e else pm s (T + 8 * i))"
        "pm s2 (U + 8 * i) = (if i = l then cow_entry ?e else pm s (U + 8 * i))" if "i < 512" for i
      using entry_inj [OF TU(1,1) that l(1)] entry_inj [OF TU(1,2) that l(1)] entry_inj [OF TU(2,1) that l(1)]
        entry_inj [OF TU(2,2) that l(1)] TU(3) by (auto simp: m2)
    have data: "\<forall>i \<in> set ls. present (pm s2) T i \<longrightarrow> in_pagelist (pm s2 (T + 8 * i))"
      using Cons.prems(3) l(2,4) e2(1) by (auto simp: present_def)
    obtain s' where s': "copy_ptes (kernbase + T) (kernbase + U) ls s2 = Some s'"
      "\<forall>i \<in> set ls. shared (pm s2) (pm s') T U i"
      "\<forall>i < 512. i \<notin> set ls \<longrightarrow> pm s' (T + 8 * i) = pm s2 (T + 8 * i) \<and> pm s' (U + 8 * i) = pm s2 (U + 8 * i)"
      "outside_same {T, U} (pm s2) (pm s')" "statics s' = statics s2" "\<forall>fs. free_frames s2 fs \<longrightarrow> free_frames s' fs"
      using Cons.IH [OF l(3,4) data] by blast
    have run: "copy_ptes (kernbase + T) (kernbase + U) (l # ls) s = Some s'"
      using s'(1) True s1 f1(1) by (simp add: present_def s2_def)
    have ls: "shared (pm s) (pm s') T U i" if i: "i \<in> set ls" for i
    proof -
      have "i < 512" "i \<noteq> l" using i l by auto
      then show ?thesis using bspec [OF s'(2) i] e2 [of i] by (simp add: shared_def present_def)
    qed
    have "shared (pm s) (pm s') T U l" using s'(3) l e2 [OF l(1)] True by (simp add: shared_def)
    moreover have "pm s' (T + 8 * i) = pm s (T + 8 * i) \<and> pm s' (U + 8 * i) = pm s (U + 8 * i)"
      if "i < 512" "i \<notin> set (l # ls)" for i using s'(3) that e2 [OF that(1)] by simp
    moreover have "outside_same {T, U} (pm s) (pm s2)"
      unfolding m2 using TU l(1) by (intro outside_same_write) auto
    then have "outside_same {T, U} (pm s) (pm s')" using s'(4) by (rule outside_same_trans) auto
    moreover have "statics s' = statics s" using s'(5) f1(2) by (simp add: s2_def)
    moreover have "\<forall>fs. free_frames s fs \<longrightarrow> free_frames s' fs" using s'(6) f1(3) by (simp add: s2_def)
    ultimately show ?thesis using run ls by (intro exI [of _ s']) simp
  qed
qed simp


section \<open>The upper levels\<close>

text \<open>The tables through which the kernel's own map is walked.\<close>

definition kpath :: "u64 list \<Rightarrow> bool" where
  "kpath p \<longleftrightarrow> length p \<le> 3 \<and> (\<forall>i \<in> set p. i < 512) \<and> (p \<noteq> [] \<longrightarrow> hd p = 511)"

definition kernel_tables :: "(u64 \<Rightarrow> u64) \<Rightarrow> u64 \<Rightarrow> u64 set" where
  "kernel_tables m C = {F. \<exists>p. kpath p \<and> tbl m C p = Some F}"

lemma kpath_prefix: "kpath (q @ i # r) \<Longrightarrow> kpath q \<and> i < 512"
  by (cases q) (auto simp: kpath_def)

lemma kpath_path: "ix4 v = 511 \<Longrightarrow> kpath (path v)"
  by (simp add: kpath_def path_def)

definition kspace :: "paging \<Rightarrow> u64 \<Rightarrow> u64 set \<Rightarrow> u64 list \<Rightarrow> bool" where
  "kspace s lim K fs \<longleftrightarrow> kernel_map s lim \<and> aligned (k_cr3 s) \<and> kernel_tables (pm s) (k_cr3 s) = K
     \<and> free_frames s fs \<and> mapped_frames lim fs \<and> distinct fs"

lemma kspace_aligned: "kspace s lim K fs \<Longrightarrow> F \<in> K \<union> set fs \<Longrightarrow> aligned F"
  by (auto simp: kspace_def mapped_frames_def kernel_tables_def dest: tbl_aligned)

lemma kernel_walk_agree:
  assumes "agree (kernel_tables m C) m m'" and "kpath p"
  shows "tbl m' C p = tbl m C p"
proof (rule tbl_cong)
  fix q i r F
  assume "p = q @ i # r" and F: "tbl m C q = Some F"
  then have "F \<in> kernel_tables m C" "i < 512" using assms(2) kpath_prefix unfolding kernel_tables_def by blast+
  then show "m' (F + 8 * i) = m (F + 8 * i)" using agree_entry [OF assms(1)] by blast
qed

lemma kernel_map_agree:
  assumes km: "kernel_map s lim" and st: "statics s' = statics s"
    and a: "agree (kernel_tables (pm s) (k_cr3 s)) (pm s) (pm s')"
  shows "kernel_map s' lim" and "kernel_tables (pm s') (k_cr3 s') = kernel_tables (pm s) (k_cr3 s)"
proof -
  let ?C = "k_cr3 s"
  have C: "k_cr3 s' = ?C" "pml4e s' = pml4e s" "pdpte s' = pdpte s" using st by (simp_all add: statics_def)
  have w: "tbl (pm s') ?C p = tbl (pm s) ?C p" if "kpath p" for p
    using kernel_walk_agree [OF a that] .
  show "kernel_tables (pm s') (k_cr3 s') = kernel_tables (pm s) ?C"
    unfolding kernel_tables_def C using w by (metis (no_types, lifting))
  have "?C \<in> kernel_tables (pm s) ?C" unfolding kernel_tables_def by (auto simp: kpath_def intro: exI [of _ "[]"])
  then have top: "pm s' (?C + 8 * 511) = pm s (?C + 8 * 511)" using agree_entry [OF a, of ?C 511] by simp
  have "translate (pm s') ?C v = translate (pm s) ?C v" if v: "ix4 v = 511" for v
  proof (cases "tbl (pm s) ?C (path v)")
    case None
    then show ?thesis using w [OF kpath_path [OF v]] by (simp add: translate_def)
  next
    case (Some F)
    then have "F \<in> kernel_tables (pm s) ?C" unfolding kernel_tables_def using kpath_path [OF v] by blast
    then have "pm s' (F + 8 * ix1 v) = pm s (F + 8 * ix1 v)" using agree_entry [OF a] by simp
    moreover have "tbl (pm s') ?C (path v) = Some F" using w [OF kpath_path [OF v]] Some by simp
    ultimately show ?thesis using Some by (simp add: translate_def)
  qed
  then show "kernel_map s' lim" using km top unfolding kernel_map_def C by simp
qed

lemma kspace_agree:
  assumes "kspace s lim K fs" and "statics s' = statics s" and "agree K (pm s) (pm s')" and "free_frames s' (drop n fs)"
  shows "kspace s' lim K (drop n fs)"
proof -
  have "k_cr3 s' = k_cr3 s" using assms(2) by (simp add: statics_def)
  then show ?thesis
    using assms kernel_map_agree [of s lim s'] in_set_dropD [of _ n fs]
    by (auto simp: kspace_def mapped_frames_def)
qed

lemma getNewPage_kspace:
  assumes "kspace s lim K (f # fs)"
  shows "\<exists>s1. getNewPage s = Some (kernbase + f, s1) \<and> pm s1 = pm s \<and> statics s1 = statics s \<and> free_frames s1 fs"
proof -
  have ff: "free_frames s (f # fs)" and f: "aligned f" "f < lim" and km: "kernel_map s lim"
    using assms by (auto simp: kspace_def mapped_frames_def)
  obtain s1 where s1: "getFreeFrame s = Some (f, s1)" "free_frames s1 fs" "pm s1 = pm s"
      "k_cr3 s1 = k_cr3 s" "pml4e s1 = pml4e s" "pdpte s1 = pdpte s"
    using getFreeFrame_cons [OF ff] by blast
  have "kernel_map s1 lim" using km s1 by (simp add: kernel_map_def)
  from mapNewFrame_present [OF this f] show ?thesis using s1 by (simp add: getNewPage_def statics_def)
qed

text \<open>What the copy of a subtree of \<open>T\<close> into \<open>U\<close> needs: \<open>X\<close> lists the tables below \<open>T\<close>.\<close>

definition copy_pre :: "paging \<Rightarrow> u64 \<Rightarrow> u64 \<Rightarrow> u64 list \<Rightarrow> u64 \<Rightarrow> u64 set \<Rightarrow> u64 list \<Rightarrow> bool" where
  "copy_pre s T U X lim K fs \<longleftrightarrow> kspace s lim K fs \<and> aligned T \<and> aligned U
     \<and> distinct (U # T # X) \<and> set (U # T # X) \<inter> set fs = {} \<and> K \<inter> (set (U # T # X) \<union> set fs) = {}
     \<and> (\<forall>F \<in> set X. aligned F) \<and> length X \<le> length fs"

definition copier :: "nat \<Rightarrow> (u64 \<Rightarrow> u64 \<Rightarrow> paging \<Rightarrow> paging option) \<Rightarrow> bool" where
  "copier d f \<longleftrightarrow> (\<forall>s T U X lim K fs. tables (pm s) d T = T # X \<longrightarrow> copy_pre s T U X lim K fs \<longrightarrow>
     data_ok (pm s) d T \<longrightarrow> (\<forall>i < 512. \<not> present (pm s) U i) \<longrightarrow>
     (\<exists>s'. f (kernbase + T) (kernbase + U) s = Some s' \<and> copied d (pm s) (pm s') T U
        \<and> outside_same (set (U # T # X) \<union> set (take (length X) fs)) (pm s) (pm s')
        \<and> statics s' = statics s \<and> kspace s' lim K (drop (length X) fs)
        \<and> set (tables (pm s') d U) \<subseteq> insert U (set (take (length X) fs))))"

lemma copier_ptes: "copier 0 (\<lambda>T U. copy_ptes T U (indices 512))"
  unfolding copier_def
proof (intro allI impI)
  fix s T U X lim K fs
  assume X: "tables (pm s) 0 T = T # X" and pre: "copy_pre s T U X lim K fs"
    and data: "data_ok (pm s) 0 T" and U: "\<forall>i < 512. \<not> present (pm s) U i"
  have ks: "kspace s lim K fs" and TU: "aligned T" "aligned U" "T \<noteq> U" and K: "K \<inter> {T, U} = {}"
    using pre by (auto simp: copy_pre_def)
  obtain s' where s': "copy_ptes (kernbase + T) (kernbase + U) (indices 512) s = Some s'"
      "\<forall>i \<in> set (indices 512). shared (pm s) (pm s') T U i" "outside_same {T, U} (pm s) (pm s')"
      "statics s' = statics s" "\<forall>fs. free_frames s fs \<longrightarrow> free_frames s' fs"
    using copy_ptes_spec [OF TU distinct_indices, of 512 s] data by (auto simp: data_ok.simps)
  have "copied 0 (pm s) (pm s') T U"
    using s'(2) U by (auto simp: copied.simps(1) shared_def present_def split: if_splits)
  moreover have "agree K (pm s) (pm s')"
    using outside_same_agree [OF s'(3), of K] kspace_aligned [OF ks] TU K by blast
  then have "kspace s' lim K (drop 0 fs)"
    using kspace_agree [OF ks s'(4), of 0] s'(5) ks by (simp add: kspace_def)
  ultimately show "\<exists>s'. copy_ptes (kernbase + T) (kernbase + U) (indices 512) s = Some s'
      \<and> copied 0 (pm s) (pm s') T U
      \<and> outside_same (set (U # T # X) \<union> set (take (length X) fs)) (pm s) (pm s')
      \<and> statics s' = statics s \<and> kspace s' lim K (drop (length X) fs)
      \<and> set (tables (pm s') 0 U) \<subseteq> insert U (set (take (length X) fs))"
    using s' X by (intro exI [of _ s']) (simp add: insert_commute)
qed

fun copy_level :: "(u64 \<Rightarrow> u64 \<Rightarrow> paging \<Rightarrow> paging option) \<Rightarrow> u64 \<Rightarrow> u64 \<Rightarrow> u64 list \<Rightarrow> paging \<Rightarrow> paging option" where
  "copy_level f T U [] s = Some s"
| "copy_level f T U (i # is) s =
     (if kread s T i AND 1 \<noteq> 0 then do {
        (C, s) \<leftarrow> getNewPage s;
        let s = kzero s C;
        let s = kwrite s U i (((C - kernbase) AND validatebits) OR 7);
        s \<leftarrow> f (kernbase + (kread s T i AND validatebits)) C s;
        copy_level f T U is s
      }
      else copy_level f T U is s)"

lemma copy_levels:
  "copy_pdpes T U is = copy_level (\<lambda>T U. copy_ptes T U (indices 512)) T U is"
  "copy_pdptes T U is = copy_level (\<lambda>T U. copy_pdpes T U (indices 512)) T U is"
  "copy_pml4es T U is = copy_level (\<lambda>T U. copy_pdptes T U (indices 512)) T U is"
  by (induction "is"; rule ext; simp)+

lemma below_agree:
  assumes "agree (insert T (set (below m d T is))) m m'" and "\<forall>i \<in> set is. i < 512"
  shows "below m' d T is = below m d T is"
  using assms
proof (induction "is")
  case (Cons i "is")
  have e: "present m' T i = present m T i" "child m' T i = child m T i"
    using agree_entry [OF Cons.prems(1), of T i] Cons.prems(2) by (simp_all add: present_def child_def)
  have "agree (insert T (set (below m d T is))) m m'" using Cons.prems(1) by (rule agree_mono) auto
  then have "below m' d T is = below m d T is" using Cons.IH Cons.prems(2) by simp
  moreover have "tables m' d (child m T i) = tables m d (child m T i)" if "present m T i"
    using that by (intro tables_agree agree_mono [OF Cons.prems(1)]) auto
  ultimately show ?case using e by simp
qed simp


lemma copy_child:
  assumes f: "copier d f" and i: "i < 512" and C: "C = child (pm s) T i"
    and pre: "copy_pre s T U (tables (pm s) d C @ X') lim K fs" and data: "data_ok (pm s) d C"
    and n: "n = length (tables (pm s) d C)"
  shows "\<exists>g s1 s3 s4. getNewPage s = Some (kernbase + g, s1)
    \<and> s3 = kwrite (kzero s1 (kernbase + g)) (kernbase + U) i ((g AND validatebits) OR 7)
    \<and> pm s3 (T + 8 * i) = pm s (T + 8 * i) \<and> f (kernbase + C) (kernbase + g) s3 = Some s4
    \<and> child (pm s4) U i = g \<and> present (pm s4) U i \<and> (\<forall>j < 512. j \<noteq> i \<longrightarrow> pm s4 (U + 8 * j) = pm s (U + 8 * j))
    \<and> agree (insert T (set X')) (pm s) (pm s4)
    \<and> copied d (pm s) (pm s4) C g \<and> set (tables (pm s4) d g) \<subseteq> set (take n fs)
    \<and> outside_same (insert U (set (tables (pm s) d C) \<union> set (take n fs))) (pm s) (pm s4)
    \<and> statics s4 = statics s \<and> kspace s4 lim K (drop n fs)"
proof -
  obtain Y where Y: "tables (pm s) d C = C # Y" by (cases d) (auto simp: tables_Suc)
  obtain g gs where fs: "fs = g # gs" using pre Y by (cases fs) (auto simp: copy_pre_def)
  have ks: "kspace s lim K (g # gs)" and al: "aligned T" "aligned U" "\<forall>F \<in> set (C # Y @ X'). aligned F"
    and dist: "distinct (U # T # C # Y @ X')" "set (U # T # C # Y @ X') \<inter> set (g # gs) = {}"
      "K \<inter> (set (U # T # C # Y @ X') \<union> set (g # gs)) = {}"
    and len: "length (Y @ X') \<le> length gs"
    using pre fs Y by (auto simp: copy_pre_def)
  have g: "aligned g" "\<forall>F \<in> K \<union> set gs. aligned F" "g \<notin> set gs"
    using kspace_aligned [OF ks] ks by (auto simp: kspace_def)
  obtain s1 where s1: "getNewPage s = Some (kernbase + g, s1)" "pm s1 = pm s" "statics s1 = statics s" "free_frames s1 gs"
    using getNewPage_kspace [OF ks] by blast
  define s3 where "s3 = kwrite (kzero s1 (kernbase + g)) (kernbase + U) i ((g AND validatebits) OR 7)"
  have m3: "pm s3 = (zero_frame (pm s) g)(U + 8 * i := (g AND validatebits) OR 7)" by (simp add: s3_def s1(2))
  have "outside_same {g, U} (pm s) (pm s3)"
    unfolding m3 using al(2) i by (intro outside_same_write) (auto simp: outside_same_def zero_frame_def)
  then have out3: "outside_same {g, U} (pm s) (pm s3)" .
  have agree3: "agree Z (pm s) (pm s3)" if "Z \<subseteq> K \<union> set (T # C # Y @ X')" for Z
  proof (rule outside_same_agree [OF out3])
    show "\<forall>F \<in> {g, U} \<union> Z. aligned F" using that al g by auto
    show "{g, U} \<inter> Z = {}" using that dist by auto
  qed
  have U3: "pm s3 (U + 8 * j) = (if j = i then (g AND validatebits) OR 7 else pm s (U + 8 * j))" if "j < 512" for j
    using entry_inj [OF al(2,2) that i] zero_frame_entry [OF g(1) al(2) that] dist by (auto simp: m3)
  have g3: "pm s3 (g + 8 * j) = 0" if "j < 512" for j
    using entry_inj [OF g(1) al(2) that i] zero_frame_entry [OF g(1,1) that] dist by (auto simp: m3)
  have st3: "statics s3 = statics s" "free_frames s3 gs" using s1(3,4) by (simp_all add: s3_def)
  have agK: "agree K (pm s) (pm s3)" by (rule agree3) auto
  have ks3: "kspace s3 lim K gs"
    using kspace_agree [OF ks st3(1) agK, of 1] st3(2) by simp
  have agY: "agree (set (tables (pm s) d C)) (pm s) (pm s3)" by (rule agree3) (auto simp: Y)
  have tab3: "tables (pm s3) d C = C # Y" using tables_agree [OF agY] Y by simp
  have pre3: "copy_pre s3 C g Y lim K gs"
    using ks3 al g dist len by (auto simp: copy_pre_def)
  have data3: "data_ok (pm s3) d C" using data_ok_agree [OF agY data] .
  have "\<forall>j < 512. \<not> present (pm s3) g j" using g3 by (simp add: present_def)
  then obtain s4 where s4: "f (kernbase + C) (kernbase + g) s3 = Some s4" "copied d (pm s3) (pm s4) C g"
      "outside_same (set (g # C # Y) \<union> set (take (length Y) gs)) (pm s3) (pm s4)"
      "statics s4 = statics s3" "kspace s4 lim K (drop (length Y) gs)"
      "set (tables (pm s4) d g) \<subseteq> insert g (set (take (length Y) gs))"
    using f tab3 pre3 data3 unfolding copier_def by metis
  have W: "set (take (length Y) gs) \<subseteq> set gs" by (rule set_take_subset)
  have agree4: "agree Z (pm s3) (pm s4)" if "Z \<subseteq> set (U # T # X')" for Z
  proof (rule outside_same_agree [OF s4(3)])
    show "\<forall>F \<in> set (g # C # Y) \<union> set (take (length Y) gs) \<union> Z. aligned F" using that al g W by auto
    show "(set (g # C # Y) \<union> set (take (length Y) gs)) \<inter> Z = {}" using that dist W by fastforce
  qed
  have U4: "pm s4 (U + 8 * j) = (if j = i then (g AND validatebits) OR 7 else pm s (U + 8 * j))" if "j < 512" for j
    using agree_entry [OF agree4 [of "{U}"] _ that, of U] U3 [OF that] by simp
  have "agree (insert T (set X')) (pm s) (pm s4)"
    by (rule agree_trans [OF agree3 agree4]) auto
  moreover have "copied d (pm s) (pm s4) C g"
  proof (rule copied_cong_before [OF _ s4(2)])
    show "agree (set (tables (pm s3) d C)) (pm s3) (pm s)" using agY tab3 Y agree_sym by metis
  qed
  moreover have n': "n = Suc (length Y)" "take n fs = g # take (length Y) gs" "drop n fs = drop (length Y) gs"
    using n Y fs by simp_all
  moreover have "outside_same (insert U (set (C # Y) \<union> set (take n fs))) (pm s) (pm s4)"
    using n'(2) by (intro outside_same_trans [OF out3 s4(3)]) auto
  moreover have "child (pm s4) U i = g AND validatebits" "present (pm s4) U i"
    using U4 [OF i] by (simp_all add: child_def present_def)
  then have "child (pm s4) U i = g" "present (pm s4) U i" using g(1) by (simp_all add: aligned_def)
  moreover have "pm s3 (T + 8 * i) = pm s (T + 8 * i)" using agree_entry [OF agree3 [of "{T}"] _ i] by simp
  ultimately show ?thesis
    using s1(1) s3_def s4 st3(1) U4 Y by (intro exI [of _ g] exI [of _ s1] exI [of _ s3] exI [of _ s4]) simp
qed

lemma copy_level_step:
  assumes f: "copier d f"
  shows "copy_pre s T U (below (pm s) d T is) lim K fs \<Longrightarrow> distinct is \<Longrightarrow> \<forall>i \<in> set is. i < 512 \<Longrightarrow>
    \<forall>i \<in> set is. present (pm s) T i \<longrightarrow> data_ok (pm s) d (child (pm s) T i) \<Longrightarrow>
    \<forall>i \<in> set is. \<not> present (pm s) U i \<Longrightarrow>
    \<exists>s'. copy_level f (kernbase + T) (kernbase + U) is s = Some s'
      \<and> (\<forall>i \<in> set is. link d (pm s) (pm s') T U i \<and> (present (pm s') U i \<longrightarrow>
            set (tables (pm s') d (child (pm s') U i)) \<subseteq> set (take (length (below (pm s) d T is)) fs)))
      \<and> agree {T} (pm s) (pm s') \<and> (\<forall>i < 512. i \<notin> set is \<longrightarrow> pm s' (U + 8 * i) = pm s (U + 8 * i))
      \<and> outside_same (set (U # below (pm s) d T is) \<union> set (take (length (below (pm s) d T is)) fs)) (pm s) (pm s')
      \<and> statics s' = statics s \<and> kspace s' lim K (drop (length (below (pm s) d T is)) fs)"
proof (induction "is" arbitrary: s fs)
  case Nil
  then show ?case by (intro exI [of _ s]) (simp add: agree_def copy_pre_def)
next
  case (Cons i "is")
  have i: "i < 512" "i \<notin> set is" "distinct is" "\<forall>i \<in> set is. i < 512" using Cons.prems(2,3) by auto
  let ?X = "below (pm s) d T is"
  show ?case
  proof (cases "present (pm s) T i")
    case False
    have X: "below (pm s) d T (i # is) = ?X" using False by simp
    obtain s' where s': "copy_level f (kernbase + T) (kernbase + U) is s = Some s'"
      "\<forall>i \<in> set is. link d (pm s) (pm s') T U i \<and> (present (pm s') U i \<longrightarrow>
            set (tables (pm s') d (child (pm s') U i)) \<subseteq> set (take (length ?X) fs))"
      "agree {T} (pm s) (pm s')" "\<forall>i < 512. i \<notin> set is \<longrightarrow> pm s' (U + 8 * i) = pm s (U + 8 * i)"
      "outside_same (set (U # ?X) \<union> set (take (length ?X) fs)) (pm s) (pm s')"
      "statics s' = statics s" "kspace s' lim K (drop (length ?X) fs)"
      using Cons.IH [OF Cons.prems(1) [unfolded X] i(3,4)] Cons.prems(4,5) by auto
    have "pm s' (U + 8 * i) = pm s (U + 8 * i)" "pm s' (T + 8 * i) = pm s (T + 8 * i)"
      using s'(4) i(1,2) agree_entry [OF s'(3) _ i(1)] by simp_all
    then have "link d (pm s) (pm s') T U i \<and> \<not> present (pm s') U i"
      using False Cons.prems(5) by (simp add: link_def present_def)
    then show ?thesis unfolding X using s' False
      by (intro exI [of _ s']) (simp add: present_def)
  next
    case True
    let ?C = "child (pm s) T i" and ?m = "length (tables (pm s) d (child (pm s) T i))"
    have X: "below (pm s) d T (i # is) = tables (pm s) d ?C @ ?X" using True by simp
    have pre: "copy_pre s T U (tables (pm s) d ?C @ ?X) lim K fs" using Cons.prems(1) unfolding X .
    obtain g s1 s3 s4 where s1: "getNewPage s = Some (kernbase + g, s1)"
        "s3 = kwrite (kzero s1 (kernbase + g)) (kernbase + U) i ((g AND validatebits) OR 7)"
        "pm s3 (T + 8 * i) = pm s (T + 8 * i)" "f (kernbase + ?C) (kernbase + g) s3 = Some s4"
      and U4: "child (pm s4) U i = g" "present (pm s4) U i" "\<forall>j < 512. j \<noteq> i \<longrightarrow> pm s4 (U + 8 * j) = pm s (U + 8 * j)"
      and T4: "agree (insert T (set ?X)) (pm s) (pm s4)"
      and c4: "copied d (pm s) (pm s4) ?C g" "set (tables (pm s4) d g) \<subseteq> set (take ?m fs)"
      and o4: "outside_same (insert U (set (tables (pm s) d ?C) \<union> set (take ?m fs))) (pm s) (pm s4)"
      and k4: "statics s4 = statics s" "kspace s4 lim K (drop ?m fs)"
      using copy_child [OF f i(1) refl pre _ refl] Cons.prems(4) True by auto
    let ?fs = "drop ?m fs" and ?n = "length ?X"
    have ks: "kspace s lim K fs" and al: "aligned T" "aligned U" "\<forall>F \<in> set (tables (pm s) d ?C @ ?X). aligned F"
      and dist: "distinct (U # T # tables (pm s) d ?C @ ?X)" "set (U # T # tables (pm s) d ?C @ ?X) \<inter> set fs = {}"
        "K \<inter> (set (U # T # tables (pm s) d ?C @ ?X) \<union> set fs) = {}"
      and len: "?m + ?n \<le> length fs"
      using pre by (auto simp: copy_pre_def)
    have fsd: "set ?fs \<subseteq> set fs" "set (take ?m fs) \<subseteq> set fs" "set (take ?m fs) \<inter> set ?fs = {}"
      using ks set_take_disj_set_drop_if_distinct [of fs ?m ?m] set_drop_subset [of ?m fs] set_take_subset [of ?m fs]
      by (auto simp: kspace_def)
    have X4: "below (pm s4) d T is = ?X" using T4 i(4) by (rule below_agree)
    have e4: "pm s4 (T + 8 * j) = pm s (T + 8 * j)" if "j < 512" for j using agree_entry [OF T4 _ that] by simp
    have sub: "set (tables (pm s) d (child (pm s) T j)) \<subseteq> set ?X" if "j \<in> set is" "present (pm s) T j" for j
      using that by (auto simp: below_def)
    have "copy_pre s4 T U ?X lim K ?fs"
      unfolding copy_pre_def using k4(2) al dist fsd(1) len by (auto simp: disjoint_iff dest: in_set_dropD)
    moreover have "data_ok (pm s4) d (child (pm s4) T j)" if j: "j \<in> set is" "present (pm s4) T j" for j
    proof -
      have "j < 512" "present (pm s) T j" "child (pm s4) T j = child (pm s) T j"
        using j i(4) e4 by (auto simp: present_def child_def)
      then show ?thesis
        using data_ok_agree [OF agree_mono [OF T4]] sub [OF j(1)] Cons.prems(4) j(1) by (metis list.set_intros(2) subset_insertI2)
    qed
    moreover have "\<forall>j \<in> set is. \<not> present (pm s4) U j" using U4(3) Cons.prems(5) i(2,4) by (auto simp: present_def)
    ultimately obtain s' where s': "copy_level f (kernbase + T) (kernbase + U) is s4 = Some s'"
      "\<forall>i \<in> set is. link d (pm s4) (pm s') T U i \<and> (present (pm s') U i \<longrightarrow>
            set (tables (pm s') d (child (pm s') U i)) \<subseteq> set (take ?n ?fs))"
      "agree {T} (pm s4) (pm s')" "\<forall>i < 512. i \<notin> set is \<longrightarrow> pm s' (U + 8 * i) = pm s4 (U + 8 * i)"
      "outside_same (set (U # ?X) \<union> set (take ?n ?fs)) (pm s4) (pm s')"
      "statics s' = statics s4" "kspace s' lim K (drop ?n ?fs)"
      using Cons.IH [of s4 ?fs] i(3,4) X4 by auto
    have run: "copy_level f (kernbase + T) (kernbase + U) (i # is) s = Some s'"
      using True s1(3,4) s'(1) unfolding copy_level.simps Let_def s1(1) bind.bind_lunit prod.case
      by (simp add: present_def child_def s1(2) [symmetric])
    have Tsame: "pm s' (T + 8 * j) = pm s (T + 8 * j)" if "j < 512" for j
      using agree_entry [OF s'(3) _ that] e4 [OF that] by simp
    have keep: "agree (set (tables (pm s) d ?C) \<union> set (tables (pm s4) d g)) (pm s4) (pm s')"
    proof (rule outside_same_agree [OF s'(5)])
      have t: "set (take ?n ?fs) \<subseteq> set ?fs" by (rule set_take_subset)
      have d: "U \<notin> set (tables (pm s) d ?C)" "U \<notin> set fs" "set (tables (pm s) d ?C) \<inter> set ?X = {}"
        "set (tables (pm s) d ?C) \<inter> set fs = {}" "set ?X \<inter> set fs = {}" using dist by auto
      show "(set (U # ?X) \<union> set (take ?n ?fs)) \<inter> (set (tables (pm s) d ?C) \<union> set (tables (pm s4) d g)) = {}"
        using d t fsd c4(2) unfolding list.set by blast
      show "\<forall>F \<in> set (U # ?X) \<union> set (take ?n ?fs) \<union> (set (tables (pm s) d ?C) \<union> set (tables (pm s4) d g)). aligned F"
        using al kspace_aligned [OF ks] t fsd c4(2) unfolding list.set set_append by blast
    qed
    have Ui: "pm s' (U + 8 * i) = pm s4 (U + 8 * i)" using s'(4) i(1,2) by simp
    then have Uc: "child (pm s') U i = g" "present (pm s') U i" using U4(1,2) by (simp_all add: child_def present_def)
    have "link d (pm s) (pm s') T U i"
      using Tsame [OF i(1)] Uc True copied_cong_after [OF keep c4(1)] by (simp add: link_def)
    moreover have "link d (pm s) (pm s') T U j" if j: "j \<in> set is" for j
    proof -
      have j': "j < 512" "present (pm s4) T j = present (pm s) T j" "child (pm s4) T j = child (pm s) T j"
        using i(4) j e4 by (simp_all add: present_def child_def)
      have l: "link d (pm s4) (pm s') T U j" using s'(2) j by blast
      have "copied d (pm s) (pm s') (child (pm s) T j) (child (pm s') U j)" if "present (pm s) T j"
      proof (rule copied_cong_before)
        have "set (tables (pm s4) d (child (pm s4) T j)) \<subseteq> set (below (pm s4) d T is)"
          using that j' j by (auto simp: below_def)
        then have sub4: "set (tables (pm s4) d (child (pm s4) T j)) \<subseteq> set ?X" using X4 by simp
        then show "agree (set (tables (pm s4) d (child (pm s) T j))) (pm s4) (pm s)"
          using T4 j' unfolding agree_def by (auto simp: subset_iff)
        show "copied d (pm s4) (pm s') (child (pm s) T j) (child (pm s') U j)"
          using l that j' by (simp add: link_def)
      qed
      then show ?thesis using l j' Tsame by (simp add: link_def)
    qed
    moreover have take: "take (?m + ?n) fs = take ?m fs @ take ?n ?fs" by (rule take_add)
    moreover have "set (tables (pm s') d (child (pm s') U i)) \<subseteq> set (take ?m fs)"
      using Uc c4(2) tables_agree [OF agree_mono [OF keep]] by simp
    moreover have "pm s' (U + 8 * j) = pm s (U + 8 * j)" if "j < 512" "j \<notin> set (i # is)" for j
      using s'(4) U4(3) that by simp
    moreover have "outside_same (set (U # below (pm s) d T (i # is)) \<union> set (take (?m + ?n) fs)) (pm s) (pm s')"
      unfolding X take by (rule outside_same_trans [OF o4 s'(5)]) auto
    moreover have "agree {T} (pm s) (pm s')" using Tsame by (simp add: agree_def)
    moreover have "length (below (pm s) d T (i # is)) = ?m + ?n" using X by simp
    ultimately show ?thesis
      using run s'(2,6,7) k4(1) by (intro exI [of _ s']) (auto simp: add.commute)
  qed
qed


lemma copier_level: "copier d f \<Longrightarrow> copier (Suc d) (\<lambda>T U. copy_level f T U (indices 512))"
  unfolding copier_def [of "Suc d"]
proof (intro allI impI)
  fix s T U X lim K fs
  assume f: "copier d f" and X: "tables (pm s) (Suc d) T = T # X" and pre: "copy_pre s T U X lim K fs"
    and data: "data_ok (pm s) (Suc d) T" and U: "\<forall>i < 512. \<not> present (pm s) U i"
  have XX: "X = below (pm s) d T (indices 512)" using X by (simp add: tables_Suc)
  have data': "\<forall>i \<in> set (indices 512). present (pm s) T i \<longrightarrow> data_ok (pm s) d (child (pm s) T i)"
    using data by (simp add: data_ok.simps)
  obtain s' where s': "copy_level f (kernbase + T) (kernbase + U) (indices 512) s = Some s'"
    "\<forall>i \<in> set (indices 512). link d (pm s) (pm s') T U i \<and> (present (pm s') U i \<longrightarrow>
        set (tables (pm s') d (child (pm s') U i)) \<subseteq> set (take (length X) fs))"
    "outside_same (set (U # X) \<union> set (take (length X) fs)) (pm s) (pm s')"
    "statics s' = statics s" "kspace s' lim K (drop (length X) fs)"
    using copy_level_step [OF f pre [unfolded XX] distinct_indices _ data'] U unfolding XX by auto
  have "copied (Suc d) (pm s) (pm s') T U" using s'(2) by (simp add: copied_Suc)
  moreover have "set (tables (pm s') (Suc d) U) \<subseteq> insert U (set (take (length X) fs))"
    using s'(2) by (fastforce simp: tables_Suc below_def split: if_splits)
  moreover have "outside_same (set (U # T # X) \<union> set (take (length X) fs)) (pm s) (pm s')"
    using s'(3) by (rule outside_same_trans [OF outside_same_refl [of "{}"]]) auto
  ultimately show "\<exists>s'. copy_level f (kernbase + T) (kernbase + U) (indices 512) s = Some s'
      \<and> copied (Suc d) (pm s) (pm s') T U
      \<and> outside_same (set (U # T # X) \<union> set (take (length X) fs)) (pm s) (pm s')
      \<and> statics s' = statics s \<and> kspace s' lim K (drop (length X) fs)
      \<and> set (tables (pm s') (Suc d) U) \<subseteq> insert U (set (take (length X) fs))"
    using s'(1,4,5) by blast
qed

lemma copier_pdptes: "copier 2 (\<lambda>T U. copy_pdptes T U (indices 512))"
  using copier_level [OF copier_level [OF copier_ptes]] by (simp add: copy_levels numeral_2_eq_2)

section \<open>The whole address space\<close>

lemma user_walk_agree:
  assumes "agree (user_tables m N) m m'" and w: "ix4 w \<noteq> 511"
  shows "translate m' N w = translate m N w"
proof -
  have t: "tbl m' N (path w) = tbl m N (path w)"
  proof (rule tbl_cong)
    fix p i r F
    assume split: "path w = p @ i # r" and F: "tbl m N p = Some F"
    have "upath (p @ i # r)" using w split upath_path by metis
    then have "upath p" "i < 512" by (auto simp: upath_def)
    then have "F \<in> user_tables m N" "i < 512" using F by (auto simp: user_tables_def)
    then show "m' (F + 8 * i) = m (F + 8 * i)" using agree_entry [OF assms(1)] by blast
  qed
  show ?thesis
  proof (cases "tbl m N (path w)")
    case (Some P)
    then have "P \<in> user_tables m N" using w by (auto simp: user_tables_def intro: upath_path [THEN iffD2])
    then show ?thesis using t Some agree_entry [OF assms(1) _ ix_less(4)] by (simp add: translate_def)
  qed (simp add: translate_def t)
qed

lemma cow_entry_present [simp]: "cow_entry e AND 1 = e AND 1"
proof -
  have "cow_entry e AND 1 = ((e AND 0xFFFFFFFFFFFFFFFD) AND 1) OR (0x200 AND 1)"
    by (simp add: cow_entry_def bit.conj_disj_distrib2)
  then show ?thesis by (simp add: and.assoc)
qed

lemma cow_entry_marks:
  "cow_entry e AND 2 = 0" "cow_entry e AND 0x200 = 0x200" "cow_entry e AND 0xFFFFFFFFFFFFFDFD = e AND 0xFFFFFFFFFFFFFDFD"
  by (simp_all add: cow_entry_def bit.conj_disj_distrib2 and.assoc)

lemma copied_leaf:
  assumes "copied 0 m m' F G" and "i < 512"
  shows "(if m' (F + 8 * i) AND 1 = 0 then None else Some (m' (F + 8 * i)))
      = map_option cow_entry (if m (F + 8 * i) AND 1 = 0 then None else Some (m (F + 8 * i)))"
    and "(if m' (G + 8 * i) AND 1 = 0 then None else Some (m' (G + 8 * i)))
      = map_option cow_entry (if m (F + 8 * i) AND 1 = 0 then None else Some (m (F + 8 * i)))"
  using assms by (auto simp: copied.simps(1) present_def split: if_splits)

lemma tree_link_translate:
  assumes "link 2 m m' T U (ix4 w)"
  shows "translate m' T w = map_option cow_entry (translate m T w)"
    and "translate m' U w = map_option cow_entry (translate m T w)"
proof -
  have p: "path w = ix4 w # [ix3 w, ix2 w]" by (simp add: path_def)
  have "translate m' T w = map_option cow_entry (translate m T w)
      \<and> translate m' U w = map_option cow_entry (translate m T w)"
  proof (cases "present m T (ix4 w)")
    case False
    then show ?thesis using assms by (simp add: translate_def p link_def present_def)
  next
    case True
    let ?q = "[ix3 w, ix2 w]"
    have c: "copied 2 m m' (child m T (ix4 w)) (child m' U (ix4 w))" and e: "m' (T + 8 * ix4 w) = m (T + 8 * ix4 w)"
      and pr: "present m' U (ix4 w)" using assms True by (simp_all add: link_def)
    have t: "tbl m T (path w) = tbl m (child m T (ix4 w)) ?q" "tbl m' T (path w) = tbl m' (child m T (ix4 w)) ?q"
      "tbl m' U (path w) = tbl m' (child m' U (ix4 w)) ?q"
      using True e pr unfolding p by (simp_all add: present_def child_def del: tbl.simps add: tbl.simps(2) [of _ _ "ix4 w"])
    note walk = copied_walk [OF c, of ?q]
    show ?thesis
    proof (cases "tbl m (child m T (ix4 w)) ?q")
      case None
      then show ?thesis using walk t by (simp add: translate_def numeral_2_eq_2 del: tbl.simps)
    next
      case (Some F)
      then obtain G where G: "tbl m' (child m T (ix4 w)) ?q = Some F" "tbl m' (child m' U (ix4 w)) ?q = Some G"
          "copied 0 m m' F G" using walk by (auto simp: numeral_2_eq_2 simp del: tbl.simps)
      show ?thesis using Some G t copied_leaf [OF G(3) ix_less(4) [of w]] by (simp add: translate_def del: tbl.simps)
    qed
  qed
  then show "translate m' T w = map_option cow_entry (translate m T w)"
    "translate m' U w = map_option cow_entry (translate m T w)" by blast+
qed


lemma tbl_child: "tbl m T (i # q) = (if present m T i then tbl m (child m T i) q else None)"
  by (simp add: present_def child_def)

lemma tbl_tables: "tbl m T p = Some F \<Longrightarrow> length p \<le> d \<Longrightarrow> \<forall>i \<in> set p. i < 512 \<Longrightarrow> F \<in> set (tables m d T)"
proof (induction d arbitrary: T p)
  case (Suc d)
  show ?case
  proof (cases p)
    case Nil
    then show ?thesis using Suc.prems(1) tables_root by auto
  next
    case (Cons i q)
    then have "present m T i" "tbl m (child m T i) q = Some F"
      using Suc.prems(1) by (auto simp: present_def child_def split: if_splits)
    then show ?thesis using Suc.IH [of "child m T i" q] Suc.prems Cons by (auto simp: tables_Suc below_def)
  qed
qed simp

lemma user_tables_below: "user_tables m P \<subseteq> set (P # below m 2 P (indices 511))"
proof
  fix F assume "F \<in> user_tables m P"
  then obtain p where p: "upath p" "tbl m P p = Some F" by (auto simp: user_tables_def)
  show "F \<in> set (P # below m 2 P (indices 511))"
  proof (cases p)
    case (Cons i q)
    then have "i < 512" "i \<noteq> 511" "length q \<le> 2" "\<forall>j \<in> set q. j < 512" using p(1) by (auto simp: upath_def)
    moreover have "present m P i" "tbl m (child m P i) q = Some F"
      using p(2) Cons by (auto simp: present_def child_def split: if_splits)
    moreover have "i \<in> set (indices 511)"
      using calculation(1,2) by (simp add: set_indices word_less_nat_alt unat_arith_simps)
    ultimately show ?thesis using tbl_tables [of m "child m P i" q F 2] by (auto simp: below_def)
  qed (use p in simp)
qed

text \<open>A list of tables without repetition is a tree in the sense of \<open>pt_wf\<close>.\<close>

lemma distinct_below:
  assumes "distinct (below m d T is)" "distinct is" "i \<in> set is" "j \<in> set is" "present m T i" "present m T j"
    and "F \<in> set (tables m d (child m T i))" "F \<in> set (tables m d (child m T j))"
  shows "i = j"
  using assms
proof (induction "is")
  case (Cons l ls)
  have "F \<in> set (below m d T ls)" if "k \<in> set ls" "k = i \<or> k = j" for k
    using that Cons.prems(5-8) by (auto simp: below_def)
  then show ?case using Cons by (auto split: if_splits)
qed simp

lemma distinct_child: "distinct (below m d T is) \<Longrightarrow> i \<in> set is \<Longrightarrow> present m T i \<Longrightarrow> distinct (tables m d (child m T i))"
  by (induction "is") (auto split: if_splits)

lemma tables_path_unique:
  assumes "distinct (tables m d T)" "tbl m T p = Some F" "tbl m T q = Some F" "length p \<le> d" "length q \<le> d"
    "\<forall>i \<in> set p. i < 512" "\<forall>i \<in> set q. i < 512"
  shows "p = q"
  using assms
proof (induction d arbitrary: T p q)
  case (Suc d)
  have root: "F \<in> set (below m d T (indices 512))" if "tbl m T (i # r) = Some F" "length r \<le> d" "\<forall>j \<in> set (i # r). j < 512" for i r
    using that tbl_tables [of m "child m T i" r F d] by (auto simp: tbl_child below_def simp del: tbl.simps(2) split: if_splits)
  show ?case
  proof (cases p)
    case Nil
    then show ?thesis using Suc.prems root by (cases q) (auto simp: tables_Suc)
  next
    case (Cons i p')
    note p = this
    show ?thesis
    proof (cases q)
      case Nil
      then show ?thesis using Suc.prems root p by (auto simp: tables_Suc)
    next
      case (Cons j q')
      have t: "present m T i" "tbl m (child m T i) p' = Some F" "present m T j" "tbl m (child m T j) q' = Some F"
        using Suc.prems(2,3) p Cons by (auto simp: tbl_child simp del: tbl.simps(2) split: if_splits)
      have d: "distinct (below m d T (indices 512))" using Suc.prems(1) by (simp add: tables_Suc)
      have "i = j"
        using t Suc.prems(4-7) p Cons
        by (intro distinct_below [OF d distinct_indices]) (auto intro: tbl_tables)
      then show ?thesis
        using Suc.IH [OF distinct_child [OF d _ t(1)], of p' q'] t Suc.prems(4-7) p Cons by auto
    qed
  qed
qed simp

lemma pt_wf_tables:
  assumes P: "aligned P" and d: "distinct (P # below m 2 P (indices 511))"
  shows "pt_wf m P"
  unfolding pt_wf_def
proof (intro conjI allI impI)
  fix p q F assume a: "upath p" "upath q" "tbl m P p = Some F" "tbl m P q = Some F"
  have low: "i \<in> set (indices 511) \<and> present m P i \<and> tbl m (child m P i) r = Some F \<and> length r \<le> 2 \<and> (\<forall>j \<in> set r. j < 512)
      \<and> F \<in> set (tables m 2 (child m P i)) \<and> F \<noteq> P"
    if "upath (i # r)" "tbl m P (i # r) = Some F" for i r
  proof -
    have "i < 512" "i \<noteq> 511" "length r \<le> 2" "\<forall>j \<in> set r. j < 512" using that(1) by (auto simp: upath_def)
    moreover have "present m P i" "tbl m (child m P i) r = Some F"
      using that(2) by (auto simp: tbl_child simp del: tbl.simps(2) split: if_splits)
    moreover have "i \<in> set (indices 511)"
      using calculation(1,2) by (simp add: set_indices word_less_nat_alt unat_arith_simps)
    moreover have t: "F \<in> set (tables m 2 (child m P i))" using calculation by (intro tbl_tables)
    moreover have "F \<noteq> P" using d t calculation by (auto simp: below_def)
    ultimately show ?thesis by blast
  qed
  show "p = q"
  proof (cases p)
    case Nil
    then show ?thesis using a low by (cases q) auto
  next
    case (Cons i r)
    note p = this
    note lp = low [OF a(1,3) [unfolded p]]
    show ?thesis
    proof (cases q)
      case Nil
      then show ?thesis using a(4) lp by auto
    next
      case (Cons j r')
      note lq = low [OF a(2,4) [unfolded Cons]]
      have db: "distinct (below m 2 P (indices 511))" using d by simp
      have "i = j" using lp lq by (intro distinct_below [OF db distinct_indices]) auto
      then show ?thesis
        using tables_path_unique [OF distinct_child [OF db], of i r F r'] lp lq p Cons by simp
    qed
  qed
qed (rule P)

lemma copied_tables: "copied d m m' T U \<Longrightarrow> tables m' d T = tables m d T"
proof (induction d arbitrary: T U)
  case (Suc d)
  have "(if present m' T i then tables m' d (child m' T i) else []) = (if present m T i then tables m d (child m T i) else [])"
    if i: "i \<in> set (indices 512)" for i
  proof -
    have l: "link d m m' T U i" using Suc.prems i by (simp add: copied_Suc)
    then have "present m' T i = present m T i" "child m' T i = child m T i" by (simp_all add: link_def present_def child_def)
    then show ?thesis using Suc.IH l by (auto simp: link_def)
  qed
  then have "map (\<lambda>i. if present m' T i then tables m' d (child m' T i) else []) (indices 512)
      = map (\<lambda>i. if present m T i then tables m d (child m T i) else []) (indices 512)"
    by (intro map_cong refl)
  then show ?case unfolding tables_Suc below_def by (simp only:)
qed simp

lemma link_below:
  assumes "\<forall>i \<in> set is. link d m m' T U i"
  shows "below m' d T is = below m d T is"
  using assms
proof (induction "is")
  case (Cons i "is")
  then have l: "link d m m' T U i" by simp
  then have "present m' T i = present m T i" "child m' T i = child m T i" by (simp_all add: link_def present_def child_def)
  then show ?case using Cons l copied_tables by (auto simp: link_def)
qed simp

lemma copytables_spec:
  assumes pre: "copy_pre s P C (below (pm s) 2 P (indices 511)) lim K fs"
    and data: "\<forall>i < 511. present (pm s) P i \<longrightarrow> data_ok (pm s) 2 (child (pm s) P i)"
    and empty: "\<forall>i < 511. \<not> present (pm s) C i"
  shows "\<exists>s'. copytables P C s = Some s'
    \<and> (\<forall>w. ix4 w \<noteq> 511 \<longrightarrow> translate (pm s') P w = map_option cow_entry (translate (pm s) P w)
                          \<and> translate (pm s') C w = map_option cow_entry (translate (pm s) P w))
    \<and> pm s' (C + 8 * 511) = pm s (P + 8 * 511)
    \<and> kspace s' lim K (drop (length (below (pm s) 2 P (indices 511))) fs)
    \<and> statics s' = statics s \<and> below (pm s') 2 P (indices 511) = below (pm s) 2 P (indices 511)
    \<and> user_tables (pm s') C \<subseteq> insert C (set (take (length (below (pm s) 2 P (indices 511))) fs))
    \<and> outside_same (set (C # P # below (pm s) 2 P (indices 511)) \<union> set fs) (pm s) (pm s')"
proof -
  let ?X = "below (pm s) 2 P (indices 511)"
  define s0 where "s0 = kwrite s (kernbase + C) 511 (pm s (P + 8 * 511))"
  have ks: "kspace s lim K fs" and al: "aligned P" "aligned C" "\<forall>F \<in> set ?X. aligned F" and dist: "distinct (C # P # ?X)"
      "set (C # P # ?X) \<inter> set fs = {}" "K \<inter> (set (C # P # ?X) \<union> set fs) = {}" and len: "length ?X \<le> length fs"
    using pre by (auto simp: copy_pre_def)
  have out0: "outside_same {C} (pm s) (pm s0)"
    unfolding s0_def kwrite_pm using al(2) by (intro outside_same_write) auto
  have agree0: "agree Z (pm s) (pm s0)" if "Z \<subseteq> K \<union> set (P # ?X)" for Z
  proof (rule outside_same_agree [OF out0])
    show "\<forall>F \<in> {C} \<union> Z. aligned F" using that al kspace_aligned [OF ks] by auto
    show "{C} \<inter> Z = {}" using that dist by auto
  qed
  have C0: "pm s0 (C + 8 * j) = (if j = 511 then pm s (P + 8 * 511) else pm s (C + 8 * j))" if "j < 512" for j
    using entry_inj [OF al(2,2) that, of 511] by (auto simp: s0_def)
  have P0: "pm s0 (P + 8 * j) = pm s (P + 8 * j)" if "j < 512" for j
    using agree_entry [OF agree0 [of "{P}"] _ that] by simp
  have i511: "i < 512" "i \<noteq> 511" if "i \<in> set (indices 511)" for i
    using that by (auto simp: set_indices word_less_nat_alt)
  have agX: "agree (insert P (set ?X)) (pm s) (pm s0)" by (rule agree0) auto
  have X0: "below (pm s0) 2 P (indices 511) = ?X" using i511 by (intro below_agree [OF agX]) blast
  have "kspace s0 lim K (drop 0 fs)"
  proof (rule kspace_agree [OF ks])
    show "agree K (pm s) (pm s0)" by (rule agree0) auto
    show "free_frames s0 (drop 0 fs)" using ks by (simp add: s0_def kspace_def)
  qed (simp add: s0_def)
  then have pre0: "copy_pre s0 P C (below (pm s0) 2 P (indices 511)) lim K fs"
    using pre unfolding X0 copy_pre_def by simp
  have less511: "i < 511" if "i \<in> set (indices 511)" for i
    using that by (simp add: set_indices word_less_nat_alt)
  have data0: "\<forall>i \<in> set (indices 511). present (pm s0) P i \<longrightarrow> data_ok (pm s0) 2 (child (pm s0) P i)"
  proof (intro ballI impI)
    fix i assume i: "i \<in> set (indices 511)" and "present (pm s0) P i"
    then have pr: "present (pm s) P i" "child (pm s0) P i = child (pm s) P i"
      using P0 [OF i511(1)] by (simp_all add: present_def child_def)
    then have "set (tables (pm s) 2 (child (pm s) P i)) \<subseteq> set ?X" using i by (auto simp: below_def)
    then show "data_ok (pm s0) 2 (child (pm s0) P i)"
      using data_ok_agree [OF agree_mono [OF agX]] data less511 [OF i] pr by (metis subset_insertI2)
  qed
  have empty0: "\<forall>i \<in> set (indices 511). \<not> present (pm s0) C i"
    using empty less511 i511 C0 by (simp add: present_def)
  obtain s' where s': "copy_level (\<lambda>T U. copy_pdptes T U (indices 512)) (kernbase + P) (kernbase + C) (indices 511) s0 = Some s'"
      "\<forall>i \<in> set (indices 511). link 2 (pm s0) (pm s') P C i \<and> (present (pm s') C i \<longrightarrow>
        set (tables (pm s') 2 (child (pm s') C i)) \<subseteq> set (take (length ?X) fs))"
      "\<forall>i < 512. i \<notin> set (indices 511) \<longrightarrow> pm s' (C + 8 * i) = pm s0 (C + 8 * i)"
      "outside_same (set (C # ?X) \<union> set (take (length ?X) fs)) (pm s0) (pm s')"
      "statics s' = statics s0" "kspace s' lim K (drop (length ?X) fs)"
    using copy_level_step [OF copier_pdptes pre0 distinct_indices _ data0 empty0] i511 unfolding X0 by auto
  have run: "copytables P C s = Some s'"
    using s'(1) unfolding copy_levels(3) [symmetric]
    by (simp add: copytables_def Let_def s0_def add.commute [of _ kernbase])
  have share: "translate (pm s') P w = map_option cow_entry (translate (pm s) P w)
      \<and> translate (pm s') C w = map_option cow_entry (translate (pm s) P w)" if w: "ix4 w \<noteq> 511" for w
  proof -
    have i: "ix4 w \<in> set (indices 511)"
      using w ix_less(1) [of w] by (simp add: set_indices word_less_nat_alt unat_arith_simps)
    have "translate (pm s0) P w = translate (pm s) P w"
      using agree_mono [OF agX] user_tables_below by (intro user_walk_agree [OF _ w]) simp
    then show ?thesis using tree_link_translate [of "pm s0" "pm s'" P C w] s'(2) i by simp
  qed
  have kslot: "pm s' (C + 8 * 511) = pm s (P + 8 * 511)"
    using spec [OF s'(3), of 511] C0 [of 511] by (simp add: set_indices)
  have out: "outside_same (set (C # P # ?X) \<union> set fs) (pm s) (pm s')"
    by (rule outside_same_trans [OF out0 s'(4)]) (auto dest: in_set_takeD)
  have "below (pm s') 2 P (indices 511) = below (pm s0) 2 P (indices 511)"
    using s'(2) by (intro link_below [of _ _ _ _ _ C]) blast
  then have X': "below (pm s') 2 P (indices 511) = ?X" using X0 by simp
  have "set (below (pm s') 2 C (indices 511)) \<subseteq> set (take (length ?X) fs)"
    using s'(2) by (auto simp: below_def split: if_splits)
  then have "user_tables (pm s') C \<subseteq> insert C (set (take (length ?X) fs))"
    using user_tables_below [of "pm s'" C] by auto
  moreover have "statics s' = statics s" using s'(5) by (simp add: s0_def)
  ultimately show ?thesis using run share kslot s'(6) X' out by blast
qed

text \<open>C13: the memory of a forked task. When the parent's page tables form a tree, the child's top table
  is empty, and there is a free frame for every table below the top, \<open>copytables\<close> succeeds and gives
  the child the parent's address space: at every user address both walks end in the parent's old
  entry with write permission off, the copy-on-write mark on and all else as it was, or both find nothing. The kernel's
  slot is shared, one frame per copied table leaves the free list, the kernel's own map is
  intact, and a task whose tables are none of the frames involved sees no change.\<close>

theorem copytables_shares_memory:
  assumes pre: "copy_pre s P C (below (pm s) 2 P (indices 511)) lim K fs"
    and data: "\<forall>i < 511. present (pm s) P i \<longrightarrow> data_ok (pm s) 2 (child (pm s) P i)"
    and empty: "\<forall>i < 511. \<not> present (pm s) C i"
  shows "\<exists>s'. copytables P C s = Some s'
    \<and> (\<forall>w. ix4 w \<noteq> 511 \<longrightarrow> translate (pm s') P w = map_option cow_entry (translate (pm s) P w)
                          \<and> translate (pm s') C w = map_option cow_entry (translate (pm s) P w))
    \<and> (\<forall>e. cow_entry e AND 2 = 0 \<and> cow_entry e AND 0x200 = 0x200 \<and> cow_entry e AND 0xFFFFFFFFFFFFFDFD = e AND 0xFFFFFFFFFFFFFDFD)
    \<and> pm s' (C + 8 * 511) = pm s (P + 8 * 511)
    \<and> kspace s' lim K (drop (length (below (pm s) 2 P (indices 511))) fs)
    \<and> (\<forall>N w. aligned N \<longrightarrow> ix4 w \<noteq> 511 \<longrightarrow>
         user_tables (pm s) N \<inter> (set (C # P # below (pm s) 2 P (indices 511)) \<union> set fs) = {} \<longrightarrow>
         translate (pm s') N w = translate (pm s) N w)"
proof -
  let ?X = "below (pm s) 2 P (indices 511)"
  obtain s' where s': "copytables P C s = Some s'"
      "\<forall>w. ix4 w \<noteq> 511 \<longrightarrow> translate (pm s') P w = map_option cow_entry (translate (pm s) P w)
                          \<and> translate (pm s') C w = map_option cow_entry (translate (pm s) P w)"
      "pm s' (C + 8 * 511) = pm s (P + 8 * 511)" "kspace s' lim K (drop (length ?X) fs)"
      "outside_same (set (C # P # ?X) \<union> set fs) (pm s) (pm s')"
    using copytables_spec [OF assms] by blast
  have "translate (pm s') N w = translate (pm s) N w"
    if N: "aligned N" "user_tables (pm s) N \<inter> (set (C # P # ?X) \<union> set fs) = {}" and w: "ix4 w \<noteq> 511" for N w
  proof (rule user_walk_agree [OF _ w], rule outside_same_agree [OF s'(5)])
    show "\<forall>F \<in> set (C # P # ?X) \<union> set fs \<union> user_tables (pm s) N. aligned F"
      using pre kspace_aligned tbl_aligned [OF N(1)] by (auto simp: copy_pre_def user_tables_def)
    show "(set (C # P # ?X) \<union> set fs) \<inter> user_tables (pm s) N = {}" using N(2) by blast
  qed
  then show ?thesis using s'(1-4) cow_entry_marks by blast
qed

section \<open>A concrete parent\<close>

text \<open>A memory given by table entries.\<close>

fun entry_mem :: "((u64 \<times> u64) \<times> u64) list \<Rightarrow> u64 \<Rightarrow> u64" where
  "entry_mem [] = (\<lambda>_. 0)"
| "entry_mem (((F, i), v) # es) = (entry_mem es)(F + 8 * i := v)"

lemma entry_mem_at:
  assumes "\<forall>((G, j), v) \<in> set es. aligned G \<and> j < 512" and "aligned F" "i < 512"
  shows "entry_mem es (F + 8 * i) = (case map_of es (F, i) of Some v \<Rightarrow> v | None \<Rightarrow> 0)"
  using assms(1)
proof (induction es)
  case (Cons e es)
  obtain G j v where e: "e = ((G, j), v)" by (cases e) auto
  then have "F + 8 * i = G + 8 * j \<longleftrightarrow> F = G \<and> i = j" using Cons.prems assms(2,3) by (intro entry_inj) auto
  then show ?case using Cons e by auto
qed simp

lemma below_single:
  assumes "distinct is" "i \<in> set is" "present m T i" "\<forall>j \<in> set is. j \<noteq> i \<longrightarrow> \<not> present m T j"
  shows "below m d T is = tables m d (child m T i)"
proof -
  have none: "below m d T js = []" if "i \<notin> set js" "set js \<subseteq> set is" for js
    using that assms(4) by (induction js) auto
  show ?thesis using assms(1,2,4) none
  proof (induction "is")
    case (Cons j js)
    then show ?case
      using assms(3) by (cases "i = j") (auto simp: below_def)
  qed simp
qed


text \<open>The kernel's tables from 0x10000 map sixteen pages; the parent's tables from 0x20000 map one page at
  0x3000, and the frames 0x1000 to 0xF000 are free.\<close>

definition fork_entries :: "((u64 \<times> u64) \<times> u64) list" where
  "fork_entries = [((0x10000, 511), 0x11003), ((0x11000, 510), 0x12003), ((0x12000, 0), 0x13003),
     ((0x13000, 0), 3), ((0x13000, 1), 0x1003), ((0x13000, 2), 0x2003), ((0x13000, 3), 0x3003),
     ((0x13000, 4), 0x4003), ((0x13000, 5), 0x5003), ((0x13000, 6), 0x6003), ((0x13000, 7), 0x7003),
     ((0x13000, 8), 0x8003), ((0x13000, 9), 0x9003), ((0x13000, 10), 0xA003), ((0x13000, 11), 0xB003),
     ((0x13000, 12), 0xC003), ((0x13000, 13), 0xD003), ((0x13000, 14), 0xE003), ((0x13000, 15), 0xF003),
     ((0x20000, 0), 0x21007), ((0x21000, 0), 0x22007), ((0x22000, 0), 0x23007), ((0x23000, 3), 0x50007)]"

definition fork_paging :: paging where
  "fork_paging = paging0\<lparr>head := Some 1,
     pagelist := (\<lambda>i. \<lparr>address = of_nat i * pageSize, ref_count = 0, next_node = (if i < 15 then Some (Suc i) else None)\<rparr>),
     k_cr3 := 0x10000, pml4e := kernbase + 0x10000, pdpte := kernbase + 0x11000, pm := entry_mem fork_entries\<rparr>"

lemma fork_paging_simps [simp]:
  "pm fork_paging = entry_mem fork_entries" "k_cr3 fork_paging = 0x10000" "pml4e fork_paging = kernbase + 0x10000"
  "pdpte fork_paging = kernbase + 0x11000"
  by (simp_all add: fork_paging_def)

lemma fork_mem:
  assumes "aligned F" "i < 512"
  shows "entry_mem fork_entries (F + 8 * i) = (case map_of fork_entries (F, i) of Some v \<Rightarrow> v | None \<Rightarrow> 0)"
  by (rule entry_mem_at [OF _ assms]) (simp add: fork_entries_def aligned_def validatebits_def)

lemma fork_frames: "aligned (0x10000 :: u64)" "aligned (0x11000 :: u64)" "aligned (0x12000 :: u64)" "aligned (0x13000 :: u64)"
  "aligned (0x20000 :: u64)" "aligned (0x21000 :: u64)" "aligned (0x22000 :: u64)" "aligned (0x23000 :: u64)" "aligned (0x30000 :: u64)"
  by (simp_all add: aligned_def validatebits_def)

lemmas fork_walk = present_def child_def fork_mem fork_frames fork_entries_def validatebits_def

lemma fork_cells:
  "entry_mem fork_entries 0x10FF8 = 0x11003" "entry_mem fork_entries 0x11FF0 = 0x12003"
  "entry_mem fork_entries 0x12000 = 0x13003" "entry_mem fork_entries 0x13000 = 3"
  "entry_mem fork_entries 0x13008 = 0x1003" "entry_mem fork_entries 0x13010 = 0x2003"
  "entry_mem fork_entries 0x13018 = 0x3003" "entry_mem fork_entries 0x13020 = 0x4003"
  "entry_mem fork_entries 0x13028 = 0x5003" "entry_mem fork_entries 0x13030 = 0x6003"
  "entry_mem fork_entries 0x13038 = 0x7003" "entry_mem fork_entries 0x13040 = 0x8003"
  "entry_mem fork_entries 0x13048 = 0x9003" "entry_mem fork_entries 0x13050 = 0xA003" "entry_mem fork_entries 0x13058 = 0xB003"
  "entry_mem fork_entries 0x13060 = 0xC003" "entry_mem fork_entries 0x13068 = 0xD003"
  "entry_mem fork_entries 0x13070 = 0xE003" "entry_mem fork_entries 0x13078 = 0xF003"
  by (simp_all add: fork_entries_def)

lemma below_10000:
  assumes "aligned f" "f < 0x10000"
  shows "f \<in> {0, 0x1000, 0x2000, 0x3000, 0x4000, 0x5000, 0x6000, 0x7000, 0x8000, 0x9000, 0xA000, 0xB000, 0xC000, 0xD000, 0xE000, 0xF000}"
proof -
  obtain k where k: "unat f = 4096 * k" using aligned_dvd [OF assms(1)] unfolding dvd_def by blast
  moreover have "unat f < 65536" using assms(2) by (simp add: word_less_nat_alt)
  ultimately have "k < 16" by simp
  then have "k = 0 \<or> k = 1 \<or> k = 2 \<or> k = 3 \<or> k = 4 \<or> k = 5 \<or> k = 6 \<or> k = 7 \<or> k = 8 \<or> k = 9
    \<or> k = 10 \<or> k = 11 \<or> k = 12 \<or> k = 13 \<or> k = 14 \<or> k = 15" by presburger
  then show ?thesis using k by (auto simp: word_unat_eq_iff)
qed

lemma fork_kernel_map: "kernel_map fork_paging 0x10000"
proof -
  have "ix4 (kernbase + f) = 511 \<and> translate (entry_mem fork_entries) 0x10000 (kernbase + f) = Some (f OR 3)"
    if "f \<in> {0, 0x1000, 0x2000, 0x3000, 0x4000, 0x5000, 0x6000, 0x7000, 0x8000, 0x9000, 0xA000, 0xB000, 0xC000, 0xD000, 0xE000, 0xF000}" for f
    using that by (auto simp: translate_def path_def ix4_def ix3_def ix2_def ix1_def kernbase_def fork_cells validatebits_def)
  then show ?thesis using below_10000 by (auto simp: kernel_map_def fork_cells validatebits_def)
qed


lemma fork_present:
  assumes "aligned F" "i < 512"
  shows "present (pm fork_paging) F i \<longleftrightarrow> (F, i) \<in> fst ` set fork_entries"
    and "child (pm fork_paging) F i = (case map_of fork_entries (F, i) of Some v \<Rightarrow> v AND validatebits | None \<Rightarrow> 0)"
proof -
  have v: "\<forall>v \<in> snd ` set fork_entries. v AND 1 \<noteq> 0" by (simp add: fork_entries_def)
  then have "map_of fork_entries (F, i) = Some v \<Longrightarrow> v AND 1 \<noteq> 0" for v by (auto dest!: map_of_SomeD)
  then show "present (pm fork_paging) F i \<longleftrightarrow> (F, i) \<in> fst ` set fork_entries"
    using fork_mem [OF assms]
    by (auto simp: present_def map_of_eq_None_iff split: option.splits dest: map_of_SomeD intro: rev_image_eqI)
  show "child (pm fork_paging) F i = (case map_of fork_entries (F, i) of Some v \<Rightarrow> v AND validatebits | None \<Rightarrow> 0)"
    using fork_mem [OF assms] by (simp add: child_def split: option.split)
qed

lemma fork_one_entry:
  assumes "aligned F" "distinct is" "\<forall>i \<in> set is. i < 512" and "j \<in> set is" "\<forall>i < 512. (F, i) \<in> fst ` set fork_entries \<longleftrightarrow> i = j"
  shows "below (pm fork_paging) d F is = tables (pm fork_paging) d (child (pm fork_paging) F j)"
  using assms by (intro below_single) (auto simp del: fork_paging_simps simp: fork_present(1))

lemma fork_below: "below (pm fork_paging) 2 0x20000 (indices 511) = [0x21000, 0x22000, 0x23000]"
proof -
  have i: "\<forall>i \<in> set (indices 511). i < 512" "0 \<in> set (indices 511)" "0 \<in> set (indices 512)"
    by (auto simp: set_indices word_less_nat_alt)
  have "below (pm fork_paging) 2 0x20000 (indices 511) = tables (pm fork_paging) 2 (child (pm fork_paging) 0x20000 0)"
    using i by (intro fork_one_entry distinct_indices) (auto simp: fork_frames fork_entries_def)
  also have "child (pm fork_paging) 0x20000 0 = 0x21000"
    by (subst fork_present(2)) (simp_all add: fork_frames fork_entries_def validatebits_def)
  also have "tables (pm fork_paging) 2 0x21000 = 0x21000 # tables (pm fork_paging) 1 (child (pm fork_paging) 0x21000 0)"
    unfolding numeral_2_eq_2 tables_Suc using i
    by (subst fork_one_entry [where j = 0]) (auto simp: fork_frames fork_entries_def distinct_indices)
  also have "child (pm fork_paging) 0x21000 0 = 0x22000"
    by (subst fork_present(2)) (simp_all add: fork_frames fork_entries_def validatebits_def)
  also have "tables (pm fork_paging) 1 0x22000 = 0x22000 # tables (pm fork_paging) 0 (child (pm fork_paging) 0x22000 0)"
    unfolding One_nat_def tables_Suc using i
    by (subst fork_one_entry [where j = 0]) (auto simp: fork_frames fork_entries_def distinct_indices)
  also have "child (pm fork_paging) 0x22000 0 = 0x23000"
    by (subst fork_present(2)) (simp_all add: fork_frames fork_entries_def validatebits_def)
  finally show ?thesis by simp
qed

lemma fork_tbl:
  assumes "aligned F" "i < 512"
  shows "tbl (pm fork_paging) F (i # q) = (case map_of fork_entries (F, i) of
     Some v \<Rightarrow> tbl (pm fork_paging) (v AND validatebits) q | None \<Rightarrow> None)"
proof (cases "map_of fork_entries (F, i)")
  case None
  then have "\<not> present (pm fork_paging) F i" using fork_present(1) [OF assms] by (simp add: map_of_eq_None_iff)
  then show ?thesis using None by (simp add: tbl_child del: tbl.simps)
next
  case (Some v)
  then have "present (pm fork_paging) F i"
    using fork_present(1) [OF assms] by (auto dest: map_of_SomeD intro: rev_image_eqI)
  then show ?thesis using Some fork_present(2) [OF assms] by (simp add: tbl_child del: tbl.simps)
qed

lemma fork_kernel_tables: "kernel_tables (pm fork_paging) 0x10000 \<subseteq> {0x10000, 0x11000, 0x12000, 0x13000}"
proof
  fix F assume "F \<in> kernel_tables (pm fork_paging) 0x10000"
  then obtain p where p: "kpath p" "tbl (pm fork_paging) 0x10000 p = Some F" by (auto simp: kernel_tables_def)
  have "length p \<le> 3" and small: "\<forall>i \<in> set p. i < 512" using p(1) by (simp_all add: kpath_def)
  then consider "p = []" | i where "p = [i]" | i j where "p = [i, j]" | i j l where "p = [i, j, l]"
    by (auto simp: le_Suc_eq length_Suc_conv numeral_3_eq_3)
  then show "F \<in> {0x10000, 0x11000, 0x12000, 0x13000}"
    using p small
    by cases (auto simp: kpath_def fork_tbl fork_frames fork_entries_def validatebits_def split: if_splits
        simp del: fork_paging_simps tbl.simps(2))
qed

lemma fork_kspace: "kspace fork_paging 0x10000 (kernel_tables (pm fork_paging) 0x10000)
    [0x1000, 0x2000, 0x3000, 0x4000, 0x5000, 0x6000, 0x7000, 0x8000, 0x9000, 0xA000, 0xB000, 0xC000, 0xD000, 0xE000, 0xF000]"
proof -
  have "chain (pagelist fork_paging) (head fork_paging) [1, 2, 3, 4, 5, 6, 7, 8, 9, 10, 11, 12, 13, 14, 15]" by (simp add: fork_paging_def)
  then have "free_frames fork_paging [0x1000, 0x2000, 0x3000, 0x4000, 0x5000, 0x6000, 0x7000, 0x8000, 0x9000, 0xA000, 0xB000, 0xC000, 0xD000, 0xE000, 0xF000]"
    unfolding free_frames_def by (intro exI [of _ "[1, 2, 3, 4, 5, 6, 7, 8, 9, 10, 11, 12, 13, 14, 15]"]) (simp add: fork_paging_def pageSize_def)
  then show ?thesis
    using fork_kernel_map fork_frames by (simp add: kspace_def mapped_frames_def aligned_def validatebits_def)
qed

lemma fork_pre: "copy_pre fork_paging 0x20000 0x30000 (below (pm fork_paging) 2 0x20000 (indices 511)) 0x10000
    (kernel_tables (pm fork_paging) 0x10000) [0x1000, 0x2000, 0x3000, 0x4000, 0x5000, 0x6000, 0x7000, 0x8000, 0x9000, 0xA000, 0xB000, 0xC000, 0xD000, 0xE000, 0xF000]"
proof -
  note fork_kspace
  then show ?thesis
    using fork_kernel_tables fork_frames unfolding copy_pre_def fork_below by auto
qed

lemma fork_data:
  "\<forall>i < 511. present (pm fork_paging) 0x20000 i \<longrightarrow> data_ok (pm fork_paging) 2 (child (pm fork_paging) 0x20000 i)"
proof -
  have only: "present (pm fork_paging) F i \<longleftrightarrow> i = j"
    if "i < 512" "aligned F" "\<forall>i < 512. (F, i) \<in> fst ` set fork_entries \<longleftrightarrow> i = j" for F i j
    using that by (simp add: fork_present(1) del: fork_paging_simps)
  have "in_pagelist 0x50007" by (simp add: in_pagelist_def validatebits_def pageSize_def MAXPAGES_def)
  moreover have "entry_mem fork_entries 0x23018 = 0x50007" by (simp add: fork_entries_def)
  ultimately have "data_ok (pm fork_paging) 0 0x23000"
    unfolding data_ok.simps using only [of _ "0x23000" 3]
    by (simp add: fork_frames fork_entries_def del: fork_paging_simps) (simp add: fork_entries_def)
  then have "data_ok (pm fork_paging) 1 0x22000"
    unfolding One_nat_def data_ok.simps(2) using only [of _ "0x22000" 0] fork_present(2) [OF fork_frames(7), of 0]
    by (simp add: fork_frames fork_entries_def validatebits_def del: fork_paging_simps)
  then have "data_ok (pm fork_paging) 2 0x21000"
    unfolding numeral_2_eq_2 data_ok.simps(2) [of _ "Suc 0"] using only [of _ "0x21000" 0] fork_present(2) [OF fork_frames(6), of 0]
    by (simp add: fork_frames fork_entries_def validatebits_def del: fork_paging_simps)
  then show ?thesis
    using only [of _ "0x20000" 0] fork_present(2) [OF fork_frames(5), of 0]
    by (auto simp: fork_frames fork_entries_def validatebits_def word_less_nat_alt simp del: fork_paging_simps)
qed

lemma fork_translate: "translate (pm fork_paging) 0x20000 0x3008 = Some 0x50007"
proof -
  have "tbl (pm fork_paging) 0x20000 (path 0x3008) = Some 0x23000"
    by (simp add: path_def ix4_def ix3_def ix2_def fork_tbl fork_frames fork_entries_def validatebits_def
        del: fork_paging_simps tbl.simps(2))
  then show ?thesis
    using fork_mem [OF fork_frames(8), of 3] by (simp add: translate_def ix1_def fork_entries_def)
qed

theorem copytables_shares_memory_witness:
  "\<exists>s'. copytables 0x20000 0x30000 fork_paging = Some s'
     \<and> translate (pm s') 0x30000 0x3008 = Some 0x50205 \<and> translate (pm s') 0x20000 0x3008 = Some 0x50205"
proof -
  note fork_data
  moreover have "\<forall>i < 511. \<not> present (pm fork_paging) 0x30000 i"
    using fork_present(1) [OF fork_frames(9)] by (auto simp: fork_entries_def word_less_nat_alt simp del: fork_paging_simps)
  ultimately obtain s' where s': "copytables 0x20000 0x30000 fork_paging = Some s'"
      "\<forall>w. ix4 w \<noteq> 511 \<longrightarrow> translate (pm s') 0x20000 w = map_option cow_entry (translate (pm fork_paging) 0x20000 w)
                          \<and> translate (pm s') 0x30000 w = map_option cow_entry (translate (pm fork_paging) 0x20000 w)"
    using copytables_shares_memory [OF fork_pre] by blast
  note fork_translate
  then show ?thesis using s' by (intro exI [of _ s']) (simp add: cow_entry_def ix4_def)
qed

end
