(* ===== verification/PageFaults.thy ===== *)
theory PageFaults
  imports Lifecycle
begin

text \<open>
  The page-fault handler of \<^verbatim>\<open>sys/idt.c\<close> with \<open>getPTE\<close> of \<^verbatim>\<open>sys/paging.c\<close>: the test of the
  faulting address against the task's memory areas, the private copy of a copy-on-write page, and
  the growth of the stack. The faulting address, which the code reads from \<^verbatim>\<open>cr2\<close>, is an
  argument. A user address is read through the tables that \<open>cr3\<close> points to; \<open>None\<close> is a
  second fault inside the handler.
\<close>

section \<open>The handler\<close>

definition pageMask :: u64 where "pageMask = 0xFFFFFFFFFFFFF000"

fun checkForVM :: "vmaStruct list \<Rightarrow> u64 \<Rightarrow> bool" where
  "checkForVM [] cr2Val = False"
| "checkForVM (v # vs) cr2Val =
     (if beginAddress v < cr2Val \<and> lastAddress v > cr2Val then True else checkForVM vs cr2Val)"

text \<open>The flag that \<open>checkValid\<close> computes; \<open>None\<close> is the NULL dereference of an empty list.\<close>

definition checkValid :: "kernel \<Rightarrow> u64 \<Rightarrow> bool option" where
  "checkValid k vmem = (case vm (cur k) of
      [] \<Rightarrow> None
    | taskVMA # vs \<Rightarrow>
        Some (if beginAddress taskVMA + 0x1000 > vmem \<and> lastAddress taskVMA < vmem then True
              else checkForVM (taskVMA # vs) vmem))"

text \<open>The pointer to the page table of an address; the present bits are not looked at.\<close>

definition getPTE :: "u64 \<Rightarrow> kernel \<Rightarrow> u64" where
  "getPTE a k =
     (let pml4e0 = task_pml4e (cur k) + kernbase;
          pdpte0 = (kread (pg k) pml4e0 (ix4 a) AND validatebits) + kernbase;
          pdpe = (kread (pg k) pdpte0 (ix3 a) AND validatebits) + kernbase
      in (kread (pg k) pdpe (ix2 a) AND validatebits) + kernbase)"

definition copy_frame :: "(u64 \<Rightarrow> u64) \<Rightarrow> u64 \<Rightarrow> u64 \<Rightarrow> u64 \<Rightarrow> u64" where
  "copy_frame m dst src = (\<lambda>a. if in_frame dst a then m (src + (a - dst)) else m a)"

text \<open>\<^verbatim>\<open>memcpy(ptr, vaddr, 0x1000)\<close> from a page of the loaded address space into a frame.\<close>

definition copy_page :: "u64 \<Rightarrow> u64 \<Rightarrow> u64 \<Rightarrow> paging \<Rightarrow> paging option" where
  "copy_page ptr vaddr cr s = do {
     e \<leftarrow> translate (pm s) cr vaddr;
     Some (s\<lparr>pm := copy_frame (pm s) (ptr - kernbase) (e AND validatebits)\<rparr>)
   }"

definition copyNewMemory :: "u64 \<Rightarrow> u64 \<Rightarrow> kernel \<Rightarrow> kernel option" where
  "copyNewMemory vaddr add k = do {
     (copyFrame, p) \<leftarrow> getFreeFrame (pg k);
     p \<leftarrow> copy_page (kernbase + copyFrame) (vaddr AND pageMask) (cr3 k) p;
     let k = k\<lparr>cr3 := k_cr3 p\<rparr>;
     p \<leftarrow> initTaskPagetables (vaddr AND pageMask) copyFrame (kernbase + task_pml4e (cur k)) p;
     Some (k\<lparr>pg := free add p\<rparr>)
   }"

definition copyFromPML4 :: "u64 \<Rightarrow> kernel \<Rightarrow> kernel option" where
  "copyFromPML4 vaddr k = do {
     let taskPML4 = cr3 k;
     (copyFrame, p) \<leftarrow> getFreeFrame (pg k);
     let k = k\<lparr>cr3 := k_cr3 p\<rparr>;
     p \<leftarrow> initTaskPagetables (vaddr AND pageMask) copyFrame (kernbase + task_pml4e (cur k)) p;
     Some (k\<lparr>pg := p, cr3 := taskPML4\<rparr>)
   }"

text \<open>The handler returns to the faulting instruction, or \<open>exit\<close> has switched to another task.
  When no other task is RUNNING \<open>exit\<close> returns, and the handler goes on behind the call: past
  \<open>checkValid\<close> to the page table, at the end back to the faulting instruction.\<close>

datatype fault = Retried kernel | Switched kernel

definition isr14 :: "u64 \<Rightarrow> u64 \<Rightarrow> kernel \<Rightarrow> fault option" where
  "isr14 vaddr resume k0 = do {
     isValid \<leftarrow> checkValid k0 vaddr;
     k \<leftarrow> (if isValid then Some k0 else exit resume k0);
     if currentTask k \<noteq> currentTask k0 then Some (Switched k)
     else
       (let taskPTE = getPTE vaddr k;
            pteOffset = kread (pg k) taskPTE (drop_bit 12 vaddr AND 0x1FF)
        in if pteOffset AND 512 \<noteq> 0 then do {
             let taskPML4 = cr3 k;
             k \<leftarrow> copyNewMemory vaddr (pteOffset AND pageMask) k;
             Some (Retried (k\<lparr>cr3 := taskPML4\<rparr>))
           }
           else if beginAddress (hd (vm (cur k))) > vaddr \<and> lastAddress (hd (vm (cur k))) < vaddr
           then do { k \<leftarrow> copyFromPML4 vaddr k; Some (Retried k) }
           else do {
             k' \<leftarrow> exit resume k;
             Some (if currentTask k' \<noteq> currentTask k then Switched k' else Retried k')
           })
   }"

section \<open>Page addresses\<close>

lemma ix_page [simp]:
  "ix4 (v AND pageMask) = ix4 v" "ix3 (v AND pageMask) = ix3 v"
  "ix2 (v AND pageMask) = ix2 v" "ix1 (v AND pageMask) = ix1 v"
  by (simp_all add: ix4_def ix3_def ix2_def ix1_def pageMask_def drop_bit_and and.assoc)

lemma path_page [simp]: "path (v AND pageMask) = path v"
  by (simp add: path_def)

lemma same_page_mask [simp]: "same_page (v AND pageMask) w = same_page v w"
  by (simp add: same_page_def)

lemma translate_page [simp]: "translate m M (v AND pageMask) = translate m M v"
  by (cases "tbl m M (path v)") (simp_all add: translate_def cong: if_cong)

text \<open>\<open>getPTE\<close> finds the table of a walk whose upper levels are present.\<close>

lemma getPTE_walk:
  assumes "tbl (pm (pg k)) (task_pml4e (cur k)) (path v) = Some P"
  shows "getPTE v k = kernbase + P"
proof -
  have "kread (pg k) (kernbase + F) i = pm (pg k) (F + 8 * i)" for F i by simp
  then show ?thesis using assms
    by (auto simp: getPTE_def path_def Let_def add.commute [of _ kernbase] split: if_splits)
qed

lemma translate_leaf:
  assumes "translate m M v = Some e"
  obtains P where "tbl m M (path v) = Some P" "m (P + 8 * ix1 v) = e" "e AND 1 \<noteq> 0"
  using assms by (auto simp: translate_def split: option.splits if_splits)

section \<open>Writing to a frame that is no table\<close>

lemma fresh_frame_tbl:
  assumes "aligned M" "aligned f" and "f \<notin> user_tables m M" and "\<And>a. \<not> in_frame f a \<Longrightarrow> m' a = m a" and "upath q"
  shows "tbl m' M q = tbl m M q"
proof (rule tbl_cong)
  fix p i r F
  assume split: "q = p @ i # r" and F: "tbl m M p = Some F"
  have "upath p" "i < 512" using assms(5) split by (auto simp: upath_def)
  moreover have "F \<noteq> f" using assms(3) F calculation by (auto simp: user_tables_def)
  moreover have "aligned F" using tbl_aligned assms(1) F by blast
  ultimately show "m' (F + 8 * i) = m (F + 8 * i)" using assms(2,4) in_frame_entry by metis
qed

lemma fresh_frame_space:
  assumes sp: "space s M (f # fs)" and m': "\<And>a. \<not> in_frame f a \<Longrightarrow> m' a = pm s a"
    and s1: "getFreeFrame s = Some (f, s1)" "free_frames s1 fs" "pml4e s1 = pml4e s"
  shows "space (s1\<lparr>pm := m'\<rparr>) M fs" and "keeps s (s1\<lparr>pm := m'\<rparr>) M"
    and "user_tables m' M = user_tables (pm s) M"
proof -
  have wf: "pt_wf (pm s) M" and f: "aligned f" "f \<notin> user_tables (pm s) M" and al: "aligned M"
    using sp pt_wf_aligned by (auto simp: space_def)
  have t: "upath q \<Longrightarrow> tbl m' M q = tbl (pm s) M q" for q using fresh_frame_tbl [OF al f m'] by blast
  then show u: "user_tables m' M = user_tables (pm s) M" by (auto simp: user_tables_def)
  show "space (s1\<lparr>pm := m'\<rparr>) M fs"
    using sp s1(2) t u by (auto simp: space_def pt_wf_def free_frames_def)
  show "keeps s (s1\<lparr>pm := m'\<rparr>) M"
    unfolding keeps_def
  proof (intro allI impI)
    fix w assume w: "ix4 w \<noteq> 511"
    show "translate (pm (s1\<lparr>pm := m'\<rparr>)) M w = translate (pm s) M w"
    proof (cases "tbl (pm s) M (path w)")
      case None
      then show ?thesis using t [of "path w"] w by (simp add: translate_def)
    next
      case (Some P)
      then have "P \<in> user_tables (pm s) M" using w by (auto simp: user_tables_def intro: upath_path [THEN iffD2])
      then have "m' (P + 8 * ix1 w) = pm s (P + 8 * ix1 w)"
        using f m' in_frame_entry [OF f(1) tbl_aligned [OF al Some] ix_less(4) [of w]] by metis
      then show ?thesis using t [of "path w"] w Some by (simp add: translate_def)
    qed
  qed
qed

lemma copy_frame_entry:
  assumes "aligned f" "aligned e" "i < (512 :: u64)"
  shows "copy_frame m f e (f + 8 * i) = m (e + 8 * i)"
  using in_frame_entry [OF assms(1,1,3)] by (simp add: copy_frame_def)

lemma touches_data:
  assumes "touches s s' M fs" and "space s M fs" and "aligned e" and "e \<notin> user_tables (pm s) M \<union> set fs" and "i < 512"
  shows "pm s' (e + 8 * i) = pm s (e + 8 * i)"
proof -
  have "\<not> in_frame g (e + 8 * i)" if "g \<in> user_tables (pm s) M \<union> set fs" for g
    using in_frame_entry [OF space_aligned [OF assms(2) that] assms(3,5)] that assms(4) by auto
  then show ?thesis using assms(1) by (auto simp: touches_def)
qed

section \<open>Concrete address spaces\<close>

text \<open>The tree under 0x1000 has one path of tables, down to the entry \<open>e\<close> of the page at 0x3000; in
  \<open>kernel_vm e b l\<close> the current task owns it and has one memory area.\<close>

definition tree1 :: "u64 \<Rightarrow> u64 \<Rightarrow> u64" where
  "tree1 e = (\<lambda>_. 0)(0x1000 + 8 * 0 := 0x10007, 0x10000 + 8 * 0 := 0x11007, 0x11000 + 8 * 0 := 0x12007,
     0x12000 + 8 * 3 := e)"

definition kernel_vm :: "u64 \<Rightarrow> u64 \<Rightarrow> u64 \<Rightarrow> kernel" where
  "kernel_vm e b l = upd_task 2 (\<lambda>t. t\<lparr>task_pml4e := 0x1000,
       vm := [\<lparr>beginAddress = b, lastAddress = l, vm_offset = 0\<rparr>]\<rparr>)
     (kernel_fam\<lparr>cr3 := 0x1000, pg := paging4\<lparr>pm := tree1 e\<rparr>\<rparr>)"

lemma kernel_vm_simps [simp]:
  "currentTask (kernel_vm e b l) = 2" "cr3 (kernel_vm e b l) = 0x1000" "pg (kernel_vm e b l) = paging4\<lparr>pm := tree1 e\<rparr>"
  "vm (taskQueue (kernel_vm e b l) 2) = [\<lparr>beginAddress = b, lastAddress = l, vm_offset = 0\<rparr>]"
  "task_pml4e (taskQueue (kernel_vm e b l) 2) = 0x1000"
  "pid (taskQueue (kernel_vm e b l) i) = i" "ppid (taskQueue (kernel_vm e b l) i) = ppid (taskQueue kernel_fam i)"
  "state (taskQueue (kernel_vm e b l) i) = state (taskQueue kernel_fam i)"
  by (simp_all add: kernel_vm_def upd_task_def kernel_fam_def)

lemma tree1_entry:
  assumes "aligned F" "i < 512"
  shows "tree1 e (F + 8 * i) =
     (if F = 0x12000 \<and> i = 3 then e else if F = 0x11000 \<and> i = 0 then 0x12007
      else if F = 0x10000 \<and> i = 0 then 0x11007 else if F = 0x1000 \<and> i = 0 then 0x10007 else 0)"
proof -
  have "F + 8 * i = T + 8 * j \<longleftrightarrow> F = T \<and> i = j"
    if "(T, j) \<in> {(0x1000, 0), (0x10000, 0), (0x11000, 0), (0x12000, 3)}" for T j
    using that by (intro entry_inj [OF assms(1) _ assms(2)]) (auto simp: aligned_def validatebits_def)
  from this [of "0x1000" 0] this [of "0x10000" 0] this [of "0x11000" 0] this [of "0x12000" 3]
  show ?thesis unfolding tree1_def fun_upd_apply by (simp only: insert_iff prod.inject simp_thms)
qed

lemma tree1_tbl:
  assumes "upath p"
  shows "tbl (tree1 e) 0x1000 p = Some F \<longleftrightarrow>
    (p, F) \<in> {([], 0x1000), ([0], 0x10000), ([0, 0], 0x11000), ([0, 0, 0], 0x12000)}"
proof -
  have t: "aligned (0x1000 :: u64)" "aligned (0x10000 :: u64)" "aligned (0x11000 :: u64)" "aligned (0x12000 :: u64)"
    by (simp_all add: aligned_def validatebits_def)
  have "length p \<le> 3" and "\<forall>i \<in> set p. i < 512" using assms by (simp_all add: upath_def)
  then consider "p = []" | i where "p = [i]" "i < 512" | i j where "p = [i, j]" "i < 512" "j < 512"
    | i j l where "p = [i, j, l]" "i < 512" "j < 512" "l < 512"
    by (auto simp: le_Suc_eq length_Suc_conv numeral_3_eq_3)
  then show ?thesis
    by cases (auto simp: tree1_entry t validatebits_def)
qed

lemma tree1_paths:
  "upath []" "upath [0]" "upath [0, 0]" "upath [0, 0, 0]"
  "tbl (tree1 e) 0x1000 [] = Some 0x1000" "tbl (tree1 e) 0x1000 [0] = Some 0x10000"
  "tbl (tree1 e) 0x1000 [0, 0] = Some 0x11000" "tbl (tree1 e) 0x1000 [0, 0, 0] = Some 0x12000"
proof -
  show u: "upath []" "upath [0]" "upath [0, 0]" "upath [0, 0, 0]" by (simp_all add: upath_def)
  show "tbl (tree1 e) 0x1000 [] = Some 0x1000" by (rule tree1_tbl [OF u(1), THEN iffD2]) simp
  show "tbl (tree1 e) 0x1000 [0] = Some 0x10000" by (rule tree1_tbl [OF u(2), THEN iffD2]) simp
  show "tbl (tree1 e) 0x1000 [0, 0] = Some 0x11000" by (rule tree1_tbl [OF u(3), THEN iffD2]) simp
  show "tbl (tree1 e) 0x1000 [0, 0, 0] = Some 0x12000" by (rule tree1_tbl [OF u(4), THEN iffD2]) simp
qed

lemma tree1_tables: "user_tables (tree1 e) 0x1000 = {0x1000, 0x10000, 0x11000, 0x12000}"
  unfolding user_tables_def using tree1_paths by (auto simp del: tbl.simps simp: tree1_tbl intro: exI [of _ "[]"])

lemma space_vm: "space (paging4\<lparr>pm := tree1 e\<rparr>) 0x1000 [0x2000, 0x3000, 0x4000, 0x5000]"
proof -
  have "free_frames (paging4\<lparr>pm := tree1 e\<rparr>) [0x2000, 0x3000, 0x4000, 0x5000]"
    using space_paging4 by (simp add: space_def free_frames_def)
  moreover have "pt_wf (tree1 e) 0x1000"
    by (auto simp: pt_wf_def tree1_tbl aligned_def validatebits_def)
  ultimately show ?thesis by (simp add: space_def tree1_tables aligned_def validatebits_def)
qed

lemma tree1_walk: "tbl (tree1 e) 0x1000 (path 0x3008) = Some 0x12000" "tree1 e (0x12000 + 8 * ix1 0x3008) = e"
proof -
  have "path 0x3008 = [0, 0, 0]" by (simp add: path_def ix4_def ix3_def ix2_def)
  then show "tbl (tree1 e) 0x1000 (path 0x3008) = Some 0x12000" using tree1_paths by (simp del: tbl.simps)
  have "ix1 0x3008 = 3" by (simp add: ix1_def)
  then show "tree1 e (0x12000 + 8 * ix1 0x3008) = e" by (simp add: tree1_def)
qed

section \<open>Copy on write\<close>

text \<open>C21: a write fault on a copy-on-write page of the current task (a valid address whose entry has
  bit 9 set) is resolved by a private copy: afterwards the page maps, writable, to the first
  free frame, which holds the words of the old frame; the old frame, the task's other pages,
  and every other task's address space whose tables and data frames are not among this task's tables
  or the free frames are as before, and \<open>cr3\<close> and the task table are unchanged.\<close>

theorem cow_fault_private_copy:
  assumes ok: "checkValid k v = Some True" and M: "task_pml4e (cur k) = M" "cr3 k = M" and v: "ix4 v \<noteq> 511"
    and e: "translate (pm (pg k)) M v = Some e" "e AND 512 \<noteq> 0"
    and sp: "space (pg k) M (f # fs)" and len: "3 \<le> length fs"
    and old: "e AND validatebits \<notin> user_tables (pm (pg k)) M \<union> set (f # fs)"
  shows "\<exists>k'. isr14 v resume k = Some (Retried k') \<and> cr3 k' = M \<and> taskQueue k' = taskQueue k
    \<and> maps (pg k) (pg k') M v ((f AND validatebits) OR 7)
    \<and> (\<forall>i < 512. pm (pg k') (f + 8 * i) = pm (pg k) ((e AND validatebits) + 8 * i)
         \<and> pm (pg k') ((e AND validatebits) + 8 * i) = pm (pg k) ((e AND validatebits) + 8 * i))
    \<and> (\<forall>N w. aligned N \<longrightarrow> user_tables (pm (pg k)) N \<inter> (user_tables (pm (pg k)) M \<union> set (f # fs)) = {}
         \<longrightarrow> ix4 w \<noteq> 511 \<longrightarrow> translate (pm (pg k')) N w = translate (pm (pg k)) N w)"
proof -
  let ?s = "pg k" and ?E = "e AND validatebits"
  obtain P where P: "tbl (pm ?s) M (path v) = Some P" "pm ?s (P + 8 * ix1 v) = e" "e AND 1 \<noteq> 0"
    using translate_leaf [OF e(1)] .
  have ff: "free_frames ?s (f # fs)" and d: "distinct (f # fs)" and f: "aligned f" "f \<notin> user_tables (pm ?s) M"
    and al: "aligned M" using sp pt_wf_aligned by (auto simp: space_def)
  obtain s1 where s1: "getFreeFrame ?s = Some (f, s1)" "free_frames s1 fs" "pm s1 = pm ?s" "pml4e s1 = pml4e ?s"
    using getFreeFrame_cons [OF ff] by blast
  let ?s2 = "s1\<lparr>pm := copy_frame (pm ?s) f ?E\<rparr>"
  have m2: "\<not> in_frame f a \<Longrightarrow> copy_frame (pm ?s) f ?E a = pm ?s a" for a by (simp add: copy_frame_def)
  note s2 = fresh_frame_space [OF sp m2 s1(1,2,4)]
  obtain s' where s': "initTaskPagetables (v AND pageMask) f (kernbase + M) ?s2 = Some s'"
      "maps ?s2 s' M (v AND pageMask) ((f AND validatebits) OR 7)" "touches ?s2 s' M fs"
    using initTaskPagetables_step [OF s2(1) len, of "v AND pageMask" f] v by auto
  let ?k = "k\<lparr>cr3 := M, pg := s'\<rparr>"
  have copy: "copy_page (kernbase + f) (v AND pageMask) (cr3 k) s1 = Some ?s2"
    using e(1) s1(3) M by (simp add: copy_page_def)
  have "copyNewMemory v (e AND pageMask) k = Some (k\<lparr>cr3 := k_cr3 ?s2, pg := s'\<rparr>)"
    using s1(1) copy s'(1) M by (simp add: copyNewMemory_def free_def Let_def)
  moreover have "kread ?s (getPTE v k) (drop_bit 12 v AND 0x1FF) = e"
    using getPTE_walk [of k v P] P M by (simp add: ix1_def)
  ultimately have run: "isr14 v resume k = Some (Retried ?k)"
    using ok e(2) M by (simp add: isr14_def Let_def)
  have maps: "maps ?s s' M v ((f AND validatebits) OR 7)"
    using keeps_maps [OF s2(2) s'(2)] by (simp add: maps_def)
  have ut: "user_tables (pm ?s2) M = user_tables (pm ?s) M" using s2(3) by simp
  have "pm s' (f + 8 * i) = pm ?s (?E + 8 * i)" if "i < 512" for i
    using touches_data [OF s'(3) s2(1) f(1) _ that] f(2) d ut copy_frame_entry [OF f(1) aligned_and that] by auto
  moreover have "pm s' (?E + 8 * i) = pm ?s (?E + 8 * i)" if "i < 512" for i
  proof -
    have "\<not> in_frame f (?E + 8 * i)" using in_frame_entry [OF f(1) aligned_and that, of e] old by auto
    then show ?thesis
      using touches_data [OF s'(3) s2(1) aligned_and _ that, of e] old ut m2 by auto
  qed
  moreover have "translate (pm s') N w = translate (pm ?s) N w"
    if N: "aligned N" "user_tables (pm ?s) N \<inter> (user_tables (pm ?s) M \<union> set (f # fs)) = {}" and w: "ix4 w \<noteq> 511" for N w
  proof -
    have "touches ?s s' M (f # fs)" using s'(3) ut s1(4) m2 by (auto simp: touches_def)
    then show ?thesis using space_aligned [OF sp] by (intro touches_other [OF _ N(1) _ N(2) w]) blast+
  qed
  ultimately show ?thesis using run maps by (intro exI [of _ ?k]) simp
qed

theorem cow_fault_private_copy_witness:
  "\<exists>k'. isr14 0x3008 0x500 (kernel_vm 0x20205 0x3000 0x4000) = Some (Retried k')
     \<and> pm (pg k') (0x2000 + 8 * 7) = tree1 0x20205 (0x20000 + 8 * 7)"
proof -
  let ?k = "kernel_vm 0x20205 0x3000 0x4000"
  have "checkValid ?k 0x3008 = Some True" by (simp add: checkValid_def)
  moreover have "translate (pm (pg ?k)) 0x1000 0x3008 = Some 0x20205"
    by (simp add: translate_def tree1_walk)
  ultimately obtain k' where k': "isr14 0x3008 0x500 ?k = Some (Retried k')"
    "\<forall>i < 512. pm (pg k') (0x2000 + 8 * i) = pm (pg ?k) ((0x20205 AND validatebits) + 8 * i)"
    using cow_fault_private_copy [of ?k "0x3008" "0x1000" "0x20205" "0x2000" "[0x3000, 0x4000, 0x5000]" "0x500"]
      space_vm [of "0x20205"] by (auto simp: ix4_def tree1_tables validatebits_def)
  from k'(2) have "pm (pg k') (0x2000 + 8 * 7) = tree1 0x20205 (0x20000 + 8 * 7)"
    by (auto simp: validatebits_def dest: spec [of _ 7])
  then show ?thesis using k'(1) by blast
qed

section \<open>Stack growth and invalid accesses\<close>

text \<open>A fault below the stack pointer area (between the two ends of the task's first memory area, which
  for the stack has its beginning above its end) with an empty page-table entry gives the task one
  new page there: it maps to the first free frame and no other page changes. The frame is not
  cleared: its words are what its last user left.\<close>

theorem stack_fault_maps_page:
  assumes vms: "vm (cur k) = v0 # vs" and grow: "lastAddress v0 < v" "v < beginAddress v0" "v < beginAddress v0 + 0x1000"
    and M: "task_pml4e (cur k) = M" and v: "ix4 v \<noteq> 511"
    and P: "tbl (pm (pg k)) M (path v) = Some P" "pm (pg k) (P + 8 * ix1 v) = 0"
    and sp: "space (pg k) M (f # fs)" and len: "3 \<le> length fs"
  shows "\<exists>k'. isr14 v resume k = Some (Retried k') \<and> cr3 k' = cr3 k \<and> taskQueue k' = taskQueue k
    \<and> maps (pg k) (pg k') M v ((f AND validatebits) OR 7)
    \<and> (\<forall>i < 512. pm (pg k') (f + 8 * i) = pm (pg k) (f + 8 * i))"
proof -
  let ?s = "pg k"
  have ff: "free_frames ?s (f # fs)" and d: "distinct (f # fs)" and f: "aligned f" "f \<notin> user_tables (pm ?s) M"
    using sp by (auto simp: space_def)
  obtain s1 where s1: "getFreeFrame ?s = Some (f, s1)" "free_frames s1 fs" "pm s1 = pm ?s" "pml4e s1 = pml4e ?s"
    using getFreeFrame_cons [OF ff] by blast
  note s2 = fresh_frame_space [OF sp _ s1(1,2,4), of "pm ?s", simplified]
  have upd: "s1\<lparr>pm := pm ?s\<rparr> = s1" using s1(3) by simp
  obtain s' where s': "initTaskPagetables (v AND pageMask) f (kernbase + M) s1 = Some s'"
      "maps s1 s' M (v AND pageMask) ((f AND validatebits) OR 7)" "touches s1 s' M fs"
    using initTaskPagetables_step [OF s2(1) [unfolded upd] len, of "v AND pageMask" f] v by auto
  have "checkValid k v = Some True" using vms grow by (simp add: checkValid_def)
  moreover have "kread ?s (getPTE v k) (drop_bit 12 v AND 0x1FF) = 0"
    using getPTE_walk [of k v P] P M by (simp add: ix1_def)
  moreover have "copyFromPML4 v k = Some (k\<lparr>pg := s'\<rparr>)"
    using s1(1) s'(1) M by (simp add: copyFromPML4_def Let_def)
  ultimately have run: "isr14 v resume k = Some (Retried (k\<lparr>pg := s'\<rparr>))"
    using vms grow by (simp add: isr14_def Let_def)
  have "maps ?s s' M v ((f AND validatebits) OR 7)"
    using keeps_maps [OF s2(2) [unfolded upd] s'(2)] by (simp add: maps_def)
  moreover have "pm s' (f + 8 * i) = pm ?s (f + 8 * i)" if "i < 512" for i
    using touches_data [OF s'(3) s2(1) [unfolded upd] f(1) _ that] f(2) d s1(3) by simp
  ultimately show ?thesis using run by (intro exI [of _ "k\<lparr>pg := s'\<rparr>"]) simp
qed

theorem stack_fault_maps_page_witness:
  "\<exists>k'. isr14 0x3008 0x500 (kernel_vm 0 0x8000 0x1000) = Some (Retried k')
     \<and> translate (pm (pg k')) 0x1000 0x3008 = Some 0x2007"
proof -
  let ?k = "kernel_vm 0 0x8000 0x1000"
  obtain k' where k': "isr14 0x3008 0x500 ?k = Some (Retried k')"
    "maps (pg ?k) (pg k') 0x1000 0x3008 ((0x2000 AND validatebits) OR 7)"
    using stack_fault_maps_page [of ?k "\<lparr>beginAddress = 0x8000, lastAddress = 0x1000, vm_offset = 0\<rparr>" "[]" "0x3008" "0x1000" "0x12000" "0x2000" "[0x3000, 0x4000, 0x5000]" "0x500"]
      space_vm [of 0] tree1_walk [of 0] by (auto simp: ix4_def)
  have "same_page 0x3008 0x3008" by (simp add: same_page_def)
  then have "translate (pm (pg k')) 0x1000 0x3008 = Some ((0x2000 AND validatebits) OR 7)"
    using k'(2) by (simp add: maps_def ix4_def)
  then show ?thesis using k'(1) by (auto simp: validatebits_def)
qed

text \<open>C22: a fault at an address strictly inside no memory area of the task, and not in the stack
  window, kills the task when another task is RUNNING: it becomes a ZOMBIE, a RUNNING task is
  switched to, and no page table changes. The comparison is strict at both ends: the first byte of an area counts as
  outside it.\<close>

theorem invalid_fault_kills:
  assumes "cur_ok k" and "ppid (cur k) < MAX_TASKS" and "ppid (cur k) \<noteq> currentTask k"
    and "p < MAX_TASKS" "p \<noteq> currentTask k" "state (taskQueue k p) = RUNNING"
    and vms: "vm (cur k) = v0 # vs"
    and win: "\<not> (v < beginAddress v0 + 0x1000 \<and> lastAddress v0 < v)"
    and areas: "\<forall>x \<in> set (v0 # vs). \<not> (beginAddress x < v \<and> v < lastAddress x)"
  shows "\<exists>k'. isr14 v resume k = Some (Switched k') \<and> state (taskQueue k' (currentTask k)) = ZOMBIE
    \<and> pg k' = pg k \<and> state (cur k') = RUNNING"
proof -
  have "checkForVM xs v = (\<exists>x \<in> set xs. beginAddress x < v \<and> v < lastAddress x)" for xs
    by (induction xs) auto
  then have inv: "checkValid k v = Some False" using vms win areas by (auto simp: checkValid_def)
  obtain k1 where k1: "exit_mark k = Some k1" "currentTask k1 = currentTask k" "\<forall>i. pid (taskQueue k1 i) = pid (taskQueue k i)"
      "\<forall>i. state (taskQueue k1 i) = (if i = currentTask k then ZOMBIE
          else if i = ppid (taskQueue k1 (currentTask k)) \<and> state (taskQueue k i) = WAIT then RUNNING
          else state (taskQueue k i))"
    using exit_mark_eq [OF assms(1,2)] by blast
  have pg1: "pg k1 = pg k" using k1(1) by (auto simp: exit_mark_def Let_def wake_waiting_def split: if_splits)
  have ok: "cur_ok k1" using assms(1) k1(2,3) by (simp add: cur_ok_def)
  obtain k2 r where k2: "schedule resume k1 = Some k2" "currentTask k2 = next_task (taskQueue k1) (currentTask k1)"
      "\<forall>i. i \<noteq> currentTask k1 \<longrightarrow> taskQueue k2 i = taskQueue k1 i" "taskQueue k2 (currentTask k1) = (cur k1)\<lparr>regs := r\<rparr>"
      "pg k2 = pg k1"
    using schedule_eq [OF ok, of resume] by blast
  have st: "state (taskQueue k2 i) = state (taskQueue k1 i)" for i using k2(3,4) by (cases "i = currentTask k1") auto
  have "state (taskQueue k1 p) = RUNNING" using k1(4) assms(4-6) by simp
  from next_task_running [of p "taskQueue k1" "currentTask k1", OF assms(4) this] assms(5) k1(2)
  have run: "state (cur k2) = RUNNING" using st k2(2) by simp
  have dead: "state (taskQueue k2 (currentTask k)) = ZOMBIE" using st k1(4) by simp
  then have "currentTask k2 \<noteq> currentTask k" using run by auto
  then have "isr14 v resume k = Some (Switched k2)"
    using inv k1(1) k2(1) by (simp add: isr14_def exit_def)
  then show ?thesis using run dead k2(5) pg1 by (intro exI [of _ k2]) simp
qed

theorem invalid_fault_kills_witness:
  "\<exists>k'. isr14 0x3000 0x500 (kernel_vm 0x20205 0x3000 0x4000) = Some (Switched k')
     \<and> state (taskQueue k' 2) = ZOMBIE"
proof -
  let ?k = "kernel_vm 0x20205 0x3000 0x4000"
  have "cur_ok ?k" by (simp add: cur_ok_def MAX_TASKS_def)
  from invalid_fault_kills [OF this, of 5 "\<lparr>beginAddress = 0x3000, lastAddress = 0x4000, vm_offset = 0\<rparr>" "[]" "0x3000" "0x500"]
  show ?thesis by (auto simp: MAX_TASKS_def)
qed

end
