(* ===== verification/Fork.thy ===== *)
theory Fork
  imports ForkTables PageFaults
begin

text \<open>
  \<open>fork\<close> of \<^verbatim>\<open>sys/process.c\<close>: the slot of the child, its page tables and memory areas, and the copy
  of the kernel stack from which the child returns. What the compiled code reads from its own stack
  frame (the return address at \<^verbatim>\<open>8(%rsp)\<close>) is an argument.
\<close>

section \<open>The calls\<close>

definition getMemorysize :: "int \<Rightarrow> u64" where
  "getMemorysize num = of_int (to_int32 (511 * num))"

definition posInfinity :: u64 where "posInfinity = 9999"

definition copytask :: "nat \<Rightarrow> kernel \<Rightarrow> kernel option" where
  "copytask c k = do {
     let k = upd_task c (\<lambda>t. t\<lparr>ppid := pid (cur k)\<rparr>) k;
     (page, p) \<leftarrow> getNewPage (pg k);
     let k = upd_task c (\<lambda>t. t\<lparr>task_pml4e := page - kernbase\<rparr>) (k\<lparr>pg := p\<rparr>);
     let k = k\<lparr>pg := kzero (pg k) (task_pml4e (taskQueue k c) + kernbase)\<rparr>;
     nm \<leftarrow> strcpy_field 100 (name (cur k));
     let k = upd_task c (\<lambda>t. t\<lparr>name := nm\<rparr>) k;
     dir \<leftarrow> strcpy_field 100 (curr_dir (cur k));
     let k = upd_task c (\<lambda>t. t\<lparr>curr_dir := dir\<rparr>) k;
     p \<leftarrow> copytables (task_pml4e (cur k)) (task_pml4e (taskQueue k c)) (pg k);
     copyVMA (currentTask k) c (k\<lparr>pg := p\<rparr>)
   }"

definition increaseChildCount :: "nat \<Rightarrow> kernel \<Rightarrow> kernel" where
  "increaseChildCount i = upd_task i (\<lambda>t. t\<lparr>child_count := to_int32 (child_count t + 1)\<rparr>)"

text \<open>The new slot is also left in the static \<open>duplicateTask\<close>.\<close>

definition createChild :: "kernel \<Rightarrow> (nat \<times> kernel) option" where
  "createChild k = do {
     dupPID \<leftarrow> newPID k;
     let k = upd_task dupPID (\<lambda>t. t\<lparr>pid := dupPID\<rparr>) k;
     k \<leftarrow> copytask dupPID k;
     Some (dupPID, upd_task dupPID (\<lambda>t. t\<lparr>ustack := STACK_S, task_rsp := STACK_S + 511 * 8, state := RUNNING\<rparr>) k)
   }"

definition setStackTask :: "taskStruct \<Rightarrow> taskStruct" where
  "setStackTask t = t\<lparr>kstack := (kstack t)(14 := posInfinity)\<rparr>"

definition fork :: "u64 \<Rightarrow> kernel \<Rightarrow> (nat \<times> kernel) option" where
  "fork ret k = do {
     (dup, k) \<leftarrow> createChild k;
     let currentCR3 = cr3 k;
     let k = k\<lparr>cr3 := currentCR3\<rparr>;
     let k = increaseChildCount (currentTask k) k;
     let k = upd_task dup (\<lambda>t. t\<lparr>kstack := (\<lambda>i. if i < 512 then kstack (cur k) i else kstack t i)\<rparr>) k;
     let k = upd_task dup setStackTask k;
     let k = upd_task dup (\<lambda>t. t\<lparr>regs := (regs t)\<lparr>rip := ret\<rparr>\<rparr>) k;
     let k = upd_task dup (\<lambda>t. t\<lparr>regs := (regs t)\<lparr>rsp :=
               kstack_top k dup - (kstack_top k (currentTask k) - cpu_rsp k)\<rparr>\<rparr>) k;
     Some (pid (taskQueue k dup), k)
   }"

section \<open>Memory areas\<close>

lemma kmalloc_kspace:
  assumes ks: "kspace s lim K (f # fs)"
  shows "\<exists>s1. kmalloc 32 s = Some (kernbase + f, s1) \<and> pm s1 = pm s \<and> statics s1 = statics s \<and> kspace s1 lim K fs"
proof -
  obtain s1 where s1: "getNewPage s = Some (kernbase + f, s1)" "pm s1 = pm s" "statics s1 = statics s" "free_frames s1 fs"
    using getNewPage_kspace [OF ks] by blast
  have "cdiv 32 4096 = 0" by (simp add: cdiv_def)
  then have "kmalloc 32 s = Some (kernbase + f, s1)" using s1(1) by (simp add: kmalloc_def)
  moreover have "agree K (pm s) (pm s1)" using s1(2) by (simp add: agree_def)
  then have "kspace s1 lim K fs" using kspace_agree [OF ks s1(3), of 1] s1(4) by simp
  ultimately show ?thesis using s1(2,3) by blast
qed

lemma copy_nodes_kspace:
  "kspace s lim K fs \<Longrightarrow> length as \<le> length fs \<Longrightarrow>
   \<exists>s'. copy_nodes as s = Some (as, s') \<and> pm s' = pm s \<and> statics s' = statics s \<and> kspace s' lim K (drop (length as) fs)"
proof (induction as arbitrary: s fs)
  case (Cons a as)
  then obtain f gs where fs: "fs = f # gs" by (cases fs) auto
  obtain s1 where s1: "kmalloc 32 s = Some (kernbase + f, s1)" "pm s1 = pm s" "statics s1 = statics s" "kspace s1 lim K gs"
    using kmalloc_kspace Cons.prems(1) fs by blast
  obtain s2 where "copy_nodes as s1 = Some (as, s2)" "pm s2 = pm s1" "statics s2 = statics s1"
      "kspace s2 lim K (drop (length as) gs)"
    using Cons.IH [OF s1(4)] Cons.prems(2) fs by auto
  then show ?case using s1 fs by simp
qed simp

section \<open>The child\<close>

text \<open>What \<open>fork\<close> needs of the current task and of memory: its tables form a tree apart from the kernel's
  tables and the free frames, and there are frames for the child's tables and memory areas.\<close>

abbreviation cur_tables :: "kernel \<Rightarrow> u64 list" where
  "cur_tables k \<equiv> below (pm (pg k)) 2 (task_pml4e (cur k)) (indices 511)"

definition forkable :: "kernel \<Rightarrow> u64 \<Rightarrow> u64 set \<Rightarrow> u64 list \<Rightarrow> bool" where
  "forkable k lim K fs \<longleftrightarrow> kspace (pg k) lim K fs \<and> aligned (task_pml4e (cur k))
     \<and> distinct (task_pml4e (cur k) # cur_tables k)
     \<and> set (task_pml4e (cur k) # cur_tables k) \<inter> set fs = {}
     \<and> K \<inter> (set (task_pml4e (cur k) # cur_tables k) \<union> set fs) = {}
     \<and> (\<forall>i < 511. present (pm (pg k)) (task_pml4e (cur k)) i \<longrightarrow> data_ok (pm (pg k)) 2 (child (pm (pg k)) (task_pml4e (cur k)) i))
     \<and> length (cur_tables k) + length (vm (cur k)) < length fs
     \<and> length (name (cur k)) < 100 \<and> length (curr_dir (cur k)) < 100"

lemma copytask_spec:
  assumes ready: "forkable k lim K (f # fs)" and c: "c \<noteq> currentTask k"
  shows "\<exists>k' s'. copytask c k = Some k'
    \<and> k' = upd_task c (\<lambda>t. t\<lparr>ppid := pid (cur k), task_pml4e := f, name := name (cur k), curr_dir := curr_dir (cur k), vm := vm (cur k)\<rparr>) (k\<lparr>pg := s'\<rparr>)
    \<and> (\<forall>w. ix4 w \<noteq> 511 \<longrightarrow> translate (pm s') (task_pml4e (cur k)) w = map_option cow_entry (translate (pm (pg k)) (task_pml4e (cur k)) w)
                          \<and> translate (pm s') f w = map_option cow_entry (translate (pm (pg k)) (task_pml4e (cur k)) w))
    \<and> statics s' = statics (pg k) \<and> below (pm s') 2 (task_pml4e (cur k)) (indices 511) = cur_tables k
    \<and> user_tables (pm s') f \<subseteq> insert f (set (take (length (cur_tables k)) fs))
    \<and> outside_same (set (task_pml4e (cur k) # cur_tables k) \<union> set (f # fs)) (pm (pg k)) (pm s')
    \<and> kspace s' lim K (drop (length (cur_tables k) + length (vm (cur k))) fs)"
proof -
  let ?P = "task_pml4e (cur k)" and ?X = "cur_tables k" and ?s = "pg k"
  have ks: "kspace ?s lim K (f # fs)" and al: "aligned ?P" and dist: "distinct (?P # ?X)" "set (?P # ?X) \<inter> set (f # fs) = {}"
      "K \<inter> (set (?P # ?X) \<union> set (f # fs)) = {}" and len: "length ?X + length (vm (cur k)) \<le> length fs"
    and data: "\<forall>i < 511. present (pm ?s) ?P i \<longrightarrow> data_ok (pm ?s) 2 (child (pm ?s) ?P i)"
    and str: "strcpy_field 100 (name (cur k)) = Some (name (cur k))" "strcpy_field 100 (curr_dir (cur k)) = Some (curr_dir (cur k))"
    using ready by (auto simp: forkable_def strcpy_field_def)
  have f: "aligned f" "f \<notin> set fs" and Kal: "\<forall>F \<in> K. aligned F"
    using kspace_aligned [OF ks] ks by (auto simp: kspace_def)
  obtain s1 where s1: "getNewPage ?s = Some (kernbase + f, s1)" "pm s1 = pm ?s" "statics s1 = statics ?s" "free_frames s1 fs"
    using getNewPage_kspace [OF ks] by blast
  define s2 where "s2 = kzero s1 (kernbase + f)"
  have out2: "outside_same {f} (pm ?s) (pm s2)" by (simp add: s2_def s1(2) outside_same_def zero_frame_def)
  have agree2: "agree Z (pm ?s) (pm s2)" if "Z \<subseteq> K \<union> set (?P # ?X)" for Z
    using that f dist al Kal below_aligned by (intro outside_same_agree [OF out2]) auto
  have agX: "agree (insert ?P (set ?X)) (pm ?s) (pm s2)" by (rule agree2) auto
  have i511: "i < 512" "i < 511" if "i \<in> set (indices 511)" for i
    using that by (auto simp: set_indices word_less_nat_alt)
  have X2: "below (pm s2) 2 ?P (indices 511) = ?X" using i511 by (intro below_agree [OF agX]) blast
  have agK: "agree K (pm ?s) (pm s2)" by (rule agree2) auto
  have ks2: "kspace s2 lim K fs"
    using kspace_agree [OF ks _ agK, of 1] s1(3,4) by (simp add: s2_def)
  have pre: "copy_pre s2 ?P f (below (pm s2) 2 ?P (indices 511)) lim K fs"
    unfolding X2 copy_pre_def using ks2 al f dist len below_aligned by auto
  have P2: "pm s2 (?P + 8 * i) = pm ?s (?P + 8 * i)" if "i < 512" for i using agree_entry [OF agX _ that] by simp
  have data2: "\<forall>i < 511. present (pm s2) ?P i \<longrightarrow> data_ok (pm s2) 2 (child (pm s2) ?P i)"
  proof (intro allI impI)
    fix i :: u64 assume i: "i < 511" "present (pm s2) ?P i"
    then have i': "i < 512" "i \<in> set (indices 511)" by (auto simp: set_indices word_less_nat_alt)
    then have pr: "present (pm ?s) ?P i" "child (pm s2) ?P i = child (pm ?s) ?P i"
      using i P2 by (simp_all add: present_def child_def)
    then have "set (tables (pm ?s) 2 (child (pm ?s) ?P i)) \<subseteq> set ?X" using i' by (auto simp: below_def)
    then show "data_ok (pm s2) 2 (child (pm s2) ?P i)"
      using data_ok_agree [OF agree_mono [OF agX]] data i(1) pr by (metis subset_insertI2)
  qed
  have empty: "\<forall>i < 511. \<not> present (pm s2) f i"
  proof (intro allI impI)
    fix i :: u64 assume "i < 511"
    then have "i < 512" by (simp add: word_less_nat_alt)
    then show "\<not> present (pm s2) f i" using zero_frame_entry [OF f(1,1)] by (simp add: present_def s2_def)
  qed
  obtain s3 where s3: "copytables ?P f s2 = Some s3"
      "\<forall>w. ix4 w \<noteq> 511 \<longrightarrow> translate (pm s3) ?P w = map_option cow_entry (translate (pm s2) ?P w)
                          \<and> translate (pm s3) f w = map_option cow_entry (translate (pm s2) ?P w)"
      "kspace s3 lim K (drop (length ?X) fs)" "statics s3 = statics s2" "below (pm s3) 2 ?P (indices 511) = ?X"
      "user_tables (pm s3) f \<subseteq> insert f (set (take (length ?X) fs))"
      "outside_same (set (f # ?P # ?X) \<union> set fs) (pm s2) (pm s3)"
    using copytables_spec [OF pre data2 empty] unfolding X2 by blast
  have "length (vm (cur k)) \<le> length (drop (length ?X) fs)" using len by simp
  from copy_nodes_kspace [OF s3(3) this] obtain s' where s': "copy_nodes (vm (cur k)) s3 = Some (vm (cur k), s')" "pm s' = pm s3" "statics s' = statics s3"
      "kspace s' lim K (drop (length (vm (cur k))) (drop (length ?X) fs))"
    by blast
  have tr: "translate (pm s2) ?P w = translate (pm ?s) ?P w" if "ix4 w \<noteq> 511" for w
    using agree_mono [OF agX] user_tables_below by (intro user_walk_agree [OF _ that]) simp
  have run: "copytask c k = Some (upd_task c (\<lambda>t. t\<lparr>ppid := pid (cur k), task_pml4e := f, name := name (cur k),
      curr_dir := curr_dir (cur k), vm := vm (cur k)\<rparr>) (k\<lparr>pg := s'\<rparr>))"
    using c str s1(1) s3(1) s'(1)
    by (simp add: copytask_def copyVMA_def upd_task_def Let_def s2_def add.commute [of _ kernbase])
  have out: "outside_same (set (?P # ?X) \<union> set (f # fs)) (pm ?s) (pm s')"
    unfolding s'(2) by (rule outside_same_trans [OF out2 s3(7)]) auto
  show ?thesis
    by (rule exI, rule exI [of _ s'], intro conjI, rule run, rule refl)
      (use s3(2,4-6) s' tr out s1(3) in \<open>simp_all add: s2_def add.commute\<close>)
qed


lemma fork_spec:
  assumes c: "newPID k = Some c" "c \<noteq> currentTask k" and ready: "forkable k lim K (f # fs)"
  shows "\<exists>k'. fork ret k = Some (c, k') \<and> currentTask k' = currentTask k \<and> cr3 k' = cr3 k
    \<and> cur k' = (cur k)\<lparr>child_count := to_int32 (child_count (cur k) + 1)\<rparr>
    \<and> (\<forall>i. i \<noteq> c \<longrightarrow> i \<noteq> currentTask k \<longrightarrow> taskQueue k' i = taskQueue k i)
    \<and> taskQueue k' c = (taskQueue k c)\<lparr>pid := c, ppid := (pid (cur k)), task_pml4e := f, name := name (cur k),
         curr_dir := curr_dir (cur k), vm := vm (cur k), ustack := STACK_S, task_rsp := STACK_S + 511 * 8, state := RUNNING,
         kstack := (\<lambda>i. if i < 512 then kstack (cur k) i else kstack (taskQueue k c) i)(14 := posInfinity),
         regs := (regs (taskQueue k c))\<lparr>rip := ret, rsp := kstack_top k c - (kstack_top k (currentTask k) - cpu_rsp k)\<rparr>\<rparr>
    \<and> (\<forall>w. ix4 w \<noteq> 511 \<longrightarrow>
         translate (pm (pg k')) (task_pml4e (cur k)) w = map_option cow_entry (translate (pm (pg k)) (task_pml4e (cur k)) w)
         \<and> translate (pm (pg k')) f w = map_option cow_entry (translate (pm (pg k)) (task_pml4e (cur k)) w))
    \<and> statics (pg k') = statics (pg k) \<and> cur_tables k' = cur_tables k
    \<and> user_tables (pm (pg k')) f \<subseteq> insert f (set (take (length (cur_tables k)) fs))
    \<and> outside_same (set (task_pml4e (cur k) # cur_tables k) \<union> set (f # fs)) (pm (pg k)) (pm (pg k'))
    \<and> kspace (pg k') lim K (drop (length (cur_tables k) + length (vm (cur k))) fs)"
proof -
  let ?k = "upd_task c (\<lambda>t. t\<lparr>pid := c\<rparr>) k"
  have cur: "currentTask ?k = currentTask k" "pg ?k = pg k" "taskQueue ?k (currentTask k) = cur k" using c(2) by simp_all
  have "forkable ?k lim K (f # fs)" "c \<noteq> currentTask ?k" using ready c(2) unfolding forkable_def cur by simp_all
  from copytask_spec [OF this] obtain k1 s' where k1: "copytask c ?k = Some k1"
    "k1 = upd_task c (\<lambda>t. t\<lparr>ppid := pid (cur k), task_pml4e := f, name := name (cur k), curr_dir := curr_dir (cur k), vm := vm (cur k)\<rparr>) (?k\<lparr>pg := s'\<rparr>)"
    "\<forall>w. ix4 w \<noteq> 511 \<longrightarrow> translate (pm s') (task_pml4e (cur k)) w = map_option cow_entry (translate (pm (pg k)) (task_pml4e (cur k)) w)
                          \<and> translate (pm s') f w = map_option cow_entry (translate (pm (pg k)) (task_pml4e (cur k)) w)"
    "statics s' = statics (pg k)" "below (pm s') 2 (task_pml4e (cur k)) (indices 511) = cur_tables k"
    "user_tables (pm s') f \<subseteq> insert f (set (take (length (cur_tables k)) fs))"
    "outside_same (set (task_pml4e (cur k) # cur_tables k) \<union> set (f # fs)) (pm (pg k)) (pm s')"
    "kspace s' lim K (drop (length (cur_tables k) + length (vm (cur k))) fs)"
    unfolding cur by blast
  define k2 where "k2 = upd_task c (\<lambda>t. t\<lparr>ustack := STACK_S, task_rsp := STACK_S + 511 * 8, state := RUNNING\<rparr>) k1"
  define k3 where "k3 = increaseChildCount (currentTask (k2\<lparr>cr3 := cr3 k2\<rparr>)) (k2\<lparr>cr3 := cr3 k2\<rparr>)"
  define k4 where "k4 = upd_task c (\<lambda>t. t\<lparr>regs := (regs t)\<lparr>rip := ret\<rparr>\<rparr>) (upd_task c setStackTask
     (upd_task c (\<lambda>t. t\<lparr>kstack := (\<lambda>i. if i < 512 then kstack (cur k3) i else kstack t i)\<rparr>) k3))"
  define k' where "k' = upd_task c (\<lambda>t. t\<lparr>regs := (regs t)\<lparr>rsp := kstack_top k4 c - (kstack_top k4 (currentTask k4) - cpu_rsp k4)\<rparr>\<rparr>) k4"
  have child: "createChild k = Some (c, k2)" using c(1) k1(1) by (simp add: createChild_def k2_def)
  have run: "fork ret k = Some (pid (taskQueue k' c), k')"
    unfolding fork_def child bind.bind_lunit prod.case Let_def k'_def k4_def k3_def by simp
  have k1': "currentTask k1 = currentTask k" "cr3 k1 = cr3 k" "pg k1 = s'" "kstack_top k1 = kstack_top k" "cpu_rsp k1 = cpu_rsp k"
    "taskQueue k1 = (taskQueue k)(c := (taskQueue k c)\<lparr>pid := c, ppid := pid (cur k), task_pml4e := f, name := name (cur k),
       curr_dir := curr_dir (cur k), vm := vm (cur k)\<rparr>)"
    by (simp_all add: k1(2) upd_task_def)
  have "pid (taskQueue k' c) = c" by (simp add: k'_def k4_def k3_def k2_def increaseChildCount_def setStackTask_def k1')
  moreover have "currentTask k' = currentTask k" "cr3 k' = cr3 k" "pg k' = s'"
    "cur k' = (cur k)\<lparr>child_count := to_int32 (child_count (cur k) + 1)\<rparr>"
    "\<forall>i. i \<noteq> c \<longrightarrow> i \<noteq> currentTask k \<longrightarrow> taskQueue k' i = taskQueue k i"
    "taskQueue k' c = (taskQueue k c)\<lparr>pid := c, ppid := (pid (cur k)), task_pml4e := f, name := name (cur k),
         curr_dir := curr_dir (cur k), vm := vm (cur k), ustack := STACK_S, task_rsp := STACK_S + 511 * 8, state := RUNNING,
         kstack := (\<lambda>i. if i < 512 then kstack (cur k) i else kstack (taskQueue k c) i)(14 := posInfinity),
         regs := (regs (taskQueue k c))\<lparr>rip := ret, rsp := kstack_top k c - (kstack_top k (currentTask k) - cpu_rsp k)\<rparr>\<rparr>"
    using c(2) by (simp_all add: k'_def k4_def k3_def k2_def increaseChildCount_def setStackTask_def k1' cong: if_cong)
  moreover note run
  ultimately have k': "fork ret k = Some (c, k')" "currentTask k' = currentTask k" "cr3 k' = cr3 k" "pg k' = s'"
    "cur k' = (cur k)\<lparr>child_count := to_int32 (child_count (cur k) + 1)\<rparr>"
    "\<forall>i. i \<noteq> c \<longrightarrow> i \<noteq> currentTask k \<longrightarrow> taskQueue k' i = taskQueue k i"
    "taskQueue k' c = (taskQueue k c)\<lparr>pid := c, ppid := (pid (cur k)), task_pml4e := f, name := name (cur k),
         curr_dir := curr_dir (cur k), vm := vm (cur k), ustack := STACK_S, task_rsp := STACK_S + 511 * 8, state := RUNNING,
         kstack := (\<lambda>i. if i < 512 then kstack (cur k) i else kstack (taskQueue k c) i)(14 := posInfinity),
         regs := (regs (taskQueue k c))\<lparr>rip := ret, rsp := kstack_top k c - (kstack_top k (currentTask k) - cpu_rsp k)\<rparr>\<rparr>"
    by simp_all
  have "task_pml4e (cur k') = task_pml4e (cur k)" using k'(5) by simp
  then show ?thesis using k' k1(3-8) by (intro exI [of _ k']) simp
qed

text \<open>The current task 2 of \<open>kernel_fam\<close> with the tables of \<open>fork_paging\<close> and one memory area.\<close>

definition kernel_fork :: kernel where
  "kernel_fork = upd_task 2 (\<lambda>t. t\<lparr>task_pml4e := 0x20000, vm := [\<lparr>beginAddress = 0x3000, lastAddress = 0x4000, vm_offset = 0\<rparr>]\<rparr>)
     (kernel_fam\<lparr>cr3 := 0x20000, pg := fork_paging\<rparr>)"

lemma kernel_fork_simps [simp]:
  "currentTask kernel_fork = 2" "cr3 kernel_fork = 0x20000" "pg kernel_fork = fork_paging"
  "vm (taskQueue kernel_fork 2) = [\<lparr>beginAddress = 0x3000, lastAddress = 0x4000, vm_offset = 0\<rparr>]"
  "task_pml4e (taskQueue kernel_fork 2) = 0x20000" "name (taskQueue kernel_fork 2) = []"
  "curr_dir (taskQueue kernel_fork 2) = ''/''" "pid (taskQueue kernel_fork i) = i"
  "state (taskQueue kernel_fork i) = state (taskQueue kernel_fam i)"
  by (simp_all add: kernel_fork_def kernel_fam_def upd_task_def task0_def)

lemma kernel_fork_slot: "newPID kernel_fork = Some 0"
  by (auto simp: newPID_def first_index_Some checkTaskState_def MAX_TASKS_def)

lemma kernel_fork_ready: "forkable kernel_fork 0x10000 (kernel_tables (pm fork_paging) 0x10000)
    (0x1000 # [0x2000, 0x3000, 0x4000, 0x5000, 0x6000, 0x7000, 0x8000, 0x9000, 0xA000, 0xB000, 0xC000, 0xD000, 0xE000, 0xF000])"
  using fork_pre fork_data fork_kspace unfolding forkable_def copy_pre_def kernel_fork_simps fork_below by auto

text \<open>C11: when a task slot and enough frames are free, \<open>fork\<close> returns the pid of the child: a RUNNING task
  whose parent is the caller, with the caller's name, directory, memory areas and kernel stack (but
  for the mark at index 14 by which the child's system call returns 0), which resumes at the
  caller's return address at the same depth of its own stack. Parent and child see the parent's
  old pages, now shared copy-on-write; every other task is as before. The child's open files are
  whatever the slot's last user left: they are not copied.\<close>

theorem fork_child:
  assumes "newPID k = Some c" "c \<noteq> currentTask k" and "forkable k lim K (f # fs)"
  shows "\<exists>k'. fork ret k = Some (c, k') \<and> currentTask k' = currentTask k
    \<and> state (taskQueue k' c) = RUNNING \<and> pid (taskQueue k' c) = c \<and> ppid (taskQueue k' c) = pid (cur k)
    \<and> name (taskQueue k' c) = name (cur k) \<and> curr_dir (taskQueue k' c) = curr_dir (cur k) \<and> vm (taskQueue k' c) = vm (cur k)
    \<and> (\<forall>i < 512. kstack (taskQueue k' c) i = (if i = 14 then 9999 else kstack (cur k) i))
    \<and> rip (regs (taskQueue k' c)) = ret
    \<and> kstack_top k c - rsp (regs (taskQueue k' c)) = kstack_top k (currentTask k) - cpu_rsp k
    \<and> fd (taskQueue k' c) = fd (taskQueue k c) \<and> fd_c (taskQueue k' c) = fd_c (taskQueue k c)
    \<and> (\<forall>w. ix4 w \<noteq> 511 \<longrightarrow>
         translate (pm (pg k')) (task_pml4e (cur k)) w = map_option cow_entry (translate (pm (pg k)) (task_pml4e (cur k)) w)
         \<and> translate (pm (pg k')) (task_pml4e (taskQueue k' c)) w = translate (pm (pg k')) (task_pml4e (cur k)) w)
    \<and> (\<forall>i. i \<noteq> c \<longrightarrow> i \<noteq> currentTask k \<longrightarrow> taskQueue k' i = taskQueue k i)"
proof -
  obtain k' where k': "fork ret k = Some (c, k')" "currentTask k' = currentTask k"
    "\<forall>i. i \<noteq> c \<longrightarrow> i \<noteq> currentTask k \<longrightarrow> taskQueue k' i = taskQueue k i"
    "taskQueue k' c = (taskQueue k c)\<lparr>pid := c, ppid := (pid (cur k)), task_pml4e := f, name := name (cur k),
         curr_dir := curr_dir (cur k), vm := vm (cur k), ustack := STACK_S, task_rsp := STACK_S + 511 * 8, state := RUNNING,
         kstack := (\<lambda>i. if i < 512 then kstack (cur k) i else kstack (taskQueue k c) i)(14 := posInfinity),
         regs := (regs (taskQueue k c))\<lparr>rip := ret, rsp := kstack_top k c - (kstack_top k (currentTask k) - cpu_rsp k)\<rparr>\<rparr>"
    "\<forall>w. ix4 w \<noteq> 511 \<longrightarrow>
         translate (pm (pg k')) (task_pml4e (cur k)) w = map_option cow_entry (translate (pm (pg k)) (task_pml4e (cur k)) w)
         \<and> translate (pm (pg k')) f w = map_option cow_entry (translate (pm (pg k)) (task_pml4e (cur k)) w)"
    using fork_spec [OF assms, of ret] by blast
  then show ?thesis by (intro exI [of _ k']) (simp add: posInfinity_def)
qed


theorem fork_child_witness:
  "\<exists>k'. fork 0x500 kernel_fork = Some (0, k') \<and> ppid (taskQueue k' 0) = 2
     \<and> translate (pm (pg k')) (task_pml4e (taskQueue k' 0)) 0x3008 = Some 0x50205"
proof -
  obtain k' where k': "fork 0x500 kernel_fork = Some (0, k')" "ppid (taskQueue k' 0) = pid (cur kernel_fork)"
    "\<forall>w. ix4 w \<noteq> 511 \<longrightarrow> translate (pm (pg k')) (task_pml4e (cur kernel_fork)) w
         = map_option cow_entry (translate (pm (pg kernel_fork)) (task_pml4e (cur kernel_fork)) w)
       \<and> translate (pm (pg k')) (task_pml4e (taskQueue k' 0)) w = translate (pm (pg k')) (task_pml4e (cur kernel_fork)) w"
    using fork_child [OF kernel_fork_slot _ kernel_fork_ready, of "0x500"] by auto
  note fork_translate
  then show ?thesis using k' by (intro exI [of _ k']) (simp add: cow_entry_def ix4_def del: fork_paging_simps)
qed

section \<open>Writing after a fork\<close>

lemma cow_entry_frame [simp]: "cow_entry e AND validatebits = e AND validatebits"
  by (simp add: cow_entry_def validatebits_def bit.conj_disj_distrib2 and.assoc)

text \<open>C12: separation after \<open>fork\<close>: when the caller then writes to a page it shares with its child, the page
  fault gives the caller the next free frame with the old words, writable, and the child still
  sees the old frame with the old words.\<close>

theorem fork_then_write:
  assumes c: "newPID k = Some c" "c \<noteq> currentTask k" and ready: "forkable k lim K (f # fs)"
    and cr: "cr3 k = task_pml4e (cur k)" and v: "checkValid k v = Some True" "ix4 v \<noteq> 511"
    and e: "translate (pm (pg k)) (task_pml4e (cur k)) v = Some e"
    and more: "drop (length (cur_tables k) + length (vm (cur k))) fs = g # gs" "3 \<le> length gs"
    and old: "e AND validatebits \<notin> set (task_pml4e (cur k) # cur_tables k) \<union> set (f # fs)"
  shows "\<exists>k' k''. fork ret k = Some (c, k') \<and> isr14 v resume k' = Some (Retried k'')
    \<and> translate (pm (pg k'')) (task_pml4e (cur k)) v = Some (g OR 7)
    \<and> translate (pm (pg k'')) (task_pml4e (taskQueue k'' c)) v = Some (cow_entry e)
    \<and> (\<forall>i < 512. pm (pg k'') (g + 8 * i) = pm (pg k) ((e AND validatebits) + 8 * i)
         \<and> pm (pg k'') ((e AND validatebits) + 8 * i) = pm (pg k) ((e AND validatebits) + 8 * i))"
proof -
  let ?P = "task_pml4e (cur k)" and ?X = "cur_tables k" and ?E = "e AND validatebits"
  obtain k' where k': "fork ret k = Some (c, k')" "currentTask k' = currentTask k" "cr3 k' = cr3 k"
    "cur k' = (cur k)\<lparr>child_count := to_int32 (child_count (cur k) + 1)\<rparr>" "task_pml4e (taskQueue k' c) = f"
    "\<forall>w. ix4 w \<noteq> 511 \<longrightarrow> translate (pm (pg k')) ?P w = map_option cow_entry (translate (pm (pg k)) ?P w)
         \<and> translate (pm (pg k')) f w = map_option cow_entry (translate (pm (pg k)) ?P w)"
    "cur_tables k' = ?X" "user_tables (pm (pg k')) f \<subseteq> insert f (set (take (length ?X) fs))"
    "outside_same (set (?P # ?X) \<union> set (f # fs)) (pm (pg k)) (pm (pg k'))" "kspace (pg k') lim K (g # gs)"
    using fork_spec [OF c ready, of ret] more(1) by auto
  have P': "task_pml4e (cur k') = ?P" "vm (cur k') = vm (cur k)" using k'(4) by simp_all
  have ks: "kspace (pg k) lim K (f # fs)" and al: "aligned ?P" and dist: "distinct (?P # ?X)" "set (?P # ?X) \<inter> set (f # fs) = {}"
    using ready by (simp_all add: forkable_def)
  have fr: "f \<notin> set fs" "distinct fs" "aligned f" "aligned g" "\<forall>F \<in> set (f # fs). aligned F"
    using ks kspace_aligned [OF ks] kspace_aligned [OF k'(10)] by (auto simp: kspace_def)
  have gg: "set (g # gs) \<subseteq> set fs" using set_drop_subset more(1) by metis
  have disj: "set (take (length ?X) fs) \<inter> set (g # gs) = {}"
    using set_take_disj_set_drop_if_distinct [OF fr(2), of "length ?X" "length ?X + length (vm (cur k))"] more(1) by simp
  have Xb: "below (pm (pg k')) 2 ?P (indices 511) = ?X" using k'(7) P'(1) by simp
  have ut: "user_tables (pm (pg k')) ?P \<subseteq> set (?P # ?X)" using user_tables_below [of "pm (pg k')" ?P] Xb by simp
  have "pt_wf (pm (pg k')) ?P" using pt_wf_tables [OF al, of "pm (pg k')"] dist(1) Xb by simp
  moreover have "free_frames (pg k') (g # gs)" "distinct (g # gs)" "\<forall>F \<in> set (g # gs). aligned F"
    using k'(10) kspace_aligned [OF k'(10)] by (auto simp: kspace_def)
  ultimately have sp: "space (pg k') ?P (g # gs)"
    using ut dist(2) gg unfolding space_def by fastforce
  have "checkValid k' v = Some True" using v(1) P'(2) by (simp add: checkValid_def)
  moreover have "translate (pm (pg k')) ?P v = Some (cow_entry e)" using k'(6) v(2) e by simp
  moreover have "cow_entry e AND 512 \<noteq> 0" using cow_entry_marks(2) [of e] by simp
  moreover have "cow_entry e AND validatebits \<notin> user_tables (pm (pg k')) ?P \<union> set (g # gs)"
    using old ut gg by auto
  ultimately obtain k'' where k'': "isr14 v resume k' = Some (Retried k'')" "taskQueue k'' = taskQueue k'"
      "maps (pg k') (pg k'') ?P v ((g AND validatebits) OR 7)"
      "\<forall>i < 512. pm (pg k'') (g + 8 * i) = pm (pg k') (?E + 8 * i) \<and> pm (pg k'') (?E + 8 * i) = pm (pg k') (?E + 8 * i)"
      "\<forall>N w. aligned N \<longrightarrow> user_tables (pm (pg k')) N \<inter> (user_tables (pm (pg k')) ?P \<union> set (g # gs)) = {}
         \<longrightarrow> ix4 w \<noteq> 511 \<longrightarrow> translate (pm (pg k'')) N w = translate (pm (pg k')) N w"
    using cow_fault_private_copy [of k' v ?P "cow_entry e" g gs resume] P'(1) k'(3) cr v(2) sp more(2) by auto
  have "same_page v v" by (simp add: same_page_def)
  then have mine: "translate (pm (pg k'')) ?P v = Some (g OR 7)"
    using k''(3) v(2) fr(4) by (simp add: maps_def aligned_def)
  have "user_tables (pm (pg k')) f \<inter> (user_tables (pm (pg k')) ?P \<union> set (g # gs)) = {}"
  proof -
    have "user_tables (pm (pg k')) f \<subseteq> set (f # fs)" using k'(8) set_take_subset [of "length ?X" fs] by auto
    moreover have "user_tables (pm (pg k')) f \<inter> set (g # gs) = {}" using k'(8) disj gg fr(1) by blast
    ultimately show ?thesis using ut dist(2) by blast
  qed
  then have yours: "translate (pm (pg k'')) (task_pml4e (taskQueue k'' c)) v = Some (cow_entry e)"
    using k''(2,5) k'(5,6) fr(3) v(2) e by simp
  have "agree {?E} (pm (pg k)) (pm (pg k'))"
    using k'(9) by (rule outside_same_agree) (use old al fr(5) below_aligned in auto)
  then have "pm (pg k') (?E + 8 * i) = pm (pg k) (?E + 8 * i)" if "i < 512" for i using agree_entry [OF _ _ that] by simp
  then show ?thesis using k'(1) k''(1,4) mine yours by (intro exI [of _ k'] exI [of _ k'']) simp
qed

theorem fork_then_write_witness:
  "\<exists>k' k''. fork 0x500 kernel_fork = Some (0, k') \<and> isr14 0x3008 0x600 k' = Some (Retried k'')
     \<and> translate (pm (pg k'')) 0x20000 0x3008 = Some 0x6007
     \<and> translate (pm (pg k'')) (task_pml4e (taskQueue k'' 0)) 0x3008 = Some 0x50205"
proof -
  let ?fs = "[0x2000, 0x3000, 0x4000, 0x5000, 0x6000, 0x7000, 0x8000, 0x9000, 0xA000, 0xB000, 0xC000, 0xD000, 0xE000, 0xF000]"
  have X: "cur_tables kernel_fork = [0x21000, 0x22000, 0x23000]"
    using fork_below by (simp del: fork_paging_simps)
  have d: "drop (length (cur_tables kernel_fork) + length (vm (cur kernel_fork))) ?fs = 0x6000 # [0x7000, 0x8000, 0x9000, 0xA000, 0xB000, 0xC000, 0xD000, 0xE000, 0xF000]"
    unfolding X by simp
  have o: "0x50007 AND validatebits \<notin> set (task_pml4e (cur kernel_fork) # cur_tables kernel_fork) \<union> set (0x1000 # ?fs)"
    unfolding X by (simp add: validatebits_def)
  have t: "translate (pm (pg kernel_fork)) (task_pml4e (cur kernel_fork)) 0x3008 = Some 0x50007"
    using fork_translate by (simp del: fork_paging_simps)
  have v: "checkValid kernel_fork 0x3008 = Some True" by (simp add: checkValid_def)
  show ?thesis
    using fork_then_write [OF kernel_fork_slot _ kernel_fork_ready _ v _ t d _ o, of "0x500" "0x600"]
    by (auto simp: cow_entry_def ix4_def)
qed

end
