(* ===== verification/DirectMap.thy ===== *)
theory DirectMap
  imports KernelMap
begin

text \<open>
  \<open>setupPageTables\<close> of \<^verbatim>\<open>sys/paging.c\<close> establishes the direct map (\<open>kernel_map\<close>) on which the rest of
  the kernel's memory management relies, for physical memories whose last page table has room for
  the four extra entries that the function adds behind the map.
\<close>

section \<open>Indices of a direct-map address\<close>

lemma unat_direct:
  assumes "m < 2 ^ 18"
  shows "unat (kernbase + 4096 * of_nat m) = 0xFFFFFFFF80000000 + 4096 * m"
proof -
  have "unat (4096 * of_nat m :: u64) = 4096 * m" using assms by (simp add: unat_word_ariths unat_of_nat)
  then show ?thesis using assms by (simp add: unat_word_ariths kernbase_def)
qed

lemma ix_direct:
  assumes "m < 2 ^ 18"
  shows "ix1 (kernbase + 4096 * of_nat m) = of_nat (m mod 512)"
    and "ix2 (kernbase + 4096 * of_nat m) = of_nat (m div 512)"
    and "ix3 (kernbase + 4096 * of_nat m) = 510"
    and "ix4 (kernbase + 4096 * of_nat m) = 511"
proof -
  let ?v = "kernbase + 4096 * of_nat m"
  have v: "unat ?v = 0xFFFFFFFF80000000 + 4096 * m" using unat_direct [OF assms] .
  have "unat ?v div 2 ^ 12 = 0xFFFFFFFF80000 + m" unfolding v by simp
  then have "unat (ix1 ?v) = m mod 512" unfolding unat_ix by (simp add: mod_add_eq [symmetric])
  then show "ix1 ?v = of_nat (m mod 512)" by (metis of_nat_unat ucast_id)
  have "unat ?v div 2 ^ 21 = 512 * 0x3FFFFFFFE + m div 512" unfolding v by (simp add: div_mult2_eq [of _ 4096 512, simplified])
  then have "unat (ix2 ?v) = m div 512 mod 512" unfolding unat_ix by (simp only: mod_mult_self4)
  then have "unat (ix2 ?v) = m div 512" using assms by simp
  then show "ix2 ?v = of_nat (m div 512)" by (metis of_nat_unat ucast_id)
  have "unat ?v div 2 ^ 30 = 0x3FFFFFFFE" unfolding v using assms by simp
  then have "unat (ix3 ?v) = 510" unfolding unat_ix by simp
  then show "ix3 ?v = 510" by (simp add: word_unat_eq_iff)
  have "unat ?v div 2 ^ 39 = 0x1FFFFFF" unfolding v using assms by simp
  then have "unat (ix4 ?v) = 511" unfolding unat_ix by simp
  then show "ix4 ?v = 511" by (simp add: word_unat_eq_iff)
qed


section \<open>The loop\<close>

text \<open>Page \<open>j\<close> of physical memory, and the table frame that maps it.\<close>

definition phys :: "nat \<Rightarrow> u64" where
  "phys j = 4096 * of_nat j"

lemma unat_phys: "j < 2 ^ 18 \<Longrightarrow> unat (phys j) = 4096 * j"
  by (simp add: phys_def unat_word_ariths unat_of_nat)

lemma phys_less: "i < 2 ^ 18 \<Longrightarrow> j < 2 ^ 18 \<Longrightarrow> phys i < phys j \<longleftrightarrow> i < j"
  by (simp add: word_less_nat_alt unat_phys)

lemma phys_Suc: "phys j + pageSize = phys (Suc j)"
  by (simp add: phys_def pageSize_def algebra_simps)

lemma aligned_phys: "aligned (phys j)"
proof -
  have "phys j = push_bit 12 (of_nat j)" by (simp add: phys_def push_bit_eq_mult)
  then show ?thesis by (auto simp: aligned_def validatebits_not_mask bit_eq_iff bit_simps)
qed

text \<open>The frames \<open>fs\<close> in the order \<open>setupPageTables\<close> takes them: the three upper tables, a page table
  that is not used, and one page table for every 512 pages.\<close>

definition map_inv :: "u64 list \<Rightarrow> nat \<Rightarrow> paging \<Rightarrow> bool" where
  "map_inv fs m s \<longleftrightarrow> pm s (fs ! 0 + 8 * of_nat 511) = fs ! 1 OR 3 \<and> pm s (fs ! 1 + 8 * of_nat 510) = fs ! 2 OR 3
     \<and> pde s = fs ! 2 \<and> pte s = (if m = 0 then fs ! 3 else fs ! (4 + (m - 1) div 512))
     \<and> (\<forall>j < m. pm s (fs ! 2 + 8 * of_nat (j div 512)) = fs ! (4 + j div 512) OR 3
          \<and> pm s (fs ! (4 + j div 512) + 8 * of_nat (j mod 512)) = phys j OR 3)
     \<and> free_frames s (drop (4 + (m + 511) div 512) fs)"

lemma chunk:
  fixes m :: nat
  assumes "m mod 512 \<noteq> 0"
  shows "(m - 1) div 512 = m div 512" "(m + 512) div 512 = Suc (m div 512)" "(m + 511) div 512 = Suc (m div 512)"
proof -
  define q r where "q = m div 512" and "r = m mod 512 - 1"
  have m: "m = 512 * q + Suc r" "r < 511" using assms by (simp_all add: q_def r_def)
  have e: "m - 1 = 512 * q + r" "m + 511 = 512 * Suc q + r" "m + 512 = 512 * Suc q + Suc r" unfolding m(1) by simp_all
  have d: "(512 * q + r) div 512 = q" "(512 * Suc q + r) div 512 = Suc q" "(512 * Suc q + Suc r) div 512 = Suc q"
    using m(2) by simp_all
  show "(m - 1) div 512 = m div 512" "(m + 512) div 512 = Suc (m div 512)" "(m + 511) div 512 = Suc (m div 512)"
    by (simp_all only: e d q_def [symmetric])
qed

lemma table_entry_inj:
  assumes "distinct fs" "\<forall>f \<in> set fs. aligned f" and "i < length fs" "j < length fs" "a < 512" "b < 512"
  shows "fs ! i + 8 * of_nat a = fs ! j + 8 * of_nat b \<longleftrightarrow> i = j \<and> a = b"
proof -
  have w: "(of_nat a :: u64) < 512" "(of_nat b :: u64) < 512" using assms(5,6) by (simp_all add: word_less_nat_alt unat_of_nat)
  have "(of_nat a :: u64) = of_nat b \<longleftrightarrow> a = b" using assms(5,6) by (simp add: word_unat_eq_iff unat_of_nat)
  then show ?thesis
    using entry_inj [OF _ _ w, of "fs ! i" "fs ! j"] assms(1-4) nth_eq_iff_index_eq by auto
qed

lemma entry_OR_3:
  assumes "aligned x"
  shows "(x OR 3) AND 1 \<noteq> 0" "(x OR 3) AND validatebits = x"
proof -
  have x: "x = x AND validatebits" using assms by (simp add: aligned_def)
  have "((x AND validatebits) OR 3) AND 1 = 1" "((x AND validatebits) OR 3) AND validatebits = x AND validatebits"
    by (simp_all add: bit.conj_disj_distrib2 and.assoc) (simp_all add: validatebits_def)
  then show "(x OR 3) AND 1 \<noteq> 0" "(x OR 3) AND validatebits = x" using x by simp_all
qed

lemma pwrite_simps [simp]:
  "pm (pwrite s f i v) = (pm s)(f + 8 * i := v)" "pde (pwrite s f i v) = pde s" "pte (pwrite s f i v) = pte s"
  "free_frames (pwrite s f i v) gs = free_frames s gs" "k_cr3 (pwrite s f i v) = k_cr3 s"
  by (simp_all add: pwrite_def free_frames_def)

lemma statics_free_frames [simp]:
  "free_frames (s\<lparr>pte := x\<rparr>) gs = free_frames s gs" "free_frames (s\<lparr>pde := x\<rparr>) gs = free_frames s gs"
  "free_frames (s\<lparr>k_cr3 := x\<rparr>) gs = free_frames s gs" "free_frames (s\<lparr>pml4e := x\<rparr>) gs = free_frames s gs"
  "free_frames (s\<lparr>pdpte := x\<rparr>) gs = free_frames s gs"
  by (simp_all add: free_frames_def)

lemma map_inv_step:
  assumes inv: "map_inv fs m s" and m: "m < 2 ^ 18" and fs: "distinct fs" "\<forall>f \<in> set fs. aligned f"
    and len: "4 + (m + 512) div 512 \<le> length fs"
  shows "\<exists>s'. (if ix1 (kernbase + phys m) \<noteq> 0 then Some (pwrite s (pte s) (ix1 (kernbase + phys m)) ((phys m AND validatebits) OR 3))
           else do {
             (f, s) \<leftarrow> getFreeFrame s;
             let s = s\<lparr>pte := f\<rparr>;
             let s = pwrite s (pde s) (ix2 (kernbase + phys m)) ((f AND validatebits) OR 3);
             Some (pwrite s f (ix1 (kernbase + phys m)) ((phys m AND validatebits) OR 3))
           }) = Some s' \<and> map_inv fs (Suc m) s'"
proof -
  have ix: "ix1 (kernbase + phys m) = of_nat (m mod 512)" "ix2 (kernbase + phys m) = of_nat (m div 512)"
    using ix_direct [OF m] by (simp_all add: phys_def)
  have al: "phys m AND validatebits = phys m" using aligned_phys by (simp add: aligned_def)
  have q: "m div 512 < 512" "4 + m div 512 < length fs" using m len by auto
  note inj = table_entry_inj [OF fs]
  have lt: "j div 512 \<le> m div 512" "j mod 512 < 512" "j div 512 < 512" "4 + j div 512 < length fs" if "j < m" for j
    using that q div_le_mono [of j m 512] by simp_all
  have neq: "j div 512 = m div 512 \<Longrightarrow> j mod 512 = m mod 512 \<Longrightarrow> j = m" for j by (metis div_mult_mod_eq)
  show ?thesis
  proof (cases "m mod 512 = 0")
    case False
    have z: "(of_nat (m mod 512) :: u64) \<noteq> 0" using False by (simp add: word_unat_eq_iff unat_of_nat)
    have pq: "(m - 1) div 512 = m div 512" "(Suc m + 511) div 512 = (m + 511) div 512" using chunk [OF False] by simp_all
    have pte: "pte s = fs ! (4 + m div 512)" using inv pq(1) False by (cases m) (auto simp: map_inv_def)
    have w: "((pm s)(fs ! (4 + m div 512) + 8 * of_nat (m mod 512) := v)) (fs ! i + 8 * of_nat a)
        = (if i = 4 + m div 512 \<and> a = m mod 512 then v else pm s (fs ! i + 8 * of_nat a))"
      if "i < length fs" "a < 512" for i a v using inj [OF that(1) q(2) that(2)] by simp
    have l: "0 < length fs" "1 < length fs" "2 < length fs" "3 < length fs" using len by auto
    have "map_inv fs (Suc m) (pwrite s (pte s) (of_nat (m mod 512)) (phys m OR 3))"
      unfolding map_inv_def pwrite_simps pte
    proof (intro conjI allI impI)
      fix j assume j: "j < Suc m"
      show "((pm s)(fs ! (4 + m div 512) + 8 * of_nat (m mod 512) := phys m OR 3)) (fs ! 2 + 8 * of_nat (j div 512)) = fs ! (4 + j div 512) OR 3"
      proof (cases "j = m")
        case True
        have "m - 1 < m" using False by (cases m) auto
        then have "pm s (fs ! 2 + 8 * of_nat ((m - 1) div 512)) = fs ! (4 + (m - 1) div 512) OR 3"
          using inv by (simp add: map_inv_def)
        then show ?thesis using True w [of 2] l q pq(1) by simp
      next
        case False
        then have jm: "j < m" using j by simp
        then show ?thesis using inv lt [OF jm] w [of 2] l by (simp add: map_inv_def)
      qed
      show "((pm s)(fs ! (4 + m div 512) + 8 * of_nat (m mod 512) := phys m OR 3))
             (fs ! (4 + j div 512) + 8 * of_nat (j mod 512)) = phys j OR 3"
      proof (cases "j = m")
        case True
        then show ?thesis by simp
      next
        case False
        then have jm: "j < m" using j by simp
        then show ?thesis using inv neq [of j] lt [OF jm] w by (auto simp: map_inv_def)
      qed
    qed (use inv w [of 0 511] w [of 1 510] l pq in \<open>simp_all add: map_inv_def del: fun_upd_apply\<close>)
    then show ?thesis using z by (simp add: ix al)
  next
    case True
    define q where "q = m div 512"
    have m': "m = 512 * q" using True mult_div_mod_eq [of 512 m] unfolding q_def by linarith
    have cnt: "(m + 511) div 512 = q" "(Suc m + 511) div 512 = Suc q" "Suc m - 1 = m" "m div 512 = q" using m' by simp_all
    have ff: "free_frames s (fs ! (4 + q) # drop (4 + Suc q) fs)"
      using inv Cons_nth_drop_Suc [of "4 + q" fs] q(2) unfolding map_inv_def cnt by simp
    obtain s1 where s1: "getFreeFrame s = Some (fs ! (4 + q), s1)" "free_frames s1 (drop (4 + Suc q) fs)" "pm s1 = pm s" "pde s1 = pde s"
      using getFreeFrame_cons [OF ff] by blast
    have z: "ix1 (kernbase + phys m) = of_nat 0" "ix2 (kernbase + phys m) = of_nat q" using True cnt ix by simp_all
    define s2 where "s2 = pwrite (pwrite (s1\<lparr>pte := fs ! (4 + q)\<rparr>) (fs ! 2) (of_nat q) (fs ! (4 + q) OR 3)) (fs ! (4 + q)) (of_nat 0) (phys m OR 3)"
    have l: "0 < length fs" "1 < length fs" "2 < length fs" "3 < length fs" using len by auto
    have qq: "q < 512" "4 + q < length fs" using q cnt by simp_all
    have w: "pm s2 (fs ! i + 8 * of_nat a) = (if i = 4 + q \<and> a = 0 then phys m OR 3
        else if i = 2 \<and> a = q then fs ! (4 + q) OR 3 else pm s (fs ! i + 8 * of_nat a))"
      if "i < length fs" "a < 512" for i a
      using inj [OF that(1) l(3) that(2) qq(1)] inj [OF that(1) qq(2) that(2), of 0]
      unfolding s2_def pwrite_simps by (simp add: s1(3))
    have pde: "pde s = fs ! 2" using inv by (simp add: map_inv_def)
    have al': "fs ! (4 + q) AND validatebits = fs ! (4 + q)" using fs(2) nth_mem [OF qq(2)] by (simp add: aligned_def)
    have "map_inv fs (Suc m) s2"
      unfolding map_inv_def
    proof (intro conjI allI impI)
      show "pm s2 (fs ! 0 + 8 * of_nat 511) = fs ! 1 OR 3" "pm s2 (fs ! 1 + 8 * of_nat 510) = fs ! 2 OR 3"
        using inv w [of 0 511] w [of 1 510] l by (simp_all add: map_inv_def)
      show "pde s2 = fs ! 2" using pde s1(4) by (simp add: s2_def)
      show "pte s2 = (if Suc m = 0 then fs ! 3 else fs ! (4 + (Suc m - 1) div 512))"
        using cnt by (simp add: s2_def)
      show "free_frames s2 (drop (4 + (Suc m + 511) div 512) fs)" using s1(2) cnt by (simp add: s2_def)
      fix j assume j: "j < Suc m"
      show "pm s2 (fs ! 2 + 8 * of_nat (j div 512)) = fs ! (4 + j div 512) OR 3"
      proof (cases "j = m")
        case False
        then have jm: "j < m" using j by simp
        then have "j div 512 \<noteq> q" using m' by auto
        then show ?thesis using w [of 2 "j div 512"] lt [OF jm] l inv jm by (simp add: map_inv_def)
      qed (use w [of 2 q] l qq cnt in simp)
      show "pm s2 (fs ! (4 + j div 512) + 8 * of_nat (j mod 512)) = phys j OR 3"
      proof (cases "j = m")
        case False
        then have jm: "j < m" using j by simp
        then have "j div 512 \<noteq> q" using m' by auto
        then show ?thesis using w [of "4 + j div 512" "j mod 512"] lt [OF jm] inv jm by (simp add: map_inv_def)
      qed (use w [of "4 + q" 0] qq cnt True in simp)
    qed
    then show ?thesis using s1(1,4) pde al al' by (simp add: z s2_def)
  qed
qed

text \<open>The upper tables lead nowhere else than to the table frames \<open>A\<close>.\<close>

definition upper :: "u64 set \<Rightarrow> u64 list \<Rightarrow> (u64 \<Rightarrow> u64) \<Rightarrow> bool" where
  "upper A fs m \<longleftrightarrow> (\<forall>i < 512. m (fs ! 1 + 8 * i) AND 1 \<noteq> 0 \<longrightarrow> m (fs ! 1 + 8 * i) AND validatebits = fs ! 2)
     \<and> (\<forall>i < 512. m (fs ! 2 + 8 * i) AND 1 \<noteq> 0 \<longrightarrow> m (fs ! 2 + 8 * i) AND validatebits \<in> A)"

lemma upper_write:
  assumes "upper A fs m" and fs: "distinct fs" "\<forall>f \<in> set fs. aligned f" and j: "j < length fs" "3 \<le> length fs" "i < 512"
    and v: "j = 1 \<longrightarrow> v AND validatebits = fs ! 2" "j = 2 \<longrightarrow> v AND validatebits \<in> A"
  shows "upper A fs (m(fs ! j + 8 * i := v))"
proof -
  have inj: "fs ! k + 8 * l = fs ! j + 8 * i \<longleftrightarrow> k = j \<and> l = i" if "k < length fs" "l < 512" for k l
    using entry_inj [of "fs ! k" "fs ! j" l i] fs that j nth_eq_iff_index_eq [OF fs(1)] by auto
  show ?thesis using assms(1) inj [of 1] inj [of 2] j(2) v unfolding upper_def by auto
qed

lemma upper_step:
  assumes inv: "map_inv fs m s" and up: "upper A fs (pm s)" and m: "m < 2 ^ 18" and fs: "distinct fs" "\<forall>f \<in> set fs. aligned f"
    and len: "4 + (m + 512) div 512 \<le> length fs" and A: "fs ! (4 + m div 512) \<in> A"
    and run: "(if ix1 (kernbase + phys m) \<noteq> 0 then Some (pwrite s (pte s) (ix1 (kernbase + phys m)) ((phys m AND validatebits) OR 3))
           else do {
             (f, s) \<leftarrow> getFreeFrame s;
             let s = s\<lparr>pte := f\<rparr>;
             let s = pwrite s (pde s) (ix2 (kernbase + phys m)) ((f AND validatebits) OR 3);
             Some (pwrite s f (ix1 (kernbase + phys m)) ((phys m AND validatebits) OR 3))
           }) = Some s'"
  shows "upper A fs (pm s')"
proof -
  have ix: "ix1 (kernbase + phys m) = of_nat (m mod 512)" using ix_direct [OF m] by (simp add: phys_def)
  have q: "4 + m div 512 < length fs" using len by simp
  show ?thesis
  proof (cases "m mod 512 = 0")
    case False
    have "pte s = fs ! (4 + m div 512)" using inv chunk(1) [OF False] False by (cases m) (auto simp: map_inv_def)
    moreover have "s' = pwrite s (pte s) (of_nat (m mod 512)) ((phys m AND validatebits) OR 3)"
      using run False unfolding ix by (simp add: word_unat_eq_iff unat_of_nat)
    moreover have "(of_nat (m mod 512) :: u64) < 512" by (simp add: word_less_nat_alt unat_of_nat)
    ultimately show ?thesis using upper_write [OF up fs q] q by simp
  next
    case True
    define q where "q = m div 512"
    have m': "m = 512 * q" using True mult_div_mod_eq [of 512 m] unfolding q_def by linarith
    have "(m + 511) div 512 = m div 512" using m' by simp
    then have ff: "free_frames s (fs ! (4 + m div 512) # drop (Suc (4 + m div 512)) fs)"
      using inv q Cons_nth_drop_Suc [of "4 + m div 512" fs] unfolding map_inv_def by simp
    obtain s1 where s1: "getFreeFrame s = Some (fs ! (4 + m div 512), s1)" "pm s1 = pm s" "pde s1 = pde s"
      using getFreeFrame_cons [OF ff] by blast
    have al: "fs ! (4 + m div 512) AND validatebits = fs ! (4 + m div 512)" using fs(2) nth_mem [OF q] by (simp add: aligned_def)
    have pm: "pm s' = (pm s)(fs ! 2 + 8 * ix2 (kernbase + phys m) := fs ! (4 + m div 512) OR 3,
        fs ! (4 + m div 512) + 8 * ix1 (kernbase + phys m) := (phys m AND validatebits) OR 3)"
      using run s1 True inv al ix by (auto simp: map_inv_def)
    show ?thesis unfolding pm
      using q A entry_OR_3(2) [of "fs ! (4 + m div 512)"] fs(2) nth_mem [OF q] by (intro upper_write fs up) auto
  qed
qed

lemma setup_loop_map:
  assumes fs: "distinct fs" "\<forall>f \<in> set fs. aligned f" and len: "4 + (n + 511) div 512 \<le> length fs" and n: "n < 2 ^ 18"
    and A: "\<forall>j < n. fs ! (4 + j div 512) \<in> A"
  shows "map_inv fs m s \<Longrightarrow> m \<le> n \<Longrightarrow>
    \<exists>s'. setup_loop (kernbase + phys m) (phys m) (phys n) s = Some (kernbase + phys n, s') \<and> map_inv fs n s'
      \<and> (upper A fs (pm s) \<longrightarrow> upper A fs (pm s'))"
proof (induction "n - m" arbitrary: m s)
  case 0
  then show ?case by (simp add: setup_loop.simps)
next
  case (Suc d)
  then have m: "m < n" "m < 2 ^ 18" using n by simp_all
  have "(m + 512) div 512 \<le> (n + 511) div 512" using m(1) by (intro div_le_mono) simp
  then have "4 + (m + 512) div 512 \<le> length fs" using len by simp
  from map_inv_step [OF Suc.prems(1) m(2) fs this] obtain s1 where s1:
    "(if ix1 (kernbase + phys m) \<noteq> 0 then Some (pwrite s (pte s) (ix1 (kernbase + phys m)) ((phys m AND validatebits) OR 3))
           else do {
             (f, s) \<leftarrow> getFreeFrame s;
             let s = s\<lparr>pte := f\<rparr>;
             let s = pwrite s (pde s) (ix2 (kernbase + phys m)) ((f AND validatebits) OR 3);
             Some (pwrite s f (ix1 (kernbase + phys m)) ((phys m AND validatebits) OR 3))
           }) = Some s1" "map_inv fs (Suc m) s1" by blast
  have up: "upper A fs (pm s) \<longrightarrow> upper A fs (pm s1)"
    using upper_step [OF Suc.prems(1) _ m(2) fs \<open>4 + (m + 512) div 512 \<le> length fs\<close> _ s1(1)] A m(1) by blast
  have "d = n - Suc m" "Suc m \<le> n" using Suc.hyps(2) m by simp_all
  from Suc.hyps(1) [OF this(1) s1(2) this(2)] obtain s' where s':
    "setup_loop (kernbase + phys (Suc m)) (phys (Suc m)) (phys n) s1 = Some (kernbase + phys n, s')" "map_inv fs n s'" "upper A fs (pm s1) \<longrightarrow> upper A fs (pm s')" by blast
  have less: "phys m < phys n" using phys_less [OF m(2) n] m(1) by simp
  have next': "kernbase + phys m + pageSize = kernbase + phys (Suc m)" by (simp add: phys_Suc [symmetric] add.assoc)
  have "setup_loop (kernbase + phys m) (phys m) (phys n) s = Some (kernbase + phys n, s')"
    using less by (subst setup_loop.simps) (simp only: if_True s1(1) bind.bind_lunit next' phys_Suc s'(1))
  then show ?case using s'(2,3) up by blast
qed


section \<open>The direct map\<close>

lemma map_translate:
  assumes "aligned p3" "aligned p2" "aligned T" "aligned e" and "j < 2 ^ 18"
    and "m (p4 + 8 * of_nat 511) = p3 OR 3" "m (p3 + 8 * of_nat 510) = p2 OR 3"
    and "m (p2 + 8 * of_nat (j div 512)) = T OR 3" "m (T + 8 * of_nat (j mod 512)) = e OR 3"
  shows "translate m p4 (kernbase + phys j) = Some (e OR 3)"
  using assms entry_OR_3 ix_direct [OF assms(5)]
  by (simp add: translate_def path_def phys_def [symmetric])

lemma less_phys:
  assumes "aligned f" "f < phys n" "n < 2 ^ 18"
  obtains j where "j < n" "f = phys j"
proof -
  obtain j where j: "unat f = 4096 * j" using aligned_dvd [OF assms(1)] unfolding dvd_def by blast
  have "unat f < 4096 * n" using assms(2) unat_phys [OF assms(3)] by (simp add: word_less_nat_alt)
  then have "j < n" using j by simp
  moreover have "f = phys j" using j unat_phys [of j] calculation assms(3) by (simp add: word_unat_eq_iff)
  ultimately show thesis by (rule that)
qed

lemma setup_start:
  assumes ff: "free_frames s fs" and fs: "distinct fs" "\<forall>f \<in> set fs. aligned f" and len: "4 \<le> length fs"
  shows "\<exists>s0. map_inv fs 0 s0 \<and> pm s0 = (pm s)(fs ! 0 + 8 * of_nat 511 := fs ! 1 OR 3, fs ! 1 + 8 * of_nat 510 := fs ! 2 OR 3,
       fs ! 2 + 8 * of_nat 0 := fs ! 3 OR 3) \<and> setupPageTables 0 physfree s = do {
     (virt, s) \<leftarrow> setup_loop kernbase 0 physfree s0;
     let (a4, s) = mapCurrentPageTable virt 1 (fs ! 0) (s\<lparr>k_cr3 := fs ! 0\<rparr>);
     let (a3, s) = mapCurrentPageTable virt 2 (fs ! 1) s;
     let (a2, s) = mapCurrentPageTable virt 3 (fs ! 2) s;
     let (a1, s) = mapCurrentPageTable virt 4 (pte s) s;
     Some (s\<lparr>pml4e := kernbase + fs ! 0, pdpte := kernbase + fs ! 1, pde := kernbase + fs ! 2,
             pte := kernbase + pte s\<rparr>, [a4, a3, a2, a1])
   }"
proof -
  obtain f0 f1 f2 f3 gs where F: "fs = f0 # f1 # f2 # f3 # gs"
    using len by (auto simp: numeral_eq_Suc Suc_le_length_iff)
  have al: "f1 AND validatebits = f1" "f2 AND validatebits = f2" "f3 AND validatebits = f3"
    using fs(2) F by (simp_all add: aligned_def)
  have kx: "ix4 kernbase = of_nat 511" "ix3 kernbase = of_nat 510" "ix2 kernbase = of_nat 0"
    by (simp_all add: ix4_def ix3_def ix2_def kernbase_def)
  obtain s1 where s1: "getFreeFrame s = Some (f0, s1)" "free_frames s1 (f1 # f2 # f3 # gs)" "pm s1 = pm s"
    using getFreeFrame_cons [OF ff [unfolded F]] by blast
  obtain s2 where s2: "getFreeFrame s1 = Some (f1, s2)" "free_frames s2 (f2 # f3 # gs)" "pm s2 = pm s1"
    using getFreeFrame_cons [OF s1(2)] by blast
  have pm12: "pm s2 = pm s" using s1(3) s2(3) by simp
  define s3 where "s3 = pwrite s2 f0 (of_nat 511) (f1 OR 3)"
  have "free_frames s3 (f2 # f3 # gs)" using s2(2) by (simp add: s3_def)
  from getFreeFrame_cons [OF this] obtain s4 where s4: "getFreeFrame s3 = Some (f2, s4)" "free_frames s4 (f3 # gs)" "pm s4 = pm s3"
    by blast
  define s5 where "s5 = pwrite s4 f1 (of_nat 510) (f2 OR 3)"
  have "free_frames s5 (f3 # gs)" using s4(2) by (simp add: s5_def)
  from getFreeFrame_cons [OF this] obtain s6 where s6: "getFreeFrame s5 = Some (f3, s6)" "free_frames s6 gs" "pm s6 = pm s5"
    by blast
  define s0 where "s0 = (pwrite s6 f2 (of_nat 0) (f3 OR 3))\<lparr>pde := f2, pte := f3\<rparr>"
  note inj = table_entry_inj [OF fs]
  have m0: "pm s0 (fs ! 0 + 8 * of_nat 511) = fs ! 1 OR 3" "pm s0 (fs ! 1 + 8 * of_nat 510) = fs ! 2 OR 3"
    using inj [of 0 1 511 510] inj [of 0 2 511 0] inj [of 1 2 510 0] inj [of 1 0 510 511] F
    by (simp_all add: s0_def s6(3) s5_def s4(3) s3_def)
  have "map_inv fs 0 s0"
    unfolding map_inv_def using m0 s6(2) F by (simp add: s0_def)
  moreover have nth: "fs ! 0 = f0" "fs ! 1 = f1" "fs ! 2 = f2" "fs ! 3 = f3" using F by (simp_all add: numeral_3_eq_3)
  moreover have "pm s0 = (pm s)(f0 + 8 * of_nat 511 := f1 OR 3, f1 + 8 * of_nat 510 := f2 OR 3, f2 + 8 * of_nat 0 := f3 OR 3)"
    using pm12 by (simp add: s0_def s6(3) s5_def s4(3) s3_def)
  ultimately show ?thesis
    by (intro exI [of _ s0] conjI)
      (simp_all only: setupPageTables_def Let_def s1(1) s2(1) bind.bind_lunit prod.case kx al s3_def [symmetric] s4(1)
        s5_def [symmetric] s6(1) s0_def nth)
qed

text \<open>The four entries behind the map, in the last page table, and the state at the end.\<close>

definition back_entries :: "u64 list \<Rightarrow> nat \<Rightarrow> (u64 \<Rightarrow> u64) \<Rightarrow> u64 \<Rightarrow> u64" where
  "back_entries fs n m =
     (let T = fs ! (4 + n div 512); r = n mod 512
      in m(T + 8 * of_nat (r + 1) := fs ! 0 OR 3, T + 8 * of_nat (r + 2) := fs ! 1 OR 3,
           T + 8 * of_nat (r + 3) := fs ! 2 OR 3, T + 8 * of_nat (r + 4) := T OR 3))"

definition final_state :: "u64 list \<Rightarrow> nat \<Rightarrow> paging \<Rightarrow> paging" where
  "final_state fs n s1 = s1\<lparr>k_cr3 := fs ! 0, pm := back_entries fs n (pm s1), pml4e := kernbase + fs ! 0,
     pdpte := kernbase + fs ! 1, pde := kernbase + fs ! 2, pte := kernbase + fs ! (4 + n div 512)\<rparr>"

text \<open>The page \<open>k\<close> places behind the map.\<close>

definition behind :: "nat \<Rightarrow> nat \<Rightarrow> u64" where
  "behind n k = kernbase + phys (n + k)"

text \<open>The sizes for which the map works.\<close>

definition boot_pages :: "u64 list \<Rightarrow> nat \<Rightarrow> bool" where
  "boot_pages fs n \<longleftrightarrow> distinct fs \<and> (\<forall>f \<in> set fs. aligned f) \<and> n < 2 ^ 18 \<and> 1 \<le> n mod 512 \<and> n mod 512 + 4 < 512
     \<and> 5 + n div 512 \<le> length fs"

lemma boot_pagesD:
  assumes "boot_pages fs n"
  shows "distinct fs" "\<forall>f \<in> set fs. aligned f" "n < 2 ^ 18" "n mod 512 \<noteq> 0" "n mod 512 + 4 < 512" "5 + n div 512 \<le> length fs"
    "n div 512 < 512" "4 + n div 512 < length fs" "(n - 1) div 512 = n div 512" "4 + (n + 511) div 512 = 5 + n div 512" "n \<noteq> 0"
    "i \<in> {0, 1, 2, 4 + n div 512} \<Longrightarrow> i < length fs"
proof -
  show f: "distinct fs" "\<forall>f \<in> set fs. aligned f" "n < 2 ^ 18" "n mod 512 \<noteq> 0" "n mod 512 + 4 < 512" "5 + n div 512 \<le> length fs"
    using assms by (auto simp: boot_pages_def)
  show "n div 512 < 512" "4 + n div 512 < length fs" using f(3,6) by auto
  show "(n - 1) div 512 = n div 512" "4 + (n + 511) div 512 = 5 + n div 512" using chunk [OF f(4)] by simp_all
  show "n \<noteq> 0" using f(4) by auto
  show "i \<in> {0, 1, 2, 4 + n div 512} \<Longrightarrow> i < length fs" using f(6) by auto
qed

lemma boot_page_aligned: "boot_pages fs n \<Longrightarrow> i < length fs \<Longrightarrow> aligned (fs ! i)"
  using boot_pagesD(2) nth_mem by blast

lemma behind_index:
  assumes "boot_pages fs n" "k \<le> 4"
  shows "n + k < 2 ^ 18" "(n + k) div 512 = n div 512" "(n + k) mod 512 = n mod 512 + k"
proof -
  let ?q = "n div 512" and ?r = "n mod 512"
  have k: "?r + k < 512" using assms(2) boot_pagesD(5) [OF assms(1)] by simp
  have e: "n + k = 512 * ?q + (?r + k)" by simp
  have g: "(512 * q + x) div 512 = q \<and> (512 * q + x) mod 512 = x" if "x < 512" for q x :: nat using that by simp
  show "(n + k) div 512 = ?q" "(n + k) mod 512 = ?r + k" using g [OF k, of ?q] by (simp_all only: e)
  have "n + k < 512 * 512" using e k boot_pagesD(7) [OF assms(1)] by linarith
  then show "n + k < 2 ^ 18" by simp
qed

text \<open>What the four entries hold, and that they touch no entry of the map.\<close>

lemma back_entries_at:
  assumes b: "boot_pages fs n" and k: "1 \<le> k" "k \<le> 4"
  shows "back_entries fs n m (fs ! (4 + n div 512) + 8 * of_nat (n mod 512 + k)) = fs ! ([0, 1, 2, 4 + n div 512] ! (k - 1)) OR 3"
proof -
  let ?r = "n mod 512" and ?T = "4 + n div 512"
  note inj = table_entry_inj [OF boot_pagesD(1,2) [OF b] boot_pagesD(8) [OF b] boot_pagesD(8) [OF b]]
  have "k = 1 \<or> k = 2 \<or> k = 3 \<or> k = 4" using k by auto
  then show ?thesis
    using inj [of "?r + 1" "?r + 2"] inj [of "?r + 1" "?r + 3"] inj [of "?r + 1" "?r + 4"]
      inj [of "?r + 2" "?r + 3"] inj [of "?r + 2" "?r + 4"] inj [of "?r + 3" "?r + 4"] boot_pagesD(5) [OF b]
    by (auto simp: back_entries_def Let_def simp del: of_nat_add)
qed

lemma back_entries_other:
  assumes b: "boot_pages fs n" and i: "i < length fs" "a < 512" "i \<noteq> 4 + n div 512 \<or> a \<le> n mod 512"
  shows "back_entries fs n m (fs ! i + 8 * of_nat a) = m (fs ! i + 8 * of_nat a)"
proof -
  let ?r = "n mod 512"
  note inj = table_entry_inj [OF boot_pagesD(1,2) [OF b] i(1) boot_pagesD(8) [OF b] i(2)]
  show ?thesis
    using inj [of "?r + 1"] inj [of "?r + 2"] inj [of "?r + 3"] inj [of "?r + 4"] i(3) boot_pagesD(5) [OF b]
    by (auto simp: back_entries_def Let_def simp del: of_nat_add)
qed

lemma setup_run:
  assumes ff: "free_frames s fs" and b: "boot_pages fs n" and A: "set (take (5 + n div 512) fs) \<subseteq> A"
  shows "\<exists>s1. setupPageTables 0 (phys n) s = Some (final_state fs n s1, [behind n 1, behind n 2, behind n 3, behind n 4])
    \<and> map_inv fs n s1 \<and> ((\<forall>f \<in> set fs. \<forall>i < 512. pm s (f + 8 * i) = 0) \<longrightarrow> upper A fs (pm s1))"
proof -
  let ?q = "n div 512" and ?T = "fs ! (4 + n div 512)"
  note fs = boot_pagesD(1,2) [OF b] and l = boot_pagesD(12) [OF b]
  have len4: "4 \<le> length fs" using boot_pagesD(6) [OF b] by simp
  obtain s0 where s0: "map_inv fs 0 s0"
    "pm s0 = (pm s)(fs ! 0 + 8 * of_nat 511 := fs ! 1 OR 3, fs ! 1 + 8 * of_nat 510 := fs ! 2 OR 3, fs ! 2 + 8 * of_nat 0 := fs ! 3 OR 3)"
    "setupPageTables 0 (phys n) s = do {
     (virt, s) \<leftarrow> setup_loop kernbase 0 (phys n) s0;
     let (a4, s) = mapCurrentPageTable virt 1 (fs ! 0) (s\<lparr>k_cr3 := fs ! 0\<rparr>);
     let (a3, s) = mapCurrentPageTable virt 2 (fs ! 1) s;
     let (a2, s) = mapCurrentPageTable virt 3 (fs ! 2) s;
     let (a1, s) = mapCurrentPageTable virt 4 (pte s) s;
     Some (s\<lparr>pml4e := kernbase + fs ! 0, pdpte := kernbase + fs ! 1, pde := kernbase + fs ! 2,
             pte := kernbase + pte s\<rparr>, [a4, a3, a2, a1])
   }"
    using setup_start [OF ff fs len4] by blast
  have in_A: "fs ! j \<in> A" if "j < 5 + ?q" for j
  proof -
    have "j < length (take (5 + ?q) fs)" using that boot_pagesD(6) [OF b] by simp
    then have "take (5 + ?q) fs ! j \<in> set (take (5 + ?q) fs)" by (rule nth_mem)
    then show ?thesis using A that by auto
  qed
  have "fs ! (4 + j div 512) \<in> A" if "j < n" for j using that div_le_mono [of j n 512] by (intro in_A) simp
  then obtain s1 where s1: "setup_loop kernbase 0 (phys n) s0 = Some (kernbase + phys n, s1)" "map_inv fs n s1"
      "upper A fs (pm s0) \<longrightarrow> upper A fs (pm s1)"
    using setup_loop_map [OF fs _ boot_pagesD(3) [OF b] _ s0(1)] boot_pagesD(6,10) [OF b] by (auto simp: phys_def)
  have pte1: "pte s1 = ?T" using s1(2) boot_pagesD(9,11) [OF b] by (simp add: map_inv_def)
  have al: "fs ! i AND validatebits = fs ! i" if "i \<in> {0, 1, 2, 4 + ?q}" for i
    using boot_page_aligned [OF b l [OF that]] by (simp add: aligned_def)
  have ak: "kernbase + phys n + of_nat k * pageSize = behind n k" for k
    by (simp add: behind_def phys_def pageSize_def algebra_simps)
  have ixa: "ix1 (behind n k) = of_nat (n mod 512 + k)" if "k \<le> 4" for k
    using ix_direct(1) [OF behind_index(1) [OF b that]] behind_index(3) [OF b that] by (simp add: behind_def phys_def)
  have run: "setupPageTables 0 (phys n) s = Some (final_state fs n s1, [behind n 1, behind n 2, behind n 3, behind n 4])"
    unfolding s0(3) s1(1) bind.bind_lunit prod.case
    using ak [of 1] ak [of 2] ak [of 3] ak [of 4] ixa [of 1] ixa [of 2] ixa [of 3] ixa [of 4] al [of 0] al [of 1] al [of 2] al [of "4 + ?q"]
    by (simp add: mapCurrentPageTable_def Let_def pte1 final_state_def back_entries_def pwrite_def del: of_nat_add One_nat_def)
  have "upper A fs (pm s0)" if z: "\<forall>f \<in> set fs. \<forall>i < 512. pm s (f + 8 * i) = 0"
  proof -
    have u: "upper A fs (pm s)" using z nth_mem [OF l [of 1]] nth_mem [OF l [of 2]] by (simp add: upper_def)
    have v: "(fs ! 2 OR 3) AND validatebits = fs ! 2" "(fs ! 3 OR 3) AND validatebits = fs ! 3"
      using entry_OR_3(2) boot_page_aligned [OF b] len4 by auto
    have w: "(of_nat 511 :: u64) < 512" "(of_nat 510 :: u64) < 512" "(of_nat 0 :: u64) < 512" by simp_all
    have l3: "0 < length fs" "1 < length fs" "2 < length fs" "3 \<le> length fs" using len4 by auto
    show ?thesis unfolding s0(2)
      using v in_A [of 3] by (intro upper_write [OF _ fs] l3 w u) auto
  qed
  then show ?thesis using run s1(2,3) by blast
qed

text \<open>Every page of physical memory is mapped.\<close>

lemma final_pages:
  assumes b: "boot_pages fs n" and inv: "map_inv fs n s1" and j: "j < n"
  shows "translate (pm (final_state fs n s1)) (fs ! 0) (kernbase + phys j) = Some (phys j OR 3)"
proof -
  let ?M = "back_entries fs n (pm s1)"
  have l: "0 < length fs" "1 < length fs" "2 < length fs" using boot_pagesD(6) [OF b] by auto
  have jd: "j div 512 \<le> n div 512" using j by (simp add: div_le_mono)
  have le: "4 + j div 512 \<noteq> 4 + n div 512 \<or> j mod 512 \<le> n mod 512"
  proof (cases "j div 512 = n div 512")
    case True
    have "j = 512 * (j div 512) + j mod 512" "n = 512 * (n div 512) + n mod 512" by simp_all
    then show ?thesis using True j by linarith
  qed simp
  have "?M (fs ! 0 + 8 * of_nat 511) = fs ! 1 OR 3" "?M (fs ! 1 + 8 * of_nat 510) = fs ! 2 OR 3"
    "?M (fs ! 2 + 8 * of_nat (j div 512)) = fs ! (4 + j div 512) OR 3"
    "?M (fs ! (4 + j div 512) + 8 * of_nat (j mod 512)) = phys j OR 3"
    using back_entries_other [OF b, of 0 511] back_entries_other [OF b, of 1 510] back_entries_other [OF b, of 2 "j div 512"]
      back_entries_other [OF b, of "4 + j div 512" "j mod 512"] inv j jd le l boot_pagesD(7,8) [OF b] by (auto simp: map_inv_def)
  then show ?thesis
    using jd l j boot_pagesD(3,8) [OF b] boot_page_aligned [OF b] aligned_phys
    by (intro map_translate [where T = "fs ! (4 + j div 512)"]) (auto simp: final_state_def)
qed

lemma final_behind:
  assumes b: "boot_pages fs n" and inv: "map_inv fs n s1" and k: "1 \<le> k" "k \<le> 4"
  shows "translate (pm (final_state fs n s1)) (fs ! 0) (behind n k) = Some (fs ! ([0, 1, 2, 4 + n div 512] ! (k - 1)) OR 3)"
proof -
  let ?M = "back_entries fs n (pm s1)" and ?q = "n div 512"
  have l: "0 < length fs" "1 < length fs" "2 < length fs" using boot_pagesD(6) [OF b] by auto
  have e: "aligned (fs ! ([0, 1, 2, 4 + ?q] ! (k - 1)))"
  proof -
    have "k = 1 \<or> k = 2 \<or> k = 3 \<or> k = 4" using k by auto
    then show ?thesis using boot_page_aligned [OF b] l boot_pagesD(8) [OF b] by auto
  qed
  have "n - 1 < n" using boot_pagesD(11) [OF b] by simp
  then have "pm s1 (fs ! 2 + 8 * of_nat ?q) = fs ! (4 + ?q) OR 3"
    using inv boot_pagesD(9) [OF b] by (auto simp: map_inv_def)
  then have "?M (fs ! 0 + 8 * of_nat 511) = fs ! 1 OR 3" "?M (fs ! 1 + 8 * of_nat 510) = fs ! 2 OR 3"
    "?M (fs ! 2 + 8 * of_nat ?q) = fs ! (4 + ?q) OR 3"
    using back_entries_other [OF b, of 0 511] back_entries_other [OF b, of 1 510] back_entries_other [OF b, of 2 ?q]
      inv l boot_pagesD(7) [OF b] by (auto simp: map_inv_def)
  moreover note back_entries_at [OF b k, of "pm s1"]
  ultimately show ?thesis unfolding behind_def
    using behind_index [OF b k(2)] boot_page_aligned [OF b] l boot_pagesD(8) [OF b] e
    by (intro map_translate [where T = "fs ! (4 + ?q)"]) (auto simp: final_state_def)
qed

lemma final_kernel_map:
  assumes b: "boot_pages fs n" and inv: "map_inv fs n s1"
  shows "kernel_map (final_state fs n s1) (phys n)"
  unfolding kernel_map_def
proof (intro conjI allI impI)
  have l: "0 < length fs" "1 < length fs" using boot_pagesD(6) [OF b] by auto
  have "back_entries fs n (pm s1) (fs ! 0 + 8 * of_nat 511) = fs ! 1 OR 3"
    using back_entries_other [OF b, of 0 511] l inv by (simp add: map_inv_def)
  then show "pdpte (final_state fs n s1) = kernbase + (pm (final_state fs n s1) (k_cr3 (final_state fs n s1) + 8 * 511) AND validatebits)"
    using entry_OR_3 [OF boot_page_aligned [OF b l(2)]] by (simp add: final_state_def)
  fix f assume "aligned f" "f < phys n"
  then obtain j where j: "j < n" "f = phys j" using less_phys boot_pagesD(3) [OF b] by blast
  have "j < 2 ^ 18" using j boot_pagesD(3) [OF b] by simp
  then show "ix4 (kernbase + f) = 511" using ix_direct(4) j(2) by (simp add: phys_def)
  show "translate (pm (final_state fs n s1)) (k_cr3 (final_state fs n s1)) (kernbase + f) = Some (f OR 3)"
    using final_pages [OF b inv j(1)] j(2) by (simp add: final_state_def)
qed (simp add: final_state_def)

text \<open>C14: at boot, with \<open>n\<close> pages of physical memory (less than 1 GB, at least one and at most 507 of them in
  the last page table) and enough frames on the free list, \<open>setupPageTables\<close> builds the direct
  map: every page of physical memory is mapped at \<open>kernbase\<close> plus its address, in tables the
  statics point to, and the four pages behind it map the four table frames whose addresses the C
  statics get. It takes four frames and one for every 512 pages, of which the fourth is not used.\<close>

theorem setupPageTables_direct_map:
  assumes ff: "free_frames s fs" and fs: "distinct fs" "\<forall>f \<in> set fs. aligned f"
    and n: "n < 2 ^ 18" "1 \<le> n mod 512" "n mod 512 + 4 < 512" and len: "5 + n div 512 \<le> length fs"
  shows "\<exists>s' as. setupPageTables 0 (4096 * of_nat n) s = Some (s', as)
    \<and> kernel_map s' (4096 * of_nat n) \<and> k_cr3 s' = fs ! 0 \<and> free_frames s' (drop (5 + n div 512) fs)
    \<and> length as = 4 \<and> (\<forall>i < 4. as ! i = kernbase + 4096 * of_nat (n + 1 + i)
         \<and> translate (pm s') (k_cr3 s') (as ! i) = Some (fs ! ([0, 1, 2, 4 + n div 512] ! i) OR 3))"
proof -
  have b: "boot_pages fs n" using fs n len by (simp add: boot_pages_def)
  from setup_run [OF ff b, of UNIV] obtain s1 where
    s1: "setupPageTables 0 (phys n) s = Some (final_state fs n s1, [behind n 1, behind n 2, behind n 3, behind n 4])" "map_inv fs n s1" by blast
  have "free_frames (final_state fs n s1) (drop (5 + n div 512) fs)"
    using s1(2) boot_pagesD(10) [OF b] by (simp add: map_inv_def final_state_def free_frames_def)
  moreover have "[behind n 1, behind n 2, behind n 3, behind n 4] ! i = behind n (Suc i)" if "i < 4" for i
    using that by (auto simp: numeral_eq_Suc less_Suc_eq)
  moreover have "behind n (Suc i) = kernbase + 4096 * of_nat (n + 1 + i)" for i by (simp add: behind_def phys_def)
  ultimately show ?thesis
    using s1(1) final_kernel_map [OF b s1(2)] final_behind [OF b s1(2), of "Suc _"]
    by (intro exI [of _ "final_state fs n s1"] exI [of _ "[behind n 1, behind n 2, behind n 3, behind n 4]"])
      (auto simp: final_state_def phys_def simp del: of_nat_add of_nat_Suc)
qed

text \<open>Eight pages of memory at most, and five free frames.\<close>

definition boot_paging :: paging where
  "boot_paging = paging0\<lparr>head := Some 1, pagelist :=
     (\<lambda>i. \<lparr>address = of_nat i * pageSize, ref_count = 0, next_node = (if i < 5 then Some (Suc i) else None)\<rparr>)\<rparr>"

lemma boot_paging_free: "free_frames boot_paging [0x1000, 0x2000, 0x3000, 0x4000, 0x5000]"
proof -
  have "chain (pagelist boot_paging) (head boot_paging) [1, 2, 3, 4, 5]" by (simp add: boot_paging_def)
  then show ?thesis
    unfolding free_frames_def by (intro exI [of _ "[1, 2, 3, 4, 5]"]) (simp add: boot_paging_def pageSize_def)
qed

theorem setupPageTables_direct_map_witness:
  "\<exists>s' as. setupPageTables 0 0x8000 boot_paging = Some (s', as) \<and> kernel_map s' 0x8000
     \<and> translate (pm s') (k_cr3 s') (as ! 0) = Some 0x1003"
proof -
  obtain s' as where s': "setupPageTables 0 0x8000 boot_paging = Some (s', as)" "kernel_map s' 0x8000"
    "\<forall>i < 4. translate (pm s') (k_cr3 s') (as ! i) = Some ([0x1000, 0x2000, 0x3000, 0x4000, 0x5000] ! ([0, 1, 2, 4] ! i) OR 3)"
    using setupPageTables_direct_map [OF boot_paging_free, of 8] by (auto simp: aligned_def validatebits_def)
  then show ?thesis by (intro exI [of _ s'] exI [of _ as]) (auto dest: spec [of _ 0])
qed

end
