(* ===== verification/KernelHeap.thy ===== *)
theory KernelHeap
  imports PageFaults
begin

text \<open>
  The growth of a task's heap by \<open>malloc\<close> of \<^verbatim>\<open>sys/process.c\<close>: the pages behind the old end of the
  heap area are mapped, one frame each, and nothing else changes in the task's address space.
\<close>

section \<open>Pages by number\<close>

lemma same_page_number:
  assumes "same_page v w" and "unat v < 2 ^ 48" "unat w < 2 ^ 48"
  shows "unat v div 4096 = unat w div 4096"
proof -
  have eq: "unat (ix1 v) = unat (ix1 w)" "unat (ix2 v) = unat (ix2 w)" "unat (ix3 v) = unat (ix3 w)" "unat (ix4 v) = unat (ix4 w)"
    using assms(1) by (simp_all add: same_page_def path_def)
  have split: "x = x mod 512 + 512 * (x div 512 mod 512) + 262144 * (x div 262144 mod 512) + 134217728 * (x div 134217728 mod 512)"
    if "x < 2 ^ 36" for x :: nat
  proof -
    have 1: "x = 512 * (x div 512) + x mod 512" "x div 512 = 512 * (x div 512 div 512) + x div 512 mod 512"
      "x div 512 div 512 = 512 * (x div 512 div 512 div 512) + x div 512 div 512 mod 512" by simp_all
    have 2: "x div 262144 = x div 512 div 512" "x div 134217728 = x div 512 div 512 div 512" by (simp_all add: div_mult2_eq [symmetric])
    have "x div 512 div 512 div 512 < 512" using that by (simp add: div_mult2_eq [symmetric] less_mult_imp_div_less)
    then have 3: "x div 512 div 512 div 512 mod 512 = x div 512 div 512 div 512" by simp
    show ?thesis unfolding 2 3 using 1 by linarith
  qed
  have d: "unat v div 2 ^ 12 = unat v div 4096" "unat v div 2 ^ 21 = unat v div 4096 div 512"
    "unat v div 2 ^ 30 = unat v div 4096 div 262144" "unat v div 2 ^ 39 = unat v div 4096 div 134217728" for v :: u64
    by (simp_all add: div_mult2_eq [symmetric])
  have lt: "unat v div 4096 < 2 ^ 36" "unat w div 4096 < 2 ^ 36" using assms(2,3) by (simp_all add: less_mult_imp_div_less)
  show ?thesis using eq split [OF lt(1)] split [OF lt(2)] unfolding unat_ix d by simp
qed

text \<open>Page \<open>j\<close> behind \<open>v\<close>.\<close>

definition page_at :: "u64 \<Rightarrow> nat \<Rightarrow> u64" where
  "page_at v j = v + of_nat j * pageSize"

lemma page_at_simps [simp]: "page_at v 0 = v" "page_at (v + pageSize) j = page_at v (Suc j)"
  by (simp_all add: page_at_def algebra_simps)

lemma unat_page_at: "unat v + 4096 * j < 2 ^ 48 \<Longrightarrow> unat (page_at v j) = unat v + 4096 * j"
proof -
  assume a: "unat v + 4096 * j < 2 ^ 48"
  then have j: "unat (of_nat j * pageSize :: u64) = 4096 * j"
    by (simp add: pageSize_def unat_mult_lem [THEN iffD1] unat_of_nat take_bit_nat_eq_self unat_word_ariths)
  have "unat (v + of_nat j * pageSize) = unat v + unat (of_nat j * pageSize :: u64)"
    using a j by (subst unat_add_lem [THEN iffD1]) auto
  then show ?thesis using j by (simp add: page_at_def)
qed

lemma user_page: "unat v < 511 * 2 ^ 39 \<Longrightarrow> ix4 v \<noteq> 511"
proof -
  assume "unat v < 511 * 2 ^ 39"
  then have "unat v div 2 ^ 39 < 511" by (simp add: less_mult_imp_div_less)
  then have "unat (ix4 v) \<noteq> 511" unfolding unat_ix by simp
  then show ?thesis by auto
qed

lemma page_at_differs:
  assumes "i \<noteq> j" and "unat v + 4096 * i < 2 ^ 48" "unat v + 4096 * j < 2 ^ 48"
  shows "\<not> same_page (page_at v i) (page_at v j)"
proof
  assume "same_page (page_at v i) (page_at v j)"
  then have "(unat v + 4096 * i) div 4096 = (unat v + 4096 * j) div 4096"
    using same_page_number [of "page_at v i" "page_at v j"] unat_page_at [OF assms(2)] unat_page_at [OF assms(3)] assms(2,3) by simp
  then show False using assms(1) by simp
qed

section \<open>The loop\<close>

text \<open>The pages \<open>0 .. r - 1\<close> behind \<open>v\<close> map to the frames \<open>gs\<close>, every other user page as before.\<close>

definition grown :: "paging \<Rightarrow> paging \<Rightarrow> u64 \<Rightarrow> u64 \<Rightarrow> u64 list \<Rightarrow> bool" where
  "grown s s' M v gs \<longleftrightarrow> (\<forall>j < length gs. translate (pm s') M (page_at v j) = Some (gs ! j OR 7))
     \<and> (\<forall>w. ix4 w \<noteq> 511 \<and> (\<forall>j < length gs. \<not> same_page (page_at v j) w) \<longrightarrow> translate (pm s') M w = translate (pm s) M w)"

lemma malloc_loop_grows:
  "space s M fs \<Longrightarrow> 4 * r \<le> length fs \<Longrightarrow> unat v + 4096 * r \<le> 511 * 2 ^ 39 \<Longrightarrow>
   \<exists>s' gs fs'. malloc_loop (kernbase + M) r v s = Some (page_at v r, s') \<and> grown s s' M v gs \<and> length gs = r
     \<and> distinct gs \<and> set gs \<subseteq> set fs - set fs' \<and> space s' M fs' \<and> set fs' \<subseteq> set fs"
proof (induction r arbitrary: s v fs)
  case 0
  then show ?case by (intro exI [of _ s] exI [of _ "[]"] exI [of _ fs]) (simp add: grown_def)
next
  case (Suc r)
  obtain f hs where fs: "fs = f # hs" using Suc.prems(2) by (cases fs) auto
  note sp = Suc.prems(1) [unfolded fs]
  have ff: "free_frames s (f # hs)" and f: "aligned f" "distinct (f # hs)" using sp by (auto simp: space_def)
  obtain s1 where s1: "getFreeFrame s = Some (f, s1)" "free_frames s1 hs" "pm s1 = pm s" "pml4e s1 = pml4e s"
    using getFreeFrame_cons [OF ff] by blast
  note s2 = fresh_frame_space [OF sp _ s1(1,2,4), of "pm s", simplified]
  have upd: "s1\<lparr>pm := pm s\<rparr> = s1" using s1(3) by simp
  have v: "ix4 v \<noteq> 511" using user_page Suc.prems(3) by simp
  have len: "3 \<le> length hs" using Suc.prems(2) fs by simp
  obtain s3 k where s3: "k \<le> 3" "initTaskPagetables v f (kernbase + M) s1 = Some s3" "space s3 M (drop k hs)"
    "maps s1 s3 M v ((f AND validatebits) OR 7)"
    using initTaskPagetables_step [OF s2(1) [unfolded upd] len v, of f] by blast
  have v4: "unat (v + pageSize) = unat v + 4096"
    using unat_page_at [of v 1] Suc.prems(3) by (simp add: page_at_def)
  obtain s' gs fs' where IH: "malloc_loop (kernbase + M) r (v + pageSize) s3 = Some (page_at (v + pageSize) r, s')"
    "grown s3 s' M (v + pageSize) gs" "length gs = r" "distinct gs" "set gs \<subseteq> set (drop k hs) - set fs'" "space s' M fs'"
    "set fs' \<subseteq> set (drop k hs)"
  proof -
    have "4 * r \<le> length (drop k hs)" "unat (v + pageSize) + 4096 * r \<le> 511 * 2 ^ 39"
      using Suc.prems(2,3) s3(1) fs v4 by simp_all
    then show ?thesis using Suc.IH [OF s3(3), of "v + pageSize"] that by blast
  qed
  have run: "malloc_loop (kernbase + M) (Suc r) v s = Some (page_at v (Suc r), s')"
    using s1(1) s3(2) IH(1) by (simp add: grow1_def)
  have one: "maps s s3 M v (f OR 7)"
    using keeps_maps [OF s2(2) [unfolded upd] s3(4)] f(1) by (simp add: aligned_def)
  have sub: "set (drop k hs) \<subseteq> set hs" by (rule set_drop_subset)
  have bound: "unat v + 4096 * j < 2 ^ 48" if "j < Suc r" for j using that Suc.prems(3) by simp
  have "grown s s' M v (f # gs)"
    unfolding grown_def
  proof (intro conjI allI impI)
    fix j assume j: "j < length (f # gs)"
    show "translate (pm s') M (page_at v j) = Some ((f # gs) ! j OR 7)"
    proof (cases j)
      case 0
      have "\<not> same_page (page_at (v + pageSize) i) v" if "i < length gs" for i
        using page_at_differs [of "Suc i" 0 v] bound [of "Suc i"] bound [of 0] that IH(3) by simp
      then have "translate (pm s') M v = translate (pm s3) M v" using IH(2) v by (simp add: grown_def)
      also have "\<dots> = Some (f OR 7)" using one v by (simp add: maps_def same_page_def)
      finally show ?thesis using 0 by simp
    next
      case (Suc i)
      then show ?thesis using IH(2) j by (simp add: grown_def)
    qed
  next
    fix w assume w: "ix4 w \<noteq> 511 \<and> (\<forall>j < length (f # gs). \<not> same_page (page_at v j) w)"
    then have "\<not> same_page v w" "\<forall>j < length gs. \<not> same_page (page_at (v + pageSize) j) w" by auto
    then show "translate (pm s') M w = translate (pm s) M w" using IH(2) one w by (simp add: grown_def maps_def)
  qed
  moreover have "distinct (f # gs)" "set (f # gs) \<subseteq> set fs - set fs'" "set fs' \<subseteq> set fs"
    using IH(4,5,7) f(2) sub fs by auto
  ultimately show ?case using run IH(3,6) by (intro exI [of _ s'] exI [of _ "f # gs"] exI [of _ fs']) simp
qed

section \<open>The call\<close>

text \<open>The number of pages a request adds: one more than it fills.\<close>

definition new_pages :: "int \<Rightarrow> nat" where
  "new_pages n = nat (cdiv n 4096 + 1)"

text \<open>The task has a heap area, which ends below the kernel's addresses, and enough frames are free.\<close>

definition heap_room :: "kernel \<Rightarrow> int \<Rightarrow> u64 list \<Rightarrow> bool" where
  "heap_room k n fs \<longleftrightarrow> space (pg k) (task_pml4e (cur k)) fs \<and> 4 * new_pages n \<le> length fs
     \<and> (\<exists>v0 v1 vs. vm (cur k) = v0 # v1 # vs \<and> unat (lastAddress v1) + 4096 * new_pages n \<le> 511 * 2 ^ 39)"

lemma malloc_step:
  assumes "heap_room k n fs"
  shows "\<exists>v0 v1 vs k' gs fs'. vm (cur k) = v0 # v1 # vs \<and> malloc n k = Some (lastAddress v1, k')
    \<and> vm (cur k') = v0 # v1\<lparr>lastAddress := page_at (lastAddress v1) (new_pages n)\<rparr> # vs
    \<and> currentTask k' = currentTask k \<and> (\<forall>i. task_pml4e (taskQueue k' i) = task_pml4e (taskQueue k i))
    \<and> grown (pg k) (pg k') (task_pml4e (cur k)) (lastAddress v1) gs \<and> length gs = new_pages n
    \<and> distinct gs \<and> set gs \<subseteq> set fs - set fs' \<and> space (pg k') (task_pml4e (cur k)) fs'"
proof -
  obtain v0 v1 vs where vms: "vm (cur k) = v0 # v1 # vs" and b: "unat (lastAddress v1) + 4096 * new_pages n \<le> 511 * 2 ^ 39"
    and sp: "space (pg k) (task_pml4e (cur k)) fs" and len: "4 * new_pages n \<le> length fs"
    using assms by (auto simp: heap_room_def)
  obtain s' gs fs' where s': "malloc_loop (kernbase + task_pml4e (cur k)) (new_pages n) (lastAddress v1) (pg k)
      = Some (page_at (lastAddress v1) (new_pages n), s')"
    "grown (pg k) s' (task_pml4e (cur k)) (lastAddress v1) gs" "length gs = new_pages n" "distinct gs"
    "set gs \<subseteq> set fs - set fs'" "space s' (task_pml4e (cur k)) fs'"
    using malloc_loop_grows [OF sp len b] by blast
  define k' where "k' = upd_task (currentTask k)
    (\<lambda>t. t\<lparr>vm := v0 # v1\<lparr>lastAddress := page_at (lastAddress v1) (new_pages n)\<rparr> # vs\<rparr>) (k\<lparr>pg := s'\<rparr>)"
  have "malloc n k = Some (lastAddress v1, k')"
    using s'(1) vms by (simp add: malloc_def new_pages_def add.commute k'_def)
  then show ?thesis using vms s'
    by (intro exI [of _ v0] exI [of _ v1] exI [of _ vs] exI [of _ k'] exI [of _ gs] exI [of _ fs']) (simp add: k'_def)
qed

text \<open>Growing a task's heap. When the task has a heap area (the second of its list) with room below
  the kernel's half and four frames for every page are free, \<open>malloc\<close> returns the old end of the
  area; \<open>n div 4096 + 1\<close> pages from there on are now mapped writable to distinct frames that
  were free, every other user page translates as before, and the area ends behind the new pages.\<close>

theorem malloc_maps_pages:
  assumes "heap_room k n fs"
  shows "\<exists>v0 v1 vs k' gs fs'. vm (cur k) = v0 # v1 # vs \<and> malloc n k = Some (lastAddress v1, k')
    \<and> vm (cur k') = v0 # v1\<lparr>lastAddress := lastAddress v1 + of_nat (new_pages n) * pageSize\<rparr> # vs
    \<and> length gs = new_pages n \<and> distinct gs \<and> set gs \<subseteq> set fs - set fs'
    \<and> (\<forall>j < new_pages n. translate (pm (pg k')) (task_pml4e (cur k)) (lastAddress v1 + of_nat j * pageSize) = Some (gs ! j OR 7))
    \<and> (\<forall>w. ix4 w \<noteq> 511 \<and> (\<forall>j < new_pages n. \<not> same_page (lastAddress v1 + of_nat j * pageSize) w) \<longrightarrow>
         translate (pm (pg k')) (task_pml4e (cur k)) w = translate (pm (pg k)) (task_pml4e (cur k)) w)
    \<and> space (pg k') (task_pml4e (cur k)) fs'"
  using malloc_step [OF assms] unfolding grown_def page_at_def by metis

text \<open>A task with an empty heap area at \<open>v\<close>, and twenty free frames.\<close>

definition paging20 :: paging where
  "paging20 = paging0\<lparr>head := Some 2,
     pagelist := (\<lambda>i. \<lparr>address = of_nat i * pageSize, ref_count = 0,
       next_node = (if i < 21 then Some (Suc i) else None)\<rparr>)\<rparr>"

definition frames20 :: "u64 list" where
  "frames20 = map (\<lambda>i. of_nat i * 0x1000) [2..<22]"

lemma space_paging20: "space paging20 0x1000 frames20"
proof -
  have l: "[2..<22] = [2, 3, 4, 5, 6, 7, 8, 9, 10, 11, 12, 13, 14, 15, 16, 17, 18, 19, 20, 21::nat]" by (simp add: upt_rec)
  then have "chain (pagelist paging20) (head paging20) [2..<22]" by (simp add: paging20_def)
  then have "free_frames paging20 frames20"
    unfolding free_frames_def frames20_def
    by (intro exI [of _ "[2..<22]"]) (simp add: paging20_def pageSize_def)
  moreover have "pm paging20 = (\<lambda>_. 0)" by (simp add: paging20_def paging0_def)
  moreover have "pt_wf (\<lambda>_. 0) 0x1000"
    by (auto simp: pt_wf_def aligned_def validatebits_def dest: tbl_zero_mem)
  moreover have "user_tables (\<lambda>_. 0) 0x1000 = {0x1000}"
    by (auto simp: user_tables_def dest: tbl_zero_mem intro: exI [of _ "[]"])
  moreover have "distinct frames20" "\<forall>f \<in> set frames20. aligned f \<and> f \<noteq> 0x1000"
    by (simp_all add: frames20_def l aligned_def validatebits_def)
  ultimately show ?thesis by (simp add: space_def)
qed

definition kernel_heap :: "u64 \<Rightarrow> kernel" where
  "kernel_heap v = upd_task 2 (\<lambda>t. t\<lparr>task_pml4e := 0x1000,
     vm := [\<lparr>beginAddress = STACK_S, lastAddress = 0x100FFEFF0000, vm_offset = 0\<rparr>, \<lparr>beginAddress = v, lastAddress = v, vm_offset = 0\<rparr>]\<rparr>)
     (kernel_fam\<lparr>cr3 := 0x1000, pg := paging20\<rparr>)"

lemma kernel_heap_simps [simp]:
  "currentTask (kernel_heap v) = 2" "pg (kernel_heap v) = paging20" "task_pml4e (taskQueue (kernel_heap v) 2) = 0x1000"
  "vm (taskQueue (kernel_heap v) 2) = [\<lparr>beginAddress = STACK_S, lastAddress = 0x100FFEFF0000, vm_offset = 0\<rparr>,
     \<lparr>beginAddress = v, lastAddress = v, vm_offset = 0\<rparr>]"
  by (simp_all add: kernel_heap_def upd_task_def kernel_fam_def)

lemma heap_room_kernel_heap:
  "unat v + 4096 * new_pages n \<le> 511 * 2 ^ 39 \<Longrightarrow> new_pages n \<le> 5 \<Longrightarrow> heap_room (kernel_heap v) n frames20"
  using space_paging20 by (simp add: heap_room_def frames20_def)

theorem malloc_maps_pages_witness:
  "\<exists>k' f. malloc 100 (kernel_heap 0x400000) = Some (0x400000, k') \<and> f \<in> set frames20
     \<and> translate (pm (pg k')) 0x1000 0x400000 = Some (f OR 7)"
proof -
  have n: "new_pages 100 = 1" by (simp add: new_pages_def cdiv_def)
  have room: "heap_room (kernel_heap 0x400000) 100 frames20" by (rule heap_room_kernel_heap) (simp_all add: n)
  obtain k' gs fs' where k': "malloc 100 (kernel_heap 0x400000) = Some (0x400000, k')" "length gs = 1"
    "set gs \<subseteq> set frames20 - set fs'" "\<forall>j < 1. translate (pm (pg k')) 0x1000 (0x400000 + of_nat j * pageSize) = Some (gs ! j OR 7)"
    using malloc_maps_pages [OF room] n by auto
  then obtain f where "gs = [f]" by (auto simp: length_Suc_conv)
  then show ?thesis using k' by auto
qed

end
