(* ===== verification/UserHeap.thy ===== *)
theory UserHeap
  imports KernelHeap
begin

text \<open>
  The heap of user programs in \<^verbatim>\<open>libc/util_sys.c\<close>: the storage allocator over a circular list of free
  blocks, and its growth through \<open>sbrk\<close>, a system call. Pointers are integers, NULL is 0; a header
  is 16 bytes, with a \<open>ptr\<close> field and an \<^verbatim>\<open>unsigned\<close> \<open>size\<close> counted in headers. The address of the static
  \<open>base\<close> and the system call are arguments. Every \<^verbatim>\<open>for\<close> loop runs until it finds what it looks for,
  hence \<open>partial_function (option)\<close>; a NULL dereference is \<open>None\<close>. The headers are two maps of the heap
  record, beside the memory of the task: a header access never faults in the model, while on the machine it
  is a user access to a page that \<open>sbrk\<close> has mapped (or to the program's own \<open>base\<close>).
\<close>

section \<open>The allocator\<close>

record 'b heap =
  hptr :: "int \<Rightarrow> int"
  hsize :: "int \<Rightarrow> u32"
  freep :: int
  core :: 'b

definition set_ptr :: "int \<Rightarrow> int \<Rightarrow> 'b heap \<Rightarrow> 'b heap" where
  "set_ptr p q h = h\<lparr>hptr := (hptr h)(p := q)\<rparr>"

definition set_size :: "int \<Rightarrow> u32 \<Rightarrow> 'b heap \<Rightarrow> 'b heap" where
  "set_size p n h = h\<lparr>hsize := (hsize h)(p := n)\<rparr>"

definition NALLOC :: int where "NALLOC = 1024"

text \<open>The search for the block behind which a freed block belongs.\<close>

partial_function (option) free_loop :: "'b heap \<Rightarrow> int \<Rightarrow> int \<Rightarrow> int option" where
  "free_loop h bp p =
     (if p = 0 then None
      else if bp > p \<and> bp < hptr h p then Some p
      else if p \<ge> hptr h p \<and> (bp > p \<or> bp < hptr h p) then Some p
      else free_loop h bp (hptr h p))"

definition free_lib :: "int \<Rightarrow> 'b heap \<Rightarrow> 'b heap option" where
  "free_lib ap h = do {
     let bp = ap - 16;
     p \<leftarrow> free_loop h bp (freep h);
     let h = (if bp + 16 * uint (hsize h bp) = hptr h p
              then let h = set_size bp (hsize h bp + hsize h (hptr h p)) h
                   in set_ptr bp (hptr h (hptr h p)) h
              else set_ptr bp (hptr h p) h);
     let h = (if p + 16 * uint (hsize h p) = bp
              then let h = set_size p (hsize h p + hsize h bp) h
                   in set_ptr p (hptr h bp) h
              else set_ptr p bp h);
     Some (h\<lparr>freep := p\<rparr>)
   }"

definition morecore :: "(int \<Rightarrow> 'b \<Rightarrow> (int \<times> 'b) option) \<Rightarrow> int \<Rightarrow> 'b heap \<Rightarrow> (int \<times> 'b heap) option" where
  "morecore sbrk nu h = do {
     let nu = (if nu < NALLOC then NALLOC else nu);
     (cp, c) \<leftarrow> sbrk (to_int32 (nu * 16)) (core h);
     let h = h\<lparr>core := c\<rparr>;
     if cp = 2 ^ 64 - 1 then Some (0, h)
     else do {
       let up = cp;
       h \<leftarrow> free_lib (up + 16) (set_size up (word_of_int nu) h);
       Some (freep h, h)
     }
   }"

partial_function (option) malloc_lib_loop ::
    "(int \<Rightarrow> 'b \<Rightarrow> (int \<times> 'b) option) \<Rightarrow> u32 \<Rightarrow> int \<Rightarrow> int \<Rightarrow> 'b heap \<Rightarrow> (int \<times> 'b heap) option" where
  "malloc_lib_loop sbrk nunits prevp p h =
     (if p = 0 then None
      else if hsize h p \<ge> nunits then
        (if hsize h p = nunits
         then Some (p + 16, (set_ptr prevp (hptr h p) h)\<lparr>freep := prevp\<rparr>)
         else let h = set_size p (hsize h p - nunits) h;
                  p = p + 16 * uint (hsize h p);
                  h = set_size p nunits h
              in Some (p + 16, h\<lparr>freep := prevp\<rparr>))
      else if p = freep h then
        Option.bind (morecore sbrk (sint nunits) h) (\<lambda>(p, h).
          if p = 0 then Some (0, h) else malloc_lib_loop sbrk nunits p (hptr h p) h)
      else malloc_lib_loop sbrk nunits p (hptr h p) h)"

text \<open>\<open>nbytes\<close> is a \<^verbatim>\<open>size_t\<close>; the number of units is cut to an \<^verbatim>\<open>unsigned\<close>.\<close>

definition malloc_lib ::
    "(int \<Rightarrow> 'b \<Rightarrow> (int \<times> 'b) option) \<Rightarrow> int \<Rightarrow> u64 \<Rightarrow> 'b heap \<Rightarrow> (int \<times> 'b heap) option" where
  "malloc_lib sbrk base nbytes h =
     (let nunits = (ucast ((nbytes + 16 - 1) div 16 + 1) :: u32);
          h = (if freep h = 0 then set_size base 0 (set_ptr base base (h\<lparr>freep := base\<rparr>)) else h);
          prevp = freep h
      in malloc_lib_loop sbrk nunits prevp (hptr h prevp) h)"

section \<open>The free list\<close>

text \<open>The list runs through the blocks by address, from \<open>base\<close> and back to it.\<close>

fun linked :: "'b heap \<Rightarrow> int list \<Rightarrow> bool" where
  "linked h (x # y # zs) \<longleftrightarrow> hptr h x = y \<and> linked h (y # zs)"
| "linked h zs \<longleftrightarrow> True"

lemma linked_append: "linked h (us @ p # vs) \<longleftrightarrow> linked h (us @ [p]) \<and> linked h (p # vs)"
proof (induction us)
  case (Cons u us)
  then show ?case by (cases us) auto
qed simp

lemma linked_Cons: "linked h (p # vs) \<longleftrightarrow> vs = [] \<or> hptr h p = hd vs \<and> linked h vs"
  by (cases vs) auto

lemma linked_cong: "(\<And>x. x \<in> set (butlast zs) \<Longrightarrow> hptr h' x = hptr h x) \<Longrightarrow> linked h' zs = linked h zs"
proof (induction zs)
  case (Cons x zs)
  then show ?case by (cases zs) auto
qed simp

lemma heap_upd_simps [simp]:
  "hptr (set_ptr p q h) x = (if x = p then q else hptr h x)" "hsize (set_ptr p q h) = hsize h"
  "freep (set_ptr p q h) = freep h" "core (set_ptr p q h) = core h"
  "hptr (set_size p n h) = hptr h" "hsize (set_size p n h) x = (if x = p then n else hsize h x)"
  "freep (set_size p n h) = freep h" "core (set_size p n h) = core h"
  by (simp_all add: set_ptr_def set_size_def)

text \<open>Blocks do not overlap; \<open>base\<close> is an empty block below all others.\<close>

definition blk_end :: "'b heap \<Rightarrow> int \<Rightarrow> int" where
  "blk_end h p = p + 16 * uint (hsize h p)"

definition blocks :: "int \<Rightarrow> int \<Rightarrow> int \<Rightarrow> int set \<Rightarrow> 'b heap \<Rightarrow> bool" where
  "blocks base lo hi B h \<longleftrightarrow> 0 < base \<and> base < lo \<and> hi - lo < 2 ^ 36 \<and> base \<in> B \<and> hsize h base = 0
     \<and> (\<forall>p \<in> B - {base}. lo \<le> p \<and> 0 < hsize h p \<and> blk_end h p \<le> hi)
     \<and> (\<forall>p \<in> B. \<forall>q \<in> B. p < q \<longrightarrow> blk_end h p \<le> q)"

text \<open>The free list \<open>xs\<close> starts at \<open>base\<close>; \<open>A\<close> are the headers of the allocated blocks.\<close>

definition heap_inv :: "int \<Rightarrow> int \<Rightarrow> int \<Rightarrow> int list \<Rightarrow> int set \<Rightarrow> 'b heap \<Rightarrow> bool" where
  "heap_inv base lo hi xs A h \<longleftrightarrow> blocks base lo hi (set xs \<union> A) h \<and> set xs \<inter> A = {}
     \<and> xs \<noteq> [] \<and> hd xs = base \<and> sorted_wrt (<) xs \<and> linked h (xs @ [base]) \<and> freep h \<in> set xs"

text \<open>Free blocks that touch have been merged: the list holds the maximal runs of free bytes.\<close>

definition coalesced :: "'b heap \<Rightarrow> int list \<Rightarrow> bool" where
  "coalesced h xs \<longleftrightarrow> (\<forall>p \<in> set xs. \<forall>q \<in> set xs. p < q \<longrightarrow> blk_end h p < q)"

definition area :: "'b heap \<Rightarrow> int set \<Rightarrow> int set" where
  "area h B = (\<Union>p \<in> B. {p ..< blk_end h p})"

lemma blocks_cong: "hsize h' = hsize h \<Longrightarrow> blocks base lo hi B h' = blocks base lo hi B h"
  by (simp add: blocks_def blk_end_def)

lemma blk_end_set_ptr [simp]: "blk_end (set_ptr p q h) x = blk_end h x"
  by (simp add: blk_end_def)

lemma blocks_set_ptr [simp]: "blocks base lo hi B (set_ptr p q h) = blocks base lo hi B h"
  by (rule blocks_cong) simp

lemma blocks_freep [simp]: "blocks base lo hi B (h\<lparr>freep := f\<rparr>) = blocks base lo hi B h"
  by (rule blocks_cong) simp

lemma blocks_mono: "blocks base lo hi B h \<Longrightarrow> B' \<subseteq> B \<Longrightarrow> base \<in> B' \<Longrightarrow> blocks base lo hi B' h"
  by (auto simp: blocks_def)

lemma blk_end_gt: "0 < hsize h p \<Longrightarrow> p < blk_end h p"
  by (simp add: blk_end_def word_less_def)

lemma area_insert [simp]: "area h (insert p B) = {p ..< blk_end h p} \<union> area h B"
  by (simp add: area_def)

lemma area_set_ptr [simp]: "area (set_ptr p q h) B = area h B"
  by (simp add: area_def)

lemma blocks_in:
  "blocks base lo hi B h \<Longrightarrow> p \<in> B \<Longrightarrow> p \<noteq> base \<Longrightarrow> lo \<le> p \<and> 0 < hsize h p \<and> blk_end h p \<le> hi \<and> p < blk_end h p"
  by (simp add: blocks_def blk_end_gt)

lemma blocks_base:
  "blocks base lo hi B h \<Longrightarrow> 0 < base \<and> base < lo \<and> hi - lo < 2 ^ 36 \<and> base \<in> B \<and> blk_end h base = base"
  by (simp add: blocks_def blk_end_def)

text \<open>A block swallows the block behind it.\<close>

lemma absorb:
  assumes b: "blocks base lo hi B h" and x: "x \<in> B" "n \<in> B" "x \<noteq> base" "blk_end h x = n"
  defines "h' \<equiv> set_size x (hsize h x + hsize h n) h"
  shows "blocks base lo hi (B - {n}) h'" "blk_end h' x = blk_end h n" "n \<noteq> base" "x < n"
    "\<And>y. y \<noteq> x \<Longrightarrow> blk_end h' y = blk_end h y" "hsize h x \<le> hsize h' x" "hsize h n \<le> hsize h' x"
    "\<And>C. x \<in> C \<Longrightarrow> n \<in> C \<Longrightarrow> area h' (C - {n}) = area h C"
proof -
  have r: "lo \<le> x" "0 < hsize h x" "base < lo" using b x by (auto simp: blocks_def)
  show xn: "x < n" using blk_end_gt [OF r(2)] x(4) by simp
  show nb: "n \<noteq> base" using xn r by simp
  have n: "0 < hsize h n" "blk_end h n \<le> hi" "hi - lo < 2 ^ 36" using b x(2) nb by (auto simp: blocks_def)
  have "uint (hsize h x) + uint (hsize h n) < 2 ^ 32"
    using n(2,3) r(1) x(4) by (simp add: blk_end_def)
  then have u: "uint (hsize h x + hsize h n) = uint (hsize h x) + uint (hsize h n)"
    by (subst uint_add_lem [symmetric]) simp
  then show ex: "blk_end h' x = blk_end h n"
    using x(4) by (simp add: h'_def blk_end_def)
  show ey: "blk_end h' y = blk_end h y" if "y \<noteq> x" for y using that by (simp add: h'_def blk_end_def)
  have sx: "0 < hsize h' x" using u r(2) by (simp add: h'_def word_less_def add_pos_nonneg)
  have sy: "hsize h' y = hsize h y" if "y \<noteq> x" for y using that by (simp add: h'_def)
  show "hsize h x \<le> hsize h' x" "hsize h n \<le> hsize h' x" using u by (simp_all add: h'_def word_le_def)
  show "area h' (C - {n}) = area h C" if C: "x \<in> C" "n \<in> C" for C
  proof -
    have "n < blk_end h n" using blk_end_gt [OF n(1)] .
    then have "{x ..< blk_end h' x} = {x ..< blk_end h x} \<union> {n ..< blk_end h n}" using xn ex x(4) by auto
    moreover have "C = insert x (insert n (C - {x, n}))" "C - {n} = insert x (C - {x, n})" using C xn by auto
    moreover have "area h' (C - {x, n}) = area h (C - {x, n})" using ey by (simp add: area_def)
    ultimately show ?thesis using ex by (metis (no_types, lifting) area_insert Un_assoc)
  qed
  show "blocks base lo hi (B - {n}) h'"
    unfolding blocks_def
  proof (intro conjI ballI impI)
    fix p assume p: "p \<in> B - {n} - {base}"
    show "lo \<le> p" using b p by (auto simp: blocks_def)
    show "0 < hsize h' p" using b p sx sy [of p] by (cases "p = x") (auto simp: blocks_def)
    show "blk_end h' p \<le> hi" using b p ex ey [of p] n(2) by (cases "p = x") (auto simp: blocks_def)
  next
    fix p q assume pq: "p \<in> B - {n}" "q \<in> B - {n}" "p < q"
    show "blk_end h' p \<le> q"
    proof (cases "p = x")
      case True
      then have "n \<le> q" using b pq x by (auto simp: blocks_def)
      then have "n < q" using pq by auto
      then show ?thesis using True ex b pq x(2) by (auto simp: blocks_def)
    next
      case False
      then show ?thesis using ey b pq by (auto simp: blocks_def)
    qed
  qed (use b x(3) nb sy in \<open>auto simp: blocks_def\<close>)
qed

section \<open>Freeing\<close>

lemma free_loop_below:
  "linked h (zs @ [p, r]) \<Longrightarrow> sorted_wrt (<) (zs @ [p]) \<Longrightarrow> \<forall>z \<in> set (zs @ [p]). 0 < z \<and> z < bp
   \<Longrightarrow> bp < r \<or> r \<le> p \<Longrightarrow> free_loop h bp (hd (zs @ [p])) = Some p"
proof (induction zs)
  case Nil
  then show ?case by (subst free_loop.simps) auto
next
  case (Cons z zs)
  have n: "hptr h z = hd (zs @ [p])" using Cons.prems(1) by (cases zs) auto
  have "hd (zs @ [p]) \<in> set (zs @ [p])" by (cases zs) auto
  then have lt: "z < hd (zs @ [p])" "hd (zs @ [p]) < bp" using Cons.prems(2,3) by auto
  have "linked h (zs @ [p, r])" using Cons.prems(1) by (cases zs) auto
  then have "free_loop h bp (hd (zs @ [p])) = Some p" using Cons.IH Cons.prems(2,3,4) by simp
  then show ?case using n lt Cons.prems(3) by (subst free_loop.simps) auto
qed

lemma free_loop_above:
  "linked h (vs @ [base]) \<Longrightarrow> sorted_wrt (<) vs \<Longrightarrow> \<forall>z \<in> set vs. bp < z \<Longrightarrow> 0 < bp \<Longrightarrow> base < bp
   \<Longrightarrow> free_loop h bp (hd (vs @ [base])) = free_loop h bp base"
proof (induction vs)
  case (Cons z vs)
  have n: "hptr h z = hd (vs @ [base])" using Cons.prems(1) by (cases vs) auto
  have le: "vs = [] \<or> z < hd vs" using Cons.prems(2) by (cases vs) auto
  have "linked h (vs @ [base])" using Cons.prems(1) by (cases vs) auto
  then have "free_loop h bp (hd (vs @ [base])) = free_loop h bp base" using Cons by simp
  moreover have "free_loop h bp z = free_loop h bp (hd (vs @ [base]))"
    using n le Cons.prems(3,4,5) by (subst free_loop.simps) (cases vs; auto)
  ultimately show ?case by simp
qed simp

lemma free_loop_finds:
  assumes l: "linked h ((us @ p # vs) @ [base])" and s: "sorted_wrt (<) (us @ p # vs)" and hd: "hd (us @ [p]) = base"
    and pos: "0 < base" and less: "\<forall>z \<in> set (us @ [p]). z < bp" and gr: "\<forall>z \<in> set vs. bp < z" and f: "f \<in> set (us @ p # vs)"
  shows "free_loop h bp f = Some p"
proof -
  have b: "base \<le> z" if "z \<in> set (us @ p # vs)" for z
    using hd s that by (cases us) (auto simp: ball_Un dest: bspec intro: less_imp_le)
  have nx: "linked h (us @ [p, hd (vs @ [base])])" using l linked_append [of h us p "vs @ [base]"] linked_append [of h us p "[hd (vs @ [base])]"]
    by (auto simp: linked_Cons [of h p])
  have vsb: "linked h (vs @ [base])" using l linked_append [of h us p "vs @ [base]"] by (simp add: linked_Cons [of h p])
  have r: "bp < hd (vs @ [base]) \<or> hd (vs @ [base]) \<le> p" using gr b [of p] by (cases vs) auto
  have low: "free_loop h bp z = Some p" if "z \<in> set (us @ [p])" for z
  proof -
    obtain as bs where "us @ [p] = as @ z # bs" using split_list [OF \<open>z \<in> set (us @ [p])\<close>] by blast
    then obtain zs where zs: "us @ [p] = as @ zs @ [p]" "hd (zs @ [p]) = z"
      by (cases bs rule: rev_cases) (auto intro: that)
    have "linked h (zs @ [p, hd (vs @ [base])])"
    proof -
      have "us @ [p, hd (vs @ [base])] = as @ z # tl (zs @ [p]) @ [hd (vs @ [base])]" using zs by (cases zs) auto
      then have "linked h (z # tl (zs @ [p]) @ [hd (vs @ [base])])" using nx linked_append by metis
      moreover have "z # tl (zs @ [p]) @ [hd (vs @ [base])] = zs @ [p, hd (vs @ [base])]" using zs(2) by (cases zs) auto
      ultimately show ?thesis by simp
    qed
    moreover have "sorted_wrt (<) (as @ zs @ [p])" using s zs(1) by (metis append_Cons append_Nil append_assoc sorted_wrt_append)
    then have "sorted_wrt (<) (zs @ [p])" by (simp add: sorted_wrt_append)
    moreover have "set (zs @ [p]) \<subseteq> set (us @ [p])" using zs(1) by (metis set_append Un_upper2)
    then have "\<forall>z \<in> set (zs @ [p]). 0 < z \<and> z < bp" using less b pos by fastforce
    ultimately have "free_loop h bp (hd (zs @ [p])) = Some p" using r by (intro free_loop_below) auto
    then show ?thesis using zs(2) by simp
  qed
  show ?thesis
  proof (cases "f \<in> set (us @ [p])")
    case False
    then have "f \<in> set vs" using f by auto
    then obtain as bs where vs: "vs = as @ f # bs" using split_list by metis
    have "linked h (f # bs @ [base])" using vsb vs linked_append [of h as f "bs @ [base]"] by simp
    moreover have "sorted_wrt (<) (f # bs)" using s vs by (simp add: sorted_wrt_append)
    moreover have "base < bp" using low hd less by (metis hd_in_set snoc_eq_iff_butlast)
    moreover have "0 < bp" using pos calculation(3) by simp
    ultimately have "free_loop h bp (hd ((f # bs) @ [base])) = free_loop h bp base"
      using gr vs by (intro free_loop_above) auto
    moreover have "base \<in> set (us @ [p])" using hd by (metis hd_in_set snoc_eq_iff_butlast)
    ultimately show ?thesis using low by simp
  qed (rule low)
qed

text \<open>Where an address belongs in a sorted list.\<close>

lemma sorted_split:
  fixes xs :: "int list"
  assumes "sorted_wrt (<) xs" "x \<notin> set xs" "xs \<noteq> []" "hd xs < x"
  obtains us p vs where "xs = us @ p # vs" "\<forall>z \<in> set (us @ [p]). z < x" "\<forall>z \<in> set vs. x < z"
proof -
  define as where "as = takeWhile (\<lambda>z. z < x) xs"
  define vs where "vs = dropWhile (\<lambda>z. z < x) xs"
  have xs: "xs = as @ vs" by (simp add: as_def vs_def)
  have "as \<noteq> []" using assms(3,4) by (cases xs) (auto simp: as_def)
  then obtain us p where as: "as = us @ [p]" by (cases as rule: rev_cases) auto
  have "\<forall>z \<in> set as. z < x" by (auto simp: as_def dest: set_takeWhileD)
  moreover have "\<forall>z \<in> set vs. x < z"
  proof (cases vs)
    case (Cons v vs')
    then have "\<not> v < x" using hd_dropWhile [of "\<lambda>z. z < x" xs] by (simp add: vs_def)
    moreover have "v \<noteq> x" using assms(2) xs Cons by auto
    moreover have "\<forall>z \<in> set vs'. v < z" using assms(1) xs Cons by (simp add: sorted_wrt_append)
    ultimately show ?thesis using Cons by fastforce
  qed simp
  ultimately show ?thesis using that [of us p vs] xs as by simp
qed

lemma free_inv:
  assumes inv: "heap_inv base lo hi xs (insert bp A) h" and bp: "bp \<notin> A"
  shows "\<exists>h' xs'. free_lib (bp + 16) h = Some h' \<and> heap_inv base lo hi xs' A h'
    \<and> (\<forall>a \<in> A. hsize h' a = hsize h a) \<and> core h' = core h
    \<and> area h' (set xs') = area h (insert bp (set xs)) \<and> (\<exists>q \<in> set xs'. hsize h bp \<le> hsize h' q)
    \<and> (coalesced h xs \<longrightarrow> coalesced h' xs')"
proof -
  have b: "blocks base lo hi (set xs \<union> insert bp A) h" "set xs \<inter> insert bp A = {}" "xs \<noteq> []" "hd xs = base"
    "sorted_wrt (<) xs" "linked h (xs @ [base])" "freep h \<in> set xs" using inv by (auto simp: heap_inv_def)
  have "base \<in> set xs" using b(3,4) hd_in_set by metis
  then have bpb: "bp \<noteq> base" "base \<notin> A" "bp \<notin> set xs" using b(2) by auto
  have bp1: "lo \<le> bp" "0 < hsize h bp" "0 < base" "base < lo" using b(1) bpb by (auto simp: blocks_def)
  obtain us p vs where xs: "xs = us @ p # vs" "\<forall>z \<in> set (us @ [p]). z < bp" "\<forall>z \<in> set vs. bp < z"
    using sorted_split [OF b(5) bpb(3) b(3)] bp1 b(4) by auto
  have "hd (us @ [p]) = base" using b(4) xs(1) by (cases us) auto
  then have loop: "free_loop h bp (freep h) = Some p"
    using free_loop_finds [of h us p vs base bp "freep h"] b(5,6,7) xs bp1 by simp
  have lk: "linked h (us @ [p])" "hptr h p = hd (vs @ [base])" "linked h (vs @ [base])"
    using b(6) xs(1) linked_append [of h us p "vs @ [base]"] linked_Cons [of h p "vs @ [base]"] by auto
  have dist: "distinct xs" using b(5) strict_sorted_iff by blast
  define up where "up \<longleftrightarrow> blk_end h bp = hptr h p"
  define ws where "ws = (if up then tl vs else vs)"
  define h1 where "h1 = (if up then set_ptr bp (hptr h (hptr h p)) (set_size bp (hsize h bp + hsize h (hptr h p)) h)
     else set_ptr bp (hptr h p) h)"
  let ?F = "insert bp (insert p (set us \<union> set ws))"
  have bs: "bp \<in> set xs \<union> insert bp A" by simp
  have first: "blocks base lo hi (?F \<union> A) h1 \<and> hptr h1 bp = hd (ws @ [base]) \<and> (\<forall>y. y \<noteq> bp \<longrightarrow> hsize h1 y = hsize h y)
     \<and> hsize h bp \<le> hsize h1 bp \<and> area h1 ?F = area h (insert bp (set xs)) \<and> linked h (ws @ [base]) \<and> set ws \<subseteq> set vs"
  proof (cases up)
    case False
    have "blocks base lo hi (?F \<union> A) h" using b(1) xs(1) False by (simp add: ws_def insert_commute Un_commute)
    then show ?thesis using False lk xs(1) by (simp add: ws_def h1_def Un_ac)
  next
    case True
    define n where "n = hptr h p"
    have en: "blk_end h bp = n" using True by (simp add: up_def n_def)
    have "bp < n" using blk_end_gt [OF bp1(2)] en by simp
    then have "vs \<noteq> []" using lk(2) bp1 by (cases vs) (auto simp: n_def)
    then obtain ws' where vs: "vs = n # ws'" using lk(2) by (cases vs) (auto simp: n_def)
    then have ws: "ws = ws'" using True by (simp add: ws_def)
    have nin: "n \<in> set xs \<union> insert bp A" using xs(1) vs by simp
    note ab = absorb [OF b(1) bs nin bpb(1) en]
    have nA: "n \<notin> A" "n \<noteq> bp" using b(2) xs(1) vs \<open>bp < n\<close> by auto
    have e: "set xs \<union> insert bp A - {n} = ?F \<union> A" using xs(1) vs ws dist nA by auto
    have e2: "insert bp (set xs) - {n} = ?F" using xs(1) vs ws dist nA by auto
    have h1: "h1 = set_ptr bp (hptr h n) (set_size bp (hsize h bp + hsize h n) h)" using True by (simp add: h1_def n_def)
    have "blocks base lo hi (?F \<union> A) h1" using ab(1) e h1 by simp
    moreover have "area h1 ?F = area h (insert bp (set xs))"
      using ab(8) [of "insert bp (set xs)"] e2 h1 xs(1) vs by simp
    moreover have "hptr h1 bp = hd (ws @ [base])" "linked h (ws @ [base])"
      using lk(3) vs ws h1 linked_Cons [of h n "ws' @ [base]"] by auto
    moreover have "hsize h bp \<le> hsize h1 bp" using ab(6) h1 by simp
    ultimately show ?thesis using h1 vs ws by auto
  qed
  have above: "blk_end h1 bp < z" if co: "coalesced h xs" and z: "z \<in> set ws" for z
  proof (cases up)
    case False
    then have e: "blk_end h1 bp = blk_end h bp" "ws = vs" by (simp_all add: h1_def ws_def)
    then obtain v vs' where vs: "vs = v # vs'" using z by (cases vs) auto
    then have "blk_end h bp \<noteq> v" using False lk(2) by (simp add: up_def)
    moreover have "bp < v" using xs(3) vs by simp
    then have "blk_end h bp \<le> v" using b(1) xs(1) vs by (simp add: blocks_def)
    moreover have "v \<le> z" using z b(5) xs(1) e(2) vs by (auto simp: sorted_wrt_append)
    ultimately show ?thesis using e(1) by simp
  next
    case True
    define n where "n = hptr h p"
    have en: "blk_end h bp = n" using True by (simp add: up_def n_def)
    have "bp < n" using blk_end_gt [OF bp1(2)] en by simp
    then have "vs \<noteq> []" using lk(2) bp1 by (cases vs) (auto simp: n_def)
    then obtain ws' where vs: "vs = n # ws'" using lk(2) by (cases vs) (auto simp: n_def)
    then have nin: "n \<in> set xs \<union> insert bp A" using xs(1) by simp
    have "blk_end h1 bp = blk_end h n" using absorb(2) [OF b(1) bs nin bpb(1) en] True by (simp add: h1_def n_def)
    moreover have "z \<in> set ws'" using z True vs by (simp add: ws_def)
    then have "n < z" "z \<in> set xs" "n \<in> set xs" using b(5) xs(1) vs by (auto simp: sorted_wrt_append)
    ultimately show ?thesis using co by (simp add: coalesced_def)
  qed
  have h1p: "hptr h1 y = hptr h y" if "y \<noteq> bp" for y using that by (simp add: h1_def)
  have pbp: "p < bp" "p \<notin> set ws" "bp \<notin> set us" "p \<notin> set us" "bp \<notin> set ws" "p \<notin> A" "p \<in> ?F \<union> A" "bp \<in> ?F \<union> A"
    using xs first b(2) dist bpb(3) by auto
  define down where "down \<longleftrightarrow> blk_end h1 p = bp"
  define h2 where "h2 = (if down then set_ptr p (hptr h1 bp) (set_size p (hsize h1 p + hsize h1 bp) h1) else set_ptr p bp h1)"
  define xs' where "xs' = us @ p # (if down then ws else bp # ws)"
  have second: "blocks base lo hi (set xs' \<union> A) h2 \<and> hptr h2 p = hd ((if down then ws else bp # ws) @ [base])
     \<and> (\<forall>y \<in> A. hsize h2 y = hsize h y) \<and> (\<exists>q \<in> set xs'. hsize h bp \<le> hsize h2 q) \<and> area h2 (set xs') = area h1 ?F"
  proof (cases down)
    case False
    then show ?thesis using first bp by (auto simp: h2_def xs'_def insert_commute Un_ac)
  next
    case True
    then have eb: "blk_end h1 p = bp" by (simp add: down_def)
    have "p \<noteq> base"
    proof
      assume "p = base"
      then have "blk_end h1 p = base" using first by (simp add: blocks_def blk_end_def)
      then show False using eb bpb by simp
    qed
    note ab = absorb [OF conjunct1 [OF first] pbp(7,8) this eb]
    have "?F \<union> A - {bp} = set xs' \<union> A" "?F - {bp} = set xs'" using True pbp bp by (auto simp: xs'_def)
    then have "blocks base lo hi (set xs' \<union> A) h2" "area h2 (set xs') = area h1 ?F" using ab(1) ab(8) [of ?F] True by (simp_all add: h2_def)
    moreover have "hptr h2 p = hd (ws @ [base])" using first True by (simp add: h2_def)
    moreover have "\<forall>y \<in> A. hsize h2 y = hsize h y" using first True pbp bp by (auto simp: h2_def)
    moreover have "hsize h bp \<le> hsize h2 p" using order_trans [OF _ ab(7), of "hsize h bp"] first True by (simp add: h2_def)
    ultimately show ?thesis using True by (auto simp: xs'_def)
  qed
  have co2: "coalesced h2 xs'" if co: "coalesced h xs"
  proof -
    have lt: "blk_end h x < y" if "x \<in> set us \<union> {p} \<union> set ws" "y \<in> set us \<union> {p} \<union> set ws" "x < y" for x y
    proof -
      have "set us \<union> {p} \<union> set ws \<subseteq> set xs" using xs(1) first by auto
      then show ?thesis using co that unfolding coalesced_def by blast
    qed
    have e1: "blk_end h1 x = blk_end h x" if "x \<noteq> bp" for x using first that by (simp add: blk_end_def)
    have "set ws \<subseteq> set vs" using first by blast
    then have lo: "\<forall>x \<in> set us \<union> {p}. x \<le> p" "\<forall>x \<in> set ws. bp < x" using b(5) xs(1,3) by (auto simp: sorted_wrt_append)
    show ?thesis
    proof (cases down)
      case True
      then have eb: "blk_end h1 p = bp" by (simp add: down_def)
      have "p \<noteq> base"
      proof
        assume "p = base"
        then have "blk_end h1 p = base" using first by (simp add: blocks_def blk_end_def)
        then show False using eb bpb by simp
      qed
      note ab = absorb(2,5) [OF conjunct1 [OF first] pbp(7,8) this eb]
      have e2: "blk_end h2 p = blk_end h1 bp" "blk_end h2 x = blk_end h1 x" if "x \<noteq> p" for x
        using ab that True by (simp_all add: h2_def)
      have "blk_end h2 x < y" if "x \<in> set us \<union> {p} \<union> set ws" "y \<in> set us \<union> {p} \<union> set ws" "x < y" for x y
      proof (cases "x = p")
        case True
        then have "y \<in> set ws" using lo(1) that by auto
        then show ?thesis using above [OF co] e2(1) [of bp] pbp(1) True by simp
      next
        case False
        have "x \<noteq> bp" using that(1) pbp by auto
        then show ?thesis using lt [OF that] e2(2) [OF False] e1 by simp
      qed
      then show ?thesis using True by (auto simp: coalesced_def xs'_def)
    next
      case False
      have e2: "blk_end h2 x = blk_end h1 x" for x using False by (simp add: h2_def)
      have pb: "blk_end h1 p < bp"
      proof -
        have "blk_end h1 p \<le> bp" using first pbp(1,7,8) by (simp add: blocks_def)
        then show ?thesis using False by (simp add: down_def)
      qed
      have "blk_end h2 x < y" if x: "x \<in> insert bp (set us \<union> {p} \<union> set ws)" and y: "y \<in> insert bp (set us \<union> {p} \<union> set ws)" and xy: "x < y" for x y
      proof -
        consider "x = bp" | "y = bp" "x \<noteq> bp" | "x \<noteq> bp" "y \<noteq> bp" by blast
        then show ?thesis
        proof cases
          case 1
          then have "y \<in> set ws" using y xy lo(1) pbp(1) by auto
          then show ?thesis using 1 above [OF co] e2 by simp
        next
          case 2
          then have "x \<in> set us \<union> {p}" using x xy lo(2) by auto
          then have "x = p \<or> blk_end h x < p" using lt [of x p] lo(1) by (cases "x = p") auto
          then show ?thesis using 2 pb e2 e1 [OF 2(2)] pbp(1) by auto
        next
          case 3
          then have "x \<in> set us \<union> {p} \<union> set ws" "y \<in> set us \<union> {p} \<union> set ws" using x y by blast+
          then show ?thesis using lt xy e2 e1 [OF 3(1)] by simp
        qed
      qed
      then show ?thesis using False by (auto simp: coalesced_def xs'_def)
    qed
  qed
  have h2p: "hptr h2 y = hptr h y" if "y \<noteq> p" "y \<noteq> bp" for y using that h1p by (simp add: h2_def)
  have "linked h2 (xs' @ [base])"
  proof -
    have "linked h2 (us @ [p])" using lk(1) pbp(3,4) by (subst linked_cong [of _ _ h]) (auto intro: h2p)
    moreover have "linked h2 (ws @ [base])" using first pbp by (subst linked_cong [of _ _ h]) (auto intro: h2p)
    moreover have "hptr h2 bp = hd (ws @ [base])" if "\<not> down" using first that pbp by (simp add: h2_def)
    ultimately show ?thesis
      using second linked_append [of h2 us p "(if down then ws else bp # ws) @ [base]"]
      by (auto simp: xs'_def linked_Cons [of h2 p] linked_Cons [of h2 bp])
  qed
  moreover have "sorted_wrt (<) xs'"
  proof -
    have "sorted_wrt (<) (us @ p # ws)" using b(5) xs(1) by (cases vs) (auto simp: ws_def sorted_wrt_append)
    moreover have "\<forall>z \<in> set ws. bp < z" using first xs(3) by auto
    ultimately show ?thesis using xs(2) by (auto simp: xs'_def sorted_wrt_append)
  qed
  moreover have "set xs' \<inter> A = {}" using b(2) xs(1) first bp by (auto simp: xs'_def)
  moreover have "xs' \<noteq> []" "hd xs' = base" using \<open>hd (us @ [p]) = base\<close> by (cases us; simp add: xs'_def)+
  ultimately have "heap_inv base lo hi xs' A (h2\<lparr>freep := p\<rparr>)"
    using second by (simp add: heap_inv_def xs'_def linked_cong [of _ "h2\<lparr>freep := p\<rparr>" h2])
  moreover have "free_lib (bp + 16) h = Some (h2\<lparr>freep := p\<rparr>)"
    using loop by (simp add: free_lib_def up_def down_def h1_def h2_def blk_end_def Let_def cong: if_cong)
  ultimately show ?thesis
    using second first co2
    by (intro exI [of _ "h2\<lparr>freep := p\<rparr>"] exI [of _ xs']) (simp add: area_def coalesced_def blk_end_def h2_def h1_def)
qed

section \<open>Allocating\<close>

text \<open>A block is taken from the list, whole or its upper part.\<close>

lemma linked_last: "linked h (ys @ [p]) \<Longrightarrow> ys \<noteq> [] \<Longrightarrow> hptr h (last ys) = p"
  using linked_append [of h "butlast ys" "last ys" "[p]"]
  by (metis append_Cons append_Nil append_assoc append_butlast_last_id linked.simps(1))

lemma take_block:
  assumes inv: "heap_inv base lo hi xs A h" and p: "prevp \<in> set xs" "hptr h prevp = p" "p \<in> set xs" and n: "0 < n" "n \<le> hsize h p"
  shows "\<exists>q h' xs'. malloc_lib_loop sbrk n prevp p h = Some (q + 16, h') \<and> q \<notin> A \<and> hsize h' q = n
    \<and> heap_inv base lo hi xs' (insert q A) h' \<and> (\<forall>a \<in> A. hsize h' a = hsize h a) \<and> core h' = core h
    \<and> area h' (insert q (set xs')) = area h (set xs) \<and> (coalesced h xs \<longrightarrow> coalesced h' xs')"
proof -
  have b: "blocks base lo hi (set xs \<union> A) h" "set xs \<inter> A = {}" "xs \<noteq> []" "hd xs = base"
    "sorted_wrt (<) xs" "linked h (xs @ [base])" "freep h \<in> set xs" using inv by (auto simp: heap_inv_def)
  have nb: "p \<noteq> base" using b(1) n by (auto simp: blocks_def)
  have pos: "lo \<le> p" "0 < hsize h p" "0 < lo" using b(1) p(3) nb by (auto simp: blocks_def)
  have dist: "distinct xs" using b(5) strict_sorted_iff by blast
  show ?thesis
  proof (cases "hsize h p = n")
    case True
    obtain us vs where "xs = us @ prevp # vs" using split_list [OF p(1)] by blast
    moreover then have "hptr h prevp = hd (vs @ [base])"
      using b(6) linked_append [of h us prevp "vs @ [base]"] linked_Cons [of h prevp "vs @ [base]"] by simp
    ultimately obtain ws where xs: "xs = us @ prevp # p # ws" using p(2) nb by (cases vs) auto
    define h' where "h' = (set_ptr prevp (hptr h p) h)\<lparr>freep := prevp\<rparr>"
    have "malloc_lib_loop sbrk n prevp p h = Some (p + 16, h')"
      using True pos by (subst malloc_lib_loop.simps) (simp add: h'_def)
    moreover have "heap_inv base lo hi (us @ prevp # ws) (insert p A) h'"
    proof -
      have l: "linked h (us @ [prevp])" "linked h (p # ws @ [base])"
        using b(6) xs linked_append [of h us prevp "p # ws @ [base]"] by auto
      have o: "prevp \<notin> set us" "prevp \<notin> set ws" using dist xs by auto
      have "linked h' (us @ [prevp]) = linked h (us @ [prevp])" by (rule linked_cong) (use o in \<open>auto simp: h'_def\<close>)
      then have "linked h' (us @ [prevp])" using l(1) by simp
      moreover have "linked h (ws @ [base])" using l(2) linked_Cons [of h p "ws @ [base]"] by auto
      moreover have "linked h' (ws @ [base]) = linked h (ws @ [base])" by (rule linked_cong) (use o in \<open>auto simp: h'_def\<close>)
      ultimately have "linked h' (us @ prevp # ws @ [base])"
        using linked_append [of h' us prevp "ws @ [base]"]
          l(2) linked_Cons [of h' prevp "ws @ [base]"] linked_Cons [of h p "ws @ [base]"]
        by (auto simp: h'_def)
      moreover have "blocks base lo hi (set (us @ prevp # ws) \<union> insert p A) h'"
        using b(1) xs by (simp add: h'_def insert_commute)
      moreover have "hd (us @ prevp # ws) = base" using b(4) xs by (cases us) auto
      moreover have "sorted_wrt (<) (us @ prevp # ws)" using b(5) xs by (auto simp: sorted_wrt_append)
      ultimately show ?thesis using b(2) xs dist by (auto simp: heap_inv_def h'_def)
    qed
    moreover have "area h' (insert p (set (us @ prevp # ws))) = area h (set xs)"
      using xs by (simp add: h'_def area_def blk_end_def insert_commute)
    moreover have "coalesced h xs \<longrightarrow> coalesced h' (us @ prevp # ws)" using xs by (auto simp: coalesced_def h'_def blk_end_def)
    ultimately show ?thesis using True b(2) p(3)
      by (intro exI [of _ p] exI [of _ h'] exI [of _ "us @ prevp # ws"]) (auto simp: h'_def)
  next
    case False
    define q where "q = p + 16 * uint (hsize h p - n)"
    define h1 where "h1 = set_size q n (set_size p (hsize h p - n) h)"
    have u: "uint (hsize h p - n) = uint (hsize h p) - uint n" using n(2) by (simp add: uint_minus_simple_alt word_le_def)
    have lt: "uint n < uint (hsize h p)" "0 < uint n" 
    using n(1) order_le_neq_trans [OF n(2)] False by (auto simp: word_less_def)
    have qp: "p < q" "q < blk_end h p" "q + 16 * uint n = blk_end h p" using lt u by (auto simp: q_def blk_end_def)
    have out: "q \<noteq> z" if "z \<in> set xs \<union> A" for z using b(1) that qp p(3) by (force simp: blocks_def)
    have e: "blk_end h1 p = q" "blk_end h1 q = blk_end h p" "\<And>z. z \<in> set xs \<union> A \<Longrightarrow> z \<noteq> p \<Longrightarrow> blk_end h1 z = blk_end h z"
      using qp out u by (auto simp: h1_def blk_end_def q_def)
    have bl: "blocks base lo hi (insert q (set xs \<union> A)) h1"
      unfolding blocks_def
    proof (intro conjI ballI impI)
      fix z assume z: "z \<in> insert q (set xs \<union> A) - {base}"
      show "lo \<le> z" using z b(1) qp pos by (auto simp: blocks_def)
      show "0 < hsize h1 z" using z blocks_in [OF b(1), of z] n u lt by (cases "z = q"; cases "z = p") (auto simp: h1_def word_less_def)
      have "blk_end h p \<le> hi" using blocks_in [OF b(1), of p] p(3) nb by auto
      then show "blk_end h1 z \<le> hi" using z blocks_in [OF b(1), of z] e(3) [of z] e(1,2) qp by (cases "z = q"; cases "z = p") auto
    next
      fix y z assume yz: "y \<in> insert q (set xs \<union> A)" "z \<in> insert q (set xs \<union> A)" "y < z"
      have o: "blk_end h y \<le> z" if "y \<in> set xs \<union> A" "z \<in> set xs \<union> A" "y < z" for y z using b(1) that by (auto simp: blocks_def)
      consider "y = q" "z \<in> set xs \<union> A" | "y = p" "z = q" | "y \<in> set xs \<union> A" "y \<noteq> p" "z = q" | "y \<in> set xs \<union> A" "z \<in> set xs \<union> A" using yz by auto
      then show "blk_end h1 y \<le> z"
      proof cases
        case 1
        then show ?thesis using o [of p z] e(2) yz(3) qp p(3) by simp
      next
        case 2
        then show ?thesis using e by simp
      next
        case 3
        then have "y < p" using o [of p y] p(3) qp yz(3) by (cases y p rule: linorder_cases) auto
        then show ?thesis using 3 o [of y p] e(3) [of y] p(3) qp by simp
      next
        case 4
        then show ?thesis using o [of y z] e yz(3) qp by (cases "y = p") auto
      qed
    qed (use b(1) nb out [of base] in \<open>auto simp: blocks_def h1_def\<close>)
    define h' where "h' = h1\<lparr>freep := prevp\<rparr>"
    have "malloc_lib_loop sbrk n prevp p h = Some (q + 16, h')"
      using False n(2) pos by (subst malloc_lib_loop.simps) (simp add: h'_def h1_def q_def Let_def)
    moreover have "heap_inv base lo hi xs (insert q A) h'"
      using bl b out p linked_cong [of "xs @ [base]" h' h] by (auto simp: heap_inv_def h'_def h1_def)
    moreover have "area h' (insert q (set xs)) = area h (set xs)"
    proof -
      have "set xs = insert p (set xs - {p})" using p(3) by auto
      moreover have "area h' (set xs - {p}) = area h (set xs - {p})" using e(3) by (auto simp: area_def h'_def blk_end_def)
      moreover have "{q ..< blk_end h' q} \<union> {p ..< blk_end h' p} = {p ..< blk_end h p}" using e qp by (auto simp: h'_def blk_end_def)
      ultimately show ?thesis by (metis area_insert Un_assoc insert_commute)
    qed
    moreover have "coalesced h xs \<longrightarrow> coalesced h' xs" unfolding coalesced_def
    proof (intro impI ballI)
      fix x y assume co: "\<forall>p \<in> set xs. \<forall>q \<in> set xs. p < q \<longrightarrow> blk_end h p < q" and xy: "x \<in> set xs" "y \<in> set xs" "x < y"
      have "blk_end h' x \<le> blk_end h x" using e(1,3) qp(2) xy(1) by (cases "x = p") (simp_all add: h'_def blk_end_def)
      moreover have "blk_end h x < y" using co xy by blast
      ultimately show "blk_end h' x < y" by linarith
    qed
    ultimately show ?thesis using out qp b(2) p(3) by (intro exI [of _ q] exI [of _ h'] exI [of _ xs]) (auto simp: h'_def h1_def)
  qed
qed

text \<open>The ring of blocks the loop of \<open>malloc\<close> looks at, from the one behind \<open>freep\<close> to \<open>freep\<close>.\<close>

lemma loop_skip:
  "linked h (prev # zs @ [r]) \<Longrightarrow> \<forall>z \<in> set zs. z \<noteq> 0 \<and> \<not> n \<le> hsize h z \<and> z \<noteq> freep h \<Longrightarrow>
   malloc_lib_loop sbrk n prev (hptr h prev) h = malloc_lib_loop sbrk n (last (prev # zs)) r h"
proof (induction zs arbitrary: prev)
  case (Cons z zs)
  have "hptr h prev = z" "linked h (z # zs @ [r])" using Cons.prems(1) by auto
  moreover have "malloc_lib_loop sbrk n prev z h = malloc_lib_loop sbrk n z (hptr h z) h"
    using Cons.prems(2) by (subst malloc_lib_loop.simps) simp
  ultimately show ?case using Cons by simp
qed simp

lemma ring:
  assumes inv: "heap_inv base lo hi xs A h"
  obtains rs where "linked h (freep h # rs @ [freep h])" "set (freep h # rs) = set xs" "freep h \<notin> set rs" "0 \<notin> set xs"
proof -
  have b: "blocks base lo hi (set xs \<union> A) h" "xs \<noteq> []" "hd xs = base"
    "sorted_wrt (<) xs" "linked h (xs @ [base])" "freep h \<in> set xs" using inv by (auto simp: heap_inv_def)
  obtain us vs where xs: "xs = us @ freep h # vs" using split_list [OF b(6)] by blast
  have dist: "distinct xs" using b(4) strict_sorted_iff by blast
  have l: "linked h (us @ [freep h])" "linked h (freep h # vs @ [base])"
    using b(5) xs linked_append [of h us "freep h" "vs @ [base]"] by auto
  obtain ts where ts: "us @ [freep h] = base # ts" using b(3) xs by (cases us) auto
  have "linked h ((freep h # vs) @ base # ts)"
    using l ts linked_append [of h "freep h # vs" base ts] by simp
  then have "linked h (freep h # (vs @ us) @ [freep h])" using ts by simp
  moreover have "0 \<notin> set xs"
  proof
    assume "0 \<in> set xs"
    then show False using blocks_base [OF b(1)] blocks_in [OF b(1), of 0] by auto
  qed
  ultimately show ?thesis using that [of "vs @ us"] xs dist by auto
qed

lemma loop_first_fit:
  assumes inv: "heap_inv base lo hi xs A h" and fit: "q \<in> set xs" "n \<le> hsize h q"
  obtains prevp p where "prevp \<in> set xs" "hptr h prevp = p" "p \<in> set xs" "n \<le> hsize h p"
    "malloc_lib_loop sbrk n (freep h) (hptr h (freep h)) h = malloc_lib_loop sbrk n prevp p h"
proof -
  obtain rs where rs: "linked h (freep h # rs @ [freep h])" "set (freep h # rs) = set xs" "freep h \<notin> set rs" "0 \<notin> set xs"
    using ring [OF inv] by blast
  have "\<exists>z \<in> set (rs @ [freep h]). n \<le> hsize h z" using fit rs(2) by auto
  then obtain as p bs where split: "rs @ [freep h] = as @ p # bs" "n \<le> hsize h p" "\<forall>z \<in> set as. \<not> n \<le> hsize h z"
    using split_list_first_prop [of "rs @ [freep h]" "\<lambda>z. n \<le> hsize h z"] by blast
  have as: "set as \<subseteq> set rs" using split(1) by (cases bs rule: rev_cases) (auto simp: append_eq_append_conv2)
  have l: "linked h (freep h # as @ [p])" using rs(1) split(1) linked_append [of h "freep h # as" p bs] by simp
  have "p \<in> set (rs @ [freep h])" unfolding split(1) by simp
  then have p: "p \<in> set xs" using rs(2) by auto
  have "\<forall>z \<in> set as. z \<noteq> 0 \<and> \<not> n \<le> hsize h z \<and> z \<noteq> freep h" using split(3) as rs by auto
  from loop_skip [OF l this]
  have "malloc_lib_loop sbrk n (freep h) (hptr h (freep h)) h = malloc_lib_loop sbrk n (last (freep h # as)) p h" .
  moreover have "last (freep h # as) \<in> set xs" 
  proof -
    have "set (freep h # as) \<subseteq> set xs" using as rs(2) by auto
    then show ?thesis using last_in_set [of "freep h # as"] by blast
  qed
  moreover have "hptr h (last (freep h # as)) = p" using linked_last [of h "freep h # as" p] l by simp
  ultimately show ?thesis using that split(2) p by blast
qed

lemma loop_no_fit:
  assumes inv: "heap_inv base lo hi xs A h" and no: "\<forall>q \<in> set xs. \<not> n \<le> hsize h q"
  shows "malloc_lib_loop sbrk n (freep h) (hptr h (freep h)) h = Option.bind (morecore sbrk (sint n) h) (\<lambda>(p, h).
          if p = 0 then Some (0, h) else malloc_lib_loop sbrk n p (hptr h p) h)"
proof -
  obtain rs where rs: "linked h (freep h # rs @ [freep h])" "set (freep h # rs) = set xs" "freep h \<notin> set rs" "0 \<notin> set xs"
    using ring [OF inv] by blast
  have "\<forall>z \<in> set rs. z \<noteq> 0 \<and> \<not> n \<le> hsize h z \<and> z \<noteq> freep h" using no rs by auto
  from loop_skip [OF rs(1) this]
  have "malloc_lib_loop sbrk n (freep h) (hptr h (freep h)) h = malloc_lib_loop sbrk n (last (freep h # rs)) (freep h) h" .
  moreover have f: "freep h \<noteq> 0" "\<not> n \<le> hsize h (freep h)" using no rs by auto
  have "malloc_lib_loop sbrk n x (freep h) h = Option.bind (morecore sbrk (sint n) h) (\<lambda>(p, h).
          if p = 0 then Some (0, h) else malloc_lib_loop sbrk n p (hptr h p) h)" for x
    by (subst malloc_lib_loop.simps) (simp only: f if_False if_True simp_thms)
  ultimately show ?thesis by simp
qed

lemma add_block:
  assumes inv: "heap_inv base lo hi xs A h" and n: "0 < n" "hi + 16 * uint n \<le> hi'" "hi' - lo < 2 ^ 36" "lo \<le> hi"
  shows "heap_inv base lo hi' xs (insert hi A) (set_size hi n h)" "hi \<notin> set xs \<union> A"
proof -
  have b: "blocks base lo hi (set xs \<union> A) h" using inv by (simp add: heap_inv_def)
  have le: "blk_end h p \<le> hi" if "p \<in> set xs \<union> A" for p
    using blocks_in [OF b that] blocks_base [OF b] n(4) by (cases "p = base") auto
  have lt: "p < hi" if "p \<in> set xs \<union> A" for p
    using blocks_in [OF b that] blocks_base [OF b] n(4) by (cases "p = base") auto
  show out: "hi \<notin> set xs \<union> A" using lt by auto
  have e: "blk_end (set_size hi n h) p = blk_end h p" if "p \<noteq> hi" for p using that by (simp add: blk_end_def)
  have bh: "blk_end (set_size hi n h) hi \<le> hi'" "hi \<le> hi'" using n(1,2) by (simp_all add: blk_end_def word_less_def)
  have bb: "base \<noteq> hi" "base \<in> set xs \<union> A" using b n(4) by (auto simp: blocks_def)
  have "blocks base lo hi' (insert hi (set xs \<union> A)) (set_size hi n h)"
    unfolding blocks_def
  proof (intro conjI ballI impI)
    fix p assume p: "p \<in> insert hi (set xs \<union> A) - {base}"
    show "lo \<le> p" "0 < hsize (set_size hi n h) p" using p b n by (auto simp: blocks_def)
    show "blk_end (set_size hi n h) p \<le> hi'" using p le [of p] e [of p] bh by (cases "p = hi") auto
  next
    fix p q assume pq: "p \<in> insert hi (set xs \<union> A)" "q \<in> insert hi (set xs \<union> A)" "p < q"
    then have "p \<noteq> hi" using lt [of q] by auto
    then show "blk_end (set_size hi n h) p \<le> q" using pq b le [of p] e [of p] by (auto simp: blocks_def)
  qed (use b n bb in \<open>auto simp: blocks_def\<close>)
  then show "heap_inv base lo hi' xs (insert hi A) (set_size hi n h)"
    using inv out linked_cong [of "xs @ [base]" "set_size hi n h" h] by (auto simp: heap_inv_def)
qed

lemma heap_inv_core [simp]: "heap_inv base lo hi xs A (h\<lparr>core := c\<rparr>) = heap_inv base lo hi xs A h"
  using linked_cong [of "xs @ [base]" "h\<lparr>core := c\<rparr>" h]
  by (simp add: heap_inv_def blocks_cong [of "h\<lparr>core := c\<rparr>" h])

section \<open>Growing\<close>

text \<open>The units of a request: its bytes rounded up, and a header.\<close>

definition units_for :: "u64 \<Rightarrow> int" where
  "units_for nbytes = (uint nbytes + 15) div 16 + 1"

lemma units_range: "uint nbytes < 2 ^ 31 - 32 \<Longrightarrow> 0 < units_for nbytes \<and> units_for nbytes < 2 ^ 27"
  using pos_imp_zdiv_nonneg_iff [of 16 "uint nbytes + 15"] uint_ge_0 [of nbytes] by (auto simp: units_for_def)

lemma cut_units:
  assumes n: "uint nbytes < 2 ^ 31 - 32"
  shows "(ucast ((nbytes + 16 - 1) div 16 + 1) :: u32) = word_of_int (units_for nbytes)"
    and "uint (word_of_int (units_for nbytes) :: u32) = units_for nbytes"
    and "sint (word_of_int (units_for nbytes) :: u32) = units_for nbytes"
proof -
  note r = units_range [OF n]
  have "uint (15 + nbytes) = uint nbytes + 15" using n by (simp add: uint_plus_if_size size_word_def)
  then have "uint ((15 + nbytes) div 16) = (uint nbytes + 15) div 16" by (simp add: uint_div)
  then have "uint ((15 + nbytes) div 16 + 1) = units_for nbytes"
    using r by (simp add: uint_plus_if_size size_word_def units_for_def)
  then show "(ucast ((nbytes + 16 - 1) div 16 + 1) :: u32) = word_of_int (units_for nbytes)"
    using r by (simp add: word_uint_eq_iff uint_word_of_int take_bit_int_eq_self uint_up_ucast unsigned_ucast_eq)
qed (use units_range [OF n] in \<open>simp_all add: uint_word_of_int take_bit_int_eq_self sint_sbintrunc' signed_take_bit_int_eq_self\<close>)

text \<open>What the allocator needs of \<open>sbrk\<close>: a request for which there is \<open>room\<close> is answered with the old end
  of the heap, and moves the end at least that far, but not beyond \<open>lim\<close>.\<close>

locale sbrk_source =
  fixes sbrk :: "int \<Rightarrow> 'b \<Rightarrow> (int \<times> 'b) option" and brk :: "'b \<Rightarrow> int" and room :: "'b \<Rightarrow> int \<Rightarrow> bool"
    and lo lim :: int
  assumes sbrk_grows: "room b n \<Longrightarrow> 0 < n \<Longrightarrow> n < 2 ^ 31 \<Longrightarrow>
      \<exists>b'. sbrk n b = Some (brk b, b') \<and> lo \<le> brk b \<and> brk b + n \<le> brk b' \<and> brk b' \<le> lim"
    and lim: "lim - lo < 2 ^ 36" "lim < 2 ^ 64 - 1"
begin

lemma morecore_adds:
  assumes inv: "heap_inv base lo (brk (core h)) xs A h" and nu: "0 < nu" "nu < 2 ^ 27" and r: "room (core h) (16 * max nu 1024)"
  shows "\<exists>h' xs'. morecore sbrk nu h = Some (freep h', h') \<and> heap_inv base lo (brk (core h')) xs' A h'
    \<and> (\<forall>a \<in> A. hsize h' a = hsize h a) \<and> (\<exists>q \<in> set xs'. word_of_int nu \<le> hsize h' q)
    \<and> (coalesced h xs \<longrightarrow> coalesced h' xs')"
proof -
  define m where "m = max nu 1024"
  have m: "0 < m" "nu \<le> m" "m < 2 ^ 27" "16 * m < 2 ^ 31" using nu by (auto simp: m_def)
  have t: "to_int32 (m * 16) = 16 * m" using m by (subst to_int32_id) auto
  obtain c where c: "sbrk (16 * m) (core h) = Some (brk (core h), c)" "lo \<le> brk (core h)"
    "brk (core h) + 16 * m \<le> brk c" "brk c \<le> lim" using sbrk_grows [of "core h" "16 * m"] r m by (auto simp: m_def)
  let ?up = "brk (core h)" and ?n = "word_of_int m :: u32"
  define h1 where "h1 = set_size ?up ?n (h\<lparr>core := c\<rparr>)"
  have un: "uint ?n = m" using m by (simp add: uint_word_of_int take_bit_int_eq_self)
  have inv0: "heap_inv base lo ?up xs A (h\<lparr>core := c\<rparr>)" using inv by simp
  have n0: "0 < ?n" using un m(1) by (simp add: word_less_def)
  have "?up + 16 * uint ?n \<le> brk c" "brk c - lo < 2 ^ 36" using un c lim by simp_all
  from add_block [OF inv0 n0 this c(2)]
  have add: "heap_inv base lo (brk c) xs (insert ?up A) h1" "?up \<notin> set xs \<union> A" by (simp_all add: h1_def)
  then have "?up \<notin> A" by simp
  from free_inv [OF add(1) this] obtain h' xs' where f: "free_lib (?up + 16) h1 = Some h'" "heap_inv base lo (brk c) xs' A h'"
    "\<forall>a \<in> A. hsize h' a = hsize h1 a" "core h' = core h1" "\<exists>q \<in> set xs'. hsize h1 ?up \<le> hsize h' q"
    "coalesced h1 xs \<longrightarrow> coalesced h' xs'" by blast
  have "coalesced h xs \<longrightarrow> coalesced h1 xs" using add(2) by (auto simp: coalesced_def blk_end_def h1_def)
  have e: "(if nu < NALLOC then NALLOC else nu) = m" by (simp add: NALLOC_def m_def)
  have "?up \<noteq> 2 ^ 64 - 1" using c(3,4) lim(2) m(1) by simp
  then have "morecore sbrk nu h = Some (freep h', h')"
    using c(1) f(1) t e by (simp add: morecore_def h1_def)
  moreover have "word_of_int nu \<le> ?n" using nu m un by (simp add: word_le_def uint_word_of_int take_bit_int_eq_self)
  then have "\<exists>q \<in> set xs'. word_of_int nu \<le> hsize h' q" using f(5) order_trans by (fastforce simp: h1_def)
  moreover have "\<forall>a \<in> A. hsize h' a = hsize h a" using f(3) add(2) by (auto simp: h1_def)
  ultimately show ?thesis using f(2,4,6) \<open>coalesced h xs \<longrightarrow> coalesced h1 xs\<close> by (intro exI [of _ h'] exI [of _ xs']) (simp add: h1_def)
qed

lemma malloc_block:
  assumes inv: "heap_inv base lo (brk (core h)) xs A h" and n: "uint nbytes < 2 ^ 31 - 32"
    and r: "(\<exists>q \<in> set xs. units_for nbytes \<le> uint (hsize h q)) \<or> room (core h) (16 * max (units_for nbytes) 1024)"
  shows "\<exists>q h' xs'. malloc_lib sbrk base nbytes h = Some (q + 16, h') \<and> q \<notin> A \<and> uint (hsize h' q) = units_for nbytes
    \<and> heap_inv base lo (brk (core h')) xs' (insert q A) h' \<and> (\<forall>a \<in> A. hsize h' a = hsize h a) \<and> (coalesced h xs \<longrightarrow> coalesced h' xs')"
proof -
  let ?nu = "units_for nbytes"
  have nu27: "0 < ?nu" "?nu < 2 ^ 27" using units_range [OF n] by auto
  define w where "w = (word_of_int ?nu :: u32)"
  have uw: "uint w = ?nu" "sint w = ?nu" "(ucast ((nbytes + 16 - 1) div 16 + 1) :: u32) = w"
    using cut_units [OF n] by (simp_all add: w_def)
  have w0: "0 < w" using uw nu27 by (simp add: word_less_def)
  have f0: "freep h \<noteq> 0" if "heap_inv base lo hi xs A h" for h :: "'b heap" and hi xs
    using ring [OF that] that by (metis heap_inv_def)
  have start: "malloc_lib sbrk base nbytes h = malloc_lib_loop sbrk w (freep h) (hptr h (freep h)) h"
    using f0 [OF inv] unfolding malloc_lib_def uw(3) by (simp add: Let_def)
  have fit: "\<exists>q h' xs'. malloc_lib_loop sbrk w (freep h) (hptr h (freep h)) h = Some (q + 16, h') \<and> q \<notin> A \<and> hsize h' q = w
    \<and> heap_inv base lo (brk (core h')) xs' (insert q A) h' \<and> (\<forall>a \<in> A. hsize h' a = hsize h a) \<and> (coalesced h xs \<longrightarrow> coalesced h' xs')"
    if inv: "heap_inv base lo (brk (core h)) xs A h" and q: "q \<in> set xs" "w \<le> hsize h q" for h xs q
  proof -
    obtain prevp p where p: "prevp \<in> set xs" "hptr h prevp = p" "p \<in> set xs" "w \<le> hsize h p"
      "malloc_lib_loop sbrk w (freep h) (hptr h (freep h)) h = malloc_lib_loop sbrk w prevp p h"
      using loop_first_fit [OF inv q] by metis
    show ?thesis using take_block [OF inv p(1,2,3) w0 p(4), of sbrk] p(5) by force
  qed
  show ?thesis
  proof (cases "\<exists>q \<in> set xs. w \<le> hsize h q")
    case True
    then show ?thesis using fit [OF inv] start uw by metis
  next
    case False
    then have "\<not> (\<exists>q \<in> set xs. ?nu \<le> uint (hsize h q))" using uw by (simp add: word_le_def)
    then have "room (core h) (16 * max ?nu 1024)" using r by blast
    from morecore_adds [OF inv nu27 this] obtain h1 xs1 where h1: "morecore sbrk ?nu h = Some (freep h1, h1)"
      "heap_inv base lo (brk (core h1)) xs1 A h1" "\<forall>a \<in> A. hsize h1 a = hsize h a" "\<exists>q \<in> set xs1. w \<le> hsize h1 q"
      "coalesced h xs \<longrightarrow> coalesced h1 xs1"
      unfolding w_def by blast
    have "freep h1 \<noteq> 0" using f0 [OF h1(2)] .
    then have "malloc_lib sbrk base nbytes h = malloc_lib_loop sbrk w (freep h1) (hptr h1 (freep h1)) h1"
      using start loop_no_fit [OF inv, of w sbrk] False h1(1) uw(2) by auto
    moreover obtain q h' xs' where m: "malloc_lib_loop sbrk w (freep h1) (hptr h1 (freep h1)) h1 = Some (q + 16, h')" "q \<notin> A" "hsize h' q = w"
      "heap_inv base lo (brk (core h')) xs' (insert q A) h'" "\<forall>a \<in> A. hsize h' a = hsize h1 a" "coalesced h1 xs1 \<longrightarrow> coalesced h' xs'"
      using fit [OF h1(2)] h1(4) by blast
    ultimately show ?thesis using h1(3,5) uw by (intro exI [of _ q] exI [of _ h'] exI [of _ xs']) simp
  qed
qed

end

section \<open>The system call\<close>

text \<open>\<open>sbrk\<close> traps with code 9, where the kernel calls its \<open>malloc\<close>; the heap area starts at the address
  that \<open>createNewTask\<close> and \<open>execvpe\<close> give it.\<close>

definition sbrk_call :: "int \<Rightarrow> kernel \<Rightarrow> (int \<times> kernel) option" where
  "sbrk_call increment k = do {
     (retVal, k) \<leftarrow> malloc (to_int32 increment) k;
     Some (uint retVal, k)
   }"

definition sbrk :: "int \<Rightarrow> kernel \<Rightarrow> (int \<times> kernel) option" where
  "sbrk increment k = sbrk_call increment k"

definition HEAP_START :: int where "HEAP_START = 0x4B0FFFFF0000"
definition HEAP_END :: int where "HEAP_END = HEAP_START + 2 ^ 36 - 1"

definition heap_brk :: "kernel \<Rightarrow> int" where
  "heap_brk k = uint (lastAddress (vm (cur k) ! 1))"

text \<open>The area may grow by the request, and the kernel has the frames.\<close>

definition brk_fits :: "kernel \<Rightarrow> int \<Rightarrow> bool" where
  "brk_fits k n \<longleftrightarrow> HEAP_START \<le> heap_brk k \<and> heap_brk k + 4096 * int (new_pages n) \<le> HEAP_END"

definition brk_room :: "kernel \<Rightarrow> int \<Rightarrow> bool" where
  "brk_room k n \<longleftrightarrow> brk_fits k n \<and> malloc n k \<noteq> None"

lemma heap_room_brk: "heap_room k n fs \<Longrightarrow> brk_fits k n \<Longrightarrow> brk_room k n"
  using malloc_step [of k n fs] by (auto simp: brk_room_def)

lemma malloc_loop_end: "malloc_loop pml4 r v s = Some (e, s') \<Longrightarrow> e = page_at v r"
  by (induction r arbitrary: v s) (auto simp: page_at_simps(2) [symmetric] simp del: page_at_simps(2) split: bind_splits)

lemma sbrk_kernel:
  assumes "brk_room k n" and "0 < n" "n < 2 ^ 31"
  shows "\<exists>k'. sbrk n k = Some (heap_brk k, k') \<and> HEAP_START \<le> heap_brk k \<and> heap_brk k + n \<le> heap_brk k' \<and> heap_brk k' \<le> HEAP_END"
proof -
  obtain a k' where m: "malloc n k = Some (a, k')" and b: "HEAP_START \<le> heap_brk k" "heap_brk k + 4096 * int (new_pages n) \<le> HEAP_END"
    using assms(1) by (auto simp: brk_room_def brk_fits_def)
  obtain v0 v1 vs where v: "vm (cur k) = v0 # v1 # vs" using m by (auto simp: malloc_def split: list.splits)
  have k': "a = lastAddress v1" "vm (cur k') = v0 # v1\<lparr>lastAddress := page_at (lastAddress v1) (new_pages n)\<rparr> # vs"
    using m v by (auto simp: malloc_def new_pages_def add.commute dest: malloc_loop_end split: bind_splits)
  have e: "heap_brk k = int (unat (lastAddress v1))" using v by (simp add: heap_brk_def)
  have "int (unat (lastAddress v1)) + 4096 * int (new_pages n) \<le> HEAP_END" using b(2) unfolding e .
  then have "int (unat (lastAddress v1) + 4096 * new_pages n) < int (2 ^ 48)" by (simp add: HEAP_END_def HEAP_START_def)
  then have "unat (lastAddress v1) + 4096 * new_pages n < 2 ^ 48" by (simp only: of_nat_less_iff)
  from arg_cong [OF unat_page_at [OF this], of int]
  have e': "heap_brk k' = heap_brk k + 4096 * int (new_pages n)"
    using k'(2) e by (simp add: heap_brk_def)
  have "int (new_pages n) = n div 4096 + 1" using assms(2) by (simp add: new_pages_def cdiv_nonneg)
  then have "n \<le> 4096 * int (new_pages n)" by simp
  moreover have "sbrk n k = Some (heap_brk k, k')"
    using m k'(1) e assms(2,3) by (simp add: sbrk_def sbrk_call_def to_int32_id)
  ultimately show ?thesis using b e' by (intro exI [of _ k']) simp
qed

interpretation kheap: sbrk_source sbrk heap_brk brk_room HEAP_START HEAP_END
proof
  show "\<exists>b'. sbrk n b = Some (heap_brk b, b') \<and> HEAP_START \<le> heap_brk b \<and> heap_brk b + n \<le> heap_brk b' \<and> heap_brk b' \<le> HEAP_END"
    if "brk_room b n" "0 < n" "n < 2 ^ 31" for b n using sbrk_kernel [OF that] .
qed (simp_all add: HEAP_END_def HEAP_START_def)

section \<open>The allocator on the kernel's heap\<close>

text \<open>Before the first call \<open>freep\<close> is NULL and \<open>base\<close> becomes the only block.\<close>

definition heap_state :: "int \<Rightarrow> int list \<Rightarrow> int set \<Rightarrow> kernel heap \<Rightarrow> bool" where
  "heap_state base xs A h \<longleftrightarrow> heap_inv base HEAP_START (heap_brk (core h)) xs A h
     \<or> freep h = 0 \<and> A = {} \<and> xs = [] \<and> 0 < base \<and> base < HEAP_START \<and> heap_brk (core h) \<le> HEAP_END"

lemma heap_state_init:
  assumes "heap_state base xs A h"
  obtains h0 xs0 where "heap_inv base HEAP_START (heap_brk (core h0)) xs0 A h0" "core h0 = core h"
    "malloc_lib s base n h = malloc_lib s base n h0" "\<forall>a \<in> A. hsize h0 a = hsize h a" "set xs \<subseteq> set xs0"
    "\<forall>q \<in> set xs. hsize h0 q = hsize h q" "\<forall>q \<in> set xs0 - set xs. hsize h0 q = 0" "coalesced h xs \<longrightarrow> coalesced h0 xs0"
proof (cases "freep h = 0 \<and> A = {} \<and> xs = []")
  case False
  then have "heap_inv base HEAP_START (heap_brk (core h)) xs A h" using assms by (auto simp: heap_state_def)
  then show ?thesis using that [of h xs] by simp
next
  case True
  define h0 where "h0 = set_size base 0 (set_ptr base base (h\<lparr>freep := base\<rparr>))"
  have b: "0 < base" "base < HEAP_START" "heap_brk (core h) \<le> HEAP_END"
    using assms True by (auto simp: heap_state_def heap_inv_def)
  then have "heap_inv base HEAP_START (heap_brk (core h0)) [base] A h0"
    using True by (auto simp: heap_inv_def blocks_def blk_end_def h0_def HEAP_END_def)
  moreover have "malloc_lib s base n h = malloc_lib s base n h0"
    using True b by (simp add: malloc_lib_def h0_def Let_def)
  ultimately show ?thesis using that [of h0 "[base]"] True by (simp add: h0_def coalesced_def)
qed

text \<open>A call that returns had what it needs.\<close>

lemma malloc_lib_room:
  assumes h: "heap_state base xs A h" and n: "uint nbytes < 2 ^ 31 - 32" and f: "brk_fits (core h) (16 * max (units_for nbytes) 1024)"
    and run: "malloc_lib sbrk base nbytes h = Some (ap, h')"
  shows "(\<exists>q \<in> set xs. units_for nbytes \<le> uint (hsize h q)) \<or> brk_room (core h) (16 * max (units_for nbytes) 1024)"
proof (rule disjCI)
  obtain h0 xs0 where h0: "heap_inv base HEAP_START (heap_brk (core h0)) xs0 A h0" "core h0 = core h"
    "malloc_lib sbrk base nbytes h = malloc_lib sbrk base nbytes h0" "\<forall>a \<in> A. hsize h0 a = hsize h a" "set xs \<subseteq> set xs0"
    "\<forall>q \<in> set xs. hsize h0 q = hsize h q" "\<forall>q \<in> set xs0 - set xs. hsize h0 q = 0" "coalesced h xs \<longrightarrow> coalesced h0 xs0"
    using heap_state_init [OF h, of sbrk nbytes] .
  let ?nu = "units_for nbytes"
  define w where "w = (word_of_int ?nu :: u32)"
  have nu: "0 < ?nu" "?nu < 2 ^ 27" using units_range [OF n] by auto
  have uw: "uint w = ?nu" "sint w = ?nu" "(ucast ((nbytes + 16 - 1) div 16 + 1) :: u32) = w"
    using cut_units [OF n] by (simp_all add: w_def)
  assume "\<not> brk_room (core h) (16 * max ?nu 1024)"
  then have "malloc (16 * max ?nu 1024) (core h) = None" using f unfolding brk_room_def by blast
  moreover have "to_int32 (16 * max ?nu 1024) = 16 * max ?nu 1024" using nu by (subst to_int32_id) auto
  ultimately have none: "sbrk (16 * max ?nu 1024) (core h0) = None"
    by (simp add: sbrk_def sbrk_call_def h0(2))
  have "to_int32 (max ?nu 1024 * 16) = 16 * max ?nu 1024" using nu by (subst to_int32_id) auto
  moreover have "(if ?nu < NALLOC then NALLOC else ?nu) = max ?nu 1024" by (simp add: NALLOC_def)
  ultimately have m: "morecore sbrk ?nu h0 = None" using none by (simp add: morecore_def)
  have f0: "freep h0 \<noteq> 0" using ring [OF h0(1)] h0(1) by (metis heap_inv_def)
  then have start: "malloc_lib sbrk base nbytes h0 = malloc_lib_loop sbrk w (freep h0) (hptr h0 (freep h0)) h0"
    unfolding malloc_lib_def uw(3) by (simp add: Let_def)
  have "\<exists>q \<in> set xs0. w \<le> hsize h0 q"
  proof (rule ccontr)
    assume "\<not> (\<exists>q \<in> set xs0. w \<le> hsize h0 q)"
    then have "malloc_lib sbrk base nbytes h0 = None"
      using loop_no_fit [OF h0(1), of w sbrk] m start by (simp add: uw(2))
    then show False using run h0(3) by simp
  qed
  then obtain q where q: "q \<in> set xs0" "?nu \<le> uint (hsize h0 q)" using uw by (auto simp: word_le_def)
  then have "q \<in> set xs" using h0(7) nu by force
  then show "\<exists>q \<in> set xs. ?nu \<le> uint (hsize h q)" using q h0(6) by auto
qed

lemma malloc_lib_step:
  assumes h: "heap_state base xs A h" and n: "uint nbytes < 2 ^ 31 - 32"
    and room: "(\<exists>q \<in> set xs. units_for nbytes \<le> uint (hsize h q)) \<or> brk_room (core h) (16 * max (units_for nbytes) 1024)"
  shows "\<exists>q h' xs'. malloc_lib sbrk base nbytes h = Some (q + 16, h') \<and> q \<notin> A
    \<and> uint (hsize h' q) = units_for nbytes \<and> heap_state base xs' (insert q A) h'
    \<and> (\<forall>a \<in> A. hsize h' a = hsize h a \<and> (blk_end h' q \<le> a \<or> blk_end h' a \<le> q))
    \<and> (coalesced h xs \<longrightarrow> coalesced h' xs')"
proof -
  obtain h0 xs0 where h0: "heap_inv base HEAP_START (heap_brk (core h0)) xs0 A h0" "core h0 = core h"
    "malloc_lib sbrk base nbytes h = malloc_lib sbrk base nbytes h0" "\<forall>a \<in> A. hsize h0 a = hsize h a" "set xs \<subseteq> set xs0"
    "\<forall>q \<in> set xs. hsize h0 q = hsize h q" "\<forall>q \<in> set xs0 - set xs. hsize h0 q = 0" "coalesced h xs \<longrightarrow> coalesced h0 xs0"
    using heap_state_init [OF h, of sbrk nbytes] .
  have "(\<exists>q \<in> set xs0. units_for nbytes \<le> uint (hsize h0 q)) \<or> brk_room (core h0) (16 * max (units_for nbytes) 1024)"
    using room h0(2,5,6) by (metis subsetD)
  from kheap.malloc_block [OF h0(1) n this] obtain q h' xs' where m:
    "malloc_lib sbrk base nbytes h0 = Some (q + 16, h')" "q \<notin> A" "uint (hsize h' q) = units_for nbytes"
    "heap_inv base HEAP_START (heap_brk (core h')) xs' (insert q A) h'" "\<forall>a \<in> A. hsize h' a = hsize h0 a"
    "coalesced h0 xs0 \<longrightarrow> coalesced h' xs'" by blast
  have "blk_end h' q \<le> a \<or> blk_end h' a \<le> q" if "a \<in> A" for a
  proof -
    have "a < q \<or> q < a" using that m(2) by (metis linorder_neqE)
    then show ?thesis using m(4) that by (auto simp: heap_inv_def blocks_def)
  qed
  then show ?thesis using m h0(3,4,8) by (intro exI [of _ q] exI [of _ h'] exI [of _ xs']) (simp add: heap_state_def)
qed

lemma free_lib_step:
  assumes h: "heap_state base xs A h" and bp: "bp \<in> A"
  shows "\<exists>h' xs'. free_lib (bp + 16) h = Some h' \<and> heap_state base xs' (A - {bp}) h'
    \<and> area h' (set xs') = area h (set xs) \<union> {bp ..< blk_end h bp}
    \<and> (\<forall>a \<in> A - {bp}. hsize h' a = hsize h a) \<and> (coalesced h xs \<longrightarrow> coalesced h' xs')"
proof -
  have "heap_inv base HEAP_START (heap_brk (core h)) xs (insert bp (A - {bp})) h"
    using h bp by (auto simp: heap_state_def insert_absorb)
  from free_inv [OF this] obtain h' xs' where f: "free_lib (bp + 16) h = Some h'"
    "heap_inv base HEAP_START (heap_brk (core h)) xs' (A - {bp}) h'" "\<forall>a \<in> A - {bp}. hsize h' a = hsize h a" "core h' = core h"
    "area h' (set xs') = area h (insert bp (set xs))"
    "coalesced h xs \<longrightarrow> coalesced h' xs'" by blast
  then show ?thesis by (intro exI [of _ h'] exI [of _ xs']) (auto simp: heap_state_def)
qed

text \<open>C15: allocation in a user program, down to the page tables. For a request below 2 GB - 32 bytes, as long as some free block is large enough
  or the task's heap has room to grow by the larger of the request and 16 KB, \<open>malloc\<close> returns; the
  block it returns has the units asked for (the bytes rounded up to 16, and a header), is no block
  in use, overlaps none, and the sizes of the blocks in use are kept: the free list and the blocks in
  use are again a heap.\<close>

theorem malloc_lib_returns_block:
  assumes h: "heap_state base xs A h" and n: "uint nbytes < 2 ^ 31 - 32"
    and room: "(\<exists>q \<in> set xs. units_for nbytes \<le> uint (hsize h q))
      \<or> heap_room (core h) (16 * max (units_for nbytes) 1024) fs \<and> brk_fits (core h) (16 * max (units_for nbytes) 1024)"
  shows "\<exists>q h' xs'. malloc_lib sbrk base nbytes h = Some (q + 16, h') \<and> q \<notin> A
    \<and> uint (hsize h' q) = units_for nbytes \<and> heap_state base xs' (insert q A) h'
    \<and> (\<forall>a \<in> A. hsize h' a = hsize h a \<and> (blk_end h' q \<le> a \<or> blk_end h' a \<le> q))"
  using malloc_lib_step [OF h n] room heap_room_brk by blast

text \<open>A program whose \<open>base\<close> is at 0x600000 before its first allocation, on a kernel with twenty free frames.\<close>

definition prog_heap :: "kernel heap" where
  "prog_heap = \<lparr>hptr = (\<lambda>_. 0), hsize = (\<lambda>_. 0), freep = 0, core = kernel_heap 0x4B0FFFFF0000\<rparr>"

lemma prog_heap_facts:
  "heap_state 0x600000 [] {} prog_heap" "units_for 100 = 8"
  "heap_room (core prog_heap) 16384 frames20" "brk_fits (core prog_heap) 16384"
proof -
  have n: "new_pages 16384 = 5" by (simp add: new_pages_def cdiv_def)
  have b: "heap_brk (core prog_heap) = 0x4B0FFFFF0000" by (simp add: prog_heap_def heap_brk_def)
  show "heap_state 0x600000 [] {} prog_heap"
    unfolding heap_state_def b by (simp add: HEAP_END_def HEAP_START_def prog_heap_def)
  show "brk_fits (core prog_heap) 16384" unfolding brk_fits_def b n by (simp add: HEAP_END_def HEAP_START_def)
  show "heap_room (core prog_heap) 16384 frames20"
    unfolding prog_heap_def heap.simps by (rule heap_room_kernel_heap) (simp_all add: n)
  show "units_for 100 = 8" by (simp add: units_for_def)
qed

theorem malloc_lib_returns_block_witness:
  "\<exists>q h'. malloc_lib sbrk 0x600000 100 prog_heap = Some (q + 16, h') \<and> uint (hsize h' q) = 8"
proof -
  have "16 * max (units_for 100) 1024 = 16384" by (simp add: prog_heap_facts)
  then have "(\<exists>q \<in> set []. units_for 100 \<le> uint (hsize prog_heap q))
     \<or> heap_room (core prog_heap) (16 * max (units_for 100) 1024) frames20 \<and> brk_fits (core prog_heap) (16 * max (units_for 100) 1024)"
    using prog_heap_facts(3,4) by simp
  from malloc_lib_returns_block [OF prog_heap_facts(1) _ this] show ?thesis by (auto simp: prog_heap_facts(2))
qed

text \<open>C17: freeing a block in use always returns and gives a heap again, in which the bytes of the block are
  free: the free blocks cover what they covered before and the block, and no more. The block is merged with its neighbours
  where they touch: if no two free blocks touched before, none do afterwards, so the new list is the list of the maximal runs
  of free bytes. The blocks still in use keep their sizes.\<close>

theorem free_lib_merges:
  assumes h: "heap_state base xs A h" and co: "coalesced h xs" and bp: "bp \<in> A"
  shows "\<exists>h' xs'. free_lib (bp + 16) h = Some h' \<and> heap_state base xs' (A - {bp}) h' \<and> coalesced h' xs'
    \<and> area h' (set xs') = area h (set xs) \<union> {bp ..< blk_end h bp}
    \<and> (\<forall>a \<in> A - {bp}. hsize h' a = hsize h a)"
  using free_lib_step [OF h bp] co by blast

lemma prog_heap_first:
  obtains q h xs where "malloc_lib sbrk 0x600000 100 prog_heap = Some (q + 16, h)" "heap_state 0x600000 xs {q} h"
    "uint (hsize h q) = 8" "coalesced h xs"
proof -
  have "16 * max (units_for 100) 1024 = 16384" by (simp add: prog_heap_facts)
  then have "(\<exists>q \<in> set []. units_for 100 \<le> uint (hsize prog_heap q)) \<or> brk_room (core prog_heap) (16 * max (units_for 100) 1024)"
    using heap_room_brk [OF prog_heap_facts(3,4)] by simp
  moreover have "coalesced prog_heap []" by (simp add: coalesced_def)
  ultimately show ?thesis using malloc_lib_step [OF prog_heap_facts(1), of 100] that by (auto simp: prog_heap_facts(2))
qed

theorem free_lib_merges_witness:
  "\<exists>q h h' xs'. malloc_lib sbrk 0x600000 100 prog_heap = Some (q + 16, h) \<and> free_lib (q + 16) h = Some h' \<and> coalesced h' xs'
     \<and> heap_state 0x600000 xs' {} h'"
proof -
  obtain q h xs where q: "malloc_lib sbrk 0x600000 100 prog_heap = Some (q + 16, h)" "heap_state 0x600000 xs {q} h" "coalesced h xs"
    using prog_heap_first .
  have "q \<in> {q}" by simp
  from free_lib_merges [OF q(2,3) this] obtain h' xs' where "free_lib (q + 16) h = Some h'" "heap_state 0x600000 xs' ({q} - {q}) h'" "coalesced h' xs'"
    by blast
  then show ?thesis using q(1) by auto
qed

text \<open>The number of units of a request is cut to 32 bits: a request that is larger by 64 GB is served
  like the smaller one.\<close>

theorem malloc_lib_cuts_request:
  assumes "uint nbytes < 2 ^ 63"
  shows "malloc_lib s base (nbytes + 2 ^ 36) h = malloc_lib s base nbytes h"
proof -
  define u where "u = (uint nbytes + 15) div 16"
  have u: "0 \<le> u" "u < 2 ^ 60" using assms pos_imp_zdiv_nonneg_iff [of 16 "uint nbytes + 15"] uint_ge_0 [of nbytes] by (auto simp: u_def)
  have "uint (nbytes + 2 ^ 36 + 15) = uint nbytes + 15 + 2 ^ 32 * 16" "uint (nbytes + 15) = uint nbytes + 15"
    using assms by (simp_all add: uint_plus_if_size size_word_def)
  then have "uint ((nbytes + 2 ^ 36 + 15) div 16) = u + 2 ^ 32" "uint ((nbytes + 15) div 16) = u"
    by (simp_all add: uint_div u_def)
  then have "uint ((nbytes + 2 ^ 36 + 15) div 16 + 1) = u + 1 + 2 ^ 32" "uint ((nbytes + 15) div 16 + 1) = u + 1"
    using u by (simp_all add: uint_plus_if_size size_word_def)
  then have "take_bit 32 (uint ((nbytes + 2 ^ 36 + 15) div 16 + 1)) = take_bit 32 (uint ((nbytes + 15) div 16 + 1))"
    using mod_add_self2 [of "u + 1" "2 ^ 32"] by (simp only: take_bit_eq_mod)
  then have "take_bit LENGTH(32) (uint ((nbytes + 2 ^ 36 + 15) div 16 + 1)) = take_bit LENGTH(32) (uint ((nbytes + 15) div 16 + 1))"
    by simp
  then have "(ucast ((nbytes + 2 ^ 36 + 15) div 16 + 1) :: u32) = ucast ((nbytes + 15) div 16 + 1)"
    by (simp only: word_uint_eq_iff unsigned_ucast_eq)
  moreover have "nbytes + 2 ^ 36 + 16 - 1 = nbytes + 2 ^ 36 + 15" "nbytes + 16 - 1 = nbytes + 15" by simp_all
  ultimately show ?thesis unfolding malloc_lib_def by (simp only:)
qed

section \<open>A program's calls\<close>

text \<open>The states a program reaches by calls of \<open>malloc\<close> and \<open>free\<close>, with the headers of the blocks in use
  and the requests made so far, each with the kernel it met. Any request may be made; one that is refused
  adds no block. Between two calls the kernel may do anything that leaves the end of the heap area where it is.\<close>

inductive heap_run :: "int \<Rightarrow> (u64 \<times> kernel) list \<Rightarrow> kernel heap \<Rightarrow> int set \<Rightarrow> bool" for base :: int where
  start: "freep h = 0 \<Longrightarrow> 0 < base \<Longrightarrow> base < HEAP_START \<Longrightarrow> heap_brk (core h) \<le> HEAP_END \<Longrightarrow> heap_run base [] h {}"
| alloc: "heap_run base reqs h A \<Longrightarrow> malloc_lib sbrk base nbytes h = Some (ap, h') \<Longrightarrow>
    heap_run base ((nbytes, core h) # reqs) h' (if ap = 0 then A else insert (ap - 16) A)"
| release: "heap_run base reqs h A \<Longrightarrow> ap - 16 \<in> A \<Longrightarrow> free_lib ap h = Some h' \<Longrightarrow> heap_run base reqs h' (A - {ap - 16})"
| kernel: "heap_run base reqs h A \<Longrightarrow> heap_brk k = heap_brk (core h) \<Longrightarrow> heap_run base reqs (h\<lparr>core := k\<rparr>) A"

text \<open>A request of less than 2 GB, for which the heap area would stay below 64 GB if it had to grow.\<close>

definition request_ok :: "u64 \<Rightarrow> kernel \<Rightarrow> bool" where
  "request_ok nbytes k \<longleftrightarrow> uint nbytes < 2 ^ 31 - 32 \<and> brk_fits k (16 * max (units_for nbytes) 1024)"

lemma heap_run_state:
  "heap_run base reqs h A \<Longrightarrow> \<forall>(n, k) \<in> set reqs. request_ok n k \<Longrightarrow> \<exists>xs. heap_state base xs A h \<and> coalesced h xs"
proof (induction rule: heap_run.induct)
  case (start h)
  then show ?case by (auto simp: heap_state_def coalesced_def)
next
  case (alloc reqs h A nbytes ap h')
  then obtain xs where xs: "heap_state base xs A h" "coalesced h xs" by auto
  have r: "uint nbytes < 2 ^ 31 - 32" "brk_fits (core h) (16 * max (units_for nbytes) 1024)"
    using alloc.prems by (simp_all add: request_ok_def)
  from malloc_lib_step [OF xs(1) r(1) malloc_lib_room [OF xs(1) r alloc.hyps(2)]]
  obtain q xs' where q: "ap = q + 16" "heap_state base xs' (insert q A) h'" "coalesced h' xs'"
    using alloc.hyps(2) xs(2) by auto
  then have "HEAP_START \<le> q \<or> q = base" "0 < base" by (auto simp: heap_state_def heap_inv_def blocks_def)
  then have "ap \<noteq> 0" using q(1) by (auto simp: HEAP_START_def)
  then show ?case using q by auto
next
  case (release reqs h A ap h')
  then obtain xs where "heap_state base xs A h" "coalesced h xs" by auto
  with free_lib_step [OF this(1) release.hyps(2)] release.hyps(3) show ?case by auto
next
  case (kernel reqs h A k)
  then show ?case by (auto simp: heap_state_def coalesced_def blk_end_def)
qed

text \<open>C16: a program that allocates and frees blocks in any order, each request below 2 GB - 32 bytes
  and met by a heap area that would stay below 64 GB if it grew by the larger of the request and 16 KB:
  the blocks in use lie in its heap area, hold at least a header, and do not overlap. The limits are
  hypotheses about the requests made, not about the calls that can be made: the lemma on a request of 4 GB below
  shows that the first limit is needed.\<close>

theorem heap_run_disjoint:
  assumes run: "heap_run base reqs h A" and ok: "\<forall>(n, k) \<in> set reqs. request_ok n k" and ab: "a \<in> A" "b \<in> A" "a < b"
  shows "HEAP_START \<le> a \<and> a + 16 \<le> blk_end h a \<and> blk_end h a \<le> b \<and> blk_end h b \<le> heap_brk (core h)"
proof -
  obtain xs where "heap_state base xs A h" using heap_run_state [OF run ok] by blast
  then have bl: "blocks base HEAP_START (heap_brk (core h)) (set xs \<union> A) h" "base \<notin> A"
    using ab(1) hd_in_set by (fastforce simp: heap_state_def heap_inv_def)+
  have "a + 16 \<le> blk_end h a" using blocks_in [OF bl(1), of a] bl(2) ab(1) by (auto simp: blk_end_def word_less_def int_one_le_iff_zero_less)
  then show ?thesis using blocks_in [OF bl(1), of a] blocks_in [OF bl(1), of b] bl ab by (auto simp: blocks_def)
qed

text \<open>A request of 4 GB asks for \<open>2 ^ 28 + 1\<close> units; \<open>morecore\<close> cuts their bytes to an \<^verbatim>\<open>int\<close> and asks the kernel
  for 16. The block is said to have 4 GB all the same, and the next block lies inside it.\<close>

theorem malloc_lib_4GB:
  assumes f: "freep h = 0" and b: "0 < base" "base < b" "b < b'" "b' + 16384 \<le> b + 2 ^ 32" "b' < 2 ^ 64 - 1"
    and s1: "s 16 (core h) = Some (b, c1)" and s2: "s 16384 c1 = Some (b', c2)"
  shows "\<exists>h1 a h2. malloc_lib s base (2 ^ 32) h = Some (b + 16, h1) \<and> malloc_lib s base 100 h1 = Some (a + 16, h2)
    \<and> b < a \<and> blk_end h2 a \<le> blk_end h2 b"
proof -
  have u: "(ucast ((2 ^ 32 + 16 - 1 :: u64) div 16 + 1) :: u32) = 2 ^ 28 + 1" "(ucast ((100 + 16 - 1 :: u64) div 16 + 1) :: u32) = 8"
    by simp_all
  let ?n = "2 ^ 28 + 1 :: u32"
  have sn: "sint ?n = 2 ^ 28 + 1" "sint (8 :: u32) = 8" by simp_all
  have t: "to_int32 ((2 ^ 28 + 1) * 16) = 16" "to_int32 (1024 * 16) = 16384" by (simp_all add: to_int32_def)
  have ne: "b \<noteq> base" "b' \<noteq> base" "b' \<noteq> b" "base \<noteq> b" "base \<noteq> b'" "base \<noteq> 0" "b \<noteq> 0" "b' \<noteq> 0" "b \<noteq> 2 ^ 64 - 1" "b' \<noteq> 2 ^ 64 - 1" using b by auto
  have ne2: "b + 4294967312 \<noteq> base" "b' + 16384 \<noteq> base" "b \<noteq> b' + 16256" using b by auto
  define h0 where "h0 = set_size base 0 (set_ptr base base (h\<lparr>freep := base\<rparr>))"
  define m1 where "m1 = (set_ptr base b (set_ptr b base (set_size b ?n (h0\<lparr>core := c1\<rparr>))))\<lparr>freep := base\<rparr>"
  define h1 where "h1 = (set_ptr base base m1)\<lparr>freep := base\<rparr>"
  have fl1: "free_lib (b + 16) (set_size b ?n (h0\<lparr>core := c1\<rparr>)) = Some m1"
    using b ne ne2 by (simp add: free_lib_def free_loop.simps h0_def m1_def Let_def)
  have mc1: "morecore s (2 ^ 28 + 1) h0 = Some (base, m1)"
    using s1 t(1) ne fl1 by (simp add: morecore_def NALLOC_def h0_def) (simp add: m1_def)
  have l1: "malloc_lib_loop s ?n base b m1 = Some (b + 16, h1)"
    using ne by (subst malloc_lib_loop.simps) (simp add: m1_def h1_def h0_def)
  have "malloc_lib_loop s ?n base base h0 = Some (b + 16, h1)"
    using mc1 l1 ne by (subst malloc_lib_loop.simps) (simp add: h0_def m1_def sn)
  then have r1: "malloc_lib s base (2 ^ 32) h = Some (b + 16, h1)"
    using f by (simp only: malloc_lib_def u) (simp add: h0_def Let_def)
  define m2 where "m2 = (set_ptr base b' (set_ptr b' base (set_size b' 1024 (h1\<lparr>core := c2\<rparr>))))\<lparr>freep := base\<rparr>"
  define a where "a = b' + 16 * 1016"
  define h2 where "h2 = (set_size a 8 (set_size b' 1016 m2))\<lparr>freep := base\<rparr>"
  have fl2: "free_lib (b' + 16) (set_size b' 1024 (h1\<lparr>core := c2\<rparr>)) = Some m2"
    using b ne ne2 by (simp add: free_lib_def free_loop.simps h0_def m1_def h1_def m2_def Let_def)
  have mc2: "morecore s 8 h1 = Some (base, m2)"
    using s2 t(2) ne fl2 by (simp add: morecore_def NALLOC_def h1_def m1_def h0_def) (simp add: m2_def)
  have l2: "malloc_lib_loop s 8 base b' m2 = Some (a + 16, h2)"
    using ne by (subst malloc_lib_loop.simps) (simp add: m2_def h2_def a_def)
  have "malloc_lib_loop s 8 base base h1 = Some (a + 16, h2)"
    using mc2 l2 ne by (subst malloc_lib_loop.simps) (simp add: h0_def m1_def h1_def m2_def sn)
  then have r2: "malloc_lib s base 100 h1 = Some (a + 16, h2)"
    using ne by (simp only: malloc_lib_def u) (simp add: h1_def m1_def h0_def Let_def)
  have "hsize h2 b = ?n" "hsize h2 a = 8"
    using ne ne2 b by (simp_all add: h2_def m2_def h1_def m1_def a_def)
  then have "blk_end h2 a \<le> blk_end h2 b" "b < a" using b by (simp_all add: blk_end_def a_def)
  then show ?thesis using r1 r2 by blast
qed

text \<open>On a source that counts up.\<close>

theorem malloc_lib_4GB_witness:
  "\<exists>h1 a h2. malloc_lib (\<lambda>n c. Some (c, c + n)) 4096 (2 ^ 32) \<lparr>hptr = (\<lambda>_. 0), hsize = (\<lambda>_. 0), freep = 0, core = 65536\<rparr> = Some (65536 + 16, h1)
    \<and> malloc_lib (\<lambda>n c. Some (c, c + n)) 4096 100 h1 = Some (a + 16, h2) \<and> 65536 < a \<and> blk_end h2 a \<le> blk_end h2 65536"
  by (rule malloc_lib_4GB [where b' = "65536 + 16" and ?c1.0 = "65536 + 16" and ?c2.0 = "65536 + 16 + 16384"]) simp_all

lemma prog_heap_twice:
  obtains h1 h2 where "malloc_lib sbrk 0x600000 100 prog_heap = Some (HEAP_START + 16 * 1016 + 16, h1)"
    "malloc_lib sbrk 0x600000 100 h1 = Some (HEAP_START + 16 * 1008 + 16, h2)" "heap_brk (core h1) = HEAP_START + 20480"
proof -
  have n: "new_pages 16384 = 5" by (simp add: new_pages_def cdiv_def)
  have b: "heap_brk (core prog_heap) = HEAP_START" by (simp add: prog_heap_def heap_brk_def HEAP_START_def)
  obtain k where k: "malloc 16384 (core prog_heap) = Some (0x4B0FFFFF0000, k)"
    "lastAddress (vm (cur k) ! 1) = page_at 0x4B0FFFFF0000 5"
    using malloc_step [OF prog_heap_facts(3)] unfolding n prog_heap_def heap.simps by auto
  have s: "sbrk 16384 (core prog_heap) = Some (HEAP_START, k)"
    using k(1) by (simp add: sbrk_def sbrk_call_def to_int32_id HEAP_START_def)
  have e: "heap_brk k = HEAP_START + 20480"
    using k(2) by (simp add: heap_brk_def prog_heap_def page_at_def pageSize_def HEAP_START_def)
  have u: "(ucast ((100 + 16 - 1 :: u64) div 16 + 1) :: u32) = 8" by simp
  define h1 where "h1 = (\<lparr>hptr = (\<lambda>_. 0)(0x600000 := HEAP_START, HEAP_START := 0x600000),
     hsize = (\<lambda>_. 0)(HEAP_START := 1016, HEAP_START + 16 * 1016 := 8), freep = 0x600000, core = k\<rparr> :: kernel heap)"
  define h2 where "h2 = set_size (HEAP_START + 16 * 1008) 8 (set_size HEAP_START 1008 h1)"
  define h0 where "h0 = set_size 0x600000 0 (set_ptr 0x600000 0x600000 (prog_heap\<lparr>freep := 0x600000\<rparr>))"
  define hm where "hm = (\<lparr>hptr = (\<lambda>_. 0)(0x600000 := HEAP_START, HEAP_START := 0x600000),
     hsize = (\<lambda>_. 0)(HEAP_START := 1024), freep = 0x600000, core = k\<rparr> :: kernel heap)"
  have ne: "HEAP_START \<noteq> 0x600000" by (simp add: HEAP_START_def)
  have c0: "core h0 = core prog_heap" by (simp add: h0_def)
  have "free_lib (HEAP_START + 16) (set_size HEAP_START 1024 (h0\<lparr>core := k\<rparr>)) = Some hm"
    by (simp add: free_lib_def free_loop.simps h0_def hm_def prog_heap_def HEAP_START_def set_ptr_def set_size_def Let_def fun_eq_iff)
  then have more: "morecore sbrk 8 h0 = Some (0x600000, hm)"
    using s c0 by (simp add: morecore_def NALLOC_def to_int32_id HEAP_START_def hm_def)
  have loop1: "malloc_lib_loop sbrk 8 0x600000 HEAP_START hm = Some (HEAP_START + 16 * 1016 + 16, h1)"
    by (subst malloc_lib_loop.simps)
       (simp add: h1_def hm_def HEAP_START_def set_size_def Let_def fun_eq_iff)
  have "malloc_lib_loop sbrk 8 0x600000 0x600000 h0 = Some (HEAP_START + 16 * 1016 + 16, h1)"
    using more loop1 ne by (subst malloc_lib_loop.simps) (simp add: h0_def hm_def)
  then have "malloc_lib sbrk 0x600000 100 prog_heap = Some (HEAP_START + 16 * 1016 + 16, h1)"
    unfolding malloc_lib_def u by (simp add: prog_heap_def h0_def Let_def)
  moreover have "malloc_lib_loop sbrk 8 0x600000 HEAP_START h1 = Some (HEAP_START + 16 * 1008 + 16, h2)"
    by (subst malloc_lib_loop.simps)
       (simp add: h1_def h2_def HEAP_START_def set_size_def Let_def fun_eq_iff)
  then have "malloc_lib sbrk 0x600000 100 h1 = Some (HEAP_START + 16 * 1008 + 16, h2)"
    unfolding malloc_lib_def u using ne by (simp add: h1_def Let_def)
  moreover have "heap_brk (core h1) = HEAP_START + 20480" using e by (simp add: h1_def)
  ultimately show ?thesis using that by blast
qed

text \<open>Two requests of 100 bytes, served by the first growth of the heap.\<close>

theorem heap_run_disjoint_witness:
  "\<exists>reqs h A a b. heap_run 0x600000 reqs h A \<and> a \<in> A \<and> b \<in> A \<and> a < b \<and> blk_end h a \<le> b"
proof -
  obtain h1 h2 where m: "malloc_lib sbrk 0x600000 100 prog_heap = Some (HEAP_START + 16 * 1016 + 16, h1)"
    "malloc_lib sbrk 0x600000 100 h1 = Some (HEAP_START + 16 * 1008 + 16, h2)" "heap_brk (core h1) = HEAP_START + 20480"
    using prog_heap_twice .
  have n: "new_pages 16384 = 5" by (simp add: new_pages_def cdiv_def)
  have u: "16 * max (units_for 100) 1024 = 16384" by (simp add: units_for_def)
  have b: "heap_brk (core prog_heap) \<le> HEAP_END" by (simp add: prog_heap_def heap_brk_def HEAP_END_def HEAP_START_def)
  have ok: "request_ok 100 (core prog_heap)" "request_ok 100 (core h1)"
    using prog_heap_facts(4) m(3) n by (simp_all add: request_ok_def u brk_fits_def HEAP_END_def)
  have hs: "HEAP_START + 16 * 1016 + 16 \<noteq> 0" "HEAP_START + 16 * 1008 + 16 \<noteq> 0" by (simp_all add: HEAP_START_def)
  have "heap_run 0x600000 [] prog_heap {}"
    using b by (intro heap_run.start) (simp_all add: prog_heap_def HEAP_START_def)
  from heap_run.alloc [OF this m(1)] have "heap_run 0x600000 [(100, core prog_heap)] h1 {HEAP_START + 16 * 1016}"
    using hs(1) by (simp add: add.commute)
  from heap_run.alloc [OF this m(2)]
  have r: "heap_run 0x600000 [(100, core h1), (100, core prog_heap)] h2 {HEAP_START + 16 * 1008, HEAP_START + 16 * 1016}"
    using hs(2) by (simp add: add.commute)
  have "blk_end h2 (HEAP_START + 16 * 1008) \<le> HEAP_START + 16 * 1016"
    using heap_run_disjoint [OF r] ok by simp
  then show ?thesis using r
    by (intro exI [of _ "[(100, core h1), (100, core prog_heap)]"] exI [of _ h2] exI [of _ "{HEAP_START + 16 * 1008, HEAP_START + 16 * 1016}"]) force
qed

theorem malloc_lib_cuts_request_witness:
  "\<exists>q h'. malloc_lib sbrk 0x600000 (2 ^ 36 + 100) prog_heap = Some (q + 16, h') \<and> uint (hsize h' q) = 8"
proof -
  obtain q h xs where q: "malloc_lib sbrk 0x600000 100 prog_heap = Some (q + 16, h)" "uint (hsize h q) = 8"
    using prog_heap_first .
  have "malloc_lib sbrk 0x600000 (100 + 2 ^ 36) prog_heap = malloc_lib sbrk 0x600000 100 prog_heap"
    by (rule malloc_lib_cuts_request) simp
  then show ?thesis using q by (auto simp: add.commute)
qed

end
