(* ===== verification/LibStrings.thy ===== *)
theory LibStrings
  imports CStrings
begin

text \<open>
  The string routines of user programs in \<^verbatim>\<open>libc/string_sys.c\<close>. They are written again in the library,
  not shared with \<^verbatim>\<open>sys/string.c\<close>; here they are translated from the library's text and shown to be
  the same functions, on every memory and also where they do not return.
\<close>

section \<open>The routines\<close>

partial_function (option) strcmp_lib :: "mem \<Rightarrow> addr \<Rightarrow> addr \<Rightarrow> int option" where
  "strcmp_lib m str1 str2 =
     (if m str1 = m str2 then
        (if m str1 = NUL then Some 0 else strcmp_lib m (str1 + 1) (str2 + 1))
      else Some (c2i (m str1) - c2i (m str2)))"

partial_function (option) strcpy_lib :: "mem \<Rightarrow> addr \<Rightarrow> addr \<Rightarrow> mem option" where
  "strcpy_lib m str2 str1 =
     (if m str1 \<noteq> NUL then strcpy_lib (m(str2 := m str1)) (str2 + 1) (str1 + 1)
      else Some (m(str2 := NUL)))"

partial_function (option) strlen_lib_loop :: "mem \<Rightarrow> addr \<Rightarrow> int \<Rightarrow> int option" where
  "strlen_lib_loop m string len =
     (if m string \<noteq> NUL then strlen_lib_loop m (string + 1) (to_int32 (len + 1)) else Some len)"

definition strlen_lib :: "mem \<Rightarrow> addr \<Rightarrow> int option" where
  "strlen_lib m string = strlen_lib_loop m string 0"

text \<open>The length is taken anew in every round.\<close>

partial_function (option) strtoInt_lib_loop :: "mem \<Rightarrow> addr \<Rightarrow> int \<Rightarrow> int \<Rightarrow> int option" where
  "strtoInt_lib_loop m str i num =
     Option.bind (strlen_lib m str) (\<lambda>len.
       if i < len then strtoInt_lib_loop m str (to_int32 (i + 1)) (to_int32 (num * 10 + (c2i (m (str + i)) - c2i (CHR ''0''))))
       else Some num)"

definition strtoInt_lib :: "mem \<Rightarrow> addr \<Rightarrow> int option" where
  "strtoInt_lib m str = strtoInt_lib_loop m str 0 0"

partial_function (option) strcat_lib_seek :: "mem \<Rightarrow> addr \<Rightarrow> addr option" where
  "strcat_lib_seek m str1 = (if m str1 \<noteq> NUL then strcat_lib_seek m (str1 + 1) else Some str1)"

partial_function (option) strcat_lib_copy :: "mem \<Rightarrow> addr \<Rightarrow> addr \<Rightarrow> (mem \<times> addr) option" where
  "strcat_lib_copy m str1 str2 =
     (if m str2 \<noteq> NUL then strcat_lib_copy (m(str1 := m str2)) (str1 + 1) (str2 + 1)
      else Some (m(str1 := NUL), str1))"

definition strcat_lib :: "mem \<Rightarrow> addr \<Rightarrow> addr \<Rightarrow> (mem \<times> addr) option" where
  "strcat_lib m str1 str2 = do {
     e \<leftarrow> strcat_lib_seek m str1;
     strcat_lib_copy m e str2
   }"

section \<open>The same functions as the kernel's\<close>

text \<open>Two partial functions are equal when each approximates the other.\<close>

lemma partial_eqI: "(\<And>r. a = Some r \<Longrightarrow> b = Some r) \<Longrightarrow> (\<And>r. b = Some r \<Longrightarrow> a = Some r) \<Longrightarrow> a = b"
  by (cases a; cases b) auto

lemma strcmp_lib_eq: "strcmp_lib m s t = strcmp m s t"
proof (rule partial_eqI)
  show "strcmp_lib m s t = Some r \<Longrightarrow> strcmp m s t = Some r" for r
    by (erule strcmp_lib.raw_induct [where P = "\<lambda>m s t r. strcmp m s t = Some r", rotated])
       (subst strcmp.simps, auto simp del: fun_upd_apply split: if_splits)
  show "strcmp m s t = Some r \<Longrightarrow> strcmp_lib m s t = Some r" for r
    by (erule strcmp.raw_induct [where P = "\<lambda>m s t r. strcmp_lib m s t = Some r", rotated])
       (subst strcmp_lib.simps, auto simp del: fun_upd_apply split: if_splits)
qed

lemma strcpy_lib_eq: "strcpy_lib m d s = strcpy m d s"
proof (rule partial_eqI)
  show "strcpy_lib m d s = Some r \<Longrightarrow> strcpy m d s = Some r" for r
    by (erule strcpy_lib.raw_induct [where P = "\<lambda>m d s r. strcpy m d s = Some r", rotated])
       (subst strcpy.simps, auto simp del: fun_upd_apply split: if_splits)
  show "strcpy m d s = Some r \<Longrightarrow> strcpy_lib m d s = Some r" for r
    by (erule strcpy.raw_induct [where P = "\<lambda>m d s r. strcpy_lib m d s = Some r", rotated])
       (subst strcpy_lib.simps, auto simp del: fun_upd_apply split: if_splits)
qed

lemma strlen_lib_loop_eq: "strlen_lib_loop m s n = strlen_loop m s n"
proof (rule partial_eqI)
  show "strlen_lib_loop m s n = Some r \<Longrightarrow> strlen_loop m s n = Some r" for r
    by (erule strlen_lib_loop.raw_induct [where P = "\<lambda>m s n r. strlen_loop m s n = Some r", rotated])
       (subst strlen_loop.simps, auto simp del: fun_upd_apply split: if_splits)
  show "strlen_loop m s n = Some r \<Longrightarrow> strlen_lib_loop m s n = Some r" for r
    by (erule strlen_loop.raw_induct [where P = "\<lambda>m s n r. strlen_lib_loop m s n = Some r", rotated])
       (subst strlen_lib_loop.simps, auto simp del: fun_upd_apply split: if_splits)
qed

lemma strcat_lib_seek_eq: "strcat_lib_seek m s = strcat_seek m s"
proof (rule partial_eqI)
  show "strcat_lib_seek m s = Some r \<Longrightarrow> strcat_seek m s = Some r" for r
    by (erule strcat_lib_seek.raw_induct [where P = "\<lambda>m s r. strcat_seek m s = Some r", rotated])
       (subst strcat_seek.simps, auto simp del: fun_upd_apply split: if_splits)
  show "strcat_seek m s = Some r \<Longrightarrow> strcat_lib_seek m s = Some r" for r
    by (erule strcat_seek.raw_induct [where P = "\<lambda>m s r. strcat_lib_seek m s = Some r", rotated])
       (subst strcat_lib_seek.simps, auto simp del: fun_upd_apply split: if_splits)
qed

lemma strcat_lib_copy_eq: "strcat_lib_copy m d s = strcat_copy m d s"
proof (rule partial_eqI)
  show "strcat_lib_copy m d s = Some r \<Longrightarrow> strcat_copy m d s = Some r" for r
    by (erule strcat_lib_copy.raw_induct [where P = "\<lambda>m d s r. strcat_copy m d s = Some r", rotated])
       (subst strcat_copy.simps, auto simp del: fun_upd_apply split: if_splits)
  show "strcat_copy m d s = Some r \<Longrightarrow> strcat_lib_copy m d s = Some r" for r
    by (erule strcat_copy.raw_induct [where P = "\<lambda>m d s r. strcat_lib_copy m d s = Some r", rotated])
       (subst strcat_lib_copy.simps, auto simp del: fun_upd_apply split: if_splits)
qed

lemma strlen_lib_eq: "strlen_lib m s = strlen m s"
  by (simp add: strlen_lib_def strlen_def strlen_lib_loop_eq)

lemma strcat_lib_eq: "strcat_lib m s t = strcat m s t"
  by (simp add: strcat_lib_def strcat_def strcat_lib_seek_eq strcat_lib_copy_eq)

lemma strlen_loop_range: "strlen_loop m s n = Some r \<Longrightarrow> n < 2 ^ 31 \<longrightarrow> r < 2 ^ 31"
  by (erule strlen_loop.raw_induct [where P = "\<lambda>m s n r. n < 2 ^ 31 \<longrightarrow> r < 2 ^ 31", rotated])
     (use to_int32_range in \<open>auto split: if_splits\<close>)

lemma strtoInt_lib_loop_eq:
  "strlen m p = Some len \<Longrightarrow> 0 \<le> i \<Longrightarrow>
   strtoInt_lib_loop m p i num = Some (strtoInt_loop m (p + i) (nat (len - i)) num)"
proof (induction "nat (len - i)" arbitrary: i num)
  case 0
  then show ?case by (subst strtoInt_lib_loop.simps) (simp add: strlen_lib_eq)
next
  case (Suc d)
  have "len < 2 ^ 31" using strlen_loop_range [of m p 0 len] Suc.prems(1) by (simp add: strlen_def)
  then have t: "to_int32 (i + 1) = i + 1" using Suc.hyps(2) Suc.prems(2) by (subst to_int32_id) auto
  have d: "d = nat (len - (i + 1))" "i < len" "nat (len - i) = Suc d" using Suc.hyps(2) by auto
  show ?case
    using Suc.hyps(1) [OF d(1) Suc.prems(1), of "to_int32 (num * 10 + (c2i (m (p + i)) - c2i (CHR ''0'')))"] Suc.prems d t
    by (subst strtoInt_lib_loop.simps) (simp add: strlen_lib_eq add.assoc)
qed

lemma strtoInt_lib_eq: "strtoInt_lib m p = strtoInt m p"
proof (cases "strlen m p")
  case None
  then show ?thesis by (simp add: strtoInt_lib_def strtoInt_def strtoInt_lib_loop.simps [of m p 0] strlen_lib_eq)
next
  case (Some len)
  then show ?thesis using strtoInt_lib_loop_eq [of m p len 0 0] by (simp add: strtoInt_lib_def strtoInt_def)
qed

text \<open>C18: the library's string routines are the kernel's: on every memory \<open>strcmp\<close>, \<open>strcpy\<close>, \<open>strlen\<close>,
  \<open>strcat\<close> and \<open>strtoInt\<close> of the two files return the same results and the same memory, and do not
  return on the same inputs. The library's \<open>strtoInt\<close> takes the length again for every digit.\<close>

theorem library_strings_equal:
  "strcmp_lib m s t = strcmp m s t \<and> strcpy_lib m s t = strcpy m s t \<and> strlen_lib m s = strlen m s
   \<and> strcat_lib m s t = strcat m s t \<and> strtoInt_lib m s = strtoInt m s"
  by (simp add: strcmp_lib_eq strcpy_lib_eq strlen_lib_eq strcat_lib_eq strtoInt_lib_eq)

end
