(* ===== verification/Gdt.thy ===== *)
theory Gdt
  imports Tasks
begin

text \<open>
  The segment descriptors of \<^verbatim>\<open>sys/gdt.c\<close>: the constant table, the TSS descriptor that \<open>init_gdt\<close>
  fills in, and \<open>set_tss_rsp\<close>. The bit fields of \<open>sys_segment_descriptor\<close> are packed from the least
  significant bit, over two table entries. The inline assembly that loads the registers is not modelled;
  of the TSS only \<open>rsp0\<close> is ever written, a field of the kernel state.
\<close>

section \<open>Descriptors\<close>

definition GDT_CS :: u64 where "GDT_CS = 0x00180000000000"
definition GDT_DS :: u64 where "GDT_DS = 0x00100000000000"
definition DPL0 :: u64 where "DPL0 = 0x00000000000000"
definition DPL3 :: u64 where "DPL3 = 0x00600000000000"
definition P_bit :: u64 where "P_bit = 0x00800000000000"
definition L_bit :: u64 where "L_bit = 0x20000000000000"
definition W_bit :: u64 where "W_bit = 0x00020000000000"

record sys_segment_descriptor =
  sd_lolimit :: "16 word"
  sd_lobase :: "24 word"
  sd_type :: "5 word"
  sd_dpl :: "2 word"
  sd_p :: "1 word"
  sd_hilimit :: "4 word"
  sd_xx1 :: "3 word"
  sd_gran :: "1 word"
  sd_hibase :: "40 word"
  sd_xx2 :: "8 word"
  sd_zero :: "5 word"
  sd_xx3 :: "19 word"

text \<open>The two table entries a descriptor occupies, and what it is to read one from the table.\<close>

definition pack :: "sys_segment_descriptor \<Rightarrow> u64 \<times> u64" where
  "pack sd =
     (ucast (sd_lolimit sd) OR push_bit 16 (ucast (sd_lobase sd)) OR push_bit 40 (ucast (sd_type sd))
        OR push_bit 45 (ucast (sd_dpl sd)) OR push_bit 47 (ucast (sd_p sd)) OR push_bit 48 (ucast (sd_hilimit sd))
        OR push_bit 52 (ucast (sd_xx1 sd)) OR push_bit 55 (ucast (sd_gran sd)) OR push_bit 56 (ucast (sd_hibase sd)),
      drop_bit 8 (ucast (sd_hibase sd)) OR push_bit 32 (ucast (sd_xx2 sd)) OR push_bit 40 (ucast (sd_zero sd))
        OR push_bit 45 (ucast (sd_xx3 sd)))"

definition unpack :: "u64 \<times> u64 \<Rightarrow> sys_segment_descriptor" where
  "unpack = (\<lambda>(lo, hi).
     \<lparr>sd_lolimit = ucast lo, sd_lobase = ucast (drop_bit 16 lo), sd_type = ucast (drop_bit 40 lo),
      sd_dpl = ucast (drop_bit 45 lo), sd_p = ucast (drop_bit 47 lo), sd_hilimit = ucast (drop_bit 48 lo),
      sd_xx1 = ucast (drop_bit 52 lo), sd_gran = ucast (drop_bit 55 lo),
      sd_hibase = ucast (drop_bit 56 lo OR push_bit 8 hi), sd_xx2 = ucast (drop_bit 32 hi),
      sd_zero = ucast (drop_bit 40 hi), sd_xx3 = ucast (drop_bit 45 hi)\<rparr>)"

definition MAX_GDT :: nat where "MAX_GDT = 32"

definition gdt0 :: "u64 list" where
  "gdt0 = [0, GDT_CS OR P_bit OR DPL0 OR L_bit, GDT_DS OR P_bit OR W_bit OR DPL0, 0,
     GDT_DS OR P_bit OR W_bit OR DPL3, GDT_CS OR P_bit OR DPL3 OR L_bit, 0, 0] @ replicate (MAX_GDT - 8) 0"

text \<open>\<open>sizeof(struct tss_t)\<close> is 104, the structure being packed.\<close>

definition init_gdt :: "u64 \<Rightarrow> u64 list \<Rightarrow> u64 list" where
  "init_gdt tss gdt =
     (let sd = unpack (gdt ! 6, gdt ! 7);
          sd = sd\<lparr>sd_lolimit := 104 - 1, sd_lobase := ucast tss, sd_type := 9, sd_dpl := 0, sd_p := 1,
                  sd_hilimit := 0, sd_gran := 0, sd_hibase := ucast (drop_bit 24 tss)\<rparr>;
          (lo, hi) = pack sd
      in gdt[6 := lo, 7 := hi])"

definition set_tss_rsp :: "u64 \<Rightarrow> kernel \<Rightarrow> kernel" where
  "set_tss_rsp sp k = k\<lparr>tss_rsp0 := sp\<rparr>"

section \<open>What the processor reads\<close>

text \<open>The fields of a descriptor, as the architecture defines them: bit 43 distinguishes code from data,
  bit 44 ordinary from system segments.\<close>

definition desc_present :: "u64 \<Rightarrow> bool" where "desc_present d \<longleftrightarrow> bit d 47"
definition desc_dpl :: "u64 \<Rightarrow> nat" where "desc_dpl d = unat (ucast (drop_bit 45 d) :: 2 word)"
definition desc_code :: "u64 \<Rightarrow> bool" where "desc_code d \<longleftrightarrow> bit d 44 \<and> bit d 43"
definition desc_data :: "u64 \<Rightarrow> bool" where "desc_data d \<longleftrightarrow> bit d 44 \<and> \<not> bit d 43 \<and> bit d 41"
definition desc_long :: "u64 \<Rightarrow> bool" where "desc_long d \<longleftrightarrow> bit d 53"

definition desc_type :: "u64 \<Rightarrow> nat" where "desc_type d = unat (ucast (drop_bit 40 d) :: 5 word)"

definition kernel_code :: "u64 \<Rightarrow> bool" where
  "kernel_code d \<longleftrightarrow> desc_present d \<and> desc_code d \<and> desc_long d \<and> desc_dpl d = 0"

definition kernel_data :: "u64 \<Rightarrow> bool" where
  "kernel_data d \<longleftrightarrow> desc_present d \<and> desc_data d \<and> desc_dpl d = 0"

definition user_code :: "u64 \<Rightarrow> bool" where
  "user_code d \<longleftrightarrow> desc_present d \<and> desc_code d \<and> desc_long d \<and> desc_dpl d = 3"

definition user_data :: "u64 \<Rightarrow> bool" where
  "user_data d \<longleftrightarrow> desc_present d \<and> desc_data d \<and> desc_dpl d = 3"

definition tss_base :: "u64 \<Rightarrow> u64 \<Rightarrow> u64" where
  "tss_base lo hi = take_bit 24 (drop_bit 16 lo) OR push_bit 24 (drop_bit 56 lo) OR push_bit 32 hi"

definition tss_limit :: "u64 \<Rightarrow> u64" where
  "tss_limit lo = take_bit 16 lo OR push_bit 16 (take_bit 4 (drop_bit 48 lo))"

text \<open>A selector is the table index with the table indicator and the requested privilege in its low bits.\<close>

definition selected :: "u64 list \<Rightarrow> u16 \<Rightarrow> u64" where
  "selected gdt sel = gdt ! unat (drop_bit 3 sel)"

lemma pack_bits:
  "i < 16 \<Longrightarrow> bit (fst (pack sd)) i = bit (sd_lolimit sd) i"
  "i < 24 \<Longrightarrow> bit (fst (pack sd)) (16 + i) = bit (sd_lobase sd) i"
  "i < 5 \<Longrightarrow> bit (fst (pack sd)) (40 + i) = bit (sd_type sd) i"
  "i < 2 \<Longrightarrow> bit (fst (pack sd)) (45 + i) = bit (sd_dpl sd) i"
  "bit (fst (pack sd)) 47 = bit (sd_p sd) 0"
  "i < 4 \<Longrightarrow> bit (fst (pack sd)) (48 + i) = bit (sd_hilimit sd) i"
  "i < 3 \<Longrightarrow> bit (fst (pack sd)) (52 + i) = bit (sd_xx1 sd) i"
  "bit (fst (pack sd)) 55 = bit (sd_gran sd) 0"
  "i < 8 \<Longrightarrow> bit (fst (pack sd)) (56 + i) = bit (sd_hibase sd) i"
  "i < 32 \<Longrightarrow> bit (snd (pack sd)) i = bit (sd_hibase sd) (8 + i)"
  "i < 8 \<Longrightarrow> bit (snd (pack sd)) (32 + i) = bit (sd_xx2 sd) i"
  "i < 5 \<Longrightarrow> bit (snd (pack sd)) (40 + i) = bit (sd_zero sd) i"
  "i < 19 \<Longrightarrow> bit (snd (pack sd)) (45 + i) = bit (sd_xx3 sd) i"
  by (auto simp: pack_def bit_simps dest: bit_imp_le_length)

lemma unpack_fields:
  "sd_type (unpack (lo, hi)) = ucast (drop_bit 40 lo)" "sd_dpl (unpack (lo, hi)) = ucast (drop_bit 45 lo)"
  by (simp_all add: unpack_def)

lemma unpack_pack: "unpack (pack sd) = sd"
proof -
  have h: "bit (drop_bit 56 (fst (pack sd)) OR push_bit 8 (snd (pack sd))) i = bit (sd_hibase sd) i" if "i < 40" for i
    using pack_bits(9) [of i sd] pack_bits(10) [of "i - 8" sd] that by (cases "i < 8") (auto simp: bit_simps dest: bit_imp_le_length)
  have "ucast (fst (pack sd)) = sd_lolimit sd" "ucast (drop_bit 16 (fst (pack sd))) = sd_lobase sd"
    "ucast (drop_bit 40 (fst (pack sd))) = sd_type sd" "ucast (drop_bit 45 (fst (pack sd))) = sd_dpl sd"
    "ucast (drop_bit 47 (fst (pack sd))) = sd_p sd" "ucast (drop_bit 48 (fst (pack sd))) = sd_hilimit sd"
    "ucast (drop_bit 52 (fst (pack sd))) = sd_xx1 sd" "ucast (drop_bit 55 (fst (pack sd))) = sd_gran sd"
    "ucast (drop_bit 56 (fst (pack sd)) OR push_bit 8 (snd (pack sd))) = sd_hibase sd"
    "ucast (drop_bit 32 (snd (pack sd))) = sd_xx2 sd" "ucast (drop_bit 40 (snd (pack sd))) = sd_zero sd"
    "ucast (drop_bit 45 (snd (pack sd))) = sd_xx3 sd"
    using h by (auto intro!: bit_word_eqI simp: bit_ucast_iff bit_drop_bit_eq pack_bits less_Suc0)
  then show ?thesis by (cases "pack sd") (simp add: unpack_def)
qed

lemma tss_base_pack: "tss_base (fst (pack sd)) (snd (pack sd)) = ucast (sd_lobase sd) OR push_bit 24 (ucast (sd_hibase sd))"
proof (rule bit_word_eqI)
  fix n assume n: "n < LENGTH(64)"
  consider "n < 24" | "24 \<le> n" "n < 32" | "32 \<le> n" by linarith
  then show "bit (tss_base (fst (pack sd)) (snd (pack sd))) n = bit (ucast (sd_lobase sd) OR push_bit 24 (ucast (sd_hibase sd)) :: u64) n"
  proof cases
    case 1
    then show ?thesis using n pack_bits(2) [of n sd] by (auto simp: tss_base_def bit_simps)
  next
    case 2
    then show ?thesis using n pack_bits(9) [of "n - 24" sd] by (auto simp: tss_base_def bit_simps dest: bit_imp_le_length)
  next
    case 3
    then show ?thesis using n pack_bits(10) [of "n - 32" sd] by (auto simp: tss_base_def bit_simps dest: bit_imp_le_length)
  qed
qed

lemma tss_limit_pack:
  "tss_limit (fst (pack sd)) = ucast (sd_lolimit sd) OR push_bit 16 (ucast (sd_hilimit sd))"
proof (rule bit_word_eqI)
  fix n assume n: "n < LENGTH(64)"
  consider "n < 16" | "16 \<le> n" by linarith
  then show "bit (tss_limit (fst (pack sd))) n = bit (ucast (sd_lolimit sd) OR push_bit 16 (ucast (sd_hilimit sd)) :: u64) n"
  proof cases
    case 1
    then show ?thesis using n pack_bits(1) [of n sd] by (auto simp: tss_limit_def bit_simps)
  next
    case 2
    then show ?thesis using n pack_bits(6) [of "n - 16" sd] bit_imp_le_length [of "sd_hilimit sd" "n - 16"]
        bit_imp_le_length [of "sd_lolimit sd" n]
      by (auto simp: tss_limit_def bit_simps)
  qed
qed

lemma split_base: "(ucast (ucast tss :: 24 word) :: u64) OR push_bit 24 (ucast (ucast (drop_bit 24 tss) :: 40 word)) = tss"
proof (rule bit_word_eqI)
  fix n assume n: "n < LENGTH(64)"
  show "bit ((ucast (ucast tss :: 24 word) :: u64) OR push_bit 24 (ucast (ucast (drop_bit 24 tss) :: 40 word))) n = bit tss n"
    using n by (cases "n < 24") (auto simp: bit_simps)
qed

text \<open>C30: the descriptors the kernel runs on. After \<open>init_gdt\<close> the TSS descriptor at selector 0x30 is present,
  an available 64-bit TSS (type 9) of privilege 0 whose base is the address of \<open>tss\<close> and whose limit is
  its size less one; the selectors 0x08 and 0x10 are kernel code and data, and 0x2B and 0x23, which
  \<open>createNewTask\<close> and \<open>execvpe\<close> push for \<^verbatim>\<open>iretq\<close>, are the long-mode code and the data segment of privilege 3.\<close>

theorem gdt_descriptors:
  "let gdt = init_gdt tss gdt0 in
     tss_base (gdt ! 6) (gdt ! 7) = tss \<and> tss_limit (gdt ! 6) = 103 \<and> desc_type (gdt ! 6) = 9
     \<and> desc_present (gdt ! 6) \<and> desc_dpl (gdt ! 6) = 0
     \<and> kernel_code (selected gdt 0x08) \<and> kernel_data (selected gdt 0x10)
     \<and> user_code (selected gdt 0x2B) \<and> user_data (selected gdt 0x23)"
proof -
  define sd where "sd = (unpack (0, 0))\<lparr>sd_lolimit := 104 - 1, sd_lobase := ucast tss, sd_type := 9, sd_dpl := 0, sd_p := 1,
                  sd_hilimit := 0, sd_gran := 0, sd_hibase := ucast (drop_bit 24 tss)\<rparr>"
  have "gdt0 ! 6 = 0" "gdt0 ! 7 = 0" by (simp_all add: gdt0_def)
  then have e: "init_gdt tss gdt0 = gdt0[6 := fst (pack sd), 7 := snd (pack sd)]"
    by (simp add: init_gdt_def sd_def case_prod_beta Let_def)
  have l: "length gdt0 = 32" by (simp add: gdt0_def MAX_GDT_def)
  have g: "init_gdt tss gdt0 ! 6 = fst (pack sd)" "init_gdt tss gdt0 ! 7 = snd (pack sd)" using l by (simp_all add: e)
  have s: "selected (init_gdt tss gdt0) 0x08 = gdt0 ! 1" "selected (init_gdt tss gdt0) 0x10 = gdt0 ! 2"
    "selected (init_gdt tss gdt0) 0x2B = gdt0 ! 5" "selected (init_gdt tss gdt0) 0x23 = gdt0 ! 4"
    by (simp_all add: selected_def e)
  have base: "tss_base (fst (pack sd)) (snd (pack sd)) = tss" unfolding tss_base_pack by (simp add: sd_def split_base)
  have limit: "tss_limit (fst (pack sd)) = 103" unfolding tss_limit_pack by (simp add: sd_def)
  have u: "unpack (fst (pack sd), snd (pack sd)) = sd" using unpack_pack [of sd] by simp
  have ty: "desc_type (fst (pack sd)) = 9" "desc_dpl (fst (pack sd)) = 0"
  proof -
    have f: "ucast (drop_bit 40 (fst (pack sd))) = sd_type sd" "ucast (drop_bit 45 (fst (pack sd))) = sd_dpl sd"
      using u unpack_fields by metis+
    show "desc_type (fst (pack sd)) = 9" "desc_dpl (fst (pack sd)) = 0"
      unfolding desc_type_def desc_dpl_def f by (simp_all add: sd_def)
  qed
  have pr: "desc_present (fst (pack sd))" by (simp add: desc_present_def pack_bits(5)) (simp add: sd_def)
  have "kernel_code (gdt0 ! 1)" "kernel_data (gdt0 ! 2)" "user_code (gdt0 ! 5)" "user_data (gdt0 ! 4)"
    by code_simp+
  then show ?thesis using base limit ty pr by (simp add: Let_def g s)
qed

end
