(* ===== verification/Interrupts.thy ===== *)
theory Interrupts
  imports Lifecycle Terminal Gdt
begin

text \<open>
  The interrupt table and the timer of \<^verbatim>\<open>sys/idt.c\<close>: the gates that \<open>IDTinitialise\<close> sets, and \<open>intTimer\<close>,
  the handler of the 20 Hz clock, which preempts the current task and shows the seconds. The bytes
  sent to I/O ports are a list, the latest last; the link-time addresses of the assembly
  entry points are arguments.
\<close>

section \<open>Gates\<close>

record idt_gate =
  lower_offset :: u16
  selector :: u16
  zero_1 :: u8
  gate_type :: u8
  mid_offset :: u16
  high_offset :: u32
  zero_2 :: u32

record idt_ptr =
  ptr_size :: u16
  ptr_base :: u64

definition idtLowerMask :: u64 where "idtLowerMask = 0xFFFF"
definition idtMidMask :: u64 where "idtMidMask = 0xFFFF"
definition idthighMask :: u64 where "idthighMask = 0xFFFFFFFF"

type_synonym idt_table = "nat \<Rightarrow> idt_gate"

definition setIDTtype :: "nat \<Rightarrow> idt_table \<Rightarrow> idt_table" where
  "setIDTtype interrupt t =
     (if interrupt = 128 then t(interrupt := (t interrupt)\<lparr>gate_type := 0xEE\<rparr>)
      else t(interrupt := (t interrupt)\<lparr>gate_type := 0x8E\<rparr>))"

definition initISR :: "nat \<Rightarrow> u64 \<Rightarrow> idt_table \<Rightarrow> idt_table" where
  "initISR interrupt function t =
     setIDTtype interrupt (t(interrupt := (t interrupt)\<lparr>selector := 0x08,
       lower_offset := ucast (function AND idtLowerMask),
       mid_offset := ucast (drop_bit 16 function AND idtMidMask),
       high_offset := ucast (drop_bit 32 function AND idthighMask),
       zero_1 := 0, zero_2 := 0\<rparr>))"

definition loadIDT :: "u64 \<Rightarrow> idt_ptr" where
  "loadIDT table_addr = \<lparr>ptr_size = 16 * 256 - 1, ptr_base = table_addr\<rparr>"

definition IDTinitialise :: "u64 \<Rightarrow> u64 \<Rightarrow> u64 \<Rightarrow> u64 \<Rightarrow> u64 \<Rightarrow> u64 \<Rightarrow> idt_table \<Rightarrow> idt_table \<times> idt_ptr" where
  "IDTinitialise ISR0 ISR14 timer keyboard ISR128 table_addr t =
     (let t = fold (\<lambda>i. initISR i ISR0) [0..<32] t;
          t = initISR 14 ISR14 t;
          t = initISR 32 timer t;
          t = initISR 33 keyboard t;
          t = initISR 128 ISR128 t
      in (t, loadIDT table_addr))"

section \<open>Ports and the clock\<close>

definition timerMask :: u32 where "timerMask = 0xFF"

record timer =
  timerCount :: int
  totalSecs :: int
  ports :: "(u16 \<times> u8) list"

definition outportb :: "u16 \<Rightarrow> u8 \<Rightarrow> timer \<Rightarrow> timer" where
  "outportb port data t = t\<lparr>ports := ports t @ [(port, data)]\<rparr>"

definition startTimer :: "timer \<Rightarrow> timer" where
  "startTimer t =
     (let lobyte = ucast (0x4A9 AND timerMask); hibyte = ucast (drop_bit 8 0x4A9 AND timerMask)
      in outportb 0x40 hibyte (outportb 0x40 lobyte t))"

definition resetTimer :: "timer \<Rightarrow> timer" where
  "resetTimer t = t\<lparr>timerCount := 0\<rparr>"

text \<open>The handler of every vector that has none of its own.\<close>

definition isr0 :: "timer \<times> terminal \<Rightarrow> (timer \<times> terminal) option" where
  "isr0 = (\<lambda>(t, scr). do {
     scr \<leftarrow> kprintf ''Invalid Interrupt received'' [] scr;
     Some (outportb 0x20 0x20 t, scr)
   })"

text \<open>The seconds are written from the right corner of the last row, 0xF9E, towards the left.\<close>

function clock_digits :: "int \<Rightarrow> int \<Rightarrow> vmem \<Rightarrow> vmem" where
  "clock_digits temp reg m =
     (if temp > 0 then clock_digits (cdiv temp 10) (reg - 2) (m(reg := i2c (c2i (CHR ''0'') + cmod temp 10))) else m)"
  by auto

termination
  by (relation "measure (\<lambda>(temp, _, _). nat temp)") (auto simp: cdiv_nonneg)

text \<open>What \<open>intTimer\<close> does behind its call of \<open>schedule\<close>.\<close>

definition intTimer_resume :: "timer \<Rightarrow> terminal \<Rightarrow> kernel \<Rightarrow> timer \<times> terminal \<times> kernel" where
  "intTimer_resume t scr k =
     (let t = t\<lparr>totalSecs := to_int32 (totalSecs t + 1)\<rparr>;
          scr = scr\<lparr>video := clock_digits (totalSecs t) 0xF9E (video scr)\<rparr>;
          t = resetTimer t
      in (t, scr, taskTimer k))"

datatype tick = Ticked timer terminal kernel | Preempted timer terminal kernel

text \<open>\<open>schedule\<close> returns at once when no other task is RUNNING; otherwise the rest is left to
  \<open>intTimer_resume\<close>, until the preempted task is chosen again.\<close>

definition intTimer :: "u64 \<Rightarrow> timer \<Rightarrow> terminal \<Rightarrow> kernel \<Rightarrow> tick option" where
  "intTimer resume t scr k =
     (let t = outportb 0x20 0x20 t;
          t = t\<lparr>timerCount := to_int32 (timerCount t + 1)\<rparr>
      in if timerCount t = 20 then do {
           k' \<leftarrow> schedule resume k;
           if currentTask k' \<noteq> currentTask k then Some (Preempted t scr k')
           else (case intTimer_resume t scr k' of (t, scr, k) \<Rightarrow> Some (Ticked t scr k))
         }
         else Some (Ticked t scr k))"

section \<open>The table\<close>

definition gate_offset :: "idt_gate \<Rightarrow> u64" where
  "gate_offset g = ucast (lower_offset g) OR push_bit 16 (ucast (mid_offset g)) OR push_bit 32 (ucast (high_offset g))"

lemma word_masks: "x AND 0xFFFF = take_bit 16 x" "x AND 0xFFFFFFFF = take_bit 32 x" for x :: u64
  by (simp_all add: take_bit_eq_mask mask_eq_exp_minus_1)
lemma offset_parts:
  "(ucast (ucast (f AND 0xFFFF) :: u16) :: u64) OR push_bit 16 (ucast (ucast (drop_bit 16 f AND 0xFFFF) :: u16))
    OR push_bit 32 (ucast (ucast (drop_bit 32 f AND 0xFFFFFFFF) :: u32)) = f" for f :: u64
proof (rule bit_word_eqI)
  fix n assume n: "n < LENGTH(64)"
  consider "n < 16" | "16 \<le> n" "n < 32" | "32 \<le> n" by linarith
  then show "bit ((ucast (ucast (f AND 0xFFFF) :: u16) :: u64) OR push_bit 16 (ucast (ucast (drop_bit 16 f AND 0xFFFF) :: u16))
    OR push_bit 32 (ucast (ucast (drop_bit 32 f AND 0xFFFFFFFF) :: u32))) n = bit f n"
    unfolding word_masks using n by cases (auto simp: bit_simps)
qed

definition gate_for :: "nat \<Rightarrow> u64 \<Rightarrow> idt_gate \<Rightarrow> bool" where
  "gate_for i f g \<longleftrightarrow> gate_offset g = f \<and> selector g = 0x08 \<and> gate_type g = (if i = 128 then 0xEE else 0x8E) \<and> zero_1 g = 0 \<and> zero_2 g = 0"

lemma initISR_gate: "gate_for i f (initISR i f t i)" "j \<noteq> i \<Longrightarrow> initISR i f t j = t j"
  using offset_parts [of f]
  by (simp_all add: gate_for_def initISR_def setIDTtype_def gate_offset_def idtLowerMask_def idtMidMask_def idthighMask_def)

lemma fold_initISR:
  "\<forall>i < n. gate_for i f (fold (\<lambda>i. initISR i f) [0..<n] t i)" "n \<le> j \<Longrightarrow> fold (\<lambda>i. initISR i f) [0..<n] t j = t j"
proof -
  have "(\<forall>i < n. gate_for i f (fold (\<lambda>i. initISR i f) [0..<n] t i)) \<and> (\<forall>j \<ge> n. fold (\<lambda>i. initISR i f) [0..<n] t j = t j)"
    by (induction n) (auto simp: initISR_gate less_Suc_eq)
  then show "\<forall>i < n. gate_for i f (fold (\<lambda>i. initISR i f) [0..<n] t i)" "n \<le> j \<Longrightarrow> fold (\<lambda>i. initISR i f) [0..<n] t j = t j"
    by blast+
qed

text \<open>C29: the interrupt table. After \<open>IDTinitialise\<close> every vector below 34 and vector 128 leads to its handler
  (the address put together from the three parts of the gate is the handler's), in the kernel's
  code segment; gate 128 alone may be used from privilege 3. Every other entry, from 34 on, is the
  one the table had before: none of them is set.\<close>

theorem idt_gates:
  "let (t, p) = IDTinitialise ISR0 ISR14 timer keyboard ISR128 table_addr t0 in
     (\<forall>i. if i < 34 \<or> i = 128
         then gate_for i (if i = 14 then ISR14 else if i = 32 then timer else if i = 33 then keyboard
           else if i = 128 then ISR128 else ISR0) (t i)
         else t i = t0 i)
     \<and> ptr_base p = table_addr \<and> ptr_size p = 4095"
proof -
  note f = fold_initISR [where n = 32 and f = ISR0 and t = t0]
  let ?t = "fold (\<lambda>i. initISR i ISR0) [0..<32] t0"
  let ?u = "initISR 128 ISR128 (initISR 33 keyboard (initISR 32 timer (initISR 14 ISR14 ?t)))"
  have "if i < 34 \<or> i = 128 then gate_for i (if i = 14 then ISR14 else if i = 32 then timer else if i = 33 then keyboard
         else if i = 128 then ISR128 else ISR0) (?u i) else ?u i = t0 i" for i
  proof (cases "i = 14 \<or> i = 32 \<or> i = 33 \<or> i = 128")
    case True
    then show ?thesis by (auto simp: initISR_gate)
  next
    case False
    then have e: "?u i = ?t i" by (simp add: initISR_gate(2))
    consider "i < 32" | "34 \<le> i" using False by linarith
    then show ?thesis
    proof cases
      case 1
      then show ?thesis using f(1) False e by simp
    next
      case 2
      then show ?thesis using f(2) [where j = i] False e by simp
    qed
  qed
  then show ?thesis by (simp add: IDTinitialise_def Let_def loadIDT_def)
qed

section \<open>The clock\<close>

text \<open>The seconds as a numeral, right-aligned at \<open>reg\<close>: the reader's view of the two-byte cells.\<close>

fun shown_at :: "vmem \<Rightarrow> int \<Rightarrow> string \<Rightarrow> bool" where
  "shown_at m reg [] = True"
| "shown_at m reg (c # s) = (m (reg - 2 * int (length s)) = c \<and> shown_at m reg s)"

lemma shown_at_snoc: "shown_at m reg (s @ [c]) \<longleftrightarrow> m reg = c \<and> shown_at m (reg - 2) s"
  by (induction s) (auto simp: algebra_simps)

declare clock_digits.simps [simp del]

lemma clock_digits_outside: "reg < a \<Longrightarrow> clock_digits temp reg m a = m a"
proof (induction temp reg m rule: clock_digits.induct)
  case (1 temp reg m)
  show ?case
  proof (cases "temp > 0")
    case True
    let ?m = "m(reg := i2c (c2i (CHR ''0'') + cmod temp 10))"
    have "clock_digits (cdiv temp 10) (reg - 2) ?m a = ?m a" using 1 True by (simp del: fun_upd_apply)
    then show ?thesis using True 1(2) by (simp add: clock_digits.simps [of temp reg m])
  qed (simp add: clock_digits.simps [of temp reg m])
qed

lemma digit_char: "d < 10 \<Longrightarrow> i2c (c2i (CHR ''0'') + int d) = char_of (48 + d)"
proof -
  assume "d < 10"
  then have "nat ((48 + int d) mod 256) = 48 + d" by simp
  then show ?thesis by (simp add: i2c_def c2i_def)
qed

lemma clock_digits_shown: "0 < n \<Longrightarrow> shown_at (clock_digits (int n) reg m) reg (dec_str n)"
proof (induction n arbitrary: reg m rule: less_induct)
  case (less n)
  define m' where "m' = m(reg := i2c (c2i (CHR ''0'') + cmod (int n) 10))"
  have step: "clock_digits (int n) reg m = clock_digits (int (n div 10)) (reg - 2) m'"
    using less.prems by (simp add: clock_digits.simps [of "int n"] m'_def cdiv_nonneg zdiv_int)
  have c: "m' reg = char_of (48 + n mod 10)" using digit_char [of "n mod 10"] by (simp add: m'_def cmod_nonneg zmod_int)
  show ?case
  proof (cases "n < 10")
    case True
    then have "clock_digits (int n) reg m = m'" using step by (simp add: clock_digits.simps [of 0])
    then show ?thesis using c True by (simp add: dec_str.simps [of n])
  next
    case False
    then have d: "dec_str n = dec_str (n div 10) @ [char_of (48 + n mod 10)]" by (simp add: dec_str.simps [of n])
    have "shown_at (clock_digits (int (n div 10)) (reg - 2) m') (reg - 2) (dec_str (n div 10))"
      using less.IH [of "n div 10"] False by simp
    moreover have "clock_digits (int (n div 10)) (reg - 2) m' reg = m' reg" by (rule clock_digits_outside) simp
    ultimately show ?thesis unfolding d shown_at_snoc step using c by simp
  qed
qed

text \<open>Interrupts one after the other, nothing else happening to the timer.\<close>

fun ticks :: "nat \<Rightarrow> u64 \<Rightarrow> timer \<times> terminal \<times> kernel \<Rightarrow> (timer \<times> terminal \<times> kernel) option" where
  "ticks 0 resume s = Some s"
| "ticks (Suc n) resume (t, scr, k) = (case intTimer resume t scr k of
      Some (Ticked t scr k) \<Rightarrow> ticks n resume (t, scr, k)
    | Some (Preempted t scr k) \<Rightarrow> None
    | None \<Rightarrow> None)"

lemma ticks_add: "ticks (m + n) resume s = Option.bind (ticks m resume s) (ticks n resume)"
proof (induction m arbitrary: s)
  case (Suc m)
  then show ?case by (cases s) (simp split: option.split tick.split)
qed simp

text \<open>An interrupt that does not bring the counter to 20 only counts.\<close>

definition counted :: "nat \<Rightarrow> timer \<Rightarrow> timer" where
  "counted n t = t\<lparr>timerCount := timerCount t + int n, ports := ports t @ replicate n (0x20, 0x20)\<rparr>"

lemma quiet_ticks:
  "20 \<le> timerCount t \<or> 0 \<le> timerCount t \<and> timerCount t + int n < 20 \<Longrightarrow> timerCount t + int n < 2 ^ 31 \<Longrightarrow>
   ticks n resume (t, scr, k) = Some (counted n t, scr, k)"
proof (induction n arbitrary: t)
  case (Suc n)
  have "to_int32 (timerCount t + 1) = timerCount t + 1" using Suc.prems by (subst to_int32_id) auto
  then have "intTimer resume t scr k = Some (Ticked (counted 1 t) scr k)"
    using Suc.prems by (auto simp: intTimer_def outportb_def counted_def Let_def)
  moreover have c: "20 \<le> timerCount (counted 1 t) \<or> 0 \<le> timerCount (counted 1 t) \<and> timerCount (counted 1 t) + int n < 20"
    using Suc.prems(1) by (auto simp: counted_def)
  have "ticks n resume (counted 1 t, scr, k) = Some (counted n (counted 1 t), scr, k)"
    using Suc.IH [OF c] Suc.prems by (simp add: counted_def)
  ultimately show ?case by (simp add: counted_def replicate_app_Cons_same)
qed (simp add: counted_def)

text \<open>Every twentieth interrupt is the second's. When no other task is RUNNING, twenty interrupts from a
  reset counter leave the counter reset, count one second, decrement the sleepers once and
  show the number of seconds, right-aligned in the corner of the screen.\<close>

theorem clock_second:
  assumes "timerCount t = 0" and "0 \<le> totalSecs t" "totalSecs t < 2 ^ 31 - 1"
    and "cur_ok k" and "next_task (taskQueue k) (currentTask k) = currentTask k"
  shows "\<exists>t' scr' k'. ticks 20 resume (t, scr, k) = Some (t', scr', taskTimer k') \<and> schedule resume k = Some k'
    \<and> timerCount t' = 0 \<and> totalSecs t' = totalSecs t + 1
    \<and> shown_at (video scr') 0xF9E (dec_str (nat (totalSecs t + 1)))"
proof -
  obtain k' where k': "schedule resume k = Some k'" "currentTask k' = currentTask k"
    using schedule_eq [OF assms(4), of resume] assms(5) by auto
  have s: "to_int32 (totalSecs t + 1) = totalSecs t + 1" using assms(2,3) by (subst to_int32_id) auto
  define n where "n = nat (totalSecs t + 1)"
  have n: "totalSecs t + 1 = int n" "0 < n" using assms(2) by (auto simp: n_def)
  let ?scr = "scr\<lparr>video := clock_digits (int n) 0xF9E (video scr)\<rparr>"
  let ?t = "counted 20 t\<lparr>timerCount := 0, totalSecs := int n\<rparr>"
  have "ticks 19 resume (t, scr, k) = Some (counted 19 t, scr, k)" using assms(1) by (intro quiet_ticks) auto
  moreover have "intTimer resume (counted 19 t) scr k = Some (Ticked ?t ?scr (taskTimer k'))"
  proof -
    have "outportb 0x20 0x20 (counted 19 t)\<lparr>timerCount := 20\<rparr> = counted 20 t"
      using assms(1) replicate_append_same [of 19 "(0x20, 0x20) :: u16 \<times> u8"]
      by (simp add: counted_def outportb_def numeral_eq_Suc)
    moreover have "to_int32 (timerCount (outportb 0x20 0x20 (counted 19 t)) + 1) = 20"
      using assms(1) by (simp add: counted_def outportb_def to_int32_id)
    moreover have "totalSecs (counted 20 t) = totalSecs t" "timerCount (counted 20 t) = 20" using assms(1) by (simp_all add: counted_def)
    ultimately show ?thesis using k' s n by (simp add: intTimer_def intTimer_resume_def resetTimer_def Let_def)
  qed
  ultimately have "ticks (19 + 1) resume (t, scr, k) = Some (?t, ?scr, taskTimer k')"
    unfolding ticks_add by simp
  then have "ticks 20 resume (t, scr, k) = Some (?t, ?scr, taskTimer k')" by simp
  moreover have "shown_at (video ?scr) 0xF9E (dec_str (nat (totalSecs t + 1)))"
    using clock_digits_shown [OF n(2), of "0xF9E" "video scr"] unfolding n_def by simp
  moreover have "timerCount ?t = 0" "totalSecs ?t = totalSecs t + 1" using n(1) by simp_all
  ultimately show ?thesis using k'(1) by blast
qed

text \<open>Preemption happens once. After the interrupt that switched from a task to another the counter is not
  reset: until the first task runs again (which no interrupt can bring about), no further
  interrupt switches tasks or decrements a sleeper.\<close>

theorem preempts_once:
  assumes "intTimer resume t scr k = Some (Preempted t' scr' k')" and "n < 2 ^ 31 - 21"
  shows "\<exists>t''. ticks n resume (t', scr', k') = Some (t'', scr', k')"
proof -
  have c: "timerCount t' = 20" using assms(1)
    by (auto simp: intTimer_def Let_def split: if_splits prod.splits bind_splits)
  then show ?thesis using quiet_ticks [where t = t' and n = n and resume = resume] assms(2) by auto
qed

text \<open>Two RUNNING tasks, and the counter at 19.\<close>

definition timer0 :: "int \<Rightarrow> timer" where
  "timer0 n = \<lparr>timerCount = n, totalSecs = 0, ports = []\<rparr>"

theorem preempts_once_witness:
  "\<exists>t' k' t''. intTimer 0x500 (timer0 19) full_screen kernel_ab = Some (Preempted t' full_screen k')
     \<and> ticks 1000 0x500 (t', full_screen, k') = Some (t'', full_screen, k')"
proof -
  have n7: "next_task (taskQueue kernel_ab) 7 = 3"
    by (rule next_task_two) (auto simp: kernel_ab_def kernel0_def task0_def MAX_TASKS_def)
  have c7: "currentTask kernel_ab = 7" by (simp add: kernel_ab_def kernel0_def)
  obtain k' where k': "schedule 0x500 kernel_ab = Some k'" "currentTask k' = 3"
    using schedule_eq [OF cur_ok_ab, of "0x500"] n7 c7 by auto
  then obtain t' where "intTimer 0x500 (timer0 19) full_screen kernel_ab = Some (Preempted t' full_screen k')"
    using c7 by (simp add: intTimer_def timer0_def outportb_def to_int32_id Let_def)
  moreover from preempts_once [OF this, of 1000] obtain t'' where "ticks 1000 0x500 (t', full_screen, k') = Some (t'', full_screen, k')"
    by auto
  ultimately show ?thesis by blast
qed

theorem clock_second_witness:
  "\<exists>t' scr' k'. ticks 20 0x500 (timer0 0, full_screen, kernel0\<lparr>currentTask := 3\<rparr>) = Some (t', scr', k') \<and> totalSecs t' = 1
     \<and> video scr' 0xF9E = CHR ''1''"
proof -
  let ?k = "kernel0\<lparr>currentTask := 3\<rparr>"
  have ok: "cur_ok ?k" by (simp add: cur_ok_def kernel0_def MAX_TASKS_def)
  have n: "next_task (taskQueue ?k) (currentTask ?k) = currentTask ?k"
    by (auto simp: next_task_def find_None_iff sched_order_def kernel0_def task0_def split: option.split dest: find_SomeD)
  have "dec_str 1 = ''1''" by code_simp
  then show ?thesis using clock_second [OF _ _ _ ok n, of "timer0 0" "0x500" full_screen]
    by (auto simp: timer0_def)
qed

end
