(* ===== verification/UserMemory.thy ===== *)
theory UserMemory
  imports KernelHeap
begin

text \<open>
  The memory a task sees: bytes and words at user addresses, read and written through its page tables.
  A write to a page that is not mapped is a page fault, \<open>None\<close>. \<open>own_space\<close> says that a task's pages,
  tables and the free frames are apart; mapping a page and writing to one preserve it, and a
  write changes exactly one byte of what the task sees.
\<close>

section \<open>Bytes of a word\<close>

definition word_byte :: "u64 \<Rightarrow> nat \<Rightarrow> char" where
  "word_byte w i = char_of (unat (take_bit 8 (drop_bit (8 * i) w)))"

definition set_byte :: "u64 \<Rightarrow> nat \<Rightarrow> char \<Rightarrow> u64" where
  "set_byte w i c = (w AND NOT (push_bit (8 * i) (mask 8))) OR push_bit (8 * i) (of_nat (of_char c))"

lemma word_byte_set_byte:
  assumes "i < 8" "j < 8"
  shows "word_byte (set_byte w i c) j = (if i = j then c else word_byte w j)"
proof -
  define v where "v = (of_nat (of_char c) :: u64)"
  have "of_char c mod 2 ^ 64 = (of_char c :: nat)" using of_char_less_256 [of c] by (intro mod_less less_le_trans [OF of_char_less_256 [of c]]) simp
  then have u: "unat v = of_char c" by (simp add: v_def unat_of_nat)
  have v: "v = take_bit 8 v"
    using u of_char_less_256 [of c] by (simp add: word_unat_eq_iff unsigned_take_bit_eq take_bit_nat_eq_self)
  have hi: "\<not> bit v n" if "8 \<le> n" for n using that by (subst v) (simp add: bit_take_bit_iff)
  have "take_bit 8 (drop_bit (8 * j) (set_byte w i c)) = (if i = j then v else take_bit 8 (drop_bit (8 * j) w))"
  proof (rule bit_word_eqI)
    fix n assume n: "n < LENGTH(64)"
    show "bit (take_bit 8 (drop_bit (8 * j) (set_byte w i c))) n = bit (if i = j then v else take_bit 8 (drop_bit (8 * j) w)) n"
    proof (cases "n < 8")
      case False
      then show ?thesis using hi [of n] by (simp add: bit_take_bit_iff)
    next
      case True
      consider "i = j" | "i < j" | "j < i" by linarith
      then show ?thesis
      proof cases
        case 1
        then show ?thesis using True assms by (auto simp: set_byte_def bit_simps v_def [symmetric])
      next
        case 2
        then have "8 \<le> 8 * j + n - 8 * i" by simp
        then show ?thesis using 2 True assms hi [of "8 * j + n - 8 * i"] by (auto simp: set_byte_def bit_simps v_def [symmetric])
      next
        case 3
        then have "8 * j + n < 8 * i" using True by simp
        then show ?thesis using 3 True assms by (auto simp: set_byte_def bit_simps v_def [symmetric])
      qed
    qed
  qed
  then show ?thesis using u by (simp add: word_byte_def)
qed

section \<open>User addresses\<close>

text \<open>The addresses below the kernel's slot of the top table.\<close>

definition uaddr :: "u64 \<Rightarrow> bool" where
  "uaddr a \<longleftrightarrow> unat a < 511 * 2 ^ 39"

text \<open>The physical word and the byte in it, for a page-table entry \<open>e\<close>.\<close>

definition ucell :: "u64 \<Rightarrow> u64 \<Rightarrow> u64" where
  "ucell e a = (e AND validatebits) + 8 * (drop_bit 3 a AND 511)"

definition ubyte :: "paging \<Rightarrow> u64 \<Rightarrow> u64 \<Rightarrow> char option" where
  "ubyte s M a = do {
     e \<leftarrow> translate (pm s) M a;
     Some (word_byte (pm s (ucell e a)) (unat (a AND 7)))
   }"

definition uput :: "paging \<Rightarrow> u64 \<Rightarrow> u64 \<Rightarrow> char \<Rightarrow> paging option" where
  "uput s M a c = do {
     e \<leftarrow> translate (pm s) M a;
     Some (s\<lparr>pm := (pm s)(ucell e a := set_byte (pm s (ucell e a)) (unat (a AND 7)) c)\<rparr>)
   }"

text \<open>Words, at addresses divisible by 8.\<close>

definition uword :: "paging \<Rightarrow> u64 \<Rightarrow> u64 \<Rightarrow> u64 option" where
  "uword s M a = do {
     e \<leftarrow> translate (pm s) M a;
     Some (pm s (ucell e a))
   }"

definition uputw :: "paging \<Rightarrow> u64 \<Rightarrow> u64 \<Rightarrow> u64 \<Rightarrow> paging option" where
  "uputw s M a w = do {
     e \<leftarrow> translate (pm s) M a;
     Some (s\<lparr>pm := (pm s)(ucell e a := w)\<rparr>)
   }"

lemma uaddr_user: "uaddr a \<Longrightarrow> ix4 a \<noteq> 511"
  by (simp add: uaddr_def user_page)

lemma unat_offsets: "unat (drop_bit 3 a AND 511) = unat a div 8 mod 512" "unat (a AND 7) = unat a mod 8" for a :: u64
proof -
  have m: "x AND 511 = take_bit 9 x" "x AND 7 = take_bit 3 x" for x :: u64 by (simp_all add: take_bit_eq_mask mask_eq_exp_minus_1)
  have lt: "unat a < 2 ^ LENGTH(64)" by (rule unsigned_less)
  show "unat (drop_bit 3 a AND 511) = unat a div 8 mod 512" "unat (a AND 7) = unat a mod 8"
    using lt unfolding m by (simp_all only: unsigned_take_bit_eq unsigned_drop_bit_eq) (simp_all add: take_bit_eq_mod drop_bit_eq_div)
qed

lemma offset_less: "drop_bit 3 a AND 511 < (512 :: u64)" "unat (a AND 7) < 8" for a :: u64
  using unat_offsets [of a] by (simp_all add: word_less_nat_alt)

lemma same_word:
  assumes "unat a div 8 = unat b div 8"
  shows "same_page a b" "translate m M a = translate m M b" "drop_bit 3 a AND 511 = (drop_bit 3 b AND 511 :: u64)"
proof -
  have d: "x div 2 ^ 12 = x div 8 div 512" "x div 2 ^ 21 = x div 8 div 262144" "x div 2 ^ 30 = x div 8 div 134217728"
    "x div 2 ^ 39 = x div 8 div 68719476736" for x :: nat by (simp_all add: div_mult2_eq [symmetric])
  have "unat (ix1 a) = unat (ix1 b)" "unat (ix2 a) = unat (ix2 b)" "unat (ix3 a) = unat (ix3 b)" "unat (ix4 a) = unat (ix4 b)"
    unfolding unat_ix d assms by blast+
  then have "ix1 a = ix1 b" "ix2 a = ix2 b" "ix3 a = ix3 b" "ix4 a = ix4 b" by (simp_all add: word_unat_eq_iff)
  then show "same_page a b" "translate m M a = translate m M b" by (simp_all add: same_page_def path_def translate_def)
  have "unat (drop_bit 3 a AND 511) = unat (drop_bit 3 b AND 511)" unfolding unat_offsets assms ..
  then show "drop_bit 3 a AND 511 = (drop_bit 3 b AND 511 :: u64)" by (simp add: word_unat_eq_iff)
qed

lemma uaddr_eqI:
  assumes "uaddr a" "uaddr b" "same_page a b" "drop_bit 3 a AND 511 = (drop_bit 3 b AND 511 :: u64)" "unat (a AND 7) = unat (b AND 7)"
  shows "a = b"
proof -
  have 1: "unat a div 4096 = unat b div 4096" using same_page_number [OF assms(3)] assms(1,2) by (simp add: uaddr_def)
  have 2: "unat a div 8 mod 512 = unat b div 8 mod 512" "unat a mod 8 = unat b mod 8" using assms(4,5) unat_offsets by metis+
  have 3: "x = 4096 * (x div 4096) + 8 * (x div 8 mod 512) + x mod 8" for x :: nat
  proof -
    have 1: "x = 8 * (x div 8) + x mod 8" by simp
    have 2: "x div 8 = 512 * (x div 8 div 512) + x div 8 mod 512" by (rule mult_div_mod_eq [symmetric])
    have 3: "x div 8 div 512 = x div 4096" by (simp add: div_mult2_eq [symmetric])
    show ?thesis using 1 2 unfolding 3 by linarith
  qed
  show ?thesis using 1 2 3 [of "unat a"] 3 [of "unat b"] by (metis unsigned_word_eqI)
qed

section \<open>Own memory\<close>

definition own_space :: "paging \<Rightarrow> u64 \<Rightarrow> u64 list \<Rightarrow> bool" where
  "own_space s M fs \<longleftrightarrow> space s M fs
     \<and> (\<forall>w e. ix4 w \<noteq> 511 \<longrightarrow> translate (pm s) M w = Some e \<longrightarrow> e AND validatebits \<notin> user_tables (pm s) M \<union> set fs)
     \<and> (\<forall>v w e e'. ix4 v \<noteq> 511 \<longrightarrow> ix4 w \<noteq> 511 \<longrightarrow> translate (pm s) M v = Some e \<longrightarrow> translate (pm s) M w = Some e' \<longrightarrow>
          e AND validatebits = e' AND validatebits \<longrightarrow> same_page v w)"

lemma own_space_space: "own_space s M fs \<Longrightarrow> space s M fs"
  by (simp add: own_space_def)

text \<open>A write to a mapped page changes the cells of that page only.\<close>

lemma data_write:
  fixes w :: u64
  assumes p: "own_space s M fs" and a: "ix4 a \<noteq> 511" "translate (pm s) M a = Some e"
  defines "s' \<equiv> s\<lparr>pm := (pm s)(ucell e a := w)\<rparr>"
  shows "own_space s' M fs" and "\<And>b. ix4 b \<noteq> 511 \<Longrightarrow> translate (pm s') M b = translate (pm s) M b"
    and "\<And>q. upath q \<Longrightarrow> tbl (pm s') M q = tbl (pm s) M q"
proof -
  have sp: "space s M fs" and al: "aligned M" using p pt_wf_aligned by (auto simp: own_space_def space_def)
  define f where "f = e AND validatebits"
  have f: "aligned f" "f \<notin> user_tables (pm s) M" using p a by (auto simp: own_space_def f_def)
  have out: "pm s' x = pm s x" if "\<not> in_frame f x" for x
    using that in_frame_entry [of f f "drop_bit 3 a AND 511"] f(1) offset_less(1) [of a]
    by (auto simp: s'_def ucell_def f_def)
  show t: "tbl (pm s') M q = tbl (pm s) M q" if "upath q" for q
    using fresh_frame_tbl [OF al f out that] .
  show tr: "translate (pm s') M b = translate (pm s) M b" if b: "ix4 b \<noteq> 511" for b
  proof (cases "tbl (pm s) M (path b)")
    case None
    then show ?thesis using t b by (simp add: translate_def)
  next
    case (Some P)
    have "P \<in> user_tables (pm s) M" using Some b by (auto simp: user_tables_def intro: upath_path [THEN iffD2])
    then have "P \<noteq> f" using f(2) by auto
    moreover have "aligned P" using tbl_aligned [OF al Some] .
    ultimately have "pm s' (P + 8 * ix1 b) = pm s (P + 8 * ix1 b)"
      using out in_frame_entry [of f P "ix1 b"] f(1) by simp
    then show ?thesis using Some t b by (simp add: translate_def)
  qed
  have ut: "user_tables (pm s') M = user_tables (pm s) M" using t by (auto simp: user_tables_def)
  have "pt_wf (pm s') M" using sp t by (auto simp: space_def pt_wf_def)
  then have "space s' M fs" using sp ut by (simp add: space_def s'_def free_frames_def)
  then show "own_space s' M fs" using p tr ut unfolding own_space_def by metis
qed

lemma ucell_inj:
  assumes p: "own_space s M fs" and a: "uaddr a" "translate (pm s) M a = Some e" and b: "uaddr b" "translate (pm s) M b = Some e'"
    and eq: "ucell e a = ucell e' b"
  shows "same_page a b" "drop_bit 3 a AND 511 = (drop_bit 3 b AND 511 :: u64)"
proof -
  have "e AND validatebits = e' AND validatebits \<and> drop_bit 3 a AND 511 = (drop_bit 3 b AND 511 :: u64)"
    using eq entry_inj [of "e AND validatebits" "e' AND validatebits" "drop_bit 3 a AND 511" "drop_bit 3 b AND 511"] offset_less
    by (simp add: ucell_def)
  then show "same_page a b" "drop_bit 3 a AND 511 = (drop_bit 3 b AND 511 :: u64)"
    using p a b uaddr_user unfolding own_space_def by blast+
qed

text \<open>What the task sees of a write of a byte, and of a word.\<close>

lemma uput_spec:
  assumes p: "own_space s M fs" and a: "uaddr a" "translate (pm s) M a = Some e"
  shows "\<exists>s'. uput s M a c = Some s' \<and> own_space s' M fs
    \<and> (\<forall>b. uaddr b \<longrightarrow> translate (pm s') M b = translate (pm s) M b)
    \<and> (\<forall>b. uaddr b \<longrightarrow> ubyte s' M b = (if b = a then Some c else ubyte s M b))"
proof -
  let ?w = "set_byte (pm s (ucell e a)) (unat (a AND 7)) c"
  let ?s' = "s\<lparr>pm := (pm s)(ucell e a := ?w)\<rparr>"
  note d = data_write [OF p uaddr_user [OF a(1)] a(2), where w = ?w]
  have "ubyte ?s' M b = (if b = a then Some c else ubyte s M b)" if b: "uaddr b" for b
  proof (cases "translate (pm s) M b")
    case None
    then show ?thesis using d(2) [OF uaddr_user [OF b]] a(2) by (auto simp: ubyte_def)
  next
    case (Some e')
    show ?thesis
    proof (cases "ucell e' b = ucell e a")
      case False
      then show ?thesis using d(2) [OF uaddr_user [OF b]] Some a(2) by (auto simp: ubyte_def)
    next
      case True
      note s = ucell_inj [OF p b Some a True]
      have i: "unat (b AND 7) = unat (a AND 7) \<longleftrightarrow> b = a" using uaddr_eqI [OF b a(1) s] by auto
      then show ?thesis
        using d(2) [OF uaddr_user [OF b]] Some a(2) True word_byte_set_byte [of "unat (a AND 7)" "unat (b AND 7)"] offset_less(2)
        by (auto simp: ubyte_def)
    qed
  qed
  then show ?thesis using d a(2) uaddr_user by (intro exI [of _ ?s']) (simp add: uput_def)
qed

lemma uputw_spec:
  assumes p: "own_space s M fs" and a: "uaddr a" "translate (pm s) M a = Some e" "unat a mod 8 = 0"
  shows "\<exists>s'. uputw s M a w = Some s' \<and> own_space s' M fs
    \<and> (\<forall>b. uaddr b \<longrightarrow> translate (pm s') M b = translate (pm s) M b)
    \<and> (\<forall>b. uaddr b \<longrightarrow> unat b mod 8 = 0 \<longrightarrow> uword s' M b = (if b = a then Some w else uword s M b))
    \<and> (\<forall>b. uaddr b \<longrightarrow> unat b div 8 \<noteq> unat a div 8 \<longrightarrow> ubyte s' M b = ubyte s M b)"
proof -
  let ?s' = "s\<lparr>pm := (pm s)(ucell e a := w)\<rparr>"
  note d = data_write [OF p uaddr_user [OF a(1)] a(2), where w = w]
  have cell: "ucell e' b = ucell e a \<longleftrightarrow> unat b div 8 = unat a div 8" if b: "uaddr b" "translate (pm s) M b = Some e'" for b e'
  proof
    assume "ucell e' b = ucell e a"
    note s = ucell_inj [OF p b a(1,2) this]
    have "unat b div 4096 = unat a div 4096" using same_page_number [OF s(1)] b a by (simp add: uaddr_def)
    moreover have "unat b div 8 mod 512 = unat a div 8 mod 512" using s(2) unat_offsets(1) by metis
    moreover have "x div 8 = 512 * (x div 4096) + x div 8 mod 512" for x :: nat
      using mult_div_mod_eq [of 512 "x div 8"] by (simp add: div_mult2_eq [symmetric])
    ultimately show "unat b div 8 = unat a div 8" by metis
  next
    assume eq: "unat b div 8 = unat a div 8"
    from same_word [OF eq] b(2) a(2) show "ucell e' b = ucell e a" by (simp add: ucell_def)
  qed
  have "uword ?s' M b = (if b = a then Some w else uword s M b)" if b: "uaddr b" "unat b mod 8 = 0" for b
  proof -
    have "unat b div 8 = unat a div 8 \<longleftrightarrow> b = a"
      using b(2) a(3) div_mult_mod_eq [of "unat a" 8] div_mult_mod_eq [of "unat b" 8] by (metis add.right_neutral unsigned_word_eqI)
    then show ?thesis using d(2) [OF uaddr_user [OF b(1)]] cell [OF b(1)] a(2)
      by (cases "translate (pm s) M b") (auto simp: uword_def)
  qed
  moreover have "ubyte ?s' M b = ubyte s M b" if b: "uaddr b" "unat b div 8 \<noteq> unat a div 8" for b
    using d(2) [OF uaddr_user [OF b(1)]] cell [OF b(1)] b(2) a(2) by (cases "translate (pm s) M b") (auto simp: ubyte_def)
  ultimately show ?thesis using d a(2) uaddr_user by (intro exI [of _ ?s']) (simp add: uputw_def)
qed

text \<open>Mapping a page to a free frame: the other pages keep what they show.\<close>

lemma map_page:
  assumes p: "own_space s M (f # fs)" and len: "3 \<le> length fs" and v: "uaddr v"
  shows "\<exists>s1 s' k. getFreeFrame s = Some (f, s1) \<and> initTaskPagetables v f (kernbase + M) s1 = Some s'
    \<and> pm s1 = pm s \<and> free_frames s1 fs \<and> touches s1 s' M fs
    \<and> k \<le> 3 \<and> own_space s' M (drop k fs) \<and> maps s s' M v (f OR 7)
    \<and> (\<forall>b. uaddr b \<longrightarrow> \<not> same_page v b \<longrightarrow> ubyte s' M b = ubyte s M b)"
proof -
  have sp: "space s M (f # fs)" using p by (rule own_space_space)
  then have ff: "free_frames s (f # fs)" and f: "aligned f" "distinct (f # fs)" "f \<notin> user_tables (pm s) M" by (auto simp: space_def)
  obtain s1 where s1: "getFreeFrame s = Some (f, s1)" "free_frames s1 fs" "pm s1 = pm s" "pml4e s1 = pml4e s"
    using getFreeFrame_cons [OF ff] by blast
  note s2 = fresh_frame_space [OF sp _ s1(1,2,4), of "pm s", simplified]
  have upd: "s1\<lparr>pm := pm s\<rparr> = s1" using s1(3) by simp
  obtain s' k where s': "k \<le> 3" "initTaskPagetables v f (kernbase + M) s1 = Some s'" "space s' M (drop k fs)"
    "maps s1 s' M v ((f AND validatebits) OR 7)" "touches s1 s' M fs"
    using initTaskPagetables_step [OF s2(1) [unfolded upd] len uaddr_user [OF v], of f] by blast
  have m: "maps s s' M v (f OR 7)" using keeps_maps [OF s2(2) [unfolded upd] s'(4)] f(1) by (simp add: aligned_def)
  have ut: "user_tables (pm s') M \<subseteq> user_tables (pm s) M \<union> set fs" using s'(5) s1(3) by (simp add: touches_def)
  have sub: "set (drop k fs) \<subseteq> set fs" by (rule set_drop_subset)
  have fe: "(f OR 7) AND validatebits = f" using f(1) entry_bits(2) [of f] by (simp add: aligned_def)
  have e: "e AND validatebits \<notin> user_tables (pm s) M \<union> set (f # fs)" if "ix4 w \<noteq> 511" "translate (pm s) M w = Some e" for w e
    using p that by (auto simp: own_space_def)
  have new: "e AND validatebits \<notin> user_tables (pm s') M \<union> set (drop k fs)" if "ix4 w \<noteq> 511" "translate (pm s') M w = Some e" for w e
  proof (cases "same_page v w")
    case True
    then have "e AND validatebits = f" using m that fe by (simp add: maps_def)
    then show ?thesis using f ut sub by auto
  next
    case False
    then show ?thesis using e [OF that(1)] m that ut sub by (auto simp: maps_def)
  qed
  have one: "same_page w w'" if "ix4 w \<noteq> 511" "ix4 w' \<noteq> 511" "translate (pm s') M w = Some e" "translate (pm s') M w' = Some e'"
    "e AND validatebits = e' AND validatebits" for w w' e e'
  proof -
    have old: "same_page w w'" if "\<not> same_page v w" "\<not> same_page v w'"
      using p m that \<open>ix4 w \<noteq> 511\<close> \<open>ix4 w' \<noteq> 511\<close> \<open>translate (pm s') M w = Some e\<close> \<open>translate (pm s') M w' = Some e'\<close>
        \<open>e AND validatebits = e' AND validatebits\<close> unfolding own_space_def maps_def by metis
    have "same_page v w \<longleftrightarrow> same_page v w'"
      using e [OF that(1)] e [OF that(2)] m that fe by (auto simp: maps_def split: if_splits)
    then show ?thesis using old by (auto simp: same_page_def)
  qed
  have "own_space s' M (drop k fs)" using s'(3) new one unfolding own_space_def by blast
  moreover have "ubyte s' M b = ubyte s M b" if b: "uaddr b" "\<not> same_page v b" for b
  proof (cases "translate (pm s) M b")
    case None
    then show ?thesis using m b uaddr_user [OF b(1)] by (simp add: ubyte_def maps_def)
  next
    case (Some g)
    have "g AND validatebits \<notin> user_tables (pm s1) M \<union> set fs" using e [OF uaddr_user [OF b(1)] Some] s1(3) by simp
    then have "pm s' (ucell g b) = pm s (ucell g b)"
      using touches_data [OF s'(5) s2(1) [unfolded upd] aligned_and _ offset_less(1)] s1(3) unfolding ucell_def by simp
    then show ?thesis using m b uaddr_user [OF b(1)] Some by (simp add: ubyte_def maps_def)
  qed
  ultimately show ?thesis using s1(1-3) s'(1,2,5) m by blast
qed

end
