(* ===== verification/Loader.thy ===== *)
theory Loader
  imports UserMemory Fork Archive
begin

text \<open>
  The ELF loader of \<^verbatim>\<open>sys/process.c\<close>: \<open>readELFandFork\<close>, which loads a file into a new address space, and
  \<open>readELFandExec\<close>, which loads one over the old. The file is read from the archive in the kernel's
  image, memory that neither writes; the task's memory is written through the tables that cr3 points
  to, where a write to a page that is not mapped is \<open>None\<close>. A memory area fresh from \<open>kmalloc\<close> holds
  arbitrary bytes, \<open>garbage i\<close> for the node of header \<open>i\<close>.
\<close>

section \<open>Reading the file\<close>

fun le_bytes :: "mem \<Rightarrow> u64 \<Rightarrow> nat \<Rightarrow> u64" where
  "le_bytes m a 0 = 0"
| "le_bytes m a (Suc n) = of_nat (of_char (m (uint a))) OR push_bit 8 (le_bytes m (a + 1) n)"

record Elf64_Ehdr =
  e_ident :: string
  e_type :: u16
  e_machine :: u16
  e_version :: u32
  e_entry :: u64
  e_phoff :: u64
  e_shoff :: u64
  e_flags :: u32
  e_ehsize :: u16
  e_phentsize :: u16
  e_phnum :: u16
  e_shentsize :: u16
  e_shnum :: u16
  e_shstrndx :: u16

definition read_Ehdr :: "mem \<Rightarrow> u64 \<Rightarrow> Elf64_Ehdr" where
  "read_Ehdr m a =
     \<lparr>e_ident = map (\<lambda>i. m (uint (a + of_nat i))) [0..<16], e_type = ucast (le_bytes m (a + 16) 2),
      e_machine = ucast (le_bytes m (a + 18) 2), e_version = ucast (le_bytes m (a + 20) 4),
      e_entry = le_bytes m (a + 24) 8, e_phoff = le_bytes m (a + 32) 8, e_shoff = le_bytes m (a + 40) 8,
      e_flags = ucast (le_bytes m (a + 48) 4), e_ehsize = ucast (le_bytes m (a + 52) 2),
      e_phentsize = ucast (le_bytes m (a + 54) 2), e_phnum = ucast (le_bytes m (a + 56) 2),
      e_shentsize = ucast (le_bytes m (a + 58) 2), e_shnum = ucast (le_bytes m (a + 60) 2),
      e_shstrndx = ucast (le_bytes m (a + 62) 2)\<rparr>"

definition read_Phdr :: "mem \<Rightarrow> u64 \<Rightarrow> Elf64_Phdr" where
  "read_Phdr m a =
     \<lparr>p_type = ucast (le_bytes m a 4), p_flags = ucast (le_bytes m (a + 4) 4), p_offset = le_bytes m (a + 8) 8,
      p_vaddr = le_bytes m (a + 16) 8, p_paddr = le_bytes m (a + 24) 8, p_filesz = le_bytes m (a + 32) 8,
      p_memsz = le_bytes m (a + 40) 8, p_align = le_bytes m (a + 48) 8\<rparr>"

section \<open>Writing to the task\<close>

definition getCurrentCR3 :: "kernel \<Rightarrow> u64" where "getCurrentCR3 k = cr3 k"

definition loadCR3 :: "u64 \<Rightarrow> kernel \<Rightarrow> kernel" where "loadCR3 toLoad k = k\<lparr>cr3 := toLoad\<rparr>"

definition loadCR3Virtual :: "u64 \<Rightarrow> kernel \<Rightarrow> kernel" where "loadCR3Virtual toLoad k = k\<lparr>cr3 := toLoad - kernbase\<rparr>"

text \<open>\<open>memcpy\<close> and \<open>memset\<close> where the destination is user memory; the source is a function of the address.\<close>

fun user_copy_up :: "(u64 \<Rightarrow> char) \<Rightarrow> u64 \<Rightarrow> u64 \<Rightarrow> u64 \<Rightarrow> nat \<Rightarrow> paging \<Rightarrow> paging option" where
  "user_copy_up src M d a 0 s = Some s"
| "user_copy_up src M d a (Suc n) s = do {
     s \<leftarrow> uput s M d (src a);
     user_copy_up src M (d + 1) (a + 1) n s
   }"

fun user_copy_down :: "(u64 \<Rightarrow> char) \<Rightarrow> u64 \<Rightarrow> u64 \<Rightarrow> u64 \<Rightarrow> nat \<Rightarrow> paging \<Rightarrow> paging option" where
  "user_copy_down src M d a 0 s = Some s"
| "user_copy_down src M d a (Suc n) s = do {
     s \<leftarrow> uput s M (d - 1) (src (a - 1));
     user_copy_down src M (d - 1) (a - 1) n s
   }"

definition memcpy_user :: "(u64 \<Rightarrow> char) \<Rightarrow> u64 \<Rightarrow> u64 \<Rightarrow> u64 \<Rightarrow> int \<Rightarrow> paging \<Rightarrow> paging option" where
  "memcpy_user src M dest a n s =
     (if n < 0 then None
      else if a < dest then user_copy_down src M (dest + word_of_int n) (a + word_of_int n) (nat n) s
      else user_copy_up src M dest a (nat n) s)"

fun memset_user :: "u64 \<Rightarrow> u64 \<Rightarrow> int \<Rightarrow> nat \<Rightarrow> paging \<Rightarrow> paging option" where
  "memset_user M p c 0 s = Some s"
| "memset_user M p c (Suc n) s = do {
     s \<leftarrow> uput s M p (i2c c);
     memset_user M (p + 1) c n s
   }"

section \<open>The loader\<close>

partial_function (option) load_pages :: "u64 \<Rightarrow> u64 \<Rightarrow> u64 \<Rightarrow> paging \<Rightarrow> paging option" where
  "load_pages pml4 lastAddr k s =
     (if k < lastAddr then
        Option.bind (getFreeFrame s) (\<lambda>(yy, s).
        Option.bind (initTaskPagetables k yy pml4 s) (\<lambda>s.
        load_pages pml4 lastAddr (k + pageSize) s))
      else Some s)"

text \<open>One round of the loop, for program header \<open>i - 1\<close>. \<open>eh + ep->p_offset\<close> steps by whole headers of
  64 bytes, a program header is 56 bytes long; the size handed to \<open>memcpy\<close> becomes an \<^verbatim>\<open>int\<close>.\<close>

definition load_segment :: "mem \<Rightarrow> (nat \<Rightarrow> vmaStruct) \<Rightarrow> u64 \<Rightarrow> nat \<Rightarrow> u64 \<Rightarrow> nat \<Rightarrow> kernel \<Rightarrow> kernel option" where
  "load_segment m garbage fileAddress ts pml4 i k =
     (let eh = read_Ehdr m fileAddress;
          ep = read_Phdr m (fileAddress + e_phoff eh + 56 * (of_nat i - 1))
      in if p_type ep \<noteq> 1 then Some k
      else do {
        (_, p) \<leftarrow> kmalloc 32 (pg k);
        let (v, memCount) = setupVMA (garbage i) ep;
        let k = upd_task ts (\<lambda>t. t\<lparr>vm := v # validateTaskVM t\<rparr>) (k\<lparr>pg := p\<rparr>);
        p \<leftarrow> load_pages pml4 (lastAddress v) memCount (pg k);
        let currentCR3 = getCurrentCR3 k;
        let k = loadCR3 (pml4 - kernbase) (k\<lparr>pg := p\<rparr>);
        p \<leftarrow> memcpy_user (\<lambda>a. m (uint a)) (cr3 k) (beginAddress v) (fileAddress + 64 * p_offset ep)
               (to_int32 (uint (p_filesz ep))) (pg k);
        p \<leftarrow> memset_user (cr3 k) (beginAddress v + p_filesz ep) 0 (unat (p_memsz ep - p_filesz ep)) p;
        Some (loadCR3 currentCR3 (k\<lparr>pg := p\<rparr>))
      })"

fun load_segments :: "mem \<Rightarrow> (nat \<Rightarrow> vmaStruct) \<Rightarrow> u64 \<Rightarrow> nat \<Rightarrow> u64 \<Rightarrow> nat \<Rightarrow> kernel \<Rightarrow> kernel option" where
  "load_segments m garbage fileAddress ts pml4 0 k = Some k"
| "load_segments m garbage fileAddress ts pml4 (Suc i) k = do {
     k \<leftarrow> load_segment m garbage fileAddress ts pml4 (Suc i) k;
     load_segments m garbage fileAddress ts pml4 i k
   }"

definition readELFandFork :: "mem \<Rightarrow> (nat \<Rightarrow> vmaStruct) \<Rightarrow> u64 \<Rightarrow> nat \<Rightarrow> kernel \<Rightarrow> (u64 \<times> kernel) option" where
  "readELFandFork m garbage fileAddress ts k = do {
     let eh = read_Ehdr m fileAddress;
     (pml4, p) \<leftarrow> getNewPage (pg k);
     let k = k\<lparr>pg := kzero p pml4\<rparr>;
     let k = upd_task ts (\<lambda>t. t\<lparr>task_pml4e := pml4 - kernbase\<rparr>) k;
     let k = upd_task ts (\<lambda>t. t\<lparr>regs := (regs t)\<lparr>rip := e_entry eh\<rparr>\<rparr>) k;
     k \<leftarrow> load_segments m garbage fileAddress ts pml4 (unat (e_phnum eh)) k;
     Some (pml4, k)
   }"

definition readELFandExec :: "mem \<Rightarrow> (nat \<Rightarrow> vmaStruct) \<Rightarrow> u64 \<Rightarrow> nat \<Rightarrow> kernel \<Rightarrow> (u64 \<times> kernel) option" where
  "readELFandExec m garbage fileAddress ts k = do {
     let eh = read_Ehdr m fileAddress;
     let k = upd_task ts (\<lambda>t. t\<lparr>regs := (regs t)\<lparr>rip := e_entry eh\<rparr>\<rparr>) k;
     let pml4 = task_pml4e (taskQueue k ts) + kernbase;
     let k = k\<lparr>pg := deallocTask (task_pml4e (taskQueue k ts)) (pg k)\<rparr>;
     k \<leftarrow> load_segments m garbage fileAddress ts pml4 (unat (e_phnum eh)) k;
     Some (pml4, k)
   }"

section \<open>The task's memory and the kernel's\<close>

definition task_space :: "paging \<Rightarrow> u64 \<Rightarrow> u64 list \<Rightarrow> u64 \<Rightarrow> u64 set \<Rightarrow> bool" where
  "task_space s M fs lim K \<longleftrightarrow> own_space s M fs \<and> kspace s lim K fs \<and> K \<inter> (user_tables (pm s) M \<union> set fs) = {}
     \<and> (\<forall>w e. ix4 w \<noteq> 511 \<longrightarrow> translate (pm s) M w = Some e \<longrightarrow> e AND validatebits \<notin> K)"

text \<open>Bytes \<open>c 0 .. c (n - 1)\<close> written from \<open>d\<close> on, and no other.\<close>

definition wrote :: "paging \<Rightarrow> paging \<Rightarrow> u64 \<Rightarrow> u64 \<Rightarrow> nat \<Rightarrow> (nat \<Rightarrow> char) \<Rightarrow> bool" where
  "wrote s s' M d n c \<longleftrightarrow> (\<forall>b. uaddr b \<longrightarrow> ubyte s' M b =
     (if unat d \<le> unat b \<and> unat b < unat d + n then Some (c (unat b - unat d)) else ubyte s M b))"

lemma statics_steps:
  "getFreeFrame s = Some (f, s1) \<Longrightarrow> statics s1 = statics s"
  "initTaskPagetables v f p s = Some s2 \<Longrightarrow> statics s2 = statics s"
proof -
  show g: "getFreeFrame s = Some (f, s1) \<Longrightarrow> statics s1 = statics s" for f s s1
    by (auto simp: getFreeFrame_def statics_def split: option.splits)
  show "initTaskPagetables v f p s = Some s2 \<Longrightarrow> statics s2 = statics s"
    unfolding initTaskPagetables_def setNewPagePDPTE_def setNewPagePDPE_def setExistingPagePDPTE_def setExistingPagePDPE_def Let_def
    by (auto split: if_splits bind_splits dest!: g)
qed


lemma task_space_own: "task_space s M fs lim K \<Longrightarrow> own_space s M fs"
  by (simp add: task_space_def)

lemma task_space_aligned: "task_space s M fs lim K \<Longrightarrow> F \<in> K \<union> set fs \<union> user_tables (pm s) M \<Longrightarrow> aligned F"
  using kspace_aligned [of s lim K fs F] space_aligned [of s M fs F] by (auto simp: task_space_def own_space_def)

text \<open>A frame taken away from the free ones, memory as it was.\<close>

lemma task_space_tail:
  assumes t: "task_space s M (f # fs) lim K" and s1: "pm s1 = pm s" "statics s1 = statics s" "free_frames s1 fs"
  shows "task_space s1 M fs lim K"
proof -
  have "own_space s1 M fs" using t s1(1,3) by (auto simp: task_space_def own_space_def space_def)
  moreover have "agree K (pm s) (pm s1)" using s1(1) by (simp add: agree_def)
  then have "kspace s1 lim K fs" using kspace_agree [of s lim K "f # fs" s1 1] t s1(2,3) by (simp add: task_space_def)
  ultimately show ?thesis using t s1(1) by (auto simp: task_space_def)
qed

lemma task_space_kmalloc:
  assumes t: "task_space s M (f # fs) lim K"
  shows "\<exists>s1. kmalloc 32 s = Some (kernbase + f, s1) \<and> pm s1 = pm s \<and> task_space s1 M fs lim K"
proof -
  have "kspace s lim K (f # fs)" using t by (simp add: task_space_def)
  from kmalloc_kspace [OF this] obtain s1 where s1: "kmalloc 32 s = Some (kernbase + f, s1)" "pm s1 = pm s"
    "statics s1 = statics s" "kspace s1 lim K fs" by blast
  have "free_frames s1 fs" using s1(4) by (simp add: kspace_def)
  then show ?thesis using s1 task_space_tail [OF t s1(2,3)] by blast
qed

text \<open>Writing to a mapped page.\<close>

lemma task_space_cell:
  fixes w :: u64
  assumes t: "task_space s M fs lim K" and a: "ix4 a \<noteq> 511" "translate (pm s) M a = Some e"
  defines "s' \<equiv> s\<lparr>pm := (pm s)(ucell e a := w)\<rparr>"
  assumes own: "own_space s' M fs" and tr: "\<And>b. ix4 b \<noteq> 511 \<Longrightarrow> translate (pm s') M b = translate (pm s) M b"
    and tb: "\<And>q. upath q \<Longrightarrow> tbl (pm s') M q = tbl (pm s) M q"
  shows "task_space s' M fs lim K"
proof -
  have ks: "kspace s lim K fs" and eK: "e AND validatebits \<notin> K" using t a by (auto simp: task_space_def)
  have "agree K (pm s) (pm s')"
    unfolding agree_def
  proof (intro ballI allI impI)
    fix F i assume F: "F \<in> K" and i: "i < (512 :: u64)"
    have "F + 8 * i \<noteq> ucell e a"
      using entry_inj [OF kspace_aligned [OF ks, of F] aligned_and i offset_less(1) [of a], of e] F eK by (auto simp: ucell_def)
    then show "pm s' (F + 8 * i) = pm s (F + 8 * i)" by (simp add: s'_def)
  qed
  moreover have "free_frames s' fs" using ks by (simp add: s'_def kspace_def free_frames_def)
  ultimately have "kspace s' lim K fs" using kspace_agree [OF ks, of s' 0] by (simp add: s'_def statics_def)
  moreover have "user_tables (pm s') M = user_tables (pm s) M" using tb by (auto simp: user_tables_def)
  ultimately show ?thesis using t own tr by (auto simp: task_space_def)
qed

lemma task_space_uput:
  assumes t: "task_space s M fs lim K" and a: "uaddr a" "ubyte s M a \<noteq> None"
  shows "\<exists>s'. uput s M a c = Some s' \<and> task_space s' M fs lim K \<and> wrote s s' M a 1 (\<lambda>_. c)"
proof -
  note own = task_space_own [OF t] and ua = uaddr_user [OF a(1)]
  obtain e where e: "translate (pm s) M a = Some e" using a(2) by (cases "translate (pm s) M a") (auto simp: ubyte_def)
  obtain s' where s': "uput s M a c = Some s'" "\<forall>b. uaddr b \<longrightarrow> ubyte s' M b = (if b = a then Some c else ubyte s M b)"
    using uput_spec [OF own a(1) e, of c] by blast
  have "s' = s\<lparr>pm := (pm s)(ucell e a := set_byte (pm s (ucell e a)) (unat (a AND 7)) c)\<rparr>"
    using s'(1) e by (simp add: uput_def)
  then have "task_space s' M fs lim K" using task_space_cell [OF t ua e] data_write [OF own ua e] by blast
  moreover have "unat a \<le> unat b \<and> unat b < unat a + 1 \<longleftrightarrow> b = a" for b :: u64
    by (metis Suc_eq_plus1 antisym le_refl less_Suc_eq_le unsigned_word_eqI)
  ultimately show ?thesis using s' by (auto simp: wrote_def)
qed

lemma wrote_join:
  assumes "wrote s s1 M d n c" and "wrote s1 s' M (d + of_nat n) n' c'" and "unat d + n + n' \<le> 511 * 2 ^ 39"
  shows "wrote s s' M d (n + n') (\<lambda>i. if i < n then c i else c' (i - n))"
proof -
  have "unat (d + of_nat n) = unat d + n"
    using assms(3) by (subst unat_add_lem [THEN iffD1]) (simp_all add: unat_of_nat)
  then show ?thesis using assms(1,2) by (auto simp: wrote_def)
qed

lemma wrote_0: "wrote s s M d 0 c"
  by (auto simp: wrote_def)

lemma wrote_cong: "wrote s s' M d n c \<Longrightarrow> (\<And>i. i < n \<Longrightarrow> c i = c' i) \<Longrightarrow> wrote s s' M d n c'"
  by (auto simp: wrote_def)

lemma wrote_None: "wrote s s' M d n c \<Longrightarrow> uaddr b \<Longrightarrow> ubyte s M b \<noteq> None \<Longrightarrow> ubyte s' M b \<noteq> None"
  by (auto simp: wrote_def)


subsection \<open>Blocks\<close>

definition user_range :: "paging \<Rightarrow> u64 \<Rightarrow> u64 \<Rightarrow> nat \<Rightarrow> bool" where
  "user_range s M d n \<longleftrightarrow> unat d + n \<le> 511 * 2 ^ 39 \<and> (\<forall>b. unat d \<le> unat b \<and> unat b < unat d + n \<longrightarrow> ubyte s M b \<noteq> None)"

lemma user_range_uaddr: "user_range s M d n \<Longrightarrow> unat d \<le> unat b \<Longrightarrow> unat b < unat d + n \<Longrightarrow> uaddr b"
  by (simp add: user_range_def uaddr_def)

lemma user_range_wrote: "user_range s M d n \<Longrightarrow> wrote s s' M d' n' c \<Longrightarrow> user_range s' M d n"
  using wrote_None user_range_uaddr unfolding user_range_def by metis

lemma user_range_part:
  assumes "user_range s M d n" "i + n' \<le> n"
  shows "user_range s M (d + of_nat i) n'" "unat (d + of_nat i) = unat d + i"
proof -
  show u: "unat (d + of_nat i) = unat d + i"
    using assms by (subst unat_add_lem [THEN iffD1]) (simp_all add: unat_of_nat user_range_def)
  then show "user_range s M (d + of_nat i) n'" using assms by (simp add: user_range_def)
qed

lemma user_range_uput:
  assumes t: "task_space s M fs lim K" and r: "user_range s M d n" "i < n"
  shows "\<exists>s1. uput s M (d + of_nat i) c = Some s1 \<and> task_space s1 M fs lim K \<and> user_range s1 M d n
    \<and> wrote s s1 M (d + of_nat i) 1 (\<lambda>_. c)"
proof -
  note u = user_range_part(2) [OF r(1), of i 0]
  have a: "uaddr (d + of_nat i)" "ubyte s M (d + of_nat i) \<noteq> None"
    using r u user_range_uaddr [OF r(1)] by (auto simp: user_range_def)
  from task_space_uput [OF t this] user_range_wrote [OF r(1)] show ?thesis by blast
qed

lemma user_copy_up_wrote:
  "task_space s M fs lim K \<Longrightarrow> user_range s M d n \<Longrightarrow>
   \<exists>s'. user_copy_up src M d a n s = Some s' \<and> task_space s' M fs lim K \<and> wrote s s' M d n (\<lambda>i. src (a + of_nat i))"
proof (induction n arbitrary: s d a)
  case 0
  then show ?case by (simp add: wrote_0)
next
  case (Suc n)
  obtain s1 where s1: "uput s M d (src a) = Some s1" "task_space s1 M fs lim K" "user_range s1 M d (Suc n)"
    "wrote s s1 M d 1 (\<lambda>_. src a)"
    using user_range_uput [OF Suc.prems, of 0] by auto
  have r: "user_range s1 M (d + 1) n" using user_range_part(1) [OF s1(3), of 1 n] by simp
  obtain s' where s': "user_copy_up src M (d + 1) (a + 1) n s1 = Some s'" "task_space s' M fs lim K"
    "wrote s1 s' M (d + of_nat 1) n (\<lambda>i. src (a + 1 + of_nat i))"
    using Suc.IH [OF s1(2) r, of "a + 1"] by auto
  have "unat d + 1 + n \<le> 511 * 2 ^ 39" using Suc.prems(2) by (simp add: user_range_def)
  from wrote_join [OF s1(4) s'(3) this] have "wrote s s' M d (Suc n) (\<lambda>i. if i < 1 then src a else src (a + 1 + of_nat (i - 1)))"
    by simp
  then have "wrote s s' M d (Suc n) (\<lambda>i. src (a + of_nat i))"
    by (rule wrote_cong) (simp add: of_nat_diff algebra_simps)
  then show ?case using s1(1) s'(1,2) by simp
qed

lemma user_copy_down_wrote:
  "task_space s M fs lim K \<Longrightarrow> user_range s M d n \<Longrightarrow>
   \<exists>s'. user_copy_down src M (d + of_nat n) (a + of_nat n) n s = Some s' \<and> task_space s' M fs lim K
      \<and> wrote s s' M d n (\<lambda>i. src (a + of_nat i))"
proof (induction n arbitrary: s)
  case 0
  then show ?case by (simp add: wrote_0)
next
  case (Suc n)
  obtain s1 where s1: "uput s M (d + of_nat n) (src (a + of_nat n)) = Some s1" "task_space s1 M fs lim K"
    "user_range s1 M d (Suc n)" "wrote s s1 M (d + of_nat n) 1 (\<lambda>_. src (a + of_nat n))"
    using user_range_uput [OF Suc.prems, of n "src (a + of_nat n)"] by auto
  have r: "user_range s1 M d n" using user_range_part(1) [OF s1(3), of 0 n] by simp
  obtain s' where s': "user_copy_down src M (d + of_nat n) (a + of_nat n) n s1 = Some s'" "task_space s' M fs lim K"
    "wrote s1 s' M d n (\<lambda>i. src (a + of_nat i))"
    using Suc.IH [OF s1(2) r] by auto
  have u: "unat (d + of_nat n) = unat d + n" using user_range_part(2) [OF Suc.prems(2), of n 0] by simp
  have "wrote s s' M d (Suc n) (\<lambda>i. src (a + of_nat i))"
    unfolding wrote_def
  proof (intro allI impI)
    fix b assume b: "uaddr b"
    show "ubyte s' M b = (if unat d \<le> unat b \<and> unat b < unat d + Suc n then Some (src (a + of_nat (unat b - unat d))) else ubyte s M b)"
    proof (cases "unat b = unat d + n")
      case True
      then have "unat b - unat d = n" by simp
      then show ?thesis using True s1(4) s'(3) u b by (simp add: wrote_def)
    next
      case False
      then show ?thesis using s1(4) s'(3) u b by (auto simp: wrote_def)
    qed
  qed
  then show ?case using s1(1) s'(1,2) by (simp add: algebra_simps)
qed

lemma memcpy_user_wrote:
  assumes "task_space s M fs lim K" "user_range s M d n"
  shows "\<exists>s'. memcpy_user src M d a (int n) s = Some s' \<and> task_space s' M fs lim K \<and> wrote s s' M d n (\<lambda>i. src (a + of_nat i))"
  using user_copy_up_wrote [OF assms, of src a] user_copy_down_wrote [OF assms, of src a]
  by (simp add: memcpy_user_def)

lemma memset_user_wrote:
  "task_space s M fs lim K \<Longrightarrow> user_range s M d n \<Longrightarrow>
   \<exists>s'. memset_user M d c n s = Some s' \<and> task_space s' M fs lim K \<and> wrote s s' M d n (\<lambda>_. i2c c)"
proof (induction n arbitrary: s d)
  case 0
  then show ?case by (simp add: wrote_0)
next
  case (Suc n)
  obtain s1 where s1: "uput s M d (i2c c) = Some s1" "task_space s1 M fs lim K" "user_range s1 M d (Suc n)"
    "wrote s s1 M d 1 (\<lambda>_. i2c c)"
    using user_range_uput [OF Suc.prems, of 0] by auto
  have r: "user_range s1 M (d + 1) n" using user_range_part(1) [OF s1(3), of 1 n] by simp
  obtain s' where s': "memset_user M (d + 1) c n s1 = Some s'" "task_space s' M fs lim K"
    "wrote s1 s' M (d + of_nat 1) n (\<lambda>_. i2c c)"
    using Suc.IH [OF s1(2) r] by auto
  have "unat d + 1 + n \<le> 511 * 2 ^ 39" using Suc.prems(2) by (simp add: user_range_def)
  from wrote_join [OF s1(4) s'(3) this] have "wrote s s' M d (Suc n) (\<lambda>_. i2c c)" by simp
  then show ?case using s1(1) s'(1,2) by simp
qed

subsection \<open>Pages\<close>

lemma task_space_page:
  assumes t: "task_space s M (f # fs) lim K" and len: "3 \<le> length fs" and v: "uaddr v"
  shows "\<exists>s1 s' j. getFreeFrame s = Some (f, s1) \<and> initTaskPagetables v f (kernbase + M) s1 = Some s'
    \<and> j \<le> 3 \<and> task_space s' M (drop j fs) lim K \<and> maps s s' M v (f OR 7)
    \<and> (\<forall>b. uaddr b \<longrightarrow> \<not> same_page v b \<longrightarrow> ubyte s' M b = ubyte s M b)"
proof -
  note own = task_space_own [OF t]
  obtain s1 s' j where s: "getFreeFrame s = Some (f, s1)" "initTaskPagetables v f (kernbase + M) s1 = Some s'"
    "j \<le> 3" "own_space s' M (drop j fs)" "maps s s' M v (f OR 7)" "touches s1 s' M fs" "pm s1 = pm s" "free_frames s1 fs"
    "\<forall>b. uaddr b \<longrightarrow> \<not> same_page v b \<longrightarrow> ubyte s' M b = ubyte s M b"
    using map_page [OF own len v] by blast
  have ks: "kspace s lim K (f # fs)" and dj: "K \<inter> (user_tables (pm s) M \<union> set (f # fs)) = {}" using t by (auto simp: task_space_def)
  have st: "statics s1 = statics s" "statics s' = statics s" using statics_steps s(1,2) by metis+
  have "outside_same (user_tables (pm s) M \<union> set fs) (pm s) (pm s')"
    using s(6,7) by (simp add: touches_def outside_same_def)
  then have agK: "agree K (pm s) (pm s')"
    using dj task_space_aligned [OF t] by (intro outside_same_agree [of "user_tables (pm s) M \<union> set fs"]) auto
  have "free_frames s' (drop j fs)" using s(4) by (simp add: own_space_def space_def)
  then have "kspace s' lim K (drop j fs)" using kspace_agree [OF ks st(2) agK, of "Suc j"] by simp
  moreover have "K \<inter> (user_tables (pm s') M \<union> set (drop j fs)) = {}"
    using dj s(6,7) set_drop_subset [of j fs] by (auto simp: touches_def)
  moreover have "aligned f" using task_space_aligned [OF t, of f] by simp
  then have "(f OR 7) AND validatebits = f" using entry_bits(2) [of f] by (simp add: aligned_def)
  then have "e AND validatebits \<notin> K" if "ix4 w \<noteq> 511" "translate (pm s') M w = Some e" for w e
    using t dj s(5) that by (auto simp: maps_def task_space_def split: if_splits)
  ultimately have "task_space s' M (drop j fs) lim K" using s(4) by (simp add: task_space_def)
  then show ?thesis using s(1-3,5,9) by blast
qed


lemma same_page_iff: "uaddr a \<Longrightarrow> uaddr b \<Longrightarrow> same_page a b \<longleftrightarrow> unat a div 4096 = unat b div 4096"
proof
  assume "uaddr a" "uaddr b" "same_page a b"
  then show "unat a div 4096 = unat b div 4096" using same_page_number [of a b] by (simp add: uaddr_def)
next
  assume e: "unat a div 4096 = unat b div 4096"
  have d: "x div 2 ^ 12 = x div 4096" "x div 2 ^ 21 = x div 4096 div 512" "x div 2 ^ 30 = x div 4096 div 262144"
    "x div 2 ^ 39 = x div 4096 div 134217728" for x :: nat by (simp_all add: div_mult2_eq [symmetric])
  have "unat (ix1 a) = unat (ix1 b)" "unat (ix2 a) = unat (ix2 b)" "unat (ix3 a) = unat (ix3 b)" "unat (ix4 a) = unat (ix4 b)"
    unfolding unat_ix d e by blast+
  then show "same_page a b" by (simp add: same_page_def path_def word_unat_eq_iff)
qed

text \<open>Pages number \<open>q\<close> to \<open>q + n - 1\<close> added, the others as they were.\<close>

definition pages_added :: "paging \<Rightarrow> paging \<Rightarrow> u64 \<Rightarrow> nat \<Rightarrow> nat \<Rightarrow> bool" where
  "pages_added s s' M q n \<longleftrightarrow> (\<forall>b. uaddr b \<longrightarrow>
     (if q \<le> unat b div 4096 \<and> unat b div 4096 < q + n then ubyte s' M b \<noteq> None else ubyte s' M b = ubyte s M b))"

lemma pages_added_step:
  assumes "uaddr v" "unat v = 4096 * q" and m: "maps s s1 M v e"
    and o: "\<forall>b. uaddr b \<longrightarrow> \<not> same_page v b \<longrightarrow> ubyte s1 M b = ubyte s M b" and r: "pages_added s1 s' M (Suc q) n"
  shows "pages_added s s' M q (Suc n)"
  unfolding pages_added_def
proof (intro allI impI)
  fix b assume b: "uaddr b"
  have p: "same_page v b \<longleftrightarrow> unat b div 4096 = q" using same_page_iff [OF assms(1) b] assms(2) by auto
  have new: "ubyte s1 M b \<noteq> None" if "same_page v b" using m that uaddr_user [OF b] by (simp add: maps_def ubyte_def)
  show "if q \<le> unat b div 4096 \<and> unat b div 4096 < q + Suc n then ubyte s' M b \<noteq> None else ubyte s' M b = ubyte s M b"
    using r b p new o by (cases "unat b div 4096 = q") (auto simp: pages_added_def)
qed

lemma load_pages_spec:
  "n = (unat e + 4095) div 4096 - q \<Longrightarrow> unat v = 4096 * q \<Longrightarrow> unat e \<le> 511 * 2 ^ 39 \<Longrightarrow>
   task_space s M fs lim K \<Longrightarrow> 4 * n \<le> length fs \<Longrightarrow>
   \<exists>s' g. load_pages (kernbase + M) e v s = Some s' \<and> g \<le> 4 * n \<and> task_space s' M (drop g fs) lim K \<and> pages_added s s' M q n"
proof (induction n arbitrary: q v s fs)
  case 0
  then have "\<not> v < e" unfolding word_less_nat_alt by linarith
  then have "load_pages (kernbase + M) e v s = Some s" by (subst load_pages.simps) simp
  moreover have "pages_added s s M q 0" by (auto simp: pages_added_def)
  ultimately show ?case using 0 by (intro exI [of _ s] exI [of _ 0]) simp
next
  case (Suc n)
  have less: "unat v < unat e" using Suc.prems(1,2) by linarith
  then have v: "v < e" "uaddr v" using Suc.prems(3) by (simp_all add: word_less_nat_alt uaddr_def)
  obtain f gs where fs: "fs = f # gs" using Suc.prems(5) by (cases fs) auto
  have "3 \<le> length gs" using Suc.prems(5) fs by simp
  from task_space_page [OF Suc.prems(4) [unfolded fs] this v(2)] obtain s1 s2 j where
    s1: "getFreeFrame s = Some (f, s1)" "initTaskPagetables v f (kernbase + M) s1 = Some s2" and
    s2: "j \<le> 3" "task_space s2 M (drop j gs) lim K" "maps s s2 M v (f OR 7)"
        "\<forall>b. uaddr b \<longrightarrow> \<not> same_page v b \<longrightarrow> ubyte s2 M b = ubyte s M b" by blast
  have v4: "unat (v + pageSize) = 4096 * Suc q"
    using Suc.prems(2,3) less by (subst unat_add_lem [THEN iffD1]) (simp_all add: pageSize_def)
  have n: "n = (unat e + 4095) div 4096 - Suc q" using Suc.prems(1) by simp
  have len: "4 * n \<le> length (drop j gs)" using Suc.prems(5) s2(1) fs by simp
  obtain s' g where s': "load_pages (kernbase + M) e (v + pageSize) s2 = Some s'" "g \<le> 4 * n"
    "task_space s' M (drop g (drop j gs)) lim K" "pages_added s2 s' M (Suc q) n"
    using Suc.IH [OF n v4 Suc.prems(3) s2(2) len] by blast
  have "load_pages (kernbase + M) e v s = Some s'" using v(1) s1 s'(1) by (subst load_pages.simps) simp
  moreover have "Suc (g + j) \<le> 4 * Suc n" using s'(2) s2(1) by simp
  moreover have "task_space s' M (drop (Suc (g + j)) fs) lim K" using s'(3) fs by simp
  moreover note pages_added_step [OF v(2) Suc.prems(2) s2(3,4) s'(4)]
  ultimately show ?case by blast
qed

section \<open>A segment\<close>

definition seg_ok :: "Elf64_Phdr \<Rightarrow> bool" where
  "seg_ok ep \<longleftrightarrow> unat (p_vaddr ep) + unat (p_memsz ep) \<le> 511 * 2 ^ 39 \<and> unat (p_filesz ep) \<le> unat (p_memsz ep)
     \<and> unat (p_filesz ep) < 2 ^ 31"

text \<open>The page numbers of a segment.\<close>

definition first_page :: "Elf64_Phdr \<Rightarrow> nat" where
  "first_page ep = unat (p_vaddr ep) div 4096"

definition end_page :: "Elf64_Phdr \<Rightarrow> nat" where
  "end_page ep = (unat (p_vaddr ep) + unat (p_memsz ep) + 4095) div 4096"

definition seg_pages :: "Elf64_Phdr \<Rightarrow> nat set" where
  "seg_pages ep = {first_page ep ..< end_page ep}"

text \<open>The byte at offset \<open>i\<close> of a segment: of the file first, NUL behind.\<close>

definition seg_byte :: "mem \<Rightarrow> u64 \<Rightarrow> Elf64_Phdr \<Rightarrow> nat \<Rightarrow> char" where
  "seg_byte m fileAddress ep i =
     (if i < unat (p_filesz ep) then m (uint (fileAddress + 64 * p_offset ep + of_nat i)) else NUL)"

definition seg_loaded :: "mem \<Rightarrow> u64 \<Rightarrow> paging \<Rightarrow> u64 \<Rightarrow> Elf64_Phdr \<Rightarrow> bool" where
  "seg_loaded m fileAddress s M ep \<longleftrightarrow>
     (\<forall>i < unat (p_memsz ep). ubyte s M (p_vaddr ep + of_nat i) = Some (seg_byte m fileAddress ep i))"

text \<open>Only the pages of the segment change.\<close>

definition seg_frame :: "paging \<Rightarrow> paging \<Rightarrow> u64 \<Rightarrow> Elf64_Phdr \<Rightarrow> bool" where
  "seg_frame s s' M ep \<longleftrightarrow> (\<forall>b. uaddr b \<longrightarrow> unat b div 4096 \<notin> seg_pages ep \<longrightarrow> ubyte s' M b = ubyte s M b)"

lemma seg_start: "unat (snd (setupVMA g ep)) = 4096 * first_page ep" "beginAddress (fst (setupVMA g ep)) = p_vaddr ep"
  "lastAddress (fst (setupVMA g ep)) = p_vaddr ep + p_memsz ep"
proof -
  have m: "unat (a AND VADDR_MASK) = 4096 * (unat a div 4096)" for a :: u64
  proof -
    have lt: "unat a < 2 ^ 64" using unsigned_less [of a] by simp
    have q: "unat (drop_bit 12 a) = unat a div 4096"
      using lt by (simp only: unsigned_drop_bit_eq) (simp add: take_bit_nat_eq_self drop_bit_eq_div)
    have "unat a div 4096 * 4096 \<le> unat a" by simp
    then have "unat (drop_bit 12 a) * 4096 < 2 ^ 64" unfolding q using lt by linarith
    then have u: "unat (push_bit 12 (drop_bit 12 a)) = unat (drop_bit 12 a) * 4096" by (simp add: push_bit_eq_mult unat_word_ariths)
    have "a AND NOT (mask 12) = push_bit 12 (drop_bit 12 a)" by (rule bit_word_eqI) (auto simp: bit_simps)
    moreover have "VADDR_MASK = NOT (mask 12)" by (simp add: VADDR_MASK_def mask_eq_exp_minus_1)
    ultimately have "unat (a AND VADDR_MASK) = unat (push_bit 12 (drop_bit 12 a))" by metis
    then show ?thesis using u q by simp
  qed
  have "unat (p_vaddr ep) mod 4096 = 0" if "p_vaddr ep mod pageSize = 0"
    using that by (simp add: pageSize_def word_unat_eq_iff unat_mod)
  then have "unat (p_vaddr ep) = 4096 * (unat (p_vaddr ep) div 4096)" if "p_vaddr ep mod pageSize = 0"
    using that mult_div_mod_eq [of 4096 "unat (p_vaddr ep)"] by simp
  then show "unat (snd (setupVMA g ep)) = 4096 * first_page ep"
    using m [of "p_vaddr ep"] by (cases "p_vaddr ep mod pageSize = 0") (simp_all add: setupVMA_def Let_def first_page_def)
qed (simp_all add: setupVMA_def Let_def)


lemma seg_addr:
  assumes "seg_ok ep" "i < unat (p_memsz ep)"
  shows "unat (p_vaddr ep + of_nat i) = unat (p_vaddr ep) + i" "uaddr (p_vaddr ep + of_nat i)"
    "unat (p_vaddr ep + of_nat i) div 4096 \<in> seg_pages ep"
proof -
  show u: "unat (p_vaddr ep + of_nat i) = unat (p_vaddr ep) + i"
    using assms by (subst unat_add_lem [THEN iffD1]) (simp_all add: unat_of_nat seg_ok_def)
  then show "uaddr (p_vaddr ep + of_nat i)" using assms by (simp add: uaddr_def seg_ok_def)
  have "unat (p_vaddr ep) + i < 4096 * ((unat (p_vaddr ep) + unat (p_memsz ep) + 4095) div 4096)"
    using assms(2) by linarith
  then show "unat (p_vaddr ep + of_nat i) div 4096 \<in> seg_pages ep"
    unfolding u seg_pages_def first_page_def end_page_def by (auto intro: div_le_mono simp: less_mult_imp_div_less mult.commute)
qed

lemma seg_loaded_frame:
  "seg_loaded m fa s M ep \<Longrightarrow> seg_ok ep \<Longrightarrow> \<forall>b. uaddr b \<longrightarrow> unat b div 4096 \<in> seg_pages ep \<longrightarrow> ubyte s' M b = ubyte s M b \<Longrightarrow>
   seg_loaded m fa s' M ep"
  using seg_addr by (simp add: seg_loaded_def)

text \<open>Filling the pages of a segment: the two blocks follow each other.\<close>

lemma seg_fill:
  assumes t: "task_space s M fs lim K" and ok: "seg_ok ep"
    and mapped: "\<forall>b. uaddr b \<longrightarrow> unat b div 4096 \<in> seg_pages ep \<longrightarrow> ubyte s M b \<noteq> None"
  shows "\<exists>s1 s2. memcpy_user (\<lambda>a. m (uint a)) M (p_vaddr ep) (fa + 64 * p_offset ep) (to_int32 (uint (p_filesz ep))) s = Some s1
     \<and> memset_user M (p_vaddr ep + p_filesz ep) 0 (unat (p_memsz ep - p_filesz ep)) s1 = Some s2
     \<and> task_space s2 M fs lim K \<and> seg_loaded m fa s2 M ep \<and> seg_frame s s2 M ep"
proof -
  define d n c where "d = p_vaddr ep" and "n = unat (p_memsz ep)" and "c = unat (p_filesz ep)"
  have c: "c \<le> n" "c < 2 ^ 31" and dn: "unat d + n \<le> 511 * 2 ^ 39" using ok by (auto simp: seg_ok_def d_def n_def c_def)
  have page: "unat b div 4096 \<in> seg_pages ep" if "unat d \<le> unat b" "unat b < unat d + n" for b
    using seg_addr(3) [OF ok, of "unat b - unat d"] seg_addr(1) [OF ok, of "unat b - unat d"] that by (simp add: d_def n_def)
  have "uaddr b" if "unat b < unat d + n" for b :: u64 using that dn by (simp add: uaddr_def)
  then have r: "user_range s M d n" using mapped page dn unfolding user_range_def by blast
  have u: "uint (p_filesz ep) = int c" by (simp only: c_def uint_nat)
  have w: "p_filesz ep = of_nat c" "to_int32 (uint (p_filesz ep)) = int c"
    using c(2) u by (simp_all add: to_int32_id) (simp add: c_def)
  have z: "unat (p_memsz ep - p_filesz ep) = n - c" using c(1) by (simp add: n_def c_def unat_sub word_le_nat_alt)
  have r1: "user_range s M d c" using user_range_part(1) [OF r, of 0 c] c(1) by simp
  from memcpy_user_wrote [OF t r1] obtain s1 where s1:
    "memcpy_user (\<lambda>a. m (uint a)) M d (fa + 64 * p_offset ep) (int c) s = Some s1" "task_space s1 M fs lim K"
    "wrote s s1 M d c (\<lambda>i. m (uint (fa + 64 * p_offset ep + of_nat i)))" by blast
  have "user_range s1 M (d + of_nat c) (n - c)"
    using user_range_wrote [OF user_range_part(1) [OF r, of c "n - c"] s1(3)] c(1) by simp
  from memset_user_wrote [OF s1(2) this] obtain s2 where s2:
    "memset_user M (d + of_nat c) 0 (n - c) s1 = Some s2" "task_space s2 M fs lim K"
    "wrote s1 s2 M (d + of_nat c) (n - c) (\<lambda>_. i2c 0)" by blast
  have "wrote s s2 M d (c + (n - c)) (\<lambda>i. if i < c then m (uint (fa + 64 * p_offset ep + of_nat i)) else i2c 0)"
    using wrote_join [OF s1(3) s2(3)] dn c(1) by simp
  moreover have nul: "i2c 0 = NUL" by (simp add: i2c_def char_of_def)
  ultimately have wr: "wrote s s2 M d n (seg_byte m fa ep)"
    using c(1) nul by (auto simp: wrote_def seg_byte_def c_def)
  then have "seg_loaded m fa s2 M ep" using seg_addr [OF ok] by (simp add: seg_loaded_def wrote_def d_def n_def)
  moreover have "seg_frame s s2 M ep" using wr page by (auto simp: seg_frame_def wrote_def)
  moreover have "memcpy_user (\<lambda>a. m (uint a)) M (p_vaddr ep) (fa + 64 * p_offset ep) (to_int32 (uint (p_filesz ep))) s = Some s1"
    using s1(1) unfolding w(2) d_def .
  moreover have "memset_user M (p_vaddr ep + p_filesz ep) 0 (unat (p_memsz ep - p_filesz ep)) s1 = Some s2"
    using s2(1) unfolding z unfolding w(1) d_def .
  ultimately show ?thesis using s2(2) by blast
qed

definition seg_cost :: "Elf64_Phdr \<Rightarrow> nat" where
  "seg_cost ep = 1 + 4 * (end_page ep - first_page ep)"

definition phdr :: "mem \<Rightarrow> u64 \<Rightarrow> nat \<Rightarrow> Elf64_Phdr" where
  "phdr m fileAddress i = read_Phdr m (fileAddress + e_phoff (read_Ehdr m fileAddress) + 56 * of_nat i)"

lemma load_segment_spec:
  assumes t: "task_space (pg k) M fs lim K" and p: "p_type ep = 1" "ep = phdr m fa i" and ok: "seg_ok ep"
    and cost: "seg_cost ep \<le> length fs"
  shows "\<exists>s' g. load_segment m garbage fa ts (kernbase + M) (Suc i) k
      = Some (upd_task ts (\<lambda>t. t\<lparr>vm := fst (setupVMA (garbage (Suc i)) ep) # vm t\<rparr>) (k\<lparr>pg := s'\<rparr>))
    \<and> g \<le> seg_cost ep \<and> task_space s' M (drop g fs) lim K \<and> seg_loaded m fa s' M ep \<and> seg_frame (pg k) s' M ep"
proof -
  obtain f gs where fs: "fs = f # gs" using cost by (cases fs) (auto simp: seg_cost_def)
  obtain s1 where s1: "kmalloc 32 (pg k) = Some (kernbase + f, s1)" "pm s1 = pm (pg k)" "task_space s1 M gs lim K"
    using task_space_kmalloc t fs by blast
  obtain v mc where v: "setupVMA (garbage (Suc i)) ep = (v, mc)" by (cases "setupVMA (garbage (Suc i)) ep")
  have va: "unat mc = 4096 * first_page ep" "beginAddress v = p_vaddr ep" "lastAddress v = p_vaddr ep + p_memsz ep"
    using seg_start [of "garbage (Suc i)" ep] v by simp_all
  have ll: "unat (lastAddress v) = unat (p_vaddr ep) + unat (p_memsz ep)"
    using ok unfolding va(3) by (subst unat_add_lem [THEN iffD1]) (simp_all add: seg_ok_def)
  have e: "(unat (lastAddress v) + 4095) div 4096 = end_page ep" "unat (lastAddress v) \<le> 511 * 2 ^ 39"
    using ok by (simp_all add: ll end_page_def seg_ok_def)
  have "4 * (end_page ep - first_page ep) \<le> length gs" using cost fs by (simp add: seg_cost_def)
  from load_pages_spec [OF _ va(1) e(2) s1(3) this] e(1) obtain s2 g where s2:
    "load_pages (kernbase + M) (lastAddress v) mc s1 = Some s2" "g \<le> 4 * (end_page ep - first_page ep)"
    "task_space s2 M (drop g gs) lim K" "pages_added s1 s2 M (first_page ep) (end_page ep - first_page ep)" by auto
  have pg: "unat b div 4096 \<in> seg_pages ep \<longleftrightarrow> first_page ep \<le> unat b div 4096 \<and> unat b div 4096 < first_page ep + (end_page ep - first_page ep)" for b :: u64
    by (auto simp: seg_pages_def)
  have mapped: "\<forall>b. uaddr b \<longrightarrow> unat b div 4096 \<in> seg_pages ep \<longrightarrow> ubyte s2 M b \<noteq> None"
    using s2(4) unfolding pages_added_def pg by metis
  obtain s3 s4 where s4: "memcpy_user (\<lambda>a. m (uint a)) M (p_vaddr ep) (fa + 64 * p_offset ep) (to_int32 (uint (p_filesz ep))) s2 = Some s3"
     "memset_user M (p_vaddr ep + p_filesz ep) 0 (unat (p_memsz ep - p_filesz ep)) s3 = Some s4"
     "task_space s4 M (drop g gs) lim K" "seg_loaded m fa s4 M ep" "seg_frame s2 s4 M ep"
    using seg_fill [OF s2(3) ok mapped] by blast
  have hd: "read_Phdr m (fa + e_phoff (read_Ehdr m fa) + 56 * (of_nat (Suc i) - 1)) = ep" using p(2) by (simp add: phdr_def)
  have "load_segment m garbage fa ts (kernbase + M) (Suc i) k = Some (upd_task ts (\<lambda>t. t\<lparr>vm := v # vm t\<rparr>) (k\<lparr>pg := s4\<rparr>))"
    unfolding load_segment_def Let_def hd v
    using p(1) s1(1) s2(1) s4(1,2) va
    by (simp add: getCurrentCR3_def loadCR3_def upd_task_def validateTaskVM_def)
  moreover have "seg_frame (pg k) s4 M ep"
    using s4(5) s2(4) s1(2) unfolding seg_frame_def pages_added_def pg ubyte_def by metis
  ultimately show ?thesis using s2(2) s4(3,4) fs v
    by (intro exI [of _ s4] exI [of _ "Suc g"]) (simp add: seg_cost_def)
qed


section \<open>All segments\<close>

definition load_indices :: "mem \<Rightarrow> u64 \<Rightarrow> nat \<Rightarrow> nat list" where
  "load_indices m fa n = filter (\<lambda>i. p_type (phdr m fa i) = 1) [0..<n]"

definition segments :: "mem \<Rightarrow> u64 \<Rightarrow> nat \<Rightarrow> Elf64_Phdr list" where
  "segments m fa n = map (phdr m fa) (load_indices m fa n)"

definition areas :: "mem \<Rightarrow> (nat \<Rightarrow> vmaStruct) \<Rightarrow> u64 \<Rightarrow> nat \<Rightarrow> vmaStruct list" where
  "areas m garbage fa n = map (\<lambda>i. fst (setupVMA (garbage (Suc i)) (phdr m fa i))) (load_indices m fa n)"

text \<open>The segments are in range, and no two share a page.\<close>

definition loadable :: "mem \<Rightarrow> u64 \<Rightarrow> nat \<Rightarrow> bool" where
  "loadable m fa n \<longleftrightarrow> list_all seg_ok (segments m fa n)
     \<and> (\<forall>i j. i < j \<and> j < length (segments m fa n) \<longrightarrow> seg_pages (segments m fa n ! i) \<inter> seg_pages (segments m fa n ! j) = {})"

lemma segments_Suc: "segments m fa (Suc n) = segments m fa n @ (if p_type (phdr m fa n) = 1 then [phdr m fa n] else [])"
  "areas m garbage fa (Suc n) = areas m garbage fa n
     @ (if p_type (phdr m fa n) = 1 then [fst (setupVMA (garbage (Suc n)) (phdr m fa n))] else [])"
  by (simp_all add: segments_def areas_def load_indices_def)

lemma loadable_Suc:
  "loadable m fa (Suc n) \<Longrightarrow> loadable m fa n"
  "loadable m fa (Suc n) \<Longrightarrow> p_type (phdr m fa n) = 1 \<Longrightarrow>
     seg_ok (phdr m fa n) \<and> (\<forall>ep \<in> set (segments m fa n). seg_pages ep \<inter> seg_pages (phdr m fa n) = {})"
proof -
  assume l: "loadable m fa (Suc n)"
  show "loadable m fa n"
    unfolding loadable_def
  proof (intro conjI allI impI)
    show "list_all seg_ok (segments m fa n)" using l by (simp add: loadable_def segments_Suc)
    fix i j assume ij: "i < j \<and> j < length (segments m fa n)"
    then have "i < j \<and> j < length (segments m fa (Suc n))" by (simp add: segments_Suc)
    then have "seg_pages (segments m fa (Suc n) ! i) \<inter> seg_pages (segments m fa (Suc n) ! j) = {}" using l unfolding loadable_def by blast
    then show "seg_pages (segments m fa n ! i) \<inter> seg_pages (segments m fa n ! j) = {}" using ij by (simp add: segments_Suc nth_append)
  qed
next
  assume l: "loadable m fa (Suc n)" and p: "p_type (phdr m fa n) = 1"
  have "seg_pages ep \<inter> seg_pages (phdr m fa n) = {}" if ep: "ep \<in> set (segments m fa n)" for ep
  proof -
    obtain i where i: "i < length (segments m fa n)" "ep = segments m fa n ! i" using ep unfolding in_set_conv_nth by blast
    then have "i < length (segments m fa n) \<and> length (segments m fa n) < length (segments m fa (Suc n))" using p by (simp add: segments_Suc)
    then have "seg_pages (segments m fa (Suc n) ! i) \<inter> seg_pages (segments m fa (Suc n) ! length (segments m fa n)) = {}"
      using l unfolding loadable_def by blast
    then show ?thesis using i p by (simp add: segments_Suc nth_append)
  qed
  then show "seg_ok (phdr m fa n) \<and> (\<forall>ep \<in> set (segments m fa n). seg_pages ep \<inter> seg_pages (phdr m fa n) = {})"
    using l p by (simp add: loadable_def segments_Suc)
qed

definition load_cost :: "mem \<Rightarrow> u64 \<Rightarrow> nat \<Rightarrow> nat" where
  "load_cost m fa n = (\<Sum>ep \<leftarrow> segments m fa n. seg_cost ep)"

lemma load_cost_Suc: "load_cost m fa (Suc n) = load_cost m fa n + (if p_type (phdr m fa n) = 1 then seg_cost (phdr m fa n) else 0)"
  by (simp add: load_cost_def segments_Suc)

definition image_loaded :: "mem \<Rightarrow> u64 \<Rightarrow> nat \<Rightarrow> paging \<Rightarrow> paging \<Rightarrow> u64 \<Rightarrow> bool" where
  "image_loaded m fa n s s' M \<longleftrightarrow> (\<forall>ep \<in> set (segments m fa n). seg_loaded m fa s' M ep)
     \<and> (\<forall>b. uaddr b \<longrightarrow> (\<forall>ep \<in> set (segments m fa n). unat b div 4096 \<notin> seg_pages ep) \<longrightarrow> ubyte s' M b = ubyte s M b)"

lemma image_loaded_step:
  assumes l: "loadable m fa (Suc n)" "p_type (phdr m fa n) = 1" and ep: "ep = phdr m fa n"
    and s1: "seg_loaded m fa s1 M ep" "seg_frame s s1 M ep" and s': "image_loaded m fa n s1 s' M"
  shows "image_loaded m fa (Suc n) s s' M"
proof -
  note d = loadable_Suc(2) [OF l]
  have "seg_loaded m fa s' M ep"
    using d s' unfolding ep image_loaded_def by (intro seg_loaded_frame [OF s1(1) [unfolded ep]]) blast+
  then show ?thesis using s' s1(2) l(2) by (auto simp: image_loaded_def segments_Suc ep seg_frame_def)
qed

lemma load_segments_spec:
  "task_space (pg k) M fs lim K \<Longrightarrow> loadable m fa n \<Longrightarrow> load_cost m fa n \<le> length fs \<Longrightarrow>
   \<exists>s' g. load_segments m garbage fa ts (kernbase + M) n k
      = Some (upd_task ts (\<lambda>t. t\<lparr>vm := areas m garbage fa n @ vm t\<rparr>) (k\<lparr>pg := s'\<rparr>))
    \<and> g \<le> load_cost m fa n \<and> task_space s' M (drop g fs) lim K \<and> image_loaded m fa n (pg k) s' M"
proof (induction n arbitrary: k fs)
  case 0
  then show ?case
    by (intro exI [of _ "pg k"] exI [of _ 0]) (simp add: areas_def load_indices_def upd_task_def image_loaded_def segments_def)
next
  case (Suc n)
  note l = loadable_Suc(1) [OF Suc.prems(2)]
  show ?case
  proof (cases "p_type (phdr m fa n) = 1")
    case False
    then have "load_segment m garbage fa ts (kernbase + M) (Suc n) k = Some k"
      by (simp add: load_segment_def phdr_def Let_def)
    moreover have "load_cost m fa n \<le> length fs" using Suc.prems(3) False by (simp add: load_cost_Suc)
    ultimately show ?thesis using Suc.IH [OF Suc.prems(1) l] False by (auto simp: load_cost_Suc image_loaded_def segments_Suc)
  next
    case True
    let ?ep = "phdr m fa n"
    have cost: "seg_cost ?ep \<le> length fs" using Suc.prems(3) True by (simp add: load_cost_Suc)
    note ok = loadable_Suc(2) [OF Suc.prems(2) True]
    from load_segment_spec [OF Suc.prems(1) True refl _ cost] ok obtain s1 g where s1:
      "load_segment m garbage fa ts (kernbase + M) (Suc n) k
        = Some (upd_task ts (\<lambda>t. t\<lparr>vm := fst (setupVMA (garbage (Suc n)) ?ep) # vm t\<rparr>) (k\<lparr>pg := s1\<rparr>))"
      "g \<le> seg_cost ?ep" "task_space s1 M (drop g fs) lim K" "seg_loaded m fa s1 M ?ep" "seg_frame (pg k) s1 M ?ep" by blast
    define k1 where "k1 = upd_task ts (\<lambda>t. t\<lparr>vm := fst (setupVMA (garbage (Suc n)) ?ep) # vm t\<rparr>) (k\<lparr>pg := s1\<rparr>)"
    have pk: "pg k1 = s1" by (simp add: k1_def)
    have "load_cost m fa n \<le> length (drop g fs)" using Suc.prems(3) True s1(2) by (simp add: load_cost_Suc)
    from Suc.IH [OF s1(3) [folded pk] l this] obtain s' h where s':
      "load_segments m garbage fa ts (kernbase + M) n k1 = Some (upd_task ts (\<lambda>t. t\<lparr>vm := areas m garbage fa n @ vm t\<rparr>) (k1\<lparr>pg := s'\<rparr>))"
      "h \<le> load_cost m fa n" "task_space s' M (drop h (drop g fs)) lim K" "image_loaded m fa n s1 s' M"
      unfolding pk by blast
    have "load_segments m garbage fa ts (kernbase + M) (Suc n) k
      = Some (upd_task ts (\<lambda>t. t\<lparr>vm := areas m garbage fa (Suc n) @ vm t\<rparr>) (k\<lparr>pg := s'\<rparr>))"
      using s1(1) s'(1) True by (simp add: k1_def [symmetric] segments_Suc) (simp add: k1_def upd_task_def)
    moreover have "h + g \<le> load_cost m fa (Suc n)" using s1(2) s'(2) True by (simp add: load_cost_Suc)
    moreover have "task_space s' M (drop (h + g) fs) lim K" using s'(3) by simp
    moreover have "image_loaded m fa (Suc n) (pg k) s' M" by (rule image_loaded_step [OF Suc.prems(2) True refl s1(4,5) s'(4)])
    ultimately show ?thesis by blast
  qed
qed


section \<open>An empty address space\<close>

lemma empty_task_space:
  assumes ks: "kspace s lim K fs" and K: "K \<inter> insert M (set fs) = {}" and M: "aligned M" "M \<notin> set fs"
    and empty: "\<forall>i < 511. pm s (M + 8 * i) AND 1 = 0"
  shows "task_space s M fs lim K" and "\<forall>b. uaddr b \<longrightarrow> ubyte s M b = None"
proof -
  have i: "i < 511" if "i < 512" "i \<noteq> 511" for i :: u64
  proof -
    have "unat i \<noteq> 511"
    proof
      assume "unat i = 511"
      then have "unat i = unat (511 :: u64)" by simp
      then show False using that(2) by (simp only: word_unat_eq_iff [symmetric])
    qed
    then show ?thesis using that(1) by (simp add: word_less_nat_alt)
  qed
  have t: "p = [] \<and> F = M" if p: "tbl (pm s) M p = Some F" "upath p" for p F
  proof (cases p)
    case (Cons j q)
    then have "j < 511" using p(2) i [of j] by (simp add: upath_def)
    then have "pm s (M + 8 * j) AND 1 = 0" using empty by blast
    then show ?thesis using p(1) Cons by simp
  qed (use p in simp)
  have ut: "user_tables (pm s) M = {M}" unfolding user_tables_def using t by (auto intro: exI [of _ "[]"])
  have tr: "translate (pm s) M w = None" if "ix4 w \<noteq> 511" for w
  proof -
    have "path w \<noteq> []" by (simp add: path_def)
    then have "tbl (pm s) M (path w) = None" using t [of "path w"] upath_path [of w] that by (cases "tbl (pm s) M (path w)") auto
    then show ?thesis by (simp add: translate_def)
  qed
  have "pt_wf (pm s) M" using t M(1) unfolding pt_wf_def by blast
  moreover have "\<forall>f \<in> set fs. aligned f" using kspace_aligned [OF ks] by blast
  ultimately have "space s M fs" using ks M(2) ut by (auto simp: space_def kspace_def)
  then show "task_space s M fs lim K" using ks K tr ut by (simp add: task_space_def own_space_def)
  show "\<forall>b. uaddr b \<longrightarrow> ubyte s M b = None" using tr uaddr_user by (simp add: ubyte_def)
qed

text \<open>\<open>deallocTask\<close> writes to the tables it walks only: entries it finds present are those of before.\<close>

lemma clear_walk:
  assumes z: "only_zeros s0 s" and p: "tbl (pm s0) M p = Some T" "upath (p @ [i])" "kread s (kernbase + T) i AND 1 \<noteq> 0"
  shows "tbl (pm s0) M (p @ [i]) = Some (kread s (kernbase + T) i AND validatebits)"
proof -
  have "pm s (T + 8 * i) = pm s0 (T + 8 * i)" using z p(3) by (auto simp: only_zeros_def)
  then show ?thesis using p by (simp add: tbl_snoc_present)
qed

definition cleared :: "paging \<Rightarrow> u64 \<Rightarrow> paging \<Rightarrow> paging \<Rightarrow> bool" where
  "cleared s0 M s s' \<longleftrightarrow> only_zeros s s' \<and> statics s' = statics s \<and> outside_same (user_tables (pm s0) M) (pm s) (pm s')"

lemma cleared_refl [simp]: "cleared s0 M s s"
  by (simp add: cleared_def)

lemma cleared_trans: "cleared s0 M s t \<Longrightarrow> cleared s0 M t u \<Longrightarrow> cleared s0 M s u"
  unfolding cleared_def by (metis only_zeros_trans outside_same_trans subset_refl)

lemma cleared_write:
  assumes "aligned M" "tbl (pm s0) M p = Some T" "upath p" "i < 512"
  shows "cleared s0 M s (kwrite s (kernbase + T) i 0)"
proof -
  have "T \<in> user_tables (pm s0) M" using assms by (auto simp: user_tables_def)
  then show ?thesis using assms tbl_aligned [OF assms(1,2)]
    by (auto simp: cleared_def only_zeros_def intro!: outside_same_write)
qed

lemma cleared_only_zeros: "only_zeros s0 s \<Longrightarrow> cleared s0 M s s' \<Longrightarrow> only_zeros s0 s'"
  unfolding cleared_def using only_zeros_trans by blast

text \<open>One level of the walk, over any treatment \<open>f\<close> of the level below.\<close>

definition clears :: "paging \<Rightarrow> u64 \<Rightarrow> nat \<Rightarrow> (u64 \<Rightarrow> paging \<Rightarrow> paging) \<Rightarrow> bool" where
  "clears s0 M d f \<longleftrightarrow> (\<forall>s p T. only_zeros s0 s \<longrightarrow> length p + d = 3 \<longrightarrow> upath p \<longrightarrow> tbl (pm s0) M p = Some T \<longrightarrow>
     cleared s0 M s (f (kernbase + T) s))"

fun clear_level :: "(u64 \<Rightarrow> paging \<Rightarrow> paging) \<Rightarrow> u64 \<Rightarrow> u64 list \<Rightarrow> paging \<Rightarrow> paging" where
  "clear_level f T [] s = s"
| "clear_level f T (i # is) s =
     clear_level f T is (kwrite (if kread s T i AND 1 \<noteq> 0 then f (kernbase + (kread s T i AND validatebits)) s else s) T i 0)"

lemma clear_level_cleared:
  assumes M: "aligned M" and f: "clears s0 M d f" and p: "length p + Suc d = 3" "tbl (pm s0) M p = Some T"
  shows "only_zeros s0 s \<Longrightarrow> \<forall>i \<in> set is. upath (p @ [i]) \<Longrightarrow> cleared s0 M s (clear_level f (kernbase + T) is s)"
proof (induction "is" arbitrary: s)
  case (Cons i js)
  have up: "upath (p @ [i])" "upath p" "i < 512" using Cons.prems(2) upath_prefix [of p "[i]"] by (auto simp: upath_def)
  let ?s1 = "if kread s (kernbase + T) i AND 1 \<noteq> 0 then f (kernbase + (kread s (kernbase + T) i AND validatebits)) s else s"
  have "length (p @ [i]) + d = 3" using p(1) by simp
  then have "cleared s0 M s (f (kernbase + (kread s (kernbase + T) i AND validatebits)) s)" if "kread s (kernbase + T) i AND 1 \<noteq> 0"
    using f [unfolded clears_def, rule_format, OF Cons.prems(1) _ up(1) clear_walk [OF Cons.prems(1) p(2) up(1) that]] by blast
  then have 1: "cleared s0 M s ?s1" by simp
  have 2: "cleared s0 M ?s1 (kwrite ?s1 (kernbase + T) i 0)" by (rule cleared_write [OF M p(2) up(2,3)])
  note c = cleared_trans [OF 1 2]
  have "cleared s0 M (kwrite ?s1 (kernbase + T) i 0) (clear_level f (kernbase + T) js (kwrite ?s1 (kernbase + T) i 0))"
    using Cons.IH [OF cleared_only_zeros [OF Cons.prems(1) c]] Cons.prems(2) by simp
  from cleared_trans [OF c this] show ?case by simp
qed simp


lemma upath_512: "upath p \<Longrightarrow> length p < 3 \<Longrightarrow> p \<noteq> [] \<Longrightarrow> \<forall>i \<in> set (indices 512). upath (p @ [i])"
  by (auto simp: upath_def)

lemma clears_level:
  assumes M: "aligned M" and f: "clears s0 M d f" and d: "d < 2"
  shows "clears s0 M (Suc d) (\<lambda>T. clear_level f T (indices 512))"
  unfolding clears_def
proof (intro allI impI)
  fix s p T assume s: "only_zeros s0 s" and p: "length p + Suc d = 3" "upath p" "tbl (pm s0) M p = Some T"
  have "length p < 3" "p \<noteq> []" using p(1) d by auto
  from clear_level_cleared [OF M f p(1,3) s upath_512 [OF p(2) this]]
  show "cleared s0 M s (clear_level f (kernbase + T) (indices 512) s)" .
qed

lemma clears_ptes:
  assumes M: "aligned M"
  shows "clears s0 M 0 (\<lambda>T. clear_ptes T (indices 512))"
proof -
  have "cleared s0 M s (clear_ptes (kernbase + T) ls s)"
    if "upath p" "tbl (pm s0) M p = Some T" "\<forall>i \<in> set ls. i < 512" for s p T ls
    using that(3)
  proof (induction ls arbitrary: s)
    case (Cons l ls)
    have "l < 512" "\<forall>i \<in> set ls. i < 512" using Cons.prems by auto
    from cleared_trans [OF cleared_write [OF M that(2,1) this(1)] Cons.IH [OF this(2)]] show ?case
      by (simp add: Let_def free_def)
  qed simp
  then show ?thesis unfolding clears_def by (metis set_indices_512)
qed

lemma clear_levels:
  "clear_pdpes T ks s = clear_level (\<lambda>T. clear_ptes T (indices 512)) T ks s"
  "clear_pdptes T ks s = clear_level (\<lambda>T. clear_pdpes T (indices 512)) T ks s"
  "clear_pml4es T ks s = clear_level (\<lambda>T. clear_pdptes T (indices 512)) T ks s"
  by (induction ks arbitrary: s) (simp_all add: Let_def free_def)

lemma deallocTask_cleared:
  assumes M: "aligned M"
  shows "cleared s M s (deallocTask M s)"
proof -
  have 1: "clears s M 1 (\<lambda>T. clear_pdpes T (indices 512))"
    using clears_level [OF M clears_ptes [OF M]] unfolding clear_levels(1) [abs_def] by simp
  have 2: "clears s M 2 (\<lambda>T. clear_pdptes T (indices 512))"
    using clears_level [OF M 1] unfolding clear_levels(2) [abs_def] by (simp add: numeral_2_eq_2)
  have up: "\<forall>i \<in> set (indices 511). upath ([] @ [i])" by (auto simp: upath_def set_indices word_less_nat_alt)
  have "deallocTask M s = clear_level (\<lambda>T. clear_pdptes T (indices 512)) (kernbase + M) (indices 511) s"
    by (simp add: deallocTask_def clear_levels(3) add.commute)
  then show ?thesis using clear_level_cleared [OF M 2, of "[]" M s "indices 511"] up by simp
qed

lemma deallocTask_empty:
  assumes ks: "kspace s lim K fs" and M: "aligned M" and dj: "user_tables (pm s) M \<inter> (K \<union> set fs) = {}" "K \<inter> set fs = {}"
  shows "task_space (deallocTask M s) M fs lim K" and "\<forall>b. uaddr b \<longrightarrow> ubyte (deallocTask M s) M b = None"
proof -
  let ?s = "deallocTask M s"
  have c: "statics ?s = statics s" "outside_same (user_tables (pm s) M) (pm s) (pm ?s)" "only_zeros s ?s"
    using deallocTask_cleared [OF M, of s] by (auto simp: cleared_def)
  have al: "\<forall>F \<in> user_tables (pm s) M \<union> K. aligned F"
    using kspace_aligned [OF ks] tbl_aligned [OF M] by (auto simp: user_tables_def)
  have "agree K (pm s) (pm ?s)" using dj(1) by (intro outside_same_agree [OF c(2) al]) auto
  moreover have "free_frames ?s (drop 0 fs)" using ks c(3) by (simp add: kspace_def only_zeros_def free_frames_def)
  ultimately have ks': "kspace ?s lim K fs" using kspace_agree [OF ks c(1), of 0] by simp
  have "M \<in> user_tables (pm s) M" by (auto simp: user_tables_def intro: exI [of _ "[]"])
  then have Mo: "K \<inter> insert M (set fs) = {}" "M \<notin> set fs" using dj by auto
  have "\<forall>i < 511. pm ?s (M + 8 * i) AND 1 = 0"
    using clear_pml4es_zero [OF mem_indices] by (simp add: deallocTask_def add.commute [of _ kernbase] del: add.commute)
  from empty_task_space [OF ks' Mo(1) M Mo(2) this] show "task_space ?s M fs lim K" "\<forall>b. uaddr b \<longrightarrow> ubyte ?s M b = None" .
qed

section \<open>Loading a program\<close>

text \<open>The memory of a loaded program: for each loadable header its bytes, and nothing else is mapped but
  the rest of their pages.\<close>

definition program_image :: "mem \<Rightarrow> u64 \<Rightarrow> paging \<Rightarrow> u64 \<Rightarrow> bool" where
  "program_image m fa s M \<longleftrightarrow>
     (\<forall>i < unat (e_phnum (read_Ehdr m fa)). p_type (phdr m fa i) = 1 \<longrightarrow> seg_loaded m fa s M (phdr m fa i))
     \<and> (\<forall>b. uaddr b \<longrightarrow> (\<forall>i < unat (e_phnum (read_Ehdr m fa)). p_type (phdr m fa i) = 1 \<longrightarrow> unat b div 4096 \<notin> seg_pages (phdr m fa i))
          \<longrightarrow> ubyte s M b = None)"

abbreviation header_count :: "mem \<Rightarrow> u64 \<Rightarrow> nat" where
  "header_count m fa \<equiv> unat (e_phnum (read_Ehdr m fa))"

lemma program_image_loaded:
  assumes "image_loaded m fa (header_count m fa) s s' M" and "\<forall>b. uaddr b \<longrightarrow> ubyte s M b = None"
  shows "program_image m fa s' M"
proof -
  have "set (segments m fa n) = {phdr m fa i | i. i < n \<and> p_type (phdr m fa i) = 1}" for n
    by (auto simp: segments_def load_indices_def)
  then show ?thesis using assms unfolding program_image_def image_loaded_def by auto
qed

lemma load_segments_image:
  assumes "task_space (pg k) M fs lim K" "loadable m fa (header_count m fa)" "load_cost m fa (header_count m fa) \<le> length fs"
    and "\<forall>b. uaddr b \<longrightarrow> ubyte (pg k) M b = None"
  shows "\<exists>s' g. load_segments m garbage fa ts (kernbase + M) (header_count m fa) k
      = Some (upd_task ts (\<lambda>t. t\<lparr>vm := areas m garbage fa (header_count m fa) @ vm t\<rparr>) (k\<lparr>pg := s'\<rparr>))
    \<and> g \<le> load_cost m fa (header_count m fa) \<and> task_space s' M (drop g fs) lim K \<and> program_image m fa s' M"
  using load_segments_spec [OF assms(1-3), of garbage ts] program_image_loaded assms(4) by blast

lemma readELFandExec_spec:
  assumes ks: "kspace (pg k) lim K fs" and M: "M = task_pml4e (taskQueue k ts)" "aligned M"
    and dj: "user_tables (pm (pg k)) M \<inter> (K \<union> set fs) = {}" "K \<inter> set fs = {}"
    and ld: "loadable m fa (header_count m fa)" "load_cost m fa (header_count m fa) \<le> length fs"
  shows "\<exists>s' g. readELFandExec m garbage fa ts k = Some (kernbase + M,
        upd_task ts (\<lambda>t. t\<lparr>regs := (regs t)\<lparr>rip := e_entry (read_Ehdr m fa)\<rparr>, vm := areas m garbage fa (header_count m fa) @ vm t\<rparr>) (k\<lparr>pg := s'\<rparr>))
    \<and> g \<le> load_cost m fa (header_count m fa) \<and> task_space s' M (drop g fs) lim K \<and> program_image m fa s' M"
proof -
  define k1 where "k1 = (upd_task ts (\<lambda>t. t\<lparr>regs := (regs t)\<lparr>rip := e_entry (read_Ehdr m fa)\<rparr>\<rparr>) k)\<lparr>pg := deallocTask M (pg k)\<rparr>"
  have p1: "pg k1 = deallocTask M (pg k)" by (simp add: k1_def)
  note e = deallocTask_empty [OF ks M(2) dj, folded p1]
  obtain s' g where s': "load_segments m garbage fa ts (kernbase + M) (header_count m fa) k1
      = Some (upd_task ts (\<lambda>t. t\<lparr>vm := areas m garbage fa (header_count m fa) @ vm t\<rparr>) (k1\<lparr>pg := s'\<rparr>))"
    "g \<le> load_cost m fa (header_count m fa)" "task_space s' M (drop g fs) lim K" "program_image m fa s' M"
    using load_segments_image [OF e(1) ld e(2)] by blast
  have "readELFandExec m garbage fa ts k = Some (kernbase + M, upd_task ts (\<lambda>t. t\<lparr>vm := areas m garbage fa (header_count m fa) @ vm t\<rparr>) (k1\<lparr>pg := s'\<rparr>))"
    using s'(1) M(1) by (simp add: readELFandExec_def Let_def k1_def upd_task_def add.commute)
  moreover have "upd_task ts (\<lambda>t. t\<lparr>vm := areas m garbage fa (header_count m fa) @ vm t\<rparr>) (k1\<lparr>pg := s'\<rparr>)
    = upd_task ts (\<lambda>t. t\<lparr>regs := (regs t)\<lparr>rip := e_entry (read_Ehdr m fa)\<rparr>, vm := areas m garbage fa (header_count m fa) @ vm t\<rparr>) (k\<lparr>pg := s'\<rparr>)"
    by (simp add: k1_def upd_task_def)
  ultimately show ?thesis using s'(2-4) by (intro exI [of _ s'] exI [of _ g]) simp
qed

lemma readELFandFork_spec:
  assumes ks: "kspace (pg k) lim K (f # fs)" and dj: "K \<inter> set (f # fs) = {}"
    and ld: "loadable m fa (header_count m fa)" "load_cost m fa (header_count m fa) \<le> length fs"
  shows "\<exists>s' g. readELFandFork m garbage fa ts k = Some (kernbase + f,
        upd_task ts (\<lambda>t. t\<lparr>task_pml4e := f, regs := (regs t)\<lparr>rip := e_entry (read_Ehdr m fa)\<rparr>, vm := areas m garbage fa (header_count m fa) @ vm t\<rparr>) (k\<lparr>pg := s'\<rparr>))
    \<and> g \<le> load_cost m fa (header_count m fa) \<and> task_space s' f (drop g fs) lim K \<and> program_image m fa s' f"
proof -
  have f: "aligned f" "f \<notin> set fs" using kspace_aligned [OF ks] ks by (auto simp: kspace_def)
  obtain s1 where s1: "getNewPage (pg k) = Some (kernbase + f, s1)" "pm s1 = pm (pg k)" "statics s1 = statics (pg k)" "free_frames s1 fs"
    using getNewPage_kspace [OF ks] by blast
  define s2 where "s2 = kzero s1 (kernbase + f)"
  have "outside_same {f} (pm (pg k)) (pm s2)" by (simp add: s2_def s1(2) outside_same_def zero_frame_def)
  then have "agree K (pm (pg k)) (pm s2)"
    using f dj kspace_aligned [OF ks] by (intro outside_same_agree) auto
  then have ks2: "kspace s2 lim K fs" using kspace_agree [OF ks, of s2 1] s1(3,4) by (simp add: s2_def)
  have z: "\<forall>i < 511. pm s2 (f + 8 * i) AND 1 = 0"
  proof (intro allI impI)
    fix i :: u64 assume "i < 511"
    then have "i < 512" by (simp add: word_less_nat_alt)
    then show "pm s2 (f + 8 * i) AND 1 = 0" using zero_frame_entry [OF f(1,1)] by (simp add: s2_def)
  qed
  have dj2: "K \<inter> insert f (set fs) = {}" using dj by auto
  note e = empty_task_space [OF ks2 dj2 f z]
  define k1 where "k1 = upd_task ts (\<lambda>t. t\<lparr>task_pml4e := f, regs := (regs t)\<lparr>rip := e_entry (read_Ehdr m fa)\<rparr>\<rparr>) (k\<lparr>pg := s2\<rparr>)"
  have p1: "pg k1 = s2" by (simp add: k1_def)
  obtain s' g where s': "load_segments m garbage fa ts (kernbase + f) (header_count m fa) k1
      = Some (upd_task ts (\<lambda>t. t\<lparr>vm := areas m garbage fa (header_count m fa) @ vm t\<rparr>) (k1\<lparr>pg := s'\<rparr>))"
    "g \<le> load_cost m fa (header_count m fa)" "task_space s' f (drop g fs) lim K" "program_image m fa s' f"
    using load_segments_image [OF e(1) [folded p1] ld e(2) [folded p1]] by blast
  have "readELFandFork m garbage fa ts k = Some (kernbase + f, upd_task ts (\<lambda>t. t\<lparr>vm := areas m garbage fa (header_count m fa) @ vm t\<rparr>) (k1\<lparr>pg := s'\<rparr>))"
    using s'(1) s1(1) by (simp add: readELFandFork_def Let_def k1_def s2_def upd_task_def)
  moreover have "upd_task ts (\<lambda>t. t\<lparr>vm := areas m garbage fa (header_count m fa) @ vm t\<rparr>) (k1\<lparr>pg := s'\<rparr>)
    = upd_task ts (\<lambda>t. t\<lparr>task_pml4e := f, regs := (regs t)\<lparr>rip := e_entry (read_Ehdr m fa)\<rparr>, vm := areas m garbage fa (header_count m fa) @ vm t\<rparr>) (k\<lparr>pg := s'\<rparr>)"
    by (simp add: k1_def upd_task_def)
  ultimately show ?thesis using s'(2-4) by (intro exI [of _ s'] exI [of _ g]) simp
qed


text \<open>Loading a program into a new address space. When the loadable segments lie below the kernel's
  addresses, no two share a page and there are frames enough, \<open>readELFandFork\<close> gives the task a new
  top table, sets its entry point and prepends an area for each segment to its list; in the new
  space each segment's first \<open>p_filesz\<close> bytes are the file's bytes from \<open>64 * p_offset\<close> on (the
  pointer arithmetic counts in headers of 64 bytes, so only a segment at offset 0 is the one the
  file means), the rest up to \<open>p_memsz\<close> is NUL, and no page outside the segments is mapped.\<close>

theorem readELFandFork_loads:
  assumes "kspace (pg k) lim K (f # fs)" and "K \<inter> set (f # fs) = {}"
    and "loadable m fa (header_count m fa)" "load_cost m fa (header_count m fa) \<le> length fs"
  shows "\<exists>k'. readELFandFork m garbage fa ts k = Some (kernbase + f, k')
    \<and> task_pml4e (taskQueue k' ts) = f \<and> rip (regs (taskQueue k' ts)) = e_entry (read_Ehdr m fa)
    \<and> vm (taskQueue k' ts) = areas m garbage fa (header_count m fa) @ vm (taskQueue k ts)
    \<and> program_image m fa (pg k') f \<and> cr3 k' = cr3 k \<and> (\<forall>i. i \<noteq> ts \<longrightarrow> taskQueue k' i = taskQueue k i)
    \<and> (\<exists>g \<le> load_cost m fa (header_count m fa). task_space (pg k') f (drop g fs) lim K)"
proof -
  obtain s' g where s': "readELFandFork m garbage fa ts k = Some (kernbase + f,
        upd_task ts (\<lambda>t. t\<lparr>task_pml4e := f, regs := (regs t)\<lparr>rip := e_entry (read_Ehdr m fa)\<rparr>, vm := areas m garbage fa (header_count m fa) @ vm t\<rparr>) (k\<lparr>pg := s'\<rparr>))"
    "g \<le> load_cost m fa (header_count m fa)" "task_space s' f (drop g fs) lim K" "program_image m fa s' f"
    using readELFandFork_spec [OF assms, of garbage ts] by blast
  let ?k' = "upd_task ts (\<lambda>t. t\<lparr>task_pml4e := f, regs := (regs t)\<lparr>rip := e_entry (read_Ehdr m fa)\<rparr>, vm := areas m garbage fa (header_count m fa) @ vm t\<rparr>) (k\<lparr>pg := s'\<rparr>)"
  have "task_pml4e (taskQueue ?k' ts) = f" "rip (regs (taskQueue ?k' ts)) = e_entry (read_Ehdr m fa)" "pg ?k' = s'" "cr3 ?k' = cr3 k"
    "vm (taskQueue ?k' ts) = areas m garbage fa (header_count m fa) @ vm (taskQueue k ts)" "\<forall>i. i \<noteq> ts \<longrightarrow> taskQueue ?k' i = taskQueue k i"
    by (simp_all add: upd_task_def)
  then show ?thesis using s' by (intro exI [of _ ?k']) auto
qed

text \<open>A file at address 0 with one loadable segment at \<open>0x400000\<close>: four bytes of the file, four more.\<close>

definition elf_file :: mem where
  "elf_file = (\<lambda>_. NUL)(0 := CHR 0x7F, 1 := CHR ''E'', 2 := CHR ''L'', 3 := CHR ''F'', 26 := CHR 0x40, 32 := CHR 0x40, 56 := CHR 0x01,
     64 := CHR 0x01, 82 := CHR 0x40, 96 := CHR 0x04, 104 := CHR 0x08)"

lemma le_bytes_unfold:
  "le_bytes m a 2 = of_nat (of_char (m (uint a))) OR push_bit 8 (of_nat (of_char (m (uint (a + 1)))))"
  "le_bytes m a 4 = le_bytes m a 2 OR push_bit 16 (le_bytes m (a + 2) 2)"
  "le_bytes m a 8 = le_bytes m a 4 OR push_bit 32 (le_bytes m (a + 4) 4)"
  by (simp_all add: numeral_eq_Suc ac_simps push_bit_or)

lemma elf_file_headers:
  "header_count elf_file 0 = 1" "e_entry (read_Ehdr elf_file 0) = 0x400000" "e_phoff (read_Ehdr elf_file 0) = 64"
  "p_type (phdr elf_file 0 0) = 1" "p_offset (phdr elf_file 0 0) = 0" "p_vaddr (phdr elf_file 0 0) = 0x400000"
  "p_filesz (phdr elf_file 0 0) = 4" "p_memsz (phdr elf_file 0 0) = 8"
  by (simp_all add: phdr_def read_Phdr_def read_Ehdr_def elf_file_def le_bytes_unfold)


lemma elf_file_loadable:
  "segments elf_file 0 1 = [phdr elf_file 0 0]" "loadable elf_file 0 (header_count elf_file 0)"
  "load_cost elf_file 0 (header_count elf_file 0) = 5"
proof -
  show s: "segments elf_file 0 1 = [phdr elf_file 0 0]" by (simp add: segments_def load_indices_def elf_file_headers)
  show "loadable elf_file 0 (header_count elf_file 0)"
    by (simp add: loadable_def seg_ok_def elf_file_headers s del: One_nat_def)
  show "load_cost elf_file 0 (header_count elf_file 0) = 5"
    by (simp add: load_cost_def seg_cost_def elf_file_headers s first_page_def end_page_def del: One_nat_def)
qed

lemma fork_paging_apart:
  "kernel_tables (pm fork_paging) 0x10000 \<inter> set [0x1000, 0x2000, 0x3000, 0x4000, 0x5000, 0x6000, 0x7000, 0x8000, 0x9000, 0xA000, 0xB000, 0xC000, 0xD000, 0xE000, 0xF000] = {}"
  using fork_kernel_tables by (auto simp del: fork_paging_simps)

theorem readELFandFork_loads_witness:
  "\<exists>k'. readELFandFork elf_file (\<lambda>_. \<lparr>beginAddress = 0, lastAddress = 0, vm_offset = 0\<rparr>) 0 3 kernel_fork = Some (kernbase + 0x1000, k')
     \<and> rip (regs (taskQueue k' 3)) = 0x400000 \<and> ubyte (pg k') 0x1000 0x400001 = Some (CHR ''E'')
     \<and> ubyte (pg k') 0x1000 0x400005 = Some NUL \<and> ubyte (pg k') 0x1000 0x500000 = None"
proof -
  let ?fs = "[0x2000, 0x3000, 0x4000, 0x5000, 0x6000, 0x7000, 0x8000, 0x9000, 0xA000, 0xB000, 0xC000, 0xD000, 0xE000, 0xF000] :: u64 list"
  have ks: "kspace (pg kernel_fork) 0x10000 (kernel_tables (pm fork_paging) 0x10000) (0x1000 # ?fs)"
    using fork_kspace by (simp del: fork_paging_simps)
  have "load_cost elf_file 0 (header_count elf_file 0) \<le> length ?fs" by (simp add: elf_file_loadable)
  then obtain k' where k': "readELFandFork elf_file (\<lambda>_. \<lparr>beginAddress = 0, lastAddress = 0, vm_offset = 0\<rparr>) 0 3 kernel_fork = Some (kernbase + 0x1000, k')"
    "rip (regs (taskQueue k' 3)) = 0x400000" "program_image elf_file 0 (pg k') 0x1000"
    using readELFandFork_loads [OF ks fork_paging_apart elf_file_loadable(2)] unfolding elf_file_headers by blast
  have l: "seg_loaded elf_file 0 (pg k') 0x1000 (phdr elf_file 0 0)"
    and n: "uaddr b \<Longrightarrow> unat b div 4096 \<notin> seg_pages (phdr elf_file 0 0) \<Longrightarrow> ubyte (pg k') 0x1000 b = None" for b
    using k'(3) by (simp_all add: program_image_def elf_file_headers)
  have "ubyte (pg k') 0x1000 (0x400000 + of_nat 1) = Some (seg_byte elf_file 0 (phdr elf_file 0 0) 1)"
    "ubyte (pg k') 0x1000 (0x400000 + of_nat 5) = Some (seg_byte elf_file 0 (phdr elf_file 0 0) 5)"
    using l unfolding seg_loaded_def elf_file_headers by (auto dest: spec [of _ 1] spec [of _ 5])
  moreover have "seg_byte elf_file 0 (phdr elf_file 0 0) 1 = CHR ''E''" "seg_byte elf_file 0 (phdr elf_file 0 0) 5 = NUL"
    unfolding seg_byte_def elf_file_headers by (simp_all add: elf_file_def)
  moreover have "ubyte (pg k') 0x1000 0x500000 = None"
    by (rule n) (simp_all add: uaddr_def seg_pages_def first_page_def end_page_def elf_file_headers)
  ultimately show ?thesis using k' by simp
qed

end
