(* ===== verification/Exec.thy ===== *)
theory Exec
  imports Loader Files Gdt
begin

text \<open>
  \<open>execvpe\<close> and \<open>createNewTask\<close> of \<^verbatim>\<open>sys/process.c\<close>: how the file is found, and the user stack on
  which the new program finds its arguments; and \<open>_start\<close> of \<^verbatim>\<open>crt/crt1.c\<close>, which reads them there.
  The strings that the caller passes are read before its memory is given up and are Isabelle strings
  here; the local arrays of 100 rows of 100 bytes are functions from the row, a string that overflows
  its row is \<open>None\<close>, and so is a page fault in the kernel. The rows are kept apart from memory: that the
  arrays \<open>args\<close>, \<open>envs\<close> and \<open>file\<close> take 20100 bytes of a kernel stack of 4096 (\<open>kstack\<close> in \<^verbatim>\<open>process.h\<close>)
  and so reach into the task slots below is not modelled.
\<close>

section \<open>Finding the file\<close>

definition validPath :: "string \<Rightarrow> bool" where
  "validPath ref \<longleftrightarrow> take 2 ref = [CHR 0x2E, CHR 0x2F]"

text \<open>The result of \<open>get_file_address\<close>, -1 for a file that is not there, plus the size of a header.\<close>

definition content_address :: "fs \<Rightarrow> string \<Rightarrow> u64 option" where
  "content_address f nm = do {
     a \<leftarrow> get_file_address (tm f) (headers f) nm;
     Some (word_of_int a + 512)
   }"

text \<open>The characters up to the end of the line, without blanks, at most 99 of them.\<close>

partial_function (option) interpreter_loop :: "mem \<Rightarrow> u64 \<Rightarrow> string \<Rightarrow> string option" where
  "interpreter_loop m scriptChar ex =
     (if m (uint scriptChar) \<noteq> CHR 0x0A then
        (if m (uint scriptChar) \<noteq> CHR 0x20 then
           (if length ex < 99 then interpreter_loop m (scriptChar + 1) (ex @ [m (uint scriptChar)]) else None)
         else interpreter_loop m (scriptChar + 1) ex)
      else Some ex)"

type_synonym rows = "nat \<Rightarrow> string"

definition set_row :: "int \<Rightarrow> string \<Rightarrow> rows \<Rightarrow> rows option" where
  "set_row i s r = (if 0 \<le> i \<and> i < 100 \<and> length s < 100 then Some (r(nat i := s)) else None)"

text \<open>\<^verbatim>\<open>*argc++\<close> advances the pointer: the first row written is row \<^verbatim>\<open>*argc\<close>, which is 0, the second is
  whatever number \<open>behind\<close> the compiler has put next to the caller's \<open>argc\<close>, which itself stays 0.\<close>

definition setFileAddress :: "fs \<Rightarrow> int \<Rightarrow> string \<Rightarrow> string list \<Rightarrow> nat \<Rightarrow> rows \<Rightarrow> kernel \<Rightarrow> (int \<times> u64 \<times> rows \<times> kernel) option" where
  "setFileAddress f behind ref argv ts args k =
     (if validPath ref then do {
        file \<leftarrow> strcpy_field 100 (drop 1 (curr_dir (cur k)));
        file \<leftarrow> strcpy_field 100 (file @ drop 2 ref);
        scriptChar \<leftarrow> content_address f file;
        if scriptChar < 512 then Some (-1, 0, args, k)
        else do {
          fileAddress \<leftarrow>
            (if tm f (uint scriptChar) = CHR 0x21 \<and> tm f (uint (scriptChar + 1)) = CHR 0x23 then do {
               ex \<leftarrow> interpreter_loop (tm f) (scriptChar + 2) [];
               let ex = takeWhile (\<lambda>c. c \<noteq> NUL) ex;
               content_address f (if ex = [] then ''bin/sbush'' else ex)
             }
             else content_address f ''bin/sbush'');
          args \<leftarrow> (case argv of [] \<Rightarrow> None | a # _ \<Rightarrow> set_row 0 a args);
          args \<leftarrow> set_row behind (drop 2 ref) args;
          Some (1, fileAddress, args, k)
        }
      }
      else do {
        file \<leftarrow> strcpy_field 100 (''bin/'' @ ref);
        let k = upd_task ts (\<lambda>t. t\<lparr>name := file\<rparr>) k;
        fileAddress \<leftarrow> content_address f file;
        if fileAddress < 512 then Some (-1, fileAddress, args, k) else Some (0, fileAddress, args, k)
      })"

section \<open>The user stack\<close>

text \<open>\<open>rsp\<close> points to words: making room for \<open>l\<close> bytes takes \<open>8 * l\<close>. The rows lie on the kernel's stack,
  above every user address, so \<open>memcpy\<close> copies upwards.\<close>

definition copy_string :: "u64 \<Rightarrow> u64 \<Rightarrow> string \<Rightarrow> paging \<Rightarrow> paging option" where
  "copy_string M sp str s = user_copy_up (\<lambda>i. (str @ [NUL]) ! unat i) M sp 0 (length str + 1) s"

text \<open>The loops from the last row down; the pointers are those kept in \<open>temp\<close>.\<close>

fun push_strings :: "u64 \<Rightarrow> string list \<Rightarrow> u64 \<Rightarrow> paging \<Rightarrow> (u64 list \<times> u64 \<times> paging) option" where
  "push_strings M [] sp s = Some ([], sp, s)"
| "push_strings M (str # strs) sp s = do {
     (temp, sp, s) \<leftarrow> push_strings M strs sp s;
     let sp = sp - 8 * of_nat (length str + 1);
     s \<leftarrow> copy_string M sp str s;
     Some (sp # temp, sp, s)
   }"

fun push_words :: "u64 \<Rightarrow> u64 list \<Rightarrow> u64 \<Rightarrow> paging \<Rightarrow> (u64 \<times> paging) option" where
  "push_words M [] sp s = Some (sp, s)"
| "push_words M (w # ws) sp s = do {
     (sp, s) \<leftarrow> push_words M ws sp s;
     let sp = sp - 8;
     s \<leftarrow> uputw s M sp w;
     Some (sp, s)
   }"

definition setNewVMA :: "vmaStruct \<Rightarrow> nat \<Rightarrow> u64 \<Rightarrow> u64 \<Rightarrow> u64 \<Rightarrow> kernel \<Rightarrow> kernel option" where
  "setNewVMA garbage ts pml4 from toend k = do {
     (yy, p) \<leftarrow> getFreeFrame (pg k);
     p \<leftarrow> initTaskPagetables from yy pml4 p;
     let k = upd_task ts (\<lambda>t. t\<lparr>ustack := from, task_rsp := from + 510 * 8\<rparr>) (k\<lparr>pg := p\<rparr>);
     (_, p) \<leftarrow> kmalloc 32 (pg k);
     Some (upd_task ts (\<lambda>t. t\<lparr>vm := garbage\<lparr>beginAddress := from, lastAddress := toend\<rparr> # vm t\<rparr>) (k\<lparr>pg := p\<rparr>))
   }"

text \<open>The registers that \<^verbatim>\<open>iretq\<close> takes from the stack: the program starts.\<close>

definition enter_user :: "nat \<Rightarrow> kernel \<Rightarrow> kernel" where
  "enter_user ts k = k\<lparr>cpu_rsp := task_rsp (taskQueue k ts), cpu_rip := rip (regs (taskQueue k ts))\<rparr>"

definition setRSPandExec :: "nat \<Rightarrow> nat \<Rightarrow> nat \<Rightarrow> rows \<Rightarrow> rows \<Rightarrow> kernel \<Rightarrow> kernel option" where
  "setRSPandExec ts envl argc envs args k = do {
     let M = cr3 k;
     (temp1, sp, p) \<leftarrow> push_strings M (map envs [0..<envl]) (task_rsp (taskQueue k ts)) (pg k);
     (temp, sp, p) \<leftarrow> push_strings M (map args [0..<argc]) sp p;
     (sp, p) \<leftarrow> push_words M [0] sp p;
     (sp, p) \<leftarrow> push_words M temp1 sp p;
     (sp, p) \<leftarrow> push_words M [0] sp p;
     (sp, p) \<leftarrow> push_words M temp sp p;
     (sp, p) \<leftarrow> push_words M [of_nat argc] sp p;
     let k = upd_task ts (\<lambda>t. t\<lparr>task_rsp := sp\<rparr>) (k\<lparr>pg := p\<rparr>);
     Some (enter_user ts (set_tss_rsp (kstack_top k ts) k))
   }"

text \<open>The first task: after the name come the words 0, 0, a pointer and 1, downwards. The pointer is to the
  word above it, not to the name.\<close>

definition setTaskRSP :: "string \<Rightarrow> nat \<Rightarrow> kernel \<Rightarrow> kernel option" where
  "setTaskRSP nm ts k = do {
     let M = cr3 k;
     (_, sp, p) \<leftarrow> push_strings M [nm] (task_rsp (taskQueue k ts)) (pg k);
     (sp, p) \<leftarrow> push_words M [0, 0] sp p;
     (sp, p) \<leftarrow> push_words M [sp] sp p;
     (sp, p) \<leftarrow> push_words M [1] sp p;
     let k = upd_task ts (\<lambda>t. t\<lparr>task_rsp := sp\<rparr>) (k\<lparr>pg := p\<rparr>);
     Some (k\<lparr>currentTask := ts\<rparr>)
   }"

section \<open>The calls\<close>

fun arg_loop :: "nat \<Rightarrow> string list \<Rightarrow> rows \<Rightarrow> (nat \<times> rows) option" where
  "arg_loop argc [] args = Some (argc, args)"
| "arg_loop argc (a # as) args = do {
     args \<leftarrow> set_row (int argc) a args;
     arg_loop (argc + 1) as args
   }"

text \<open>The loop over the environment counts \<open>argc\<close>, not \<open>envl\<close>.\<close>

partial_function (option) env_loop :: "string list \<Rightarrow> nat \<Rightarrow> int \<Rightarrow> rows \<Rightarrow> (int \<times> rows) option" where
  "env_loop env envl argc envs =
     (if envl < length env then
        Option.bind (set_row (int envl) (env ! envl) envs) (\<lambda>envs.
        env_loop env envl (to_int32 (argc + 1)) envs)
      else Some (argc, envs))"

text \<open>Where \<open>execvpe\<close> returns it returns -1; otherwise the program has been entered.\<close>

datatype exec_result = Exec_Failed kernel | Entered kernel

definition execvpe :: "fs \<Rightarrow> (nat \<Rightarrow> vmaStruct) \<Rightarrow> int \<Rightarrow> rows \<Rightarrow> rows \<Rightarrow> string \<Rightarrow> string list \<Rightarrow> string list \<Rightarrow> kernel \<Rightarrow> exec_result option" where
  "execvpe f garbage behind args0 envs0 ref argv env k =
     (let ts = currentTask k in do {
        (binValue, fileAddress, args, k) \<leftarrow> setFileAddress f behind ref argv ts args0 k;
        if binValue = -1 then Some (Exec_Failed k)
        else do {
          (argc, args) \<leftarrow> (if binValue = 0 then arg_loop 0 argv args else Some (0, args));
          (argc, envs) \<leftarrow> env_loop env 0 (int argc) envs0;
          if fileAddress < 512 then Some (Exec_Failed k)
          else do {
            (pml4, k) \<leftarrow> readELFandExec (tm f) garbage fileAddress ts k;
            k \<leftarrow> shiftTaskVMA (garbage 0) ts 0x4B0FFFFF0000 0x4B0FFFFF0000 k;
            k \<leftarrow> setNewVMA (garbage 0) ts pml4 STACK_S 0x100FFEFF0000 k;
            k \<leftarrow> setRSPandExec ts 0 (nat argc) envs args k;
            Some (Entered k)
          }
        }
      })"

definition createNewTask :: "fs \<Rightarrow> (nat \<Rightarrow> vmaStruct) \<Rightarrow> string \<Rightarrow> kernel \<Rightarrow> kernel option" where
  "createNewTask f garbage filename k = do {
     fileAddress \<leftarrow> content_address f filename;
     tempFilename \<leftarrow> strcpy_field 100 filename;
     (ts, k) \<leftarrow> initTaskVariables filename k;
     (pml4, k) \<leftarrow> readELFandFork (tm f) garbage fileAddress ts k;
     k \<leftarrow> setMyVMA (garbage 0) ts 0x4B0FFFFF0000 0x4B0FFFFF0000 k;
     (yy, p) \<leftarrow> getFreeFrame (pg k);
     p \<leftarrow> initTaskPagetables STACK_S yy pml4 p;
     let k = upd_task ts (\<lambda>t. t\<lparr>ustack := STACK_S, task_rsp := STACK_S + 510 * 8\<rparr>) (k\<lparr>pg := p\<rparr>);
     k \<leftarrow> setMyVMA (garbage 0) ts STACK_S 0x100FFEFF0000 k;
     let k = loadCR3Virtual pml4 (set_tss_rsp (kstack_top k ts) k);
     k \<leftarrow> setTaskRSP tempFilename ts k;
     Some (enter_user ts k)
   }"

section \<open>What the program reads\<close>

text \<open>A NUL-terminated string in user memory, read like \<open>strlen\<close> reads it.\<close>

partial_function (option) user_string :: "paging \<Rightarrow> u64 \<Rightarrow> u64 \<Rightarrow> string option" where
  "user_string s M a =
     Option.bind (ubyte s M a) (\<lambda>c.
     if c = NUL then Some []
     else Option.bind (user_string s M (a + 1)) (\<lambda>str. Some (c # str)))"

text \<open>\<open>_start\<close> copies the pointers into its own arrays of 20 and of 100 entries.\<close>

fun start_argv :: "paging \<Rightarrow> u64 \<Rightarrow> nat \<Rightarrow> u64 \<Rightarrow> u64 list option" where
  "start_argv s M 0 a = Some []"
| "start_argv s M (Suc n) a = do {
     p \<leftarrow> uword s M a;
     qs \<leftarrow> start_argv s M n (a + 8);
     Some (p # qs)
   }"

partial_function (option) start_env :: "paging \<Rightarrow> u64 \<Rightarrow> u64 \<Rightarrow> nat \<Rightarrow> u64 list option" where
  "start_env s M a iter =
     Option.bind (uword s M a) (\<lambda>p.
     if p \<noteq> 0 then (if iter < 100 then Option.bind (start_env s M (a + 8) (iter + 1)) (\<lambda>qs. Some (p # qs)) else None)
     else Some [])"

text \<open>\<open>sp\<close> is the stack pointer behind the function's prologue; \<open>argc\<close> is read as an \<^verbatim>\<open>int\<close>.\<close>

definition start_args :: "paging \<Rightarrow> u64 \<Rightarrow> u64 \<Rightarrow> (int \<times> u64 list \<times> u64 list) option" where
  "start_args s M sp = do {
     w \<leftarrow> uword s M (sp + 8);
     let argc = to_int32 (uint w);
     if argc \<le> 20 then do {
       argv \<leftarrow> start_argv s M (nat argc) (sp + 16);
       env \<leftarrow> start_env s M (sp + 16 + 8 * of_nat (nat argc) + 8) 0;
       Some (argc, argv, env)
     }
     else None
   }"


section \<open>Words and bytes of user memory\<close>

lemma word_byte_inj: "(\<forall>i < 8. word_byte w i = word_byte v i) \<Longrightarrow> w = v"
proof (rule bit_word_eqI)
  fix n assume e: "\<forall>i < 8. word_byte w i = word_byte v i" and n: "n < LENGTH(64)"
  have lt: "unat (take_bit 8 x) < 256" for x :: u64
    using unsigned_take_bit_eq [of 8 x, where ?'a = nat] take_bit_nat_less_exp [of 8 "unat x"] by simp
  have "n div 8 < 8" using n by simp
  then have "of_char (word_byte w (n div 8)) = (of_char (word_byte v (n div 8)) :: nat)" using e by simp
  then have "unat (take_bit 8 (drop_bit (8 * (n div 8)) w)) = unat (take_bit 8 (drop_bit (8 * (n div 8)) v))"
    using lt by (simp add: word_byte_def)
  then have "take_bit 8 (drop_bit (8 * (n div 8)) w) = take_bit 8 (drop_bit (8 * (n div 8)) v)" by (simp add: word_unat_eq_iff)
  then have "bit (take_bit 8 (drop_bit (8 * (n div 8)) w)) (n mod 8) = bit (take_bit 8 (drop_bit (8 * (n div 8)) v)) (n mod 8)" by simp
  then show "bit w n = bit v n" by (simp add: bit_take_bit_iff bit_drop_bit_eq)
qed

lemma aligned_bytes: "x mod 8 = 0 \<Longrightarrow> i < 8 \<Longrightarrow> (x + i) div 8 = x div 8 \<and> (x + i) mod 8 = i"
  "x mod 8 = 0 \<Longrightarrow> y < x \<or> x + 8 \<le> y \<Longrightarrow> y div 8 \<noteq> x div 8"
  "x mod 8 = 0 \<Longrightarrow> x < 8 * k \<Longrightarrow> x + 8 \<le> 8 * k" for x y i k :: nat
  by (auto elim!: dvdE simp: mod_eq_0_iff_dvd)

lemma uword_ubyte:
  assumes b: "uaddr b" "unat b mod 8 = 0" and i: "i < 8"
  shows "ubyte s M (b + of_nat i) = map_option (\<lambda>w. word_byte w i) (uword s M b)" and "unat (b + of_nat i) = unat b + i"
proof -
  show u: "unat (b + of_nat i) = unat b + i"
    using b(1) i by (subst unat_add_lem [THEN iffD1]) (simp_all add: unat_of_nat uaddr_def)
  have d: "unat (b + of_nat i) div 8 = unat b div 8" and m: "unat (b + of_nat i) mod 8 = i" using aligned_bytes(1) [OF b(2) i] u by simp_all
  show "ubyte s M (b + of_nat i) = map_option (\<lambda>w. word_byte w i) (uword s M b)"
    using same_word [OF d] m unat_offsets(2) [of "b + of_nat i"]
    by (cases "translate (pm s) M b") (simp_all add: ubyte_def uword_def ucell_def)
qed

text \<open>Nothing but the bytes from \<open>lo\<close> to \<open>hi\<close> changes, and no page comes or goes.\<close>

definition only :: "paging \<Rightarrow> paging \<Rightarrow> u64 \<Rightarrow> nat \<Rightarrow> nat \<Rightarrow> bool" where
  "only s s' M lo hi \<longleftrightarrow> (\<forall>b. uaddr b \<longrightarrow> (ubyte s' M b = None \<longleftrightarrow> ubyte s M b = None)
     \<and> (unat b < lo \<or> hi \<le> unat b \<longrightarrow> ubyte s' M b = ubyte s M b))"

lemma only_refl [simp]: "only s s M lo hi"
  by (simp add: only_def)

lemma only_trans: "only s s1 M lo' hi' \<Longrightarrow> only s1 s' M lo'' hi'' \<Longrightarrow> lo \<le> lo' \<Longrightarrow> hi' \<le> hi \<Longrightarrow> lo \<le> lo'' \<Longrightarrow> hi'' \<le> hi \<Longrightarrow> only s s' M lo hi"
  unfolding only_def by (metis le_trans less_le_trans)

lemma only_wrote: "user_range s M d n \<Longrightarrow> wrote s s' M d n c \<Longrightarrow> only s s' M (unat d) (unat d + n)"
  by (auto simp: only_def wrote_def user_range_def)

lemma only_range: "only s s' M lo hi \<Longrightarrow> user_range s M d n \<Longrightarrow> user_range s' M d n"
  unfolding only_def using user_range_uaddr unfolding user_range_def by metis

lemma user_range_sub: "user_range s M B n \<Longrightarrow> unat B \<le> unat a \<Longrightarrow> unat a + m \<le> unat B + n \<Longrightarrow> user_range s M a m"
  by (auto simp: user_range_def)

lemma uword_only:
  assumes o: "only s s' M lo hi" and b: "uaddr b" "unat b mod 8 = 0" "unat b + 8 \<le> lo \<or> hi \<le> unat b"
  shows "uword s' M b = uword s M b"
proof -
  have e: "map_option (\<lambda>w. word_byte w i) (uword s' M b) = map_option (\<lambda>w. word_byte w i) (uword s M b)" if i: "i < 8" for i
  proof -
    have "unat b \<le> 511 * 2 ^ 39 - 8" using aligned_bytes(3) [OF b(2), of "511 * 2 ^ 36"] b(1) by (simp add: uaddr_def)
    then have "uaddr (b + of_nat i)" using uword_ubyte(2) [OF b(1,2) i] i by (simp add: uaddr_def)
    then have "ubyte s' M (b + of_nat i) = ubyte s M (b + of_nat i)"
      using o uword_ubyte(2) [OF b(1,2) i] b(3) i by (auto simp: only_def)
    then show ?thesis unfolding uword_ubyte(1) [OF b(1,2) i] .
  qed
  show ?thesis
  proof (cases "uword s M b")
    case None
    then show ?thesis using e [of 0] by simp
  next
    case (Some w)
    then obtain v where "uword s' M b = Some v" using e [of 0] by auto
    then show ?thesis using Some e word_byte_inj [of v w] by simp
  qed
qed

lemma ubyte_None: "ubyte s M b = None \<longleftrightarrow> translate (pm s) M b = None"
  by (cases "translate (pm s) M b") (auto simp: ubyte_def)

lemma task_space_uputw:
  assumes t: "task_space s M fs lim K" and a: "uaddr a" "unat a mod 8 = 0" "ubyte s M a \<noteq> None"
  shows "\<exists>s'. uputw s M a w = Some s' \<and> task_space s' M fs lim K \<and> only s s' M (unat a) (unat a + 8) \<and> uword s' M a = Some w"
proof -
  note own = task_space_own [OF t] and ua = uaddr_user [OF a(1)]
  obtain e where e: "translate (pm s) M a = Some e" using a(3) by (cases "translate (pm s) M a") (auto simp: ubyte_def)
  obtain s' where s': "uputw s M a w = Some s'" "\<forall>b. uaddr b \<longrightarrow> translate (pm s') M b = translate (pm s) M b"
    "\<forall>b. uaddr b \<longrightarrow> unat b mod 8 = 0 \<longrightarrow> uword s' M b = (if b = a then Some w else uword s M b)"
    "\<forall>b. uaddr b \<longrightarrow> unat b div 8 \<noteq> unat a div 8 \<longrightarrow> ubyte s' M b = ubyte s M b"
    using uputw_spec [OF own a(1) e a(2), of w] by blast
  have "s' = s\<lparr>pm := (pm s)(ucell e a := w)\<rparr>" using s'(1) e by (simp add: uputw_def)
  then have ts: "task_space s' M fs lim K" using task_space_cell [OF t ua e] data_write [OF own ua e] by blast
  have "unat b div 8 \<noteq> unat a div 8" if "unat b < unat a \<or> unat a + 8 \<le> unat b" for b :: u64
    using aligned_bytes(2) [OF a(2) that] .
  moreover have "(ubyte s' M b = None) = (ubyte s M b = None)" if "uaddr b" for b using s'(2) that ubyte_None by metis
  ultimately have "only s s' M (unat a) (unat a + 8)"
    using s'(4) unfolding only_def by blast
  moreover have "uword s' M a = Some w" using s'(3) a by simp
  ultimately show ?thesis using s'(1) ts by blast
qed

section \<open>Pushing\<close>

text \<open>\<open>sp\<close> points into the stack from \<open>B\<close> on, at a word.\<close>

definition stack_ptr :: "u64 \<Rightarrow> nat \<Rightarrow> u64 \<Rightarrow> bool" where
  "stack_ptr B n sp \<longleftrightarrow> unat B \<le> unat sp \<and> unat sp \<le> unat B + n \<and> unat sp mod 8 = 0 \<and> unat B + n \<le> 511 * 2 ^ 39"

lemma push_room:
  assumes "stack_ptr B n sp" "unat B + 8 * m \<le> unat sp"
  shows "unat (sp - 8 * of_nat m) = unat sp - 8 * m" "stack_ptr B n (sp - 8 * of_nat m)"
proof -
  have m: "unat (8 * of_nat m :: u64) = 8 * m"
    using assms by (simp add: stack_ptr_def unat_word_ariths unat_of_nat)
  then show u: "unat (sp - 8 * of_nat m) = unat sp - 8 * m"
    using assms by (simp add: unat_sub word_le_nat_alt)
  have "(unat sp - 8 * m) mod 8 = 0" using assms by (simp add: stack_ptr_def mod_eq_0_iff_dvd dvd_diff_nat)
  moreover have "unat B \<le> unat sp - 8 * m" "unat sp - 8 * m \<le> unat B + n" using assms unfolding stack_ptr_def by linarith+
  ultimately show "stack_ptr B n (sp - 8 * of_nat m)" using assms(1) unfolding stack_ptr_def u by simp
qed

lemma push_words_spec:
  "task_space s M fs lim K \<Longrightarrow> user_range s M B n \<Longrightarrow> stack_ptr B n sp \<Longrightarrow> unat B + 8 * length ws \<le> unat sp \<Longrightarrow>
   \<exists>s'. push_words M ws sp s = Some (sp - 8 * of_nat (length ws), s') \<and> task_space s' M fs lim K
     \<and> only s s' M (unat sp - 8 * length ws) (unat sp)
     \<and> (\<forall>i < length ws. uword s' M (sp - 8 * of_nat (length ws) + 8 * of_nat i) = Some (ws ! i))"
proof (induction ws)
  case Nil
  then show ?case by simp
next
  case (Cons w ws)
  let ?l = "length ws"
  obtain s1 where s1: "push_words M ws sp s = Some (sp - 8 * of_nat ?l, s1)" "task_space s1 M fs lim K"
    "only s s1 M (unat sp - 8 * ?l) (unat sp)" "\<forall>i < ?l. uword s1 M (sp - 8 * of_nat ?l + 8 * of_nat i) = Some (ws ! i)"
    using Cons by auto
  let ?a = "sp - 8 * of_nat (Suc ?l)"
  have a: "?a = sp - 8 * of_nat ?l - 8" by (simp add: algebra_simps)
  note room = push_room [OF Cons.prems(3), of "Suc ?l"] and room0 = push_room [OF Cons.prems(3), of ?l]
  have ua: "unat ?a = unat sp - 8 * Suc ?l" "stack_ptr B n ?a" using room Cons.prems(4) by (simp_all del: of_nat_Suc)
  have pos: "8 * Suc ?l \<le> unat sp" using Cons.prems(4) by simp
  have r1: "user_range s1 M B n" using only_range [OF s1(3) Cons.prems(2)] .
  have in_r: "unat B \<le> unat ?a" "unat ?a < unat B + n" using ua pos Cons.prems(3,4) by (auto simp: stack_ptr_def)
  have aa: "uaddr ?a" "unat ?a mod 8 = 0" "ubyte s1 M ?a \<noteq> None"
    using in_r r1 user_range_uaddr [OF r1] ua(2) by (auto simp: user_range_def stack_ptr_def)
  obtain s' where s': "uputw s1 M ?a w = Some s'" "task_space s' M fs lim K" "only s1 s' M (unat ?a) (unat ?a + 8)" "uword s' M ?a = Some w"
    using task_space_uputw [OF s1(2) aa, of w] by blast
  have "push_words M (w # ws) sp s = Some (?a, s')" using s1(1) s'(1) unfolding a by simp
  moreover have "only s s' M (unat sp - 8 * Suc ?l) (unat sp)"
    using only_trans [OF s1(3) s'(3), of "unat sp - 8 * Suc ?l" "unat sp"] ua(1) pos by simp
  moreover have "uword s' M (?a + 8 * of_nat i) = Some ((w # ws) ! i)" if i: "i < Suc ?l" for i
  proof (cases i)
    case 0
    then show ?thesis using s'(4) by simp
  next
    case (Suc j)
    let ?b = "sp - 8 * of_nat ?l + 8 * of_nat j"
    have e: "?a + 8 * of_nat i = ?b" using Suc by (simp add: algebra_simps)
    have b: "?b = sp - 8 * of_nat (?l - j)" using Suc i by (simp add: of_nat_diff algebra_simps)
    have "unat B + 8 * (?l - j) \<le> unat sp" using Cons.prems(4) by simp
    from push_room [OF Cons.prems(3) this] have ub: "unat ?b = unat sp - 8 * (?l - j)" "stack_ptr B n ?b" unfolding b .
    have "j < ?l" using Suc i by simp
    then have "unat sp - 8 * (?l - j) < unat sp" using pos by simp
    then have "unat ?b < unat sp" unfolding ub(1) .
    then have "uaddr ?b" using Cons.prems(3) by (simp add: stack_ptr_def uaddr_def)
    moreover have "unat ?b mod 8 = 0" using ub(2) by (simp add: stack_ptr_def)
    moreover have "unat ?a + 8 \<le> unat ?b"
    proof -
      have "8 * (?l - j) \<le> 8 * ?l" "8 * Suc ?l = 8 * ?l + 8" by simp_all
      then show ?thesis unfolding ub(1) ua(1) using pos by linarith
    qed
    ultimately have "uword s' M ?b = uword s1 M ?b" by (intro uword_only [OF s'(3)]) simp_all
    then show ?thesis unfolding e using s1(4) i Suc by simp
  qed
  ultimately show ?case using s'(2) by auto
qed


subsection \<open>Strings\<close>

definition string_at :: "paging \<Rightarrow> u64 \<Rightarrow> u64 \<Rightarrow> string \<Rightarrow> bool" where
  "string_at s M a str \<longleftrightarrow> (\<forall>i \<le> length str. ubyte s M (a + of_nat i) = Some ((str @ [NUL]) ! i))"

lemma string_at_Cons: "string_at s M a (c # str) \<longleftrightarrow> ubyte s M a = Some c \<and> string_at s M (a + 1) str"
proof -
  have "(\<forall>i \<le> Suc n. P i) \<longleftrightarrow> P 0 \<and> (\<forall>i \<le> n. P (Suc i))" for P and n :: nat
    by (metis Suc_le_mono le0 not0_implies_Suc)
  then show ?thesis by (simp add: string_at_def add.assoc)
qed

lemma user_string_at: "string_at s M a str \<Longrightarrow> NUL \<notin> set str \<Longrightarrow> user_string s M a = Some str"
proof (induction str arbitrary: a)
  case Nil
  then have "ubyte s M a = Some NUL" by (simp add: string_at_def)
  then show ?case by (subst user_string.simps) simp
next
  case (Cons c str)
  then show ?case by (subst user_string.simps) (auto simp: string_at_Cons)
qed

text \<open>Strings within a part of the stack: each has eight times the room it needs, below the next.\<close>

fun spaced :: "u64 list \<Rightarrow> string list \<Rightarrow> bool" where
  "spaced (p # qs) (str # strs) = ((\<forall>q \<in> set qs. unat p + 8 * (length str + 1) \<le> unat q) \<and> spaced qs strs)"
| "spaced qs strs = True"

definition string_slot :: "paging \<Rightarrow> u64 \<Rightarrow> nat \<Rightarrow> nat \<Rightarrow> u64 \<Rightarrow> string \<Rightarrow> bool" where
  "string_slot s M lo hi p str \<longleftrightarrow> lo \<le> unat p \<and> unat p + 8 * (length str + 1) \<le> hi \<and> string_at s M p str
     \<and> user_range s M p (8 * (length str + 1))"

definition strings_in :: "paging \<Rightarrow> u64 \<Rightarrow> nat \<Rightarrow> nat \<Rightarrow> u64 list \<Rightarrow> string list \<Rightarrow> bool" where
  "strings_in s M lo hi qs strs \<longleftrightarrow> list_all2 (string_slot s M lo hi) qs strs \<and> spaced qs strs"

lemma string_at_only:
  assumes "only s s' M lo hi" "hi \<le> unat p \<or> unat p + length str + 1 \<le> lo" "unat p + length str + 1 \<le> 511 * 2 ^ 39" "string_at s M p str"
  shows "string_at s' M p str"
  unfolding string_at_def
proof (intro allI impI)
  fix i assume i: "i \<le> length str"
  have u: "unat (p + of_nat i) = unat p + i"
    using assms(3) i by (subst unat_add_lem [THEN iffD1]) (simp_all add: unat_of_nat)
  have "uaddr (p + of_nat i)" using u assms(3) i by (simp add: uaddr_def)
  moreover have "unat (p + of_nat i) < lo \<or> hi \<le> unat (p + of_nat i)" using u assms(2) i by auto
  ultimately have "ubyte s' M (p + of_nat i) = ubyte s M (p + of_nat i)" using assms(1) unfolding only_def by blast
  then show "ubyte s' M (p + of_nat i) = Some ((str @ [NUL]) ! i)" using assms(4) i by (simp add: string_at_def)
qed

lemma string_slot_only:
  assumes "only s s' M lo' hi'" "hi' \<le> lo" "hi \<le> 511 * 2 ^ 39" "string_slot s M lo hi p str"
  shows "string_slot s' M lo hi p str"
  using assms string_at_only [OF assms(1), of p str] only_range [OF assms(1)] by (simp add: string_slot_def)

lemma strings_in_only:
  "only s s' M lo' hi' \<Longrightarrow> hi' \<le> lo \<Longrightarrow> hi \<le> 511 * 2 ^ 39 \<Longrightarrow> strings_in s M lo hi qs strs \<Longrightarrow> strings_in s' M lo hi qs strs"
  unfolding strings_in_def by (auto elim!: list_all2_mono intro: string_slot_only)

lemma strings_in_mono: "strings_in s M lo hi qs strs \<Longrightarrow> lo' \<le> lo \<Longrightarrow> hi \<le> hi' \<Longrightarrow> strings_in s M lo' hi' qs strs"
  unfolding strings_in_def by (auto elim!: list_all2_mono simp: string_slot_def)

lemma strings_in_above: "strings_in s M lo hi qs strs \<Longrightarrow> q \<in> set qs \<Longrightarrow> lo \<le> unat q"
  unfolding strings_in_def by (auto simp: list_all2_conv_all_nth in_set_conv_nth string_slot_def)

definition strings_size :: "string list \<Rightarrow> nat" where
  "strings_size strs = (\<Sum>str \<leftarrow> strs. length str + 1)"

lemma copy_string_at:
  assumes t: "task_space s M fs lim K" and r: "user_range s M sp (length str + 1)"
  shows "\<exists>s'. copy_string M sp str s = Some s' \<and> task_space s' M fs lim K \<and> only s s' M (unat sp) (unat sp + (length str + 1))
    \<and> string_at s' M sp str"
proof -
  obtain s' where s': "copy_string M sp str s = Some s'" "task_space s' M fs lim K"
    "wrote s s' M sp (length str + 1) (\<lambda>i. (str @ [NUL]) ! unat (0 + of_nat i :: u64))"
    using user_copy_up_wrote [OF t r, of "\<lambda>i. (str @ [NUL]) ! unat i" 0] unfolding copy_string_def by blast
  have "string_at s' M sp str"
    unfolding string_at_def
  proof (intro allI impI)
    fix i assume i: "i \<le> length str"
    have l: "length str < 2 ^ 64" using r by (simp add: user_range_def)
    have u: "unat (sp + of_nat i) = unat sp + i" using user_range_part(2) [OF r, of i 1] i by simp
    have "uaddr (sp + of_nat i)" using user_range_uaddr [OF r, of "sp + of_nat i"] u i by simp
    then have "ubyte s' M (sp + of_nat i) = Some ((str @ [NUL]) ! unat (0 + of_nat i :: u64))" using s'(3) u i by (simp add: wrote_def)
    moreover have "unat (of_nat i :: u64) = i" using l i by (simp add: unat_of_nat take_bit_nat_eq_self)
    ultimately show "ubyte s' M (sp + of_nat i) = Some ((str @ [NUL]) ! i)" by simp
  qed
  then show ?thesis using s' only_wrote [OF r s'(3)] by blast
qed

lemma push_strings_spec:
  "task_space s M fs lim K \<Longrightarrow> user_range s M B n \<Longrightarrow> stack_ptr B n sp \<Longrightarrow> unat B + 8 * strings_size strs \<le> unat sp \<Longrightarrow>
   \<exists>qs s'. push_strings M strs sp s = Some (qs, sp - 8 * of_nat (strings_size strs), s') \<and> task_space s' M fs lim K
     \<and> only s s' M (unat sp - 8 * strings_size strs) (unat sp)
     \<and> strings_in s' M (unat sp - 8 * strings_size strs) (unat sp) qs strs"
proof (induction strs)
  case Nil
  then show ?case by (simp add: strings_size_def strings_in_def)
next
  case (Cons str strs)
  let ?l = "length str + 1" and ?z = "strings_size strs"
  have z: "strings_size (str # strs) = ?l + ?z" by (simp add: strings_size_def)
  have pos: "unat B + 8 * (?l + ?z) \<le> unat sp" using Cons.prems(4) unfolding z .
  obtain qs s1 where s1: "push_strings M strs sp s = Some (qs, sp - 8 * of_nat ?z, s1)" "task_space s1 M fs lim K"
    "only s s1 M (unat sp - 8 * ?z) (unat sp)" "strings_in s1 M (unat sp - 8 * ?z) (unat sp) qs strs"
    using Cons.IH [OF Cons.prems(1-3)] pos by auto
  let ?a = "sp - 8 * of_nat (?l + ?z)"
  have a: "sp - 8 * of_nat ?z - 8 * of_nat ?l = ?a" by (simp add: algebra_simps)
  note ua = push_room [OF Cons.prems(3) pos]
  have le8: "unat ?a + 8 * ?l = unat sp - 8 * ?z" unfolding ua(1) using pos by simp
  then have le: "unat ?a + ?l \<le> unat sp - 8 * ?z" by simp
  have r1: "user_range s1 M B n" using only_range [OF s1(3) Cons.prems(2)] .
  have r8: "user_range s1 M ?a (8 * ?l)"
  proof (rule user_range_sub [OF r1])
    show "unat B \<le> unat ?a" using ua(2) by (simp only: stack_ptr_def)
    have "unat sp \<le> unat B + n" using Cons.prems(3) by (simp only: stack_ptr_def)
    then show "unat ?a + 8 * ?l \<le> unat B + n" using le8 by linarith
  qed
  have "user_range s1 M ?a ?l" by (rule user_range_sub [OF r8]) simp_all
  from copy_string_at [OF s1(2) this] obtain s' where s': "copy_string M ?a str s1 = Some s'" "task_space s' M fs lim K"
    "only s1 s' M (unat ?a) (unat ?a + ?l)" "string_at s' M ?a str" by blast
  have run: "push_strings M (str # strs) sp s = Some (?a # qs, ?a, s')"
    using s1(1) s'(1) unfolding push_strings.simps a [symmetric] by (simp add: Let_def)
  have hi: "unat sp \<le> 511 * 2 ^ 39" using Cons.prems(3) by (simp add: stack_ptr_def)
  have lo: "unat ?a \<le> unat sp - 8 * ?z" using le by simp
  have "strings_in s' M (unat ?a) (unat sp) qs strs"
    using strings_in_mono [OF strings_in_only [OF s'(3) le hi s1(4)] lo] by simp
  moreover have "\<forall>q \<in> set qs. unat ?a + 8 * ?l \<le> unat q" using strings_in_above [OF s1(4)] unfolding le8 by blast
  moreover have "unat ?a + 8 * ?l \<le> unat sp" unfolding le8 by simp
  ultimately have "strings_in s' M (unat ?a) (unat sp) (?a # qs) (str # strs)"
    using s'(4) only_range [OF s'(3) r8] by (simp add: strings_in_def string_slot_def)
  moreover have "only s s' M (unat ?a) (unat sp)"
    using only_trans [OF s1(3) s'(3) lo] le by simp
  ultimately show ?case using run s'(2) ua(1) unfolding z by auto
qed


section \<open>The argument block\<close>

lemma push_words_append:
  "push_words M (xs @ ys) sp s = Option.bind (push_words M ys sp s) (\<lambda>(sp, s). push_words M xs sp s)"
  by (induction xs) (simp_all split: bind_split)

definition words_at :: "paging \<Rightarrow> u64 \<Rightarrow> u64 \<Rightarrow> u64 list \<Rightarrow> bool" where
  "words_at s M a ws \<longleftrightarrow> (\<forall>i < length ws. uword s M (a + 8 * of_nat i) = Some (ws ! i))"

lemma words_at_Cons: "words_at s M a (w # ws) \<longleftrightarrow> uword s M a = Some w \<and> words_at s M (a + 8) ws"
proof -
  have "(\<forall>i < Suc n. P i) \<longleftrightarrow> P 0 \<and> (\<forall>i < n. P (Suc i))" for P and n :: nat
    by (metis Suc_less_eq lessI less_Suc_eq_0_disj zero_less_Suc)
  then show ?thesis by (simp add: words_at_def algebra_simps)
qed

lemma words_at_append: "words_at s M a (xs @ ys) \<longleftrightarrow> words_at s M a xs \<and> words_at s M (a + 8 * of_nat (length xs)) ys"
  by (induction xs arbitrary: a) (auto simp: words_at_Cons words_at_def [of _ _ _ "[]"] algebra_simps)

lemma start_argv_words: "words_at s M a ws \<Longrightarrow> start_argv s M (length ws) a = Some ws"
  by (induction ws arbitrary: a) (simp_all add: words_at_Cons)

lemma start_env_words: "words_at s M a (ws @ [0]) \<Longrightarrow> 0 \<notin> set ws \<Longrightarrow> iter + length ws \<le> 100 \<Longrightarrow> start_env s M a iter = Some ws"
proof (induction ws arbitrary: a iter)
  case Nil
  then show ?case by (subst start_env.simps) (simp add: words_at_Cons)
next
  case (Cons w ws)
  then show ?case by (subst start_env.simps) (simp add: words_at_Cons)
qed

text \<open>The block at \<open>sp\<close>: the count, the argument pointers, NULL, the environment's pointers, NULL.\<close>

definition arg_block :: "paging \<Rightarrow> u64 \<Rightarrow> nat \<Rightarrow> nat \<Rightarrow> u64 \<Rightarrow> string list \<Rightarrow> string list \<Rightarrow> bool" where
  "arg_block s M lo hi sp args envs \<longleftrightarrow> (\<exists>qs rs. words_at s M sp (of_nat (length args) # qs @ 0 # rs @ [0])
     \<and> strings_in s M lo hi qs args \<and> strings_in s M lo hi rs envs)"

lemma strings_in_user_string:
  "strings_in s M lo hi qs strs \<Longrightarrow> \<forall>str \<in> set strs. NUL \<notin> set str \<Longrightarrow> map (user_string s M) qs = map Some strs"
  unfolding strings_in_def string_slot_def list_all2_conv_all_nth by (auto intro!: nth_equalityI user_string_at)

lemma arg_block_read:
  assumes b: "arg_block s M lo hi sp args envs" and lo: "0 < lo" and nul: "\<forall>str \<in> set args \<union> set envs. NUL \<notin> set str"
    and len: "length args \<le> 20" "length envs \<le> 100"
  shows "\<exists>argv env. start_args s M (sp - 8) = Some (int (length args), argv, env)
     \<and> map (user_string s M) argv = map Some args \<and> map (user_string s M) env = map Some envs
     \<and> strings_in s M lo hi argv args"
proof -
  obtain qs rs where w: "words_at s M sp (of_nat (length args) # qs @ 0 # rs @ [0])"
    and st: "strings_in s M lo hi qs args" "strings_in s M lo hi rs envs"
    using b by (auto simp: arg_block_def)
  have l: "length qs = length args" "length rs = length envs" using st by (auto simp: strings_in_def dest: list_all2_lengthD)
  have c: "to_int32 (uint (of_nat (length args) :: u64)) = int (length args)"
    using len(1) by (simp add: uint_nat unat_of_nat take_bit_nat_eq_self to_int32_id)
  have z: "0 \<notin> set rs" using strings_in_above [OF st(2), of 0] lo by auto
  have w': "uword s M sp = Some (of_nat (length args))" "words_at s M (sp + 8) qs" "words_at s M (sp + 8 + 8 * of_nat (length qs) + 8) (rs @ [0])"
    using w by (simp_all add: words_at_Cons words_at_append)
  have "start_args s M (sp - 8) = Some (int (length args), qs, rs)"
    using w'(1) start_argv_words [OF w'(2)] start_env_words [OF w'(3) z, of 0] len l c
    by (simp add: start_args_def Let_def algebra_simps)
  then show ?thesis using st nul strings_in_user_string by blast
qed

text \<open>The pushes of \<open>setRSPandExec\<close> as one run: the words, pushed one list after the other, are one list.\<close>

definition push_block :: "u64 \<Rightarrow> string list \<Rightarrow> string list \<Rightarrow> u64 \<Rightarrow> paging \<Rightarrow> (u64 \<times> paging) option" where
  "push_block M E A sp p = do {
     (rs, sp, p) \<leftarrow> push_strings M E sp p;
     (qs, sp, p) \<leftarrow> push_strings M A sp p;
     push_words M (of_nat (length A) # qs @ 0 # rs @ [0]) sp p
   }"

lemma setRSPandExec_block:
  "setRSPandExec ts envl argc envs args k = do {
     (sp, p) \<leftarrow> push_block (cr3 k) (map envs [0..<envl]) (map args [0..<argc]) (task_rsp (taskQueue k ts)) (pg k);
     Some (enter_user ts (set_tss_rsp (kstack_top k ts) (upd_task ts (\<lambda>t. t\<lparr>task_rsp := sp\<rparr>) (k\<lparr>pg := p\<rparr>))))
   }"
proof -
  have w: "w # qs @ 0 # rs @ [0] = [w] @ qs @ [0] @ rs @ [0]" for w :: u64 and qs rs by simp
  show ?thesis
    unfolding setRSPandExec_def push_block_def w push_words_append
    by (simp add: Let_def split_def)
qed

lemma push_block_spec:
  assumes t: "task_space s M fs lim K" and r: "user_range s M B n" and sp: "stack_ptr B n sp"
    and size: "unat B + 8 * strings_size E + 8 * strings_size A + 8 * length E + 8 * length A + 24 \<le> unat sp" and B: "0 < unat B"
  shows "\<exists>s' sp'. push_block M E A sp s = Some (sp', s') \<and> task_space s' M fs lim K \<and> only s s' M (unat B) (unat B + n)
     \<and> arg_block s' M (unat B) (unat B + n) sp' A E"
proof -
  define e a where "e = strings_size E" and "a = strings_size A"
  have hi: "unat sp \<le> 511 * 2 ^ 39" "unat sp \<le> unat B + n" using sp by (auto simp: stack_ptr_def)
  have 1: "unat B + 8 * e \<le> unat sp" using size by (simp add: e_def)
  note roomE = push_room [OF sp 1]
  from push_strings_spec [OF t r sp 1 [unfolded e_def]] obtain rs s1 where
    s1: "push_strings M E sp s = Some (rs, sp - 8 * of_nat e, s1)"
    "task_space s1 M fs lim K" "only s s1 M (unat sp - 8 * e) (unat sp)" "strings_in s1 M (unat sp - 8 * e) (unat sp) rs E"
    unfolding e_def by blast
  define sp1 where "sp1 = sp - 8 * of_nat e"
  have u1: "unat sp1 = unat sp - 8 * e" "stack_ptr B n sp1" using roomE by (simp_all add: sp1_def)
  have 2: "unat B + 8 * a \<le> unat sp1" unfolding u1(1) using size by (simp add: e_def a_def)
  note roomA = push_room [OF u1(2) 2]
  from push_strings_spec [OF s1(2) only_range [OF s1(3) r] u1(2) 2 [unfolded a_def]] obtain qs s2 where
    s2: "push_strings M A sp1 s1 = Some (qs, sp1 - 8 * of_nat a, s2)"
    "task_space s2 M fs lim K" "only s1 s2 M (unat sp1 - 8 * a) (unat sp1)" "strings_in s2 M (unat sp1 - 8 * a) (unat sp1) qs A"
    unfolding a_def by blast
  define sp2 where "sp2 = sp1 - 8 * of_nat a"
  have u2: "unat sp2 = unat sp1 - 8 * a" "stack_ptr B n sp2" using roomA by (simp_all add: sp2_def)
  have l: "length qs = length A" "length rs = length E" using s1(4) s2(4) by (auto simp: strings_in_def dest: list_all2_lengthD)
  define ws where "ws = of_nat (length A) # qs @ 0 # rs @ [0]"
  have lw: "length ws = length A + length E + 3" by (simp add: ws_def l)
  have 3: "unat B + 8 * length ws \<le> unat sp2" unfolding u2(1) u1(1) lw using size by (simp add: e_def a_def)
  note room = push_room [OF u2(2) 3]
  have r2: "user_range s2 M B n" using only_range [OF s2(3) only_range [OF s1(3) r]] .
  from push_words_spec [OF s2(2) r2 u2(2) 3] obtain s' where
    s': "push_words M ws sp2 s2 = Some (sp2 - 8 * of_nat (length ws), s')" "task_space s' M fs lim K"
    "only s2 s' M (unat sp2 - 8 * length ws) (unat sp2)"
    "\<forall>i < length ws. uword s' M (sp2 - 8 * of_nat (length ws) + 8 * of_nat i) = Some (ws ! i)" by blast
  define sp' where "sp' = sp2 - 8 * of_nat (length ws)"
  have run: "push_block M E A sp s = Some (sp', s')"
    using s1(1) s2(1) s'(1) by (simp add: push_block_def sp1_def [symmetric] sp2_def [symmetric] ws_def [symmetric] sp'_def [symmetric] del: push_words.simps)
  have o1: "only s1 s2 M (unat sp2) (unat sp1)" using s2(3) u2(1) by simp
  have "unat sp \<le> 511 * 2 ^ 39" "unat sp1 \<le> 511 * 2 ^ 39" using hi u1(1) by simp_all
  then have E': "strings_in s' M (unat sp1) (unat sp) rs E" "strings_in s' M (unat sp2) (unat sp1) qs A"
    using s1(4) s2(4) strings_in_only [OF o1] strings_in_only [OF s'(3)] u1(1) u2(1) by simp_all
  have "words_at s' M sp' (of_nat (length A) # qs @ 0 # rs @ [0])"
    using s'(4) unfolding words_at_def ws_def [symmetric] sp'_def [symmetric] .
  moreover have "strings_in s' M (unat B) (unat B + n) rs E"
    by (rule strings_in_mono [OF E'(1)]) (use 2 hi u1(1) in simp_all)
  moreover have "strings_in s' M (unat B) (unat B + n) qs A"
    by (rule strings_in_mono [OF E'(2)]) (use 3 hi u1(1) in simp_all)
  ultimately have "arg_block s' M (unat B) (unat B + n) sp' A E" unfolding arg_block_def by blast
  moreover have "only s s' M (unat B) (unat B + n)"
  proof -
    have lo: "unat B \<le> unat sp - 8 * e" "unat B \<le> unat sp1 - 8 * a" "unat B \<le> unat sp2 - 8 * length ws" using 1 2 3 by simp_all
    have up: "unat sp1 \<le> unat B + n" "unat sp2 \<le> unat B + n" using hi u1(1) u2(1) by simp_all
    have "only s s2 M (unat B) (unat B + n)" using only_trans [OF s1(3) s2(3) lo(1) hi(2) lo(2) up(1)] .
    from only_trans [OF this s'(3) _ _ lo(3) up(2)] show ?thesis by simp
  qed
  ultimately show ?thesis using run s'(2) by blast
qed


section \<open>Starting a program\<close>

lemma STACK_page: "unat STACK_S = 4096 * (unat STACK_S div 4096)" "unat STACK_S + 4096 \<le> 511 * 2 ^ 39" "uaddr STACK_S" "0 < unat STACK_S"
  by (simp_all add: STACK_S_def uaddr_def)

lemma map_stack_page:
  assumes t: "task_space s M (f # fs) lim K" and len: "4 \<le> length fs"
  shows "\<exists>s1 s2 g s3 j. getFreeFrame s = Some (f, s1) \<and> initTaskPagetables STACK_S f (kernbase + M) s1 = Some s2
    \<and> kmalloc 32 s2 = Some (kernbase + g, s3) \<and> j \<le> 4 \<and> task_space s3 M (drop j fs) lim K
    \<and> user_range s3 M STACK_S 4096
    \<and> (\<forall>b. uaddr b \<longrightarrow> unat b div 4096 \<noteq> unat STACK_S div 4096 \<longrightarrow> ubyte s3 M b = ubyte s M b)"
proof -
  have "3 \<le> length fs" using len by simp
  from task_space_page [OF t this STACK_page(3)] obtain s1 s2 j where
    s: "getFreeFrame s = Some (f, s1)" "initTaskPagetables STACK_S f (kernbase + M) s1 = Some s2" "j \<le> 3"
    "task_space s2 M (drop j fs) lim K" "maps s s2 M STACK_S (f OR 7)"
    "\<forall>b. uaddr b \<longrightarrow> \<not> same_page STACK_S b \<longrightarrow> ubyte s2 M b = ubyte s M b" by blast
  obtain g gs where g: "drop j fs = g # gs" using len s(3) by (cases "drop j fs") auto
  obtain s3 where s3: "kmalloc 32 s2 = Some (kernbase + g, s3)" "pm s3 = pm s2" "task_space s3 M gs lim K"
    using task_space_kmalloc [OF s(4) [unfolded g]] by blast
  have gs: "gs = drop (Suc j) fs" using g by (metis drop_Suc list.sel(3) tl_drop)
  have u: "ubyte s3 M b = ubyte s2 M b" for b using s3(2) by (simp add: ubyte_def)
  have "user_range s3 M STACK_S 4096"
    unfolding user_range_def
  proof (intro conjI allI impI)
    show "unat STACK_S + 4096 \<le> 511 * 2 ^ 39" by (rule STACK_page)
    fix b :: u64 assume b: "unat STACK_S \<le> unat b \<and> unat b < unat STACK_S + 4096"
    then have ub: "uaddr b" using STACK_page(2) unfolding uaddr_def by linarith
    have "unat b div 4096 = unat STACK_S div 4096" using b STACK_page(1) by linarith
    then have "same_page STACK_S b" using same_page_iff [OF STACK_page(3) ub] by simp
    then show "ubyte s3 M b \<noteq> None" using s(5) uaddr_user [OF ub] unfolding u by (simp add: maps_def ubyte_def)
  qed
  moreover have "\<forall>b. uaddr b \<longrightarrow> unat b div 4096 \<noteq> unat STACK_S div 4096 \<longrightarrow> ubyte s3 M b = ubyte s M b"
    using s(6) same_page_iff [OF STACK_page(3)] unfolding u by metis
  moreover have "Suc j \<le> 4" using s(3) by simp
  ultimately show ?thesis using s(1,2) s3 gs by blast
qed

lemma stack_top: "stack_ptr STACK_S 4096 (STACK_S + 510 * 8)" "unat (STACK_S + 510 * 8) = unat STACK_S + 4080"
  by (simp_all add: stack_ptr_def STACK_S_def)

lemma env_loop_empty: "env_loop [] 0 argc envs = Some (argc, envs)"
  by (subst env_loop.simps) simp

lemma env_loop_never: "env_loop env envl argc envs = Some r \<Longrightarrow> length env \<le> envl"
proof (rule env_loop.raw_induct [where P = "\<lambda>env envl argc envs r. length env \<le> envl", rotated])
  fix lp env envl argc envs r
  assume IH: "\<And>env envl argc envs r. lp env envl argc envs = Some r \<Longrightarrow> length env \<le> envl"
    and e: "(if envl < length env then Option.bind (set_row (int envl) (env ! envl) envs) (\<lambda>envs. lp env envl (to_int32 (argc + 1)) envs) else Some (argc, envs)) = Some r"
  show "length env \<le> envl"
  proof (rule ccontr)
    assume n: "\<not> length env \<le> envl"
    then obtain x where "lp env envl (to_int32 (argc + 1)) x = Some r" using e by (auto split: if_splits bind_splits)
    from IH [OF this] n show False by simp
  qed
qed simp

lemma arg_loop_spec:
  "argc + length argv \<le> 100 \<Longrightarrow> \<forall>a \<in> set argv. length a < 100 \<Longrightarrow>
   \<exists>args'. arg_loop argc argv args = Some (argc + length argv, args') \<and> map args' [argc..<argc + length argv] = argv
     \<and> (\<forall>i < argc. args' i = args i)"
proof (induction argv arbitrary: argc args)
  case (Cons a as)
  have "argc + 1 + length as \<le> 100" "\<forall>a \<in> set as. length a < 100" using Cons.prems by auto
  from Cons.IH [OF this, of "args(argc := a)"] obtain args' where a: "arg_loop (argc + 1) as (args(argc := a)) = Some (argc + 1 + length as, args')"
    "map args' [argc + 1..<argc + 1 + length as] = as" "\<forall>i < argc + 1. args' i = (args(argc := a)) i"
    by blast
  have "[argc..<argc + length (a # as)] = argc # [argc + 1..<argc + 1 + length as]" by (subst upt_conv_Cons) (simp_all del: upt_Suc)
  moreover have "args' argc = a" using a(3) by simp
  moreover have "arg_loop argc (a # as) args = Some (argc + length (a # as), args')"
    using a(1) Cons.prems by (simp add: set_row_def)
  moreover have "\<forall>i < argc. args' i = args i" using a(3) by simp
  ultimately show ?case using a(2) by (intro exI [of _ args']) simp
qed simp


text \<open>What \<open>execvpe\<close> needs to start the program \<open>ref\<close>: the file exists, its segments are in range, apart
  from each other and from the stack's page, and there are frames; the arguments fit the stack's page.\<close>

definition startable :: "fs \<Rightarrow> string \<Rightarrow> u64 \<Rightarrow> u64 list \<Rightarrow> bool" where
  "startable f ref fa fs \<longleftrightarrow> \<not> validPath ref \<and> length ref < 96 \<and> content_address f (''bin/'' @ ref) = Some fa \<and> 512 \<le> fa
     \<and> loadable (tm f) fa (header_count (tm f) fa) \<and> load_cost (tm f) fa (header_count (tm f) fa) + 6 \<le> length fs
     \<and> (\<forall>ep \<in> set (segments (tm f) fa (header_count (tm f) fa)). unat STACK_S div 4096 \<notin> seg_pages ep)"

definition args_fit :: "string list \<Rightarrow> bool" where
  "args_fit argv \<longleftrightarrow> length argv \<le> 20 \<and> (\<forall>a \<in> set argv. length a < 100 \<and> NUL \<notin> set a)
     \<and> 8 * strings_size argv + 8 * length argv + 24 \<le> 4080"

text \<open>The task's tables and the kernel's are apart and the processor runs on the task's.\<close>

definition exec_space :: "kernel \<Rightarrow> u64 list \<Rightarrow> u64 \<Rightarrow> u64 set \<Rightarrow> bool" where
  "exec_space k fs lim K \<longleftrightarrow> cr3 k = task_pml4e (cur k) \<and> aligned (cr3 k) \<and> kspace (pg k) lim K fs
     \<and> user_tables (pm (pg k)) (cr3 k) \<inter> (K \<union> set fs) = {} \<and> K \<inter> set fs = {}"

lemma image_apart_stack:
  assumes im: "program_image m fa s M" and ld: "loadable m fa (header_count m fa)"
    and ap: "\<forall>ep \<in> set (segments m fa (header_count m fa)). unat STACK_S div 4096 \<notin> seg_pages ep"
    and o: "\<forall>b. uaddr b \<longrightarrow> unat b div 4096 \<noteq> unat STACK_S div 4096 \<longrightarrow> ubyte s' M b = ubyte s M b"
    and i: "i < header_count m fa" "p_type (phdr m fa i) = 1"
  shows "seg_loaded m fa s' M (phdr m fa i)"
proof -
  have e: "phdr m fa i \<in> set (segments m fa (header_count m fa))" using i by (auto simp: segments_def load_indices_def)
  then have ok: "seg_ok (phdr m fa i)" and na: "unat STACK_S div 4096 \<notin> seg_pages (phdr m fa i)"
    using ld ap by (auto simp: loadable_def list_all_iff)
  have "seg_loaded m fa s M (phdr m fa i)" using im i by (simp add: program_image_def)
  moreover have "\<forall>b. uaddr b \<longrightarrow> unat b div 4096 \<in> seg_pages (phdr m fa i) \<longrightarrow> ubyte s' M b = ubyte s M b"
    using o na by metis
  ultimately show ?thesis using seg_loaded_frame [OF _ ok] by blast
qed

lemma execvpe_spec:
  assumes st: "startable f ref fa fs" and fit: "args_fit argv" and sp: "exec_space k fs lim K"
  shows "\<exists>k' s' sp'. execvpe f garbage behind args0 envs0 ref argv [] k = Some (Entered k')
    \<and> k' = enter_user (currentTask k) (upd_task (currentTask k) (\<lambda>t. t\<lparr>name := ''bin/'' @ ref,
         regs := (regs t)\<lparr>rip := e_entry (read_Ehdr (tm f) fa)\<rparr>, ustack := STACK_S, task_rsp := sp',
         vm := (garbage 0)\<lparr>beginAddress := STACK_S, lastAddress := 0x100FFEFF0000\<rparr> # (garbage 0)\<lparr>beginAddress := 0x4B0FFFFF0000, lastAddress := 0x4B0FFFFF0000\<rparr>
               # areas (tm f) garbage fa (header_count (tm f) fa) @ vm t\<rparr>) (k\<lparr>pg := s', tss_rsp0 := kstack_top k (currentTask k)\<rparr>))
    \<and> arg_block s' (cr3 k) (unat STACK_S) (unat STACK_S + 4096) sp' argv []
    \<and> (\<forall>i < header_count (tm f) fa. p_type (phdr (tm f) fa i) = 1 \<longrightarrow> seg_loaded (tm f) fa s' (cr3 k) (phdr (tm f) fa i))
    \<and> (\<exists>g. task_space s' (cr3 k) (drop g fs) lim K)"
proof -
  let ?ts = "currentTask k" and ?M = "cr3 k" and ?m = "tm f" and ?n = "header_count (tm f) fa"
  note sd = st [unfolded startable_def] and sx = sp [unfolded exec_space_def]
  define k1 where "k1 = upd_task ?ts (\<lambda>t. t\<lparr>name := ''bin/'' @ ref\<rparr>) k"
  have k1: "pg k1 = pg k" "cr3 k1 = ?M" "task_pml4e (taskQueue k1 ?ts) = ?M" "currentTask k1 = ?ts" using sx by (simp_all add: k1_def)
  have find: "setFileAddress f behind ref argv ?ts args0 k = Some (0, fa, args0, k1)"
    using sd by (simp add: setFileAddress_def strcpy_field_def Let_def k1_def not_less)
  have "0 + length argv \<le> 100" "\<forall>a \<in> set argv. length a < 100" using fit by (auto simp: args_fit_def)
  from arg_loop_spec [OF this, of args0] obtain args where args: "arg_loop 0 argv args0 = Some (length argv, args)" "map args [0..<length argv] = argv" by auto
  have ks: "kspace (pg k1) lim K fs" and al: "aligned ?M" and dj: "user_tables (pm (pg k1)) ?M \<inter> (K \<union> set fs) = {}" "K \<inter> set fs = {}"
    using sx unfolding k1(1) by blast+
  have "load_cost ?m fa ?n + 6 \<le> length fs" using sd by blast
  then have ld: "loadable ?m fa ?n" "load_cost ?m fa ?n \<le> length fs" using sd by auto
  obtain s1 g where s1: "readELFandExec ?m garbage fa ?ts k1 = Some (kernbase + ?M,
        upd_task ?ts (\<lambda>t. t\<lparr>regs := (regs t)\<lparr>rip := e_entry (read_Ehdr ?m fa)\<rparr>, vm := areas ?m garbage fa ?n @ vm t\<rparr>) (k1\<lparr>pg := s1\<rparr>))"
    "g \<le> load_cost ?m fa ?n" "task_space s1 ?M (drop g fs) lim K" "program_image ?m fa s1 ?M"
    using readELFandExec_spec [OF ks k1(3) [symmetric] al dj ld, of garbage] by blast
  have "load_cost ?m fa ?n + 6 \<le> length fs" using sd by blast
  then have len: "6 \<le> length (drop g fs)" using s1(2) by simp
  obtain x xs where x: "drop g fs = x # xs" "5 \<le> length xs" using len by (cases "drop g fs") auto
  obtain y ys where y: "xs = y # ys" "4 \<le> length ys" using x(2) by (cases xs) auto
  obtain s2 where s2: "kmalloc 32 s1 = Some (kernbase + x, s2)" "pm s2 = pm s1" "task_space s2 ?M (y # ys) lim K"
    using task_space_kmalloc [OF s1(3) [unfolded x(1) y(1)]] by blast
  from map_stack_page [OF s2(3) y(2)] obtain s3 s4 z s5 j where
    s5: "getFreeFrame s2 = Some (y, s3)" "initTaskPagetables STACK_S y (kernbase + ?M) s3 = Some s4"
    "kmalloc 32 s4 = Some (kernbase + z, s5)" "task_space s5 ?M (drop j ys) lim K" "user_range s5 ?M STACK_S 4096"
    "\<forall>b. uaddr b \<longrightarrow> unat b div 4096 \<noteq> unat STACK_S div 4096 \<longrightarrow> ubyte s5 ?M b = ubyte s2 ?M b" by blast
  have "unat STACK_S + 8 * strings_size [] + 8 * strings_size argv + 8 * length ([] :: string list) + 8 * length argv + 24 \<le> unat (STACK_S + 510 * 8)"
    using fit unfolding stack_top(2) by (simp add: args_fit_def strings_size_def)
  from push_block_spec [OF s5(4,5) stack_top(1) this STACK_page(4)] obtain s' sp' where
    s': "push_block ?M [] argv (STACK_S + 510 * 8) s5 = Some (sp', s')" "task_space s' ?M (drop j ys) lim K"
    "only s5 s' ?M (unat STACK_S) (unat STACK_S + 4096)" "arg_block s' ?M (unat STACK_S) (unat STACK_S + 4096) sp' argv []" by blast
  let ?k' = "enter_user ?ts (upd_task ?ts (\<lambda>t. t\<lparr>name := ''bin/'' @ ref,
         regs := (regs t)\<lparr>rip := e_entry (read_Ehdr ?m fa)\<rparr>, ustack := STACK_S, task_rsp := sp',
         vm := (garbage 0)\<lparr>beginAddress := STACK_S, lastAddress := 0x100FFEFF0000\<rparr> # (garbage 0)\<lparr>beginAddress := 0x4B0FFFFF0000, lastAddress := 0x4B0FFFFF0000\<rparr>
               # areas ?m garbage fa ?n @ vm t\<rparr>) (k\<lparr>pg := s', tss_rsp0 := kstack_top k ?ts\<rparr>))"
  have run: "execvpe f garbage behind args0 envs0 ref argv [] k = Some (Entered ?k')"
  proof -
    define k2 where "k2 = upd_task ?ts (\<lambda>t. t\<lparr>regs := (regs t)\<lparr>rip := e_entry (read_Ehdr ?m fa)\<rparr>, vm := areas ?m garbage fa ?n @ vm t\<rparr>) (k1\<lparr>pg := s1\<rparr>)"
    define k3 where "k3 = upd_task ?ts (\<lambda>t. t\<lparr>vm := (garbage 0)\<lparr>beginAddress := 0x4B0FFFFF0000, lastAddress := 0x4B0FFFFF0000\<rparr> # vm t\<rparr>) (k2\<lparr>pg := s2\<rparr>)"
    define k4 where "k4 = upd_task ?ts (\<lambda>t. t\<lparr>ustack := STACK_S, task_rsp := STACK_S + 510 * 8,
       vm := (garbage 0)\<lparr>beginAddress := STACK_S, lastAddress := 0x100FFEFF0000\<rparr> # vm t\<rparr>) (k3\<lparr>pg := s5\<rparr>)"
    have "pg k2 = s1" "pg k3 = s2" by (simp_all add: k2_def k3_def)
    then have 3: "shiftTaskVMA (garbage 0) ?ts 0x4B0FFFFF0000 0x4B0FFFFF0000 k2 = Some k3"
      and 4: "setNewVMA (garbage 0) ?ts (kernbase + ?M) STACK_S 0x100FFEFF0000 k3 = Some k4"
      using s2(1) s5(1-3) by (simp_all add: shiftTaskVMA_def setNewVMA_def Let_def k3_def [symmetric]) (simp add: k4_def upd_task_def)
    have c4: "cr3 k4 = ?M" "pg k4 = s5" "task_rsp (taskQueue k4 ?ts) = STACK_S + 510 * 8" "kstack_top k4 ?ts = kstack_top k ?ts"
      using k1(2) by (simp_all add: k4_def k3_def k2_def) (simp add: k1_def)
    have 5: "setRSPandExec ?ts 0 (length argv) envs0 args k4
        = Some (enter_user ?ts (set_tss_rsp (kstack_top k ?ts) (upd_task ?ts (\<lambda>t. t\<lparr>task_rsp := sp'\<rparr>) (k4\<lparr>pg := s'\<rparr>))))"
      using s'(1) unfolding setRSPandExec_block c4 args(2) by simp
    have "enter_user ?ts (set_tss_rsp (kstack_top k ?ts) (upd_task ?ts (\<lambda>t. t\<lparr>task_rsp := sp'\<rparr>) (k4\<lparr>pg := s'\<rparr>))) = ?k'"
      by (rule kernel.equality)
        (auto simp: k4_def k3_def k2_def k1_def set_tss_rsp_def upd_task_def enter_user_def intro: taskStruct.equality)
    moreover have "\<not> fa < 512" using sd by (simp add: not_less)
    ultimately show ?thesis
      using find args(1) s1(1) 3 4 5 env_loop_empty by (simp add: execvpe_def Let_def k2_def [symmetric])
  qed
  have "ubyte s' ?M b = ubyte s1 ?M b" if b: "uaddr b" "unat b div 4096 \<noteq> unat STACK_S div 4096" for b
  proof -
    have "unat b < unat STACK_S \<or> unat STACK_S + 4096 \<le> unat b" using b(2) STACK_page(1) by linarith
    then have "ubyte s' ?M b = ubyte s5 ?M b" using s'(3) b(1) unfolding only_def by blast
    also have "\<dots> = ubyte s2 ?M b" using s5(6) b by blast
    finally show ?thesis using s2(2) by (simp add: ubyte_def)
  qed
  then have "\<forall>i < ?n. p_type (phdr ?m fa i) = 1 \<longrightarrow> seg_loaded ?m fa s' ?M (phdr ?m fa i)"
    using image_apart_stack [OF s1(4) ld(1)] sd by blast
  moreover have "drop (j + 2 + g) fs = drop (j + 2) (drop g fs)" by (simp only: drop_drop)
  then have "task_space s' ?M (drop (j + 2 + g) fs) lim K" using s'(2) by (simp add: x(1) y(1))
  ultimately show ?thesis using run s'(4) by blast
qed


lemma execvpe_enters:
  assumes "startable f ref fa fs" and "args_fit argv" and "exec_space k fs lim K"
  shows "\<exists>k' av. execvpe f garbage behind args0 envs0 ref argv [] k = Some (Entered k')
    \<and> cpu_rip k' = e_entry (read_Ehdr (tm f) fa) \<and> currentTask k' = currentTask k \<and> name (cur k') = ''bin/'' @ ref
    \<and> start_args (pg k') (cr3 k') (cpu_rsp k' - 8) = Some (int (length argv), av, [])
    \<and> map (user_string (pg k') (cr3 k')) av = map Some argv \<and> strings_in (pg k') (cr3 k') (unat STACK_S) (unat STACK_S + 4096) av argv
    \<and> (\<exists>g. task_space (pg k') (cr3 k') (drop g fs) lim K)
    \<and> (\<forall>i < header_count (tm f) fa. p_type (phdr (tm f) fa i) = 1 \<longrightarrow> seg_loaded (tm f) fa (pg k') (cr3 k') (phdr (tm f) fa i))"
proof -
  from execvpe_spec [OF assms, of garbage behind args0 envs0] obtain k' s' sp' where
    run: "execvpe f garbage behind args0 envs0 ref argv [] k = Some (Entered k')" and
    k': "k' = enter_user (currentTask k) (upd_task (currentTask k) (\<lambda>t. t\<lparr>name := ''bin/'' @ ref,
         regs := (regs t)\<lparr>rip := e_entry (read_Ehdr (tm f) fa)\<rparr>, ustack := STACK_S, task_rsp := sp',
         vm := (garbage 0)\<lparr>beginAddress := STACK_S, lastAddress := 0x100FFEFF0000\<rparr> # (garbage 0)\<lparr>beginAddress := 0x4B0FFFFF0000, lastAddress := 0x4B0FFFFF0000\<rparr>
               # areas (tm f) garbage fa (header_count (tm f) fa) @ vm t\<rparr>) (k\<lparr>pg := s', tss_rsp0 := kstack_top k (currentTask k)\<rparr>))" and
    b: "arg_block s' (cr3 k) (unat STACK_S) (unat STACK_S + 4096) sp' argv []" and
    ts: "\<exists>g. task_space s' (cr3 k) (drop g fs) lim K" and
    img: "\<forall>i < header_count (tm f) fa. p_type (phdr (tm f) fa i) = 1 \<longrightarrow> seg_loaded (tm f) fa s' (cr3 k) (phdr (tm f) fa i)" by blast
  have c: "pg k' = s'" "cr3 k' = cr3 k" "cpu_rsp k' = sp'" "cpu_rip k' = e_entry (read_Ehdr (tm f) fa)" "currentTask k' = currentTask k"
    "name (cur k') = ''bin/'' @ ref" by (simp_all add: k' enter_user_def)
  have "\<forall>str \<in> set argv \<union> set []. NUL \<notin> set str" "length argv \<le> 20" using assms(2) by (auto simp: args_fit_def)
  from arg_block_read [OF b STACK_page(4) this] obtain av where
    "start_args s' (cr3 k) (sp' - 8) = Some (int (length argv), av, [])" "map (user_string s' (cr3 k)) av = map Some argv"
    "strings_in s' (cr3 k) (unat STACK_S) (unat STACK_S + 4096) av argv" by auto
  then show ?thesis using run img ts c by (intro exI [of _ k'] exI [of _ av]) simp
qed

text \<open>C31: \<open>execvpe\<close> starts the program with its arguments. When \<^verbatim>\<open>bin/ref\<close> exists, its segments are in
  range and apart from each other and from the stack's page, there are at most 20 arguments (the
  \<open>argv[20]\<close> of \<^verbatim>\<open>crt1.c\<close>), each below 100 characters, that fit that page, the
  environment is empty and there are frames enough, the call does not return: the processor
  goes to the entry point on the new stack, every byte of every segment is as loaded, and what
  \<open>_start\<close> of the C runtime finds on that stack is the number of the arguments, pointers to strings
  that are exactly the arguments passed, and no environment.\<close>

theorem execvpe_starts_program:
  assumes "startable f ref fa fs" and "args_fit argv" and "exec_space k fs lim K"
  shows "\<exists>k' av. execvpe f garbage behind args0 envs0 ref argv [] k = Some (Entered k')
    \<and> cpu_rip k' = e_entry (read_Ehdr (tm f) fa) \<and> currentTask k' = currentTask k \<and> name (cur k') = ''bin/'' @ ref
    \<and> start_args (pg k') (cr3 k') (cpu_rsp k' - 8) = Some (int (length argv), av, [])
    \<and> map (user_string (pg k') (cr3 k')) av = map Some argv
    \<and> (\<forall>i < header_count (tm f) fa. p_type (phdr (tm f) fa i) = 1 \<longrightarrow> seg_loaded (tm f) fa (pg k') (cr3 k') (phdr (tm f) fa i))"
  using execvpe_enters [OF assms, of garbage behind args0 envs0] by blast

text \<open>C32: \<open>execvpe\<close> never starts a program when it is passed an environment, since the loop over the
  environment counts up the number of arguments and never its own index: whatever the path, the
  call does not enter a program. For a name without \<^verbatim>\<open>./\<close> whose file exists it does not return
  at all (the loop does not end, or a string overflows its row); for one whose file is
  missing it returns -1 before the loop, with the task already renamed.\<close>

theorem execvpe_environment_loops:
  assumes "env \<noteq> []"
  shows "execvpe f garbage behind args0 envs0 ref argv env k \<noteq> Some (Entered k')
    \<and> (\<not> validPath ref \<and> content_address f (''bin/'' @ ref) = Some fa \<and> 512 \<le> fa \<longrightarrow>
         execvpe f garbage behind args0 envs0 ref argv env k = None)
    \<and> (\<not> validPath ref \<and> content_address f (''bin/'' @ ref) = Some fa \<and> fa < 512 \<and> length ref < 95 \<longrightarrow>
         execvpe f garbage behind args0 envs0 ref argv env k
           = Some (Exec_Failed (upd_task (currentTask k) (\<lambda>t. t\<lparr>name := ''bin/'' @ ref\<rparr>) k)))"
proof (intro conjI impI)
  have e: "env_loop env 0 argc envs = None" for argc envs
  proof (rule ccontr)
    assume "env_loop env 0 argc envs \<noteq> None"
    then obtain r where "env_loop env 0 argc envs = Some r" by blast
    from env_loop_never [OF this] show False using assms by simp
  qed
  show "execvpe f garbage behind args0 envs0 ref argv env k \<noteq> Some (Entered k')"
    using e by (auto simp: execvpe_def Let_def split: if_splits bind_splits)
  show "execvpe f garbage behind args0 envs0 ref argv env k = None"
    if "\<not> validPath ref \<and> content_address f (''bin/'' @ ref) = Some fa \<and> 512 \<le> fa"
  proof (rule ccontr)
    have "\<not> fa < 512" using that by (simp add: not_less)
    moreover assume "execvpe f garbage behind args0 envs0 ref argv env k \<noteq> None"
    ultimately show False using that e
      by (auto simp: execvpe_def setFileAddress_def strcpy_field_def Let_def split: if_splits bind_splits)
  qed
  show "execvpe f garbage behind args0 envs0 ref argv env k
      = Some (Exec_Failed (upd_task (currentTask k) (\<lambda>t. t\<lparr>name := ''bin/'' @ ref\<rparr>) k))"
    if "\<not> validPath ref \<and> content_address f (''bin/'' @ ref) = Some fa \<and> fa < 512 \<and> length ref < 95"
    using that by (simp add: execvpe_def setFileAddress_def strcpy_field_def Let_def)
qed

text \<open>A file that does not exist: the call returns -1, but the task already carries the new name.\<close>

theorem execvpe_no_file:
  assumes "\<not> validPath ref" and "length ref < 95" and "content_address f (''bin/'' @ ref) = Some fa" "fa < 512"
  shows "execvpe f garbage behind args0 envs0 ref argv env k = Some (Exec_Failed (upd_task (currentTask k) (\<lambda>t. t\<lparr>name := ''bin/'' @ ref\<rparr>) k))"
  using assms by (simp add: execvpe_def setFileAddress_def strcpy_field_def Let_def)

section \<open>The first task\<close>

lemma setTaskRSP_block:
  "setTaskRSP nm ts k = do {
     (_, sp, p) \<leftarrow> push_strings (cr3 k) [nm] (task_rsp (taskQueue k ts)) (pg k);
     (sp, p) \<leftarrow> push_words (cr3 k) [1, sp - 16, 0, 0] sp p;
     Some ((upd_task ts (\<lambda>t. t\<lparr>task_rsp := sp\<rparr>) (k\<lparr>pg := p\<rparr>))\<lparr>currentTask := ts\<rparr>)
   }"
  by (simp add: setTaskRSP_def Let_def split_def diff_diff_eq)

lemma zero_word_string:
  assumes "uword s M a = Some 0" "uaddr a" "unat a mod 8 = 0"
  shows "user_string s M a = Some []"
proof -
  have "ubyte s M a = Some (word_byte 0 0)" using uword_ubyte(1) [OF assms(2,3), of 0 s M] assms(1) by simp
  moreover have "word_byte 0 0 = NUL" by (simp add: word_byte_def char_of_def)
  ultimately show ?thesis by (subst user_string.simps) simp
qed

lemma first_args:
  assumes t: "task_space s M fs lim K" and r: "user_range s M B n" and sp: "stack_ptr B n sp"
    and size: "unat B + 8 * (length nm + 1) + 32 \<le> unat sp" and B: "0 < unat B"
  shows "\<exists>qs sp1 s1 s'. push_strings M [nm] sp s = Some (qs, sp1, s1) \<and> push_words M [1, sp1 - 16, 0, 0] sp1 s1 = Some (sp1 - 32, s')
     \<and> task_space s' M fs lim K \<and> only s s' M (unat B) (unat B + n)
     \<and> start_args s' M (sp1 - 32 - 8) = Some (1, [sp1 - 16], []) \<and> user_string s' M (sp1 - 16) = Some []"
proof -
  have z: "strings_size [nm] = length nm + 1" by (simp add: strings_size_def)
  have 1: "unat B + 8 * (length nm + 1) \<le> unat sp" using size by simp
  note room = push_room [OF sp 1]
  from push_strings_spec [OF t r sp, of "[nm]"] 1 obtain qs s1 where
    s1: "push_strings M [nm] sp s = Some (qs, sp - 8 * of_nat (length nm + 1), s1)" "task_space s1 M fs lim K"
    "only s s1 M (unat sp - 8 * (length nm + 1)) (unat sp)" unfolding z by blast
  define sp1 where "sp1 = sp - 8 * of_nat (length nm + 1)"
  have u: "unat sp1 = unat sp - 8 * (length nm + 1)" "stack_ptr B n sp1" using room by (simp_all only: sp1_def)
  let ?ws = "[1, sp1 - 16, 0, 0] :: u64 list"
  have 2: "unat B + 8 * length ?ws \<le> unat sp1" unfolding u(1) using size by simp
  note room2 = push_room [OF u(2) 2]
  from push_words_spec [OF s1(2) only_range [OF s1(3) r] u(2) 2] obtain s' where
    s': "push_words M ?ws sp1 s1 = Some (sp1 - 8 * of_nat (length ?ws), s')" "task_space s' M fs lim K"
    "only s1 s' M (unat sp1 - 8 * length ?ws) (unat sp1)"
    "\<forall>i < length ?ws. uword s' M (sp1 - 8 * of_nat (length ?ws) + 8 * of_nat i) = Some (?ws ! i)" by blast
  have w: "words_at s' M (sp1 - 32) ?ws" using s'(4) by (simp add: words_at_def)
  then have w4: "uword s' M (sp1 - 32) = Some 1" "uword s' M (sp1 - 24) = Some (sp1 - 16)" "uword s' M (sp1 - 16) = Some 0" "uword s' M (sp1 - 8) = Some 0"
    by (simp_all add: words_at_Cons)
  have e: "start_env s' M (sp1 - 8) 0 = Some []" by (subst start_env.simps) (simp add: w4)
  have args: "start_args s' M (sp1 - 32 - 8) = Some (1, [sp1 - 16], [])"
    using w4 e by (simp add: start_args_def Let_def to_int32_id numeral_eq_Suc)
  have a: "unat (sp1 - 16) = unat sp1 - 16" "stack_ptr B n (sp1 - 16)" using push_room [OF u(2), of 2] 2 by simp_all
  have "uaddr (sp1 - 16)" using a u(2) 2 by (auto simp: stack_ptr_def uaddr_def)
  then have str: "user_string s' M (sp1 - 16) = Some []" using zero_word_string [OF w4(3)] a(2) by (simp add: stack_ptr_def)
  have "only s s' M (unat B) (unat B + n)"
  proof -
    have "unat B \<le> unat sp - 8 * (length nm + 1)" "unat B \<le> unat sp1 - 8 * length ?ws" using 1 2 by simp_all
    moreover have "unat sp \<le> unat B + n" "unat sp1 \<le> unat B + n" using sp u(2) by (simp_all add: stack_ptr_def)
    ultimately show ?thesis using only_trans [OF s1(3) s'(3)] by blast
  qed
  moreover have "push_words M ?ws sp1 s1 = Some (sp1 - 32, s')" using s'(1) by (simp del: push_words.simps)
  ultimately show ?thesis using s1(1) s'(2) args str unfolding sp1_def by blast
qed


lemma createNewTask_spec:
  assumes slot: "newPID k = Some ts" and nm: "length nm < 100" and found: "content_address f nm = Some fa"
    and ks: "kspace (pg k) lim K (f0 # fs)" and dj: "K \<inter> set (f0 # fs) = {}"
    and ld: "loadable (tm f) fa (header_count (tm f) fa)" "load_cost (tm f) fa (header_count (tm f) fa) + 6 \<le> length fs"
    and apart: "\<forall>ep \<in> set (segments (tm f) fa (header_count (tm f) fa)). unat STACK_S div 4096 \<notin> seg_pages ep"
  shows "\<exists>k' p. createNewTask f garbage nm k = Some k' \<and> currentTask k' = ts \<and> state (cur k') = RUNNING \<and> pid (cur k') = ts
    \<and> ppid (cur k') = 0 \<and> name (cur k') = nm \<and> cr3 k' = f0 \<and> task_pml4e (cur k') = f0
    \<and> cpu_rip k' = e_entry (read_Ehdr (tm f) fa)
    \<and> start_args (pg k') (cr3 k') (cpu_rsp k' - 8) = Some (1, [p], []) \<and> user_string (pg k') (cr3 k') p = Some []
    \<and> (\<forall>i < header_count (tm f) fa. p_type (phdr (tm f) fa i) = 1 \<longrightarrow> seg_loaded (tm f) fa (pg k') (cr3 k') (phdr (tm f) fa i))"
proof -
  let ?m = "tm f" and ?n = "header_count (tm f) fa"
  define k1 where "k1 = upd_task ts (\<lambda>t. t\<lparr>name := nm, curr_dir := ''/'', ppid := 0, pid := ts, vm := [], state := RUNNING\<rparr>) k"
  have init: "initTaskVariables nm k = Some (ts, k1)" using slot nm by (simp add: initTaskVariables_def strcpy_field_def k1_def)
  have ks1: "kspace (pg k1) lim K (f0 # fs)" using ks by (simp add: k1_def)
  have c: "load_cost ?m fa ?n \<le> length fs" using ld(2) by linarith
  obtain s1 g where s1: "readELFandFork ?m garbage fa ts k1 = Some (kernbase + f0,
        upd_task ts (\<lambda>t. t\<lparr>task_pml4e := f0, regs := (regs t)\<lparr>rip := e_entry (read_Ehdr ?m fa)\<rparr>, vm := areas ?m garbage fa ?n @ vm t\<rparr>) (k1\<lparr>pg := s1\<rparr>))"
    "g \<le> load_cost ?m fa ?n" "task_space s1 f0 (drop g fs) lim K" "program_image ?m fa s1 f0"
    using readELFandFork_spec [OF ks1 dj ld(1) c, of garbage ts] by blast
  have "6 \<le> length (drop g fs)" using ld(2) s1(2) by simp
  then obtain x xs where x: "drop g fs = x # xs" "5 \<le> length xs" by (cases "drop g fs") auto
  obtain y ys where y: "xs = y # ys" "4 \<le> length ys" using x(2) by (cases xs) auto
  obtain s2 where s2: "kmalloc 32 s1 = Some (kernbase + x, s2)" "pm s2 = pm s1" "task_space s2 f0 (y # ys) lim K"
    using task_space_kmalloc [OF s1(3) [unfolded x(1) y(1)]] by blast
  from map_stack_page [OF s2(3) y(2)] obtain s3 s4 z s5 j where
    s5: "getFreeFrame s2 = Some (y, s3)" "initTaskPagetables STACK_S y (kernbase + f0) s3 = Some s4"
    "kmalloc 32 s4 = Some (kernbase + z, s5)" "task_space s5 f0 (drop j ys) lim K" "user_range s5 f0 STACK_S 4096"
    "\<forall>b. uaddr b \<longrightarrow> unat b div 4096 \<noteq> unat STACK_S div 4096 \<longrightarrow> ubyte s5 f0 b = ubyte s2 f0 b" by blast
  have "unat STACK_S + 8 * (length nm + 1) + 32 \<le> unat (STACK_S + 510 * 8)" using nm unfolding stack_top(2) by simp
  from first_args [OF s5(4,5) stack_top(1) this STACK_page(4)] obtain qs sp1 s6 s' where
    s': "push_strings f0 [nm] (STACK_S + 510 * 8) s5 = Some (qs, sp1, s6)" "push_words f0 [1, sp1 - 16, 0, 0] sp1 s6 = Some (sp1 - 32, s')"
    "only s5 s' f0 (unat STACK_S) (unat STACK_S + 4096)"
    "start_args s' f0 (sp1 - 32 - 8) = Some (1, [sp1 - 16], [])" "user_string s' f0 (sp1 - 16) = Some []" by blast
  define k2 where "k2 = upd_task ts (\<lambda>t. t\<lparr>task_pml4e := f0, regs := (regs t)\<lparr>rip := e_entry (read_Ehdr ?m fa)\<rparr>, vm := areas ?m garbage fa ?n @ vm t\<rparr>) (k1\<lparr>pg := s1\<rparr>)"
  define k3 where "k3 = upd_task ts (\<lambda>t. t\<lparr>vm := (garbage 0)\<lparr>beginAddress := 0x4B0FFFFF0000, lastAddress := 0x4B0FFFFF0000\<rparr> # vm t\<rparr>) (k2\<lparr>pg := s2\<rparr>)"
  define k4 where "k4 = upd_task ts (\<lambda>t. t\<lparr>ustack := STACK_S, task_rsp := STACK_S + 4080\<rparr>) (k3\<lparr>pg := s4\<rparr>)"
  define k5 where "k5 = upd_task ts (\<lambda>t. t\<lparr>vm := (garbage 0)\<lparr>beginAddress := STACK_S, lastAddress := 0x100FFEFF0000\<rparr> # vm t\<rparr>) (k4\<lparr>pg := s5\<rparr>)"
  define k6 where "k6 = loadCR3Virtual (kernbase + f0) (set_tss_rsp (kstack_top k5 ts) k5)"
  define k' where "k' = enter_user ts ((upd_task ts (\<lambda>t. t\<lparr>task_rsp := sp1 - 32\<rparr>) (k6\<lparr>pg := s'\<rparr>))\<lparr>currentTask := ts\<rparr>)"
  have p: "pg k2 = s1" "pg k3 = s2" "pg k4 = s4" by (simp_all add: k2_def k3_def k4_def)
  have 3: "setMyVMA (garbage 0) ts 0x4B0FFFFF0000 0x4B0FFFFF0000 k2 = Some k3" using s2(1) p by (simp add: setMyVMA_def k3_def)
  have 5: "setMyVMA (garbage 0) ts STACK_S 0x100FFEFF0000 k4 = Some k5" using s5(3) p by (simp add: setMyVMA_def k5_def)
  have c6: "cr3 k6 = f0" "task_rsp (taskQueue k6 ts) = STACK_S + 4080" "pg k6 = s5"
    by (simp_all add: k6_def loadCR3Virtual_def set_tss_rsp_def k5_def k4_def)
  have 6: "setTaskRSP nm ts k6 = Some ((upd_task ts (\<lambda>t. t\<lparr>task_rsp := sp1 - 32\<rparr>) (k6\<lparr>pg := s'\<rparr>))\<lparr>currentTask := ts\<rparr>)"
    using s'(1,2) unfolding setTaskRSP_block c6 by (simp del: push_words.simps push_strings.simps)
  have run: "createNewTask f garbage nm k = Some k'"
    using found nm init s1(1) 3 5 6 s5(1,2) p
    by (simp add: createNewTask_def strcpy_field_def Let_def k2_def [symmetric] k4_def [symmetric] k6_def [symmetric] k'_def)
  have same: "ubyte s' f0 b = ubyte s1 f0 b" if b: "uaddr b" "unat b div 4096 \<noteq> unat STACK_S div 4096" for b
  proof -
    have "unat b < unat STACK_S \<or> unat STACK_S + 4096 \<le> unat b" using b(2) STACK_page(1) by linarith
    then have "ubyte s' f0 b = ubyte s5 f0 b" using s'(3) b(1) unfolding only_def by blast
    also have "\<dots> = ubyte s2 f0 b" using s5(6) b by blast
    finally show ?thesis using s2(2) by (simp add: ubyte_def)
  qed
  have img: "seg_loaded ?m fa s' f0 (phdr ?m fa i)" if "i < ?n" "p_type (phdr ?m fa i) = 1" for i
    using image_apart_stack [OF s1(4) ld(1) apart _ that] same by blast
  have "currentTask k' = ts" "state (cur k') = RUNNING" "pid (cur k') = ts" "ppid (cur k') = 0" "name (cur k') = nm" "cr3 k' = f0"
    "task_pml4e (cur k') = f0" "cpu_rip k' = e_entry (read_Ehdr ?m fa)" "pg k' = s'" "cpu_rsp k' = sp1 - 32"
    using c6 by (simp_all add: k'_def enter_user_def) (simp_all add: k6_def loadCR3Virtual_def set_tss_rsp_def k5_def k4_def k3_def k2_def k1_def)
  then show ?thesis using run s'(4,5) img by (intro exI [of _ k'] exI [of _ "sp1 - 16"]) simp
qed

text \<open>The first task. When the file is there, \<open>createNewTask\<close> makes the free slot a RUNNING task of
  parent 0 with an address space of its own, loads the program and starts it on its stack. What
  \<open>_start\<close> finds there is one argument, but it is the empty string: the pointer is to the zero word
  above it, not to the name that was copied.\<close>

theorem createNewTask_starts:
  assumes slot: "newPID k = Some ts" and nm: "length nm < 100" and found: "content_address f nm = Some fa"
    and ks: "kspace (pg k) lim K (f0 # fs)" and dj: "K \<inter> set (f0 # fs) = {}"
    and ld: "loadable (tm f) fa (header_count (tm f) fa)" "load_cost (tm f) fa (header_count (tm f) fa) + 6 \<le> length fs"
    and apart: "\<forall>ep \<in> set (segments (tm f) fa (header_count (tm f) fa)). unat STACK_S div 4096 \<notin> seg_pages ep"
  shows "\<exists>k' p. createNewTask f garbage nm k = Some k' \<and> currentTask k' = ts \<and> state (cur k') = RUNNING \<and> pid (cur k') = ts
    \<and> ppid (cur k') = 0 \<and> name (cur k') = nm \<and> cr3 k' = f0 \<and> task_pml4e (cur k') = f0
    \<and> cpu_rip k' = e_entry (read_Ehdr (tm f) fa)
    \<and> start_args (pg k') (cr3 k') (cpu_rsp k' - 8) = Some (1, [p], []) \<and> user_string (pg k') (cr3 k') p = Some []
    \<and> (\<forall>i < header_count (tm f) fa. p_type (phdr (tm f) fa i) = 1 \<longrightarrow> seg_loaded (tm f) fa (pg k') (cr3 k') (phdr (tm f) fa i))"
  using assms by (rule createNewTask_spec)

section \<open>An archive with one program\<close>

text \<open>The program \<^verbatim>\<open>bin/a\<close> at 0x1000: its header, and \<open>elf_file\<close> behind it.\<close>

definition elf_archive :: mem where
  "elf_archive = (\<lambda>a. if 0x1200 \<le> a then elf_file (a - 0x1200) else if 0x1000 \<le> a \<and> a < 0x1005 then ''bin/a'' ! nat (a - 0x1000) else NUL)"

definition elf_fs :: fs where
  "elf_fs = \<lparr>tm = elf_archive, headers = [0x1000], stk = (\<lambda>_. NUL)\<rparr>"

lemma elf_fs_file: "content_address elf_fs ''bin/a'' = Some 0x1200"
proof -
  have "cstr elf_archive 0x1000 ''bin/a''" by (simp add: elf_archive_def)
  then have "read_cstr elf_archive 0x1000 = Some ''bin/a''" by (rule read_cstr_cstr)
  moreover have "strcmp_s ''bin/a'' ''bin/a'' = 0" by (simp add: strcmp_s_eq_0)
  ultimately show ?thesis by (simp add: content_address_def get_file_address_def elf_fs_def)
qed

lemma elf_archive_headers:
  "header_count elf_archive 0x1200 = 1" "e_entry (read_Ehdr elf_archive 0x1200) = 0x400000" "e_phoff (read_Ehdr elf_archive 0x1200) = 64"
  "p_type (phdr elf_archive 0x1200 0) = 1" "p_offset (phdr elf_archive 0x1200 0) = 0" "p_vaddr (phdr elf_archive 0x1200 0) = 0x400000"
  "p_filesz (phdr elf_archive 0x1200 0) = 4" "p_memsz (phdr elf_archive 0x1200 0) = 8"
  by (simp_all add: phdr_def read_Phdr_def read_Ehdr_def elf_archive_def elf_file_def le_bytes_unfold)

lemma elf_archive_loadable:
  "segments elf_archive 0x1200 1 = [phdr elf_archive 0x1200 0]" "loadable elf_archive 0x1200 (header_count elf_archive 0x1200)"
  "load_cost elf_archive 0x1200 (header_count elf_archive 0x1200) = 5"
proof -
  show s: "segments elf_archive 0x1200 1 = [phdr elf_archive 0x1200 0]" by (simp add: segments_def load_indices_def elf_archive_headers)
  show "loadable elf_archive 0x1200 (header_count elf_archive 0x1200)"
    by (simp add: loadable_def seg_ok_def elf_archive_headers s del: One_nat_def)
  show "load_cost elf_archive 0x1200 (header_count elf_archive 0x1200) = 5"
    by (simp add: load_cost_def seg_cost_def elf_archive_headers s first_page_def end_page_def del: One_nat_def)
qed

lemma elf_archive_apart: "\<forall>ep \<in> set (segments elf_archive 0x1200 (header_count elf_archive 0x1200)). unat STACK_S div 4096 \<notin> seg_pages ep"
  by (simp add: elf_archive_headers(1) elf_archive_loadable(1) seg_pages_def first_page_def end_page_def elf_archive_headers STACK_S_def del: One_nat_def)

abbreviation fork_frame_list :: "u64 list" where
  "fork_frame_list \<equiv> [0x2000, 0x3000, 0x4000, 0x5000, 0x6000, 0x7000, 0x8000, 0x9000, 0xA000, 0xB000, 0xC000, 0xD000, 0xE000, 0xF000]"

lemma kernel_fork_exec_space: "exec_space kernel_fork (0x1000 # fork_frame_list) 0x10000 (kernel_tables (pm fork_paging) 0x10000)"
proof -
  have "user_tables (pm fork_paging) 0x20000 \<subseteq> {0x20000, 0x21000, 0x22000, 0x23000}"
    using user_tables_below [of "pm fork_paging" "0x20000"] unfolding fork_below by simp
  moreover have "{0x20000, 0x21000, 0x22000, 0x23000} \<inter> ({0x10000, 0x11000, 0x12000, 0x13000} \<union> set (0x1000 # fork_frame_list)) = {}" by simp
  moreover note fork_kernel_tables
  ultimately have "user_tables (pm fork_paging) 0x20000 \<inter> (kernel_tables (pm fork_paging) 0x10000 \<union> set (0x1000 # fork_frame_list)) = {}"
    by blast
  moreover have "aligned (0x20000 :: u64)" by (simp add: aligned_def validatebits_def)
  ultimately show ?thesis using fork_kspace fork_paging_apart unfolding exec_space_def kernel_fork_simps by simp
qed

lemma elf_startable: "startable elf_fs ''a'' 0x1200 (0x1000 # fork_frame_list)"
  using elf_fs_file elf_archive_loadable elf_archive_apart by (simp add: startable_def validPath_def elf_fs_def)

abbreviation no_area :: "nat \<Rightarrow> vmaStruct" where
  "no_area \<equiv> \<lambda>_. \<lparr>beginAddress = 0, lastAddress = 0, vm_offset = 0\<rparr>"

theorem execvpe_starts_program_witness:
  "\<exists>k' av. execvpe elf_fs no_area 0 (\<lambda>_. []) (\<lambda>_. []) ''a'' [''a'', ''-x''] [] kernel_fork = Some (Entered k')
     \<and> start_args (pg k') (cr3 k') (cpu_rsp k' - 8) = Some (2, av, []) \<and> map (user_string (pg k') (cr3 k')) av = [Some ''a'', Some ''-x'']"
proof -
  have "args_fit [''a'', ''-x'']" by (simp add: args_fit_def strings_size_def)
  from execvpe_starts_program [OF elf_startable this kernel_fork_exec_space, of no_area 0 "\<lambda>_. []" "\<lambda>_. []"] show ?thesis by auto
qed

theorem execvpe_environment_loops_witness:
  "execvpe elf_fs no_area 0 (\<lambda>_. []) (\<lambda>_. []) ''a'' [''a''] [''PATH=bin''] kernel_fork = None"
  using execvpe_environment_loops [where env = "[''PATH=bin'']" and f = elf_fs and ref = "''a''" and fa = "0x1200"]
  by (simp add: validPath_def elf_fs_file)

theorem execvpe_no_file_witness:
  "\<exists>k'. execvpe elf_fs no_area 0 (\<lambda>_. []) (\<lambda>_. []) ''b'' [''b''] [] kernel_fork = Some (Exec_Failed k') \<and> name (cur k') = ''bin/b''"
proof -
  have "cstr elf_archive 0x1000 ''bin/a''" by (simp add: elf_archive_def)
  then have "read_cstr elf_archive 0x1000 = Some ''bin/a''" by (rule read_cstr_cstr)
  moreover have "strcmp_s ''bin/b'' ''bin/a'' \<noteq> 0" by (subst strcmp_s_eq_0) simp_all
  ultimately have "content_address elf_fs (''bin/'' @ ''b'') = Some (word_of_int (2 ^ 64 - 1) + 512)"
    by (simp add: content_address_def get_file_address_def elf_fs_def)
  moreover have "word_of_int (2 ^ 64 - 1) + 512 < (512 :: u64)" by simp
  ultimately show ?thesis
    using execvpe_no_file [of "''b''" elf_fs] by (auto simp: validPath_def)
qed

theorem createNewTask_starts_witness:
  "\<exists>k' p. createNewTask elf_fs no_area ''bin/a'' kernel_fork = Some k' \<and> currentTask k' = 0 \<and> cpu_rip k' = 0x400000
     \<and> start_args (pg k') (cr3 k') (cpu_rsp k' - 8) = Some (1, [p], []) \<and> user_string (pg k') (cr3 k') p = Some []"
proof -
  have ks: "kspace (pg kernel_fork) 0x10000 (kernel_tables (pm fork_paging) 0x10000) (0x1000 # fork_frame_list)"
    using fork_kspace by (simp del: fork_paging_simps)
  have "length ''bin/a'' < 100" "load_cost (tm elf_fs) 0x1200 (header_count (tm elf_fs) 0x1200) + 6 \<le> length fork_frame_list"
    using elf_archive_loadable(3) by (simp_all add: elf_fs_def)
  from createNewTask_starts [OF kernel_fork_slot this(1) elf_fs_file ks fork_paging_apart _ this(2), of no_area]
  show ?thesis using elf_archive_loadable(2) elf_archive_apart elf_archive_headers(2) unfolding elf_fs_def by auto
qed

end
