(* ===== verification/Syscalls.thy ===== *)
theory Syscalls
  imports Exec Keyboard Fork Interrupts Scheduler Lifecycle
begin

text \<open>
  \<open>isr128\<close> of \<^verbatim>\<open>sys/idt.c\<close>: the dispatch of system calls over the whole system. The assembly stub saves
  the caller's registers and passes their address; they are the record \<open>registersAligned\<close> here. Pointers
  that the caller passes are addresses of its own memory, read and written through its page tables; the
  kernel runs with write protection off, so it writes to any mapped page. A string that is not mapped up
  to its end is \<open>None\<close>.

  A call that gives up the processor ends this step with \<open>Away\<close>: the processor goes on at \<open>cpu_rip\<close> with the
  stack \<open>cpu_rsp\<close> of the new state. What happens when the caller is chosen again is in the \<open>resume_\<close>
  definitions.
\<close>

section \<open>The state\<close>

record registersAligned =
  rdx :: u64
  rcx :: u64
  rbx :: u64

text \<open>The parts of the machine that the handlers share.\<close>

record system =
  kern :: kernel
  con :: console
  tarfs :: fs
  clock :: timer

text \<open>What the compiled code finds on its own stack or puts there: the address in \<open>schedule\<close> at which a task
  goes on, the return address of \<open>fork\<close>, the contents of fresh heap nodes and of local arrays.\<close>

record call_frame =
  resume_at :: u64
  ret_at :: u64
  fresh_area :: "nat \<Rightarrow> vmaStruct"
  behind_argc :: int
  args_rows :: rows
  envs_rows :: rows

datatype trap = Back u64 system | Away system

text \<open>The end of the handler: the interrupt controller is told, and the value goes back in \<open>rax\<close>.\<close>

definition trap_return :: "u64 \<Rightarrow> system \<Rightarrow> trap" where
  "trap_return retVal s = Back retVal (s\<lparr>clock := outportb 0x20 0x20 (clock s)\<rparr>)"

abbreviation int_of_reg :: "u64 \<Rightarrow> int" where
  "int_of_reg w \<equiv> to_int32 (uint w)"

section \<open>Strings of the caller\<close>

definition user_str :: "system \<Rightarrow> u64 \<Rightarrow> string option" where
  "user_str s a = user_string (pg (kern s)) (cr3 (kern s)) a"

text \<open>A vector of pointers to strings, ended by a null pointer.\<close>

partial_function (option) user_vector :: "paging \<Rightarrow> u64 \<Rightarrow> u64 \<Rightarrow> string list option" where
  "user_vector p M a =
     Option.bind (uword p M a) (\<lambda>w.
     if w = 0 then Some []
     else Option.bind (user_string p M w) (\<lambda>str.
          Option.bind (user_vector p M (a + 8)) (\<lambda>strs. Some (str # strs))))"

definition set_kernel :: "kernel \<Rightarrow> system \<Rightarrow> system" where
  "set_kernel k s = s\<lparr>kern := k\<rparr>"

definition set_pages :: "paging \<Rightarrow> system \<Rightarrow> system" where
  "set_pages p s = s\<lparr>kern := (kern s)\<lparr>pg := p\<rparr>\<rparr>"

text \<open>Bytes that a handler left in byte memory from \<open>a\<close> on, stored through the page tables \<open>M\<close>.\<close>

definition store_bytes :: "u64 \<Rightarrow> u64 \<Rightarrow> nat \<Rightarrow> mem \<Rightarrow> paging \<Rightarrow> paging option" where
  "store_bytes M a n m p = user_copy_up (\<lambda>i. m (uint i)) M a a n p"

section \<open>The cases of the switch\<close>

definition case_read :: "call_frame \<Rightarrow> registersAligned \<Rightarrow> system \<Rightarrow> trap option" where
  "case_read fr r s =
     (let M = cr3 (kern s); c0 = con s in
      if rbx r = 0 then do {
        out \<leftarrow> intRead (uint (rcx r)) (resume_at fr) c0 (\<lambda>_. NUL) (kern s);
        case out of
          Line c m k \<Rightarrow> do {
            p \<leftarrow> store_bytes M (rcx r) (nat (getoffset c - 1 - getoffset c0)) m (pg k);
            Some (trap_return 0 (s\<lparr>con := c, kern := k\<lparr>pg := p\<rparr>\<rparr>))
          }
        | Asleep c m k \<Rightarrow> do {
            p \<leftarrow> store_bytes M (rcx r) (if lineCount c0 > 0 then nat (4096 - getoffset c0) else 0) m (pg k);
            Some (Away (s\<lparr>con := c, kern := k\<lparr>pg := p\<rparr>\<rparr>))
          }
      }
      else do {
        (count, m) \<leftarrow> readTarfsFile (int_of_reg (rbx r)) (uint (rcx r)) (int_of_reg (rdx r)) (tarfs s) (kern s) (\<lambda>_. NUL);
        p \<leftarrow> (if 0 \<le> count then store_bytes M (rcx r) (nat count + 1) m (pg (kern s))
             else store_bytes M (rcx r + word_of_int count) 1 m (pg (kern s)));
        Some (trap_return (word_of_int count) (set_pages p s))
      })"

definition case_write :: "registersAligned \<Rightarrow> system \<Rightarrow> trap option" where
  "case_write r s =
     (if rbx r = 1 then do {
        str \<leftarrow> user_str s (rcx r);
        scr \<leftarrow> kprintf ''%s'' [ArgStr str] (screen (con s));
        Some (trap_return 0 (s\<lparr>con := (con s)\<lparr>screen := scr\<rparr>\<rparr>))
      }
      else Some (trap_return 0 s))"

definition case_open :: "registersAligned \<Rightarrow> system \<Rightarrow> trap option" where
  "case_open r s = do {
     path0 \<leftarrow> user_str s (rbx r);
     (d, k) \<leftarrow> openTarfsFile path0 (int_of_reg (rcx r)) (tarfs s) (kern s);
     Some (trap_return (word_of_int d) (set_kernel k s))
   }"

definition case_close :: "registersAligned \<Rightarrow> system \<Rightarrow> trap option" where
  "case_close r s = do {
     (d, k) \<leftarrow> closeTarfsFile (int_of_reg (rbx r)) (kern s);
     Some (trap_return (word_of_int d) (set_kernel k s))
   }"

definition case_clear :: "system \<Rightarrow> trap option" where
  "case_clear s = Some (trap_return 0 (s\<lparr>con := (con s)\<lparr>screen := clearScreen (screen (con s))\<rparr>\<rparr>))"

definition case_malloc :: "registersAligned \<Rightarrow> system \<Rightarrow> trap option" where
  "case_malloc r s = do {
     (a, k) \<leftarrow> malloc (int_of_reg (rbx r)) (kern s);
     Some (trap_return a (set_kernel k s))
   }"

definition case_opendir :: "registersAligned \<Rightarrow> system \<Rightarrow> trap option" where
  "case_opendir r s = do {
     path0 \<leftarrow> user_str s (rbx r);
     (d, k) \<leftarrow> openDirFile path0 (tarfs s) (kern s);
     Some (trap_return (word_of_int d) (set_kernel k s))
   }"

definition case_sleep :: "call_frame \<Rightarrow> registersAligned \<Rightarrow> system \<Rightarrow> trap option" where
  "case_sleep fr r s = do {
     out \<leftarrow> sleep (resume_at fr) (ucast (rbx r)) (kern s);
     Some (case out of Returned v k \<Rightarrow> trap_return (word_of_int v) (set_kernel k s) | Blocked k \<Rightarrow> Away (set_kernel k s))
   }"

definition case_getpid :: "system \<Rightarrow> trap option" where
  "case_getpid s = Some (trap_return (of_nat (getTaskPID (kern s))) s)"

text \<open>After \<open>fork\<close>: the child is told by the mark on its kernel stack, which it clears, and drops two words.\<close>

definition fork_mark :: "u64 \<Rightarrow> kernel \<Rightarrow> u64 \<times> kernel" where
  "fork_mark retVal k =
     (if kstack (cur k) 14 = 9999
      then (0, (upd_task (currentTask k) (\<lambda>t. t\<lparr>kstack := (kstack t)(14 := 0)\<rparr>) k)\<lparr>cpu_rsp := cpu_rsp k + 16\<rparr>)
      else (retVal, k))"

definition case_fork :: "call_frame \<Rightarrow> system \<Rightarrow> trap option" where
  "case_fork fr s = do {
     (child, k) \<leftarrow> fork (ret_at fr) (kern s);
     let (retVal, k) = fork_mark (of_nat child) k;
     Some (trap_return retVal (set_kernel k s))
   }"

definition case_exec :: "call_frame \<Rightarrow> registersAligned \<Rightarrow> system \<Rightarrow> trap option" where
  "case_exec fr r s = do {
     file0 \<leftarrow> user_str s (rbx r);
     argv \<leftarrow> user_vector (pg (kern s)) (cr3 (kern s)) (rcx r);
     env \<leftarrow> user_vector (pg (kern s)) (cr3 (kern s)) (rdx r);
     out \<leftarrow> execvpe (tarfs s) (fresh_area fr) (behind_argc fr) (args_rows fr) (envs_rows fr) file0 argv env (kern s);
     Some (case out of Exec_Failed k \<Rightarrow> trap_return (- 1) (set_kernel k s) | Entered k \<Rightarrow> Away (set_kernel k s))
   }"

definition case_exit :: "call_frame \<Rightarrow> system \<Rightarrow> trap option" where
  "case_exit fr s = do {
     k \<leftarrow> exit (resume_at fr) (kern s);
     Some (Away (set_kernel k s))
   }"

definition case_kill :: "registersAligned \<Rightarrow> system \<Rightarrow> trap option" where
  "case_kill r s = do {
     (v, k) \<leftarrow> kill (int_of_reg (rbx r)) (kern s);
     Some (trap_return (word_of_int v) (set_kernel k s))
   }"

definition case_readdir :: "registersAligned \<Rightarrow> system \<Rightarrow> trap option" where
  "case_readdir r s = do {
     (entry, k) \<leftarrow> readDirTarfsFile (int_of_reg (rbx r)) (tarfs s) (kern s);
     case entry of
       None \<Rightarrow> Some (trap_return 0 (set_kernel k s))
     | Some nm \<Rightarrow> do {
         p \<leftarrow> copy_string (cr3 k) (rcx r) nm (pg k);
         Some (trap_return 1 (set_kernel (k\<lparr>pg := p\<rparr>) s))
       }
   }"

text \<open>\<open>getCurrentDirectory\<close> on the caller's buffer: the whole path, then the last character is cut off.\<close>

definition case_getcwd :: "registersAligned \<Rightarrow> system \<Rightarrow> trap option" where
  "case_getcwd r s = do {
     let k = kern s;
     p \<leftarrow> copy_string (cr3 k) (rbx r) (curr_dir (cur k)) (pg k);
     let l = length (curr_dir (cur k));
     p \<leftarrow> (if l = 1 then Some p else uput p (cr3 k) (rbx r + of_nat l - 1) NUL);
     Some (trap_return 0 (set_pages p s))
   }"

definition case_chdir :: "registersAligned \<Rightarrow> system \<Rightarrow> trap option" where
  "case_chdir r s = do {
     path0 \<leftarrow> user_str s (rbx r);
     (v, k) \<leftarrow> chdir path0 (tarfs s) (kern s);
     Some (trap_return (word_of_int v) (set_kernel k s))
   }"

definition case_getppid :: "system \<Rightarrow> trap option" where
  "case_getppid s = Some (trap_return (of_nat (getTaskPPID (kern s))) s)"

definition case_waitpid :: "call_frame \<Rightarrow> registersAligned \<Rightarrow> system \<Rightarrow> trap option" where
  "case_waitpid fr r s = do {
     out \<leftarrow> waitpid_enter (resume_at fr) (int_of_reg (rbx r)) (kern s);
     Some (case out of Returned v k \<Rightarrow> trap_return (word_of_int v) (set_kernel k s) | Blocked k \<Rightarrow> Away (set_kernel k s))
   }"

text \<open>What \<open>ps\<close> prints about one task.\<close>

definition ps_task :: "nat \<times> string \<Rightarrow> terminal \<Rightarrow> terminal option" where
  "ps_task = (\<lambda>(p, nm) scr. do {
     scr \<leftarrow> kprintf (''PID : %d'' @ [NL]) [ArgInt (int p)] scr;
     scr \<leftarrow> kprintf (''Process : %s'' @ [NL]) [ArgStr nm] scr;
     kprintf [NL] [] scr
   })"

fun ps_tasks :: "(nat \<times> string) list \<Rightarrow> terminal \<Rightarrow> terminal option" where
  "ps_tasks [] scr = Some scr"
| "ps_tasks (t # ts) scr = do {
     scr \<leftarrow> ps_task t scr;
     ps_tasks ts scr
   }"

definition case_ps :: "system \<Rightarrow> trap option" where
  "case_ps s = do {
     scr \<leftarrow> kprintf (''------START-------'' @ [NL]) [] (screen (con s));
     scr \<leftarrow> ps_tasks (ps (kern s)) scr;
     scr \<leftarrow> kprintf (''------END-------'' @ [NL]) [] scr;
     Some (trap_return 0 (s\<lparr>con := (con s)\<lparr>screen := scr\<rparr>\<rparr>))
   }"

definition isr128 :: "call_frame \<Rightarrow> u64 \<Rightarrow> registersAligned \<Rightarrow> system \<Rightarrow> trap option" where
  "isr128 fr syscode r s =
     (if syscode = 0 then case_read fr r s
      else if syscode = 1 then case_write r s
      else if syscode = 2 then case_open r s
      else if syscode = 3 then case_close r s
      else if syscode = 7 then case_clear s
      else if syscode = 9 then case_malloc r s
      else if syscode = 16 then case_opendir r s
      else if syscode = 35 then case_sleep fr r s
      else if syscode = 39 then case_getpid s
      else if syscode = 57 then case_fork fr s
      else if syscode = 59 then case_exec fr r s
      else if syscode = 60 then case_exit fr s
      else if syscode = 62 then case_kill r s
      else if syscode = 78 then case_readdir r s
      else if syscode = 79 then case_getcwd r s
      else if syscode = 80 then case_chdir r s
      else if syscode = 110 then case_getppid s
      else if syscode = 247 then case_waitpid fr r s
      else if syscode = 299 then case_ps s
      else Some (trap_return 0 s))"

text \<open>The dispatch, case by case.\<close>

lemma isr128_simps [simp]:
  "isr128 fr 0 r s = case_read fr r s" "isr128 fr 1 r s = case_write r s" "isr128 fr 2 r s = case_open r s"
  "isr128 fr 3 r s = case_close r s" "isr128 fr 7 r s = case_clear s" "isr128 fr 9 r s = case_malloc r s"
  "isr128 fr 16 r s = case_opendir r s" "isr128 fr 35 r s = case_sleep fr r s" "isr128 fr 39 r s = case_getpid s"
  "isr128 fr 57 r s = case_fork fr s" "isr128 fr 59 r s = case_exec fr r s" "isr128 fr 60 r s = case_exit fr s"
  "isr128 fr 62 r s = case_kill r s" "isr128 fr 78 r s = case_readdir r s" "isr128 fr 79 r s = case_getcwd r s"
  "isr128 fr 80 r s = case_chdir r s" "isr128 fr 110 r s = case_getppid s" "isr128 fr 247 r s = case_waitpid fr r s"
  "isr128 fr 299 r s = case_ps s"
  by (simp_all add: isr128_def)

lemma isr128_other:
  "code \<notin> {0, 1, 2, 3, 7, 9, 16, 35, 39, 57, 59, 60, 62, 78, 79, 80, 110, 247, 299} \<Longrightarrow> isr128 fr code r s = Some (trap_return 0 s)"
  by (simp add: isr128_def)

section \<open>Going on after a switch\<close>

text \<open>Behind \<open>schedule\<close>: \<open>intRead\<close> begins its loop again, \<open>sleep\<close> and \<open>exit\<close> return, \<open>waitpid\<close> looks at
  its child again. The child of a \<open>fork\<close> comes out of the call of \<open>fork\<close>.\<close>

definition resume_sleep :: "system \<Rightarrow> trap" where
  "resume_sleep s = trap_return 0 s"

definition resume_exit :: "system \<Rightarrow> trap" where
  "resume_exit s = trap_return 0 s"

definition resume_waitpid :: "call_frame \<Rightarrow> registersAligned \<Rightarrow> system \<Rightarrow> trap option" where
  "resume_waitpid fr r s = do {
     out \<leftarrow> waitpid_resume (resume_at fr) (int_of_reg (rbx r)) (kern s);
     Some (case out of Returned v k \<Rightarrow> trap_return (word_of_int v) (set_kernel k s) | Blocked k \<Rightarrow> Away (set_kernel k s))
   }"

definition resume_fork :: "u64 \<Rightarrow> system \<Rightarrow> trap" where
  "resume_fork rax s = (let (retVal, k) = fork_mark rax (kern s) in trap_return retVal (set_kernel k s))"

text \<open>Values for the examples.\<close>

definition frame0 :: call_frame where
  "frame0 = \<lparr>resume_at = 0x500, ret_at = 0x600, fresh_area = no_area, behind_argc = 0, args_rows = (\<lambda>_. []), envs_rows = (\<lambda>_. [])\<rparr>"

definition regs0 :: registersAligned where
  "regs0 = \<lparr>rdx = 0, rcx = 0, rbx = 0\<rparr>"

end
