(* ===== verification/System.thy ===== *)
theory System
  imports Syscalls
begin

text \<open>
  The kernel as a transition system: system calls, their continuation after a switch, the clock, the
  keyboard, page faults, the two kernel tasks \<open>init\<close> and \<open>idle\<close>, and user code writing to its own memory,
  in any order. The theorem is that the task table stays well formed in every reachable state, so that
  the scheduler always finds a task to run.
\<close>

section \<open>The invariant\<close>

definition alive :: "task_state \<Rightarrow> bool" where
  "alive st \<longleftrightarrow> st = RUNNING \<or> st = SLEEP \<or> st = WAIT \<or> st = HANG"

text \<open>The table: the current slot is named by its pid and so is every live one, parents are slots and no
  task but \<open>init\<close> is its own parent, \<open>idle\<close> (slot 1) is always RUNNING and \<open>init\<close> (slot 0) RUNNING or waiting.\<close>

definition table_ok :: "kernel \<Rightarrow> bool" where
  "table_ok k \<longleftrightarrow> cur_ok k
     \<and> (\<forall>i < MAX_TASKS. alive (state (taskQueue k i)) \<longrightarrow> pid (taskQueue k i) = i)
     \<and> (\<forall>i < MAX_TASKS. ppid (taskQueue k i) < MAX_TASKS)
     \<and> (\<forall>i < MAX_TASKS. 2 \<le> i \<longrightarrow> ppid (taskQueue k i) \<noteq> i)
     \<and> state (taskQueue k 1) = RUNNING \<and> state (taskQueue k 0) \<in> {RUNNING, WAIT}"

text \<open>The processor: the current task is RUNNING (or has just killed itself), and its page tables and its
  kernel stack are the ones installed.\<close>

definition tasks_ok :: "kernel \<Rightarrow> bool" where
  "tasks_ok k \<longleftrightarrow> table_ok k \<and> state (cur k) \<in> {RUNNING, ZOMBIE}
     \<and> cr3 k = task_pml4e (cur k) \<and> tss_rsp0 k = kstack_top k (currentTask k)"

lemma tasks_okD:
  "tasks_ok k \<Longrightarrow> table_ok k" "tasks_ok k \<Longrightarrow> state (cur k) \<in> {RUNNING, ZOMBIE}"
  "table_ok k \<Longrightarrow> cur_ok k" "table_ok k \<Longrightarrow> currentTask k < MAX_TASKS" "table_ok k \<Longrightarrow> pid (cur k) = currentTask k"
  by (simp_all add: tasks_ok_def table_ok_def cur_ok_def)

lemma table_ok_user_slot: "table_ok k \<Longrightarrow> state (taskQueue k i) \<notin> {RUNNING, WAIT} \<Longrightarrow> 2 \<le> i"
  by (cases "i = 0 \<or> i = 1") (auto simp: table_ok_def)

text \<open>What the invariant reads of a slot.\<close>

definition core :: "taskStruct \<Rightarrow> task_state \<times> nat \<times> nat \<times> u64" where
  "core t = (state t, pid t, ppid t, task_pml4e t)"

definition same_tasks :: "kernel \<Rightarrow> kernel \<Rightarrow> bool" where
  "same_tasks k k' \<longleftrightarrow> (\<forall>i. core (taskQueue k' i) = core (taskQueue k i)) \<and> currentTask k' = currentTask k
     \<and> cr3 k' = cr3 k \<and> tss_rsp0 k' = tss_rsp0 k \<and> kstack_top k' = kstack_top k"

lemma same_tasks_refl [simp, intro]: "same_tasks k k"
  by (simp add: same_tasks_def)

lemma same_tasks_trans [trans]: "same_tasks k k1 \<Longrightarrow> same_tasks k1 k2 \<Longrightarrow> same_tasks k k2"
  by (simp add: same_tasks_def)

lemma core_simps [simp]:
  "core (t\<lparr>fd := x1\<rparr>) = core t" "core (t\<lparr>fd_c := x2\<rparr>) = core t" "core (t\<lparr>curr_dir := x3\<rparr>) = core t"
  "core (t\<lparr>vm := x4\<rparr>) = core t" "core (t\<lparr>name := x3\<rparr>) = core t" "core (t\<lparr>regs := x5\<rparr>) = core t"
  "core (t\<lparr>task_rsp := x6\<rparr>) = core t" "core (t\<lparr>ustack := x6\<rparr>) = core t" "core (t\<lparr>kstack := x7\<rparr>) = core t"
  "core (t\<lparr>child_count := x8\<rparr>) = core t"
  by (simp_all add: core_def)

text \<open>The updates that do not matter.\<close>

lemma same_tasks_simps [simp]:
  "same_tasks k (k1\<lparr>pg := p\<rparr>) = same_tasks k k1"
  "same_tasks k (k1\<lparr>cpu_rsp := w\<rparr>) = same_tasks k k1"
  "same_tasks k (k1\<lparr>cpu_rip := w\<rparr>) = same_tasks k k1"
  "(\<And>t. core (f t) = core t) \<Longrightarrow> same_tasks k (upd_task i f k1) = same_tasks k k1"
  "same_tasks k (upd_fd j g k1) = same_tasks k k1"
proof -
  show u: "same_tasks k (upd_task i f k1) = same_tasks k k1" if "\<And>t. core (f t) = core t" for i f
    unfolding same_tasks_def upd_task_def by (auto simp: that)
  show "same_tasks k (upd_fd j g k1) = same_tasks k k1" by (simp add: upd_fd_def u)
qed (simp_all add: same_tasks_def)

lemma same_tasks_sym: "same_tasks k k' = same_tasks k' k"
  by (auto simp: same_tasks_def)

lemma same_tasks_simps' [simp]:
  "same_tasks (k1\<lparr>pg := p\<rparr>) k = same_tasks k1 k"
  "(\<And>t. core (f t) = core t) \<Longrightarrow> same_tasks (upd_task i f k1) k = same_tasks k1 k"
  by (simp_all add: same_tasks_sym [of _ k])

lemma same_tasks_table: "same_tasks k k' \<Longrightarrow> table_ok k \<Longrightarrow> table_ok k'"
  by (auto simp: same_tasks_def table_ok_def cur_ok_def core_def)

lemma same_tasks_ok: "same_tasks k k' \<Longrightarrow> tasks_ok k \<Longrightarrow> tasks_ok k'"
  using same_tasks_table [of k k'] by (auto simp: same_tasks_def tasks_ok_def core_def)

section \<open>Calls that keep the table\<close>

lemma files_same:
  "setCurrentTaskVal a b c f k = Some (d, k') \<Longrightarrow> same_tasks k k'"
  "openTarfsFile p n f k = Some (d, k') \<Longrightarrow> same_tasks k k'"
  "openDirFile p f k = Some (d, k') \<Longrightarrow> same_tasks k k'"
  "closeTarfsFile n k = Some (d, k') \<Longrightarrow> same_tasks k k'"
  "readDirTarfsFile n f k = Some (e, k') \<Longrightarrow> same_tasks k k'"
  "chdir p f k = Some (d, k') \<Longrightarrow> same_tasks k k'"
proof -
  show set: "setCurrentTaskVal a b c f k = Some (d, k') \<Longrightarrow> same_tasks k k'" for a b c d
    by (auto simp: setCurrentTaskVal_def Let_def core_def split: if_splits bind_splits)
  show "openTarfsFile p n f k = Some (d, k') \<Longrightarrow> same_tasks k k'"
    by (auto simp: openTarfsFile_def split: if_splits bind_splits dest: set)
  show "openDirFile p f k = Some (d, k') \<Longrightarrow> same_tasks k k'"
    by (auto simp: openDirFile_def Let_def core_def split: if_splits bind_splits dest: set)
  show "closeTarfsFile n k = Some (d, k') \<Longrightarrow> same_tasks k k'"
    by (auto simp: closeTarfsFile_def Let_def split: if_splits)
  show "readDirTarfsFile n f k = Some (e, k') \<Longrightarrow> same_tasks k k'"
    by (auto simp: readDirTarfsFile_def Let_def split: if_splits bind_splits)
  show "chdir p f k = Some (d, k') \<Longrightarrow> same_tasks k k'"
    by (auto simp: chdir_def core_def split: if_splits bind_splits)
qed

lemma malloc_same: "malloc n k = Some (a, k') \<Longrightarrow> same_tasks k k'"
  by (auto simp: malloc_def core_def split: list.splits bind_splits)

text \<open>\<open>execvpe\<close> touches the name, the registers, the stack pointers and the areas of the caller, and the
  ring-0 stack of the TSS.\<close>

lemma load_segments_same: "load_segments m g fa ts pml4 n k = Some k' \<Longrightarrow> same_tasks k k'"
proof (induction n arbitrary: k)
  case (Suc n)
  then obtain k1 where k1: "load_segment m g fa ts pml4 (Suc n) k = Some k1" "load_segments m g fa ts pml4 n k1 = Some k'"
    by (auto split: bind_splits)
  have "same_tasks k k1" using k1(1)
    by (auto simp: load_segment_def Let_def split_def loadCR3_def getCurrentCR3_def same_tasks_def upd_task_def
        split: if_splits bind_splits)
  then show ?case using Suc.IH [OF k1(2)] same_tasks_trans by blast
qed simp

text \<open>A call that enters a program also sets the ring-0 stack of the TSS.\<close>

definition same_but_tss :: "kernel \<Rightarrow> kernel \<Rightarrow> bool" where
  "same_but_tss k k' \<longleftrightarrow> same_tasks k (k'\<lparr>tss_rsp0 := tss_rsp0 k\<rparr>)"

lemma execvpe_same:
  assumes "execvpe f g b a0 e0 ref argv env k = Some out"
  shows "case out of Exec_Failed k' \<Rightarrow> same_tasks k k' | Entered k' \<Rightarrow> same_but_tss k k' \<and> tss_rsp0 k' = kstack_top k (currentTask k)"
proof -
  have path: "setFileAddress f b ref argv ts a k = Some (v, fa, a', k1) \<Longrightarrow> same_tasks k k1" for ts a v fa a' k1
    by (auto simp: setFileAddress_def Let_def split: if_splits bind_splits list.splits)
  have elf: "readELFandExec m g fa ts k = Some (p, k1) \<Longrightarrow> same_tasks k k1" for m fa ts p k k1
    by (auto simp: readELFandExec_def Let_def split: bind_splits dest!: load_segments_same)
  have areas: "shiftTaskVMA v ts a c k = Some k1 \<Longrightarrow> same_tasks k k1" "setNewVMA v ts p a c k = Some k1 \<Longrightarrow> same_tasks k k1" for v ts a c p k k1
    by (auto simp: shiftTaskVMA_def setNewVMA_def Let_def split: bind_splits)
  have stack: "setRSPandExec ts e a ev ar k = Some k1 \<Longrightarrow> same_but_tss k k1 \<and> tss_rsp0 k1 = kstack_top k ts" for ts e a ev ar k k1
    by (auto simp: setRSPandExec_def Let_def split_def enter_user_def set_tss_rsp_def same_but_tss_def same_tasks_def upd_task_def split: bind_splits)
  show ?thesis
  proof (cases out)
    case (Exec_Failed k')
    then show ?thesis using assms
      by (auto simp: execvpe_def Let_def split_def split: if_splits bind_splits dest!: path)
  next
    case (Entered k')
    then obtain k1 k2 k3 k4 x y z u v where
      "same_tasks k k1" "same_tasks k1 k2" "same_tasks k2 k3" "same_tasks k3 k4" "setRSPandExec (currentTask k) x y u v k4 = Some k'"
      using assms by (auto simp: execvpe_def Let_def split_def split: if_splits bind_splits dest!: path elf areas)
    then show ?thesis using Entered stack [of "currentTask k" x y u v k4 k'] unfolding same_but_tss_def same_tasks_def by auto
  qed
qed

section \<open>Calls that change it\<close>

text \<open>One slot changes.\<close>

lemma table_ok_upd:
  assumes "table_ok k" and "pid (f (taskQueue k i)) = pid (taskQueue k i)" "ppid (f (taskQueue k i)) = ppid (taskQueue k i)"
    and "alive (state (f (taskQueue k i))) \<longrightarrow> i < MAX_TASKS \<longrightarrow> alive (state (taskQueue k i)) \<or> pid (taskQueue k i) = i"
    and "i = 0 \<longrightarrow> state (f (taskQueue k i)) \<in> {RUNNING, WAIT}" "i = 1 \<longrightarrow> state (f (taskQueue k i)) = RUNNING"
  shows "table_ok (upd_task i f k)"
  using assms unfolding table_ok_def cur_ok_def upd_task_def by auto

lemma table_ok_pg [simp]: "table_ok (k\<lparr>pg := p\<rparr>) = table_ok k"
  by (simp add: table_ok_def cur_ok_def)

lemma tasks_ok_pg [simp]: "tasks_ok (k\<lparr>pg := p\<rparr>) = tasks_ok k"
  by (simp add: tasks_ok_def)

text \<open>\<open>schedule\<close> makes a good processor state out of any good table.\<close>

lemma schedule_tasks_ok:
  assumes "table_ok k"
  shows "\<exists>k'. schedule resume k = Some k' \<and> tasks_ok k' \<and> state (cur k') = RUNNING \<and> pg k' = pg k"
proof -
  let ?n = "next_task (taskQueue k) (currentTask k)"
  have c: "cur_ok k" "currentTask k < MAX_TASKS" using assms by (simp_all add: tasks_okD)
  have i: "state (taskQueue k 1) = RUNNING" "1 < MAX_TASKS" using assms by (simp_all add: table_ok_def MAX_TASKS_def)
  have n: "?n < MAX_TASKS" using c(2) by (rule next_task_less)
  have r: "state (taskQueue k ?n) = RUNNING"
  proof (cases "currentTask k = 1")
    case False
    then show ?thesis using next_task_running [of 1 "taskQueue k" "currentTask k"] i by simp
  next
    case True
    note cur1 = True
    show ?thesis
    proof (cases "\<exists>p < MAX_TASKS. p \<noteq> 1 \<and> state (taskQueue k p) = RUNNING")
      case False
      have "?n = 1 \<or> state (taskQueue k ?n) = RUNNING"
        unfolding next_task_def cur1 by (auto split: option.split dest: find_SomeD)
      then show ?thesis using i(1) by auto
    next
      case True
      then obtain p where "p < MAX_TASKS" "p \<noteq> 1" "state (taskQueue k p) = RUNNING" by blast
      then show ?thesis using next_task_running [of p "taskQueue k" "currentTask k"] cur1 by simp
    qed
  qed
  obtain k' where k': "schedule resume k = Some k'" "currentTask k' = ?n"
      "\<forall>i. i \<noteq> currentTask k \<longrightarrow> taskQueue k' i = taskQueue k i"
      "core (taskQueue k' (currentTask k)) = core (cur k)"
      "kstack_top k' = kstack_top k" "tss_rsp0 k' = kstack_top k ?n" "cr3 k' = task_pml4e (taskQueue k ?n)" "pg k' = pg k"
    using schedule_eq [OF c(1), of resume] unfolding core_def by auto
  have core: "core (taskQueue k' i) = core (taskQueue k i)" for i using k'(3,4) by (cases "i = currentTask k") auto
  have pid: "pid (taskQueue k ?n) = ?n" using assms n r by (simp add: table_ok_def alive_def)
  have "tasks_ok k'" using assms core r pid n k' unfolding tasks_ok_def table_ok_def cur_ok_def core_def by auto
  moreover have "state (cur k') = RUNNING" using core [of ?n] r k'(2) by (simp add: core_def)
  ultimately show ?thesis using k' by blast
qed

text \<open>Calls that give up the processor. \<open>init\<close> may wait, but only user tasks sleep or exit.\<close>

lemma table_ok_state:
  assumes "table_ok k" "currentTask k \<noteq> 1" "currentTask k = 0 \<longrightarrow> st \<in> {RUNNING, WAIT}"
  shows "table_ok (upd_task (currentTask k) (\<lambda>t. t\<lparr>state := st\<rparr>) k)"
    "table_ok (upd_task (currentTask k) (\<lambda>t. t\<lparr>time := n, state := st\<rparr>) k)"
  using assms by (auto intro!: table_ok_upd simp: tasks_okD)

lemma wake_waiting_table: "table_ok k \<Longrightarrow> p < MAX_TASKS \<Longrightarrow> table_ok (wake_waiting p k)"
  by (auto simp: wake_waiting_def alive_def intro!: table_ok_upd simp: table_ok_def [of k])

lemma reparent_table: "table_ok k \<Longrightarrow> table_ok (reparent p k)"
  unfolding table_ok_def cur_ok_def by (auto simp: reparent_queue)

lemma exit_tasks_ok:
  assumes "table_ok k" and "2 \<le> currentTask k"
  shows "\<exists>k'. exit resume k = Some k' \<and> tasks_ok k' \<and> pg k' = pg k"
proof -
  let ?k = "upd_task (currentTask k) (\<lambda>t. t\<lparr>state := ZOMBIE\<rparr>) k"
  have t: "table_ok ?k" using table_ok_state(1) [OF assms(1)] assms(2) by simp
  let ?k1 = "reparent (currentTask k) ?k"
  have t1: "table_ok ?k1" using t by (rule reparent_table)
  have p: "ppid (taskQueue ?k1 (currentTask k)) < MAX_TASKS" using t1 assms(1) unfolding table_ok_def cur_ok_def by auto
  have "exit_mark k = Some (wake_waiting (ppid (taskQueue ?k1 (currentTask k))) ?k1)"
    using p assms(1) by (simp add: exit_mark_def Let_def table_ok_def cur_ok_def upd_task_def)
  moreover obtain k' where "schedule resume (wake_waiting (ppid (taskQueue ?k1 (currentTask k))) ?k1) = Some k'" "tasks_ok k'"
      "pg k' = pg (wake_waiting (ppid (taskQueue ?k1 (currentTask k))) ?k1)"
    using schedule_tasks_ok [OF wake_waiting_table [OF t1 p]] by blast
  moreover have "pg (wake_waiting i ?k1) = pg k" for i by (simp add: wake_waiting_def upd_task_def reparent_def)
  ultimately show ?thesis by (simp add: exit_def)
qed

text \<open>A user task that exits is a ZOMBIE, and another task runs.\<close>

lemma exit_switches:
  assumes "table_ok k" and "2 \<le> currentTask k" and "exit resume k = Some k'"
  shows "state (taskQueue k' (currentTask k)) = ZOMBIE \<and> state (cur k') = RUNNING \<and> currentTask k' \<noteq> currentTask k"
proof -
  let ?k = "upd_task (currentTask k) (\<lambda>t. t\<lparr>state := ZOMBIE\<rparr>) k"
  let ?k1 = "reparent (currentTask k) ?k"
  have t1: "table_ok ?k1" using table_ok_state(1) [OF assms(1)] assms(2) by (intro reparent_table) simp
  have p: "ppid (taskQueue ?k1 (currentTask k)) < MAX_TASKS" using t1 assms(1) unfolding table_ok_def cur_ok_def by auto
  let ?k2 = "wake_waiting (ppid (taskQueue ?k1 (currentTask k))) ?k1"
  have "exit_mark k = Some ?k2"
    using p assms(1) by (simp add: exit_mark_def Let_def table_ok_def cur_ok_def upd_task_def)
  then have s: "schedule resume ?k2 = Some k'" using assms(3) by (simp add: exit_def)
  have t2: "table_ok ?k2" using wake_waiting_table [OF t1 p] .
  have c: "currentTask ?k2 = currentTask k" by (simp add: wake_waiting_def upd_task_def reparent_def)
  have z: "state (taskQueue ?k2 (currentTask k)) = ZOMBIE" by (auto simp: wake_waiting_def upd_task_def reparent_queue)
  obtain x where "taskQueue k' (currentTask ?k2) = (cur ?k2)\<lparr>regs := x\<rparr>"
    using schedule_eq [OF tasks_okD(3) [OF t2], of resume] s by auto
  then have "state (taskQueue k' (currentTask ?k2)) = state (cur ?k2)" by simp
  then have zz: "state (taskQueue k' (currentTask k)) = ZOMBIE" using z c by simp
  moreover have r: "state (cur k') = RUNNING" using schedule_tasks_ok [OF t2, of resume] s by auto
  ultimately show ?thesis by auto
qed

lemma blocked_tasks_ok:
  assumes "table_ok k" "currentTask k \<noteq> 1" "currentTask k = 0 \<longrightarrow> st = WAIT"
  shows "\<exists>k'. schedule resume (upd_task (currentTask k) (\<lambda>t. t\<lparr>state := st\<rparr>) k) = Some k' \<and> tasks_ok k' \<and> pg k' = pg k"
    "\<exists>k'. schedule resume (upd_task (currentTask k) (\<lambda>t. t\<lparr>time := n, state := st\<rparr>) k) = Some k' \<and> tasks_ok k' \<and> pg k' = pg k"
  using schedule_tasks_ok [OF table_ok_state(1) [OF assms(1,2)], of st resume]
    schedule_tasks_ok [OF table_ok_state(2) [OF assms(1,2)], of st resume n] assms(3)
  by (auto simp: upd_task_def)

text \<open>Reaping a child: never the caller itself.\<close>

lemma reap_tasks_ok:
  assumes "tasks_ok k" "currentTask k \<noteq> 1" "i < MAX_TASKS" "is_child_zombie k i"
  shows "\<exists>k'. reap i k = Returned (int i) k' \<and> tasks_ok k' \<and> currentTask k' = currentTask k"
proof -
  have t: "table_ok k" and z: "state (taskQueue k i) = ZOMBIE" "ppid (taskQueue k i) = currentTask k"
    using assms(1,4) by (simp_all add: tasks_okD is_child_zombie_def)
  have "2 \<le> i" using table_ok_user_slot [OF t, of i] z(1) by simp
  then have i: "i \<noteq> 0" "i \<noteq> 1" "i \<noteq> currentTask k" using t z(2) assms(3) unfolding table_ok_def by auto
  let ?k = "upd_task i (\<lambda>t. t\<lparr>state := READY\<rparr>) (removeProcess i k)"
  have "table_ok ?k" using t i by (auto intro!: table_ok_upd simp: removeProcess_def alive_def)
  then have "tasks_ok ?k" using assms(1) i by (simp add: tasks_ok_def removeProcess_def upd_task_def)
  then show ?thesis by (simp add: reap_def upd_task_def)
qed

definition outcome_ok :: "outcome \<Rightarrow> bool" where
  "outcome_ok out \<longleftrightarrow> (case out of Returned v k' \<Rightarrow> tasks_ok k' | Blocked k' \<Rightarrow> tasks_ok k')"

lemma wait_tasks_ok:
  assumes "tasks_ok k" "currentTask k \<noteq> 1"
  shows "\<exists>out. wait_enter resume k = Some out \<and> outcome_ok out" "\<exists>out. wait_resume resume k = Some out \<and> outcome_ok out"
proof -
  have b: "\<exists>out. wait_block resume k = Some out \<and> outcome_ok out"
    using blocked_tasks_ok(1) [OF _ assms(2), of WAIT resume] assms(1) by (auto simp: wait_block_def outcome_ok_def tasks_okD)
  have r: "first_index (is_child_zombie k) MAX_TASKS = Some i \<Longrightarrow> outcome_ok (reap i k)" for i
    using reap_tasks_ok [OF assms, of i] by (auto simp: outcome_ok_def first_index_Some)
  show e: "\<exists>out. wait_enter resume k = Some out \<and> outcome_ok out"
    using b r by (auto simp: wait_enter_def split: option.split)
  show "\<exists>out. wait_resume resume k = Some out \<and> outcome_ok out"
    using e r by (auto simp: wait_resume_def split: option.split)
qed

lemma waitpid_tasks_ok:
  assumes "tasks_ok k" "2 \<le> currentTask k"
  shows "waitpid_enter resume p k = Some out \<Longrightarrow> outcome_ok out" "0 \<le> p \<Longrightarrow> p < int MAX_TASKS \<Longrightarrow> waitpid_resume resume p k = Some out \<Longrightarrow> outcome_ok out"
proof -
  have r: "0 \<le> p \<Longrightarrow> p < int MAX_TASKS \<Longrightarrow> is_child_zombie k (nat p) \<Longrightarrow> outcome_ok (reap (nat p) k)"
    using reap_tasks_ok [OF assms(1), of "nat p"] assms(2) by (fastforce simp: outcome_ok_def)
  show "waitpid_enter resume p k = Some out \<Longrightarrow> outcome_ok out"
    using blocked_tasks_ok(1) [of k WAIT resume] assms r
    by (auto simp: waitpid_enter_def wait_block_def outcome_ok_def [of "Blocked _"] tasks_okD split: if_splits bind_splits)
  show "0 \<le> p \<Longrightarrow> p < int MAX_TASKS \<Longrightarrow> waitpid_resume resume p k = Some out \<Longrightarrow> outcome_ok out"
    using schedule_tasks_ok [of k resume] assms r
    by (auto simp: waitpid_resume_def outcome_ok_def [of "Blocked _"] tasks_okD split: if_splits bind_splits)
qed

lemma sleep_tasks_ok:
  assumes "tasks_ok k" "2 \<le> currentTask k"
  shows "\<exists>out. sleep resume n k = Some out \<and> outcome_ok out"
  using blocked_tasks_ok(2) [of k HANG resume "to_int32 (uint n)"] assms
  by (auto simp: sleep_def outcome_ok_def tasks_okD)

lemma intRead_tasks_ok:
  assumes "tasks_ok k" "2 \<le> currentTask k" and "intRead a resume c m k = Some out"
  shows "case out of Line c' m' k' \<Rightarrow> tasks_ok k' | Asleep c' m' k' \<Rightarrow> tasks_ok k'"
proof -
  have t: "table_ok k" using assms(1) by (rule tasks_okD)
  have "table_ok (upd_task (currentTask k) (\<lambda>t. t\<lparr>state := RUNNING\<rparr>) k)" using table_ok_state(1) [OF t] assms(2) by simp
  then have "tasks_ok (upd_task (currentTask k) (\<lambda>t. t\<lparr>state := RUNNING\<rparr>) k)"
    using assms(1) by (simp add: tasks_ok_def upd_task_def)
  moreover have "schedule resume k = Some k' \<Longrightarrow> tasks_ok k'" for k' using schedule_tasks_ok [OF t, of resume] by auto
  moreover have "schedule resume (upd_task (currentTask k) (\<lambda>t. t\<lparr>state := SLEEP\<rparr>) k) = Some k' \<Longrightarrow> tasks_ok k'" for k'
    using blocked_tasks_ok(1) [OF t, of SLEEP resume] assms(2) by auto
  ultimately show ?thesis using assms(3) by (auto simp: intRead_def split: if_splits bind_splits option.splits prod.splits)
qed

lemma processor_simps [simp]:
  "cr3 (reparent p k) = cr3 k" "tss_rsp0 (reparent p k) = tss_rsp0 k" "task_pml4e (taskQueue (reparent p k) i) = task_pml4e (taskQueue k i)"
  "cr3 (wake_waiting p k) = cr3 k" "tss_rsp0 (wake_waiting p k) = tss_rsp0 k" "kstack_top (wake_waiting p k) = kstack_top k"
  "task_pml4e (taskQueue (wake_waiting p k) i) = task_pml4e (taskQueue k i)"
  "cr3 (upd_task j f k) = cr3 k" "tss_rsp0 (upd_task j f k) = tss_rsp0 k" "kstack_top (upd_task j f k) = kstack_top k"
  "taskQueue (upd_task j f k) i = (if i = j then f (taskQueue k j) else taskQueue k i)"
  "currentTask (upd_task j f k) = currentTask k"
  unfolding wake_waiting_def upd_task_def reparent_queue by (simp_all add: reparent_def)

lemma kill_tasks_ok:
  assumes "tasks_ok k" "p \<noteq> 0" "p \<noteq> 1" and "kill p k = Some (v, k')"
  shows "tasks_ok k'"
proof -
  let ?k = "upd_task (nat p) (\<lambda>t. t\<lparr>state := ZOMBIE\<rparr>) k"
  let ?k1 = "reparent (nat p) ?k"
  have p: "0 \<le> p" "p < int MAX_TASKS" "ppid (taskQueue ?k1 (nat p)) < MAX_TASKS" "k' = wake_waiting (ppid (taskQueue ?k1 (nat p))) ?k1"
    using assms(4) by (auto simp: kill_def Let_def split: if_splits)
  have "nat p \<noteq> 0" "nat p \<noteq> 1" using assms(2,3) p(1) by simp_all
  then have "table_ok ?k" using assms(1) by (auto intro!: table_ok_upd simp: tasks_okD alive_def)
  then have t: "table_ok k'" unfolding p(4) by (intro wake_waiting_table reparent_table p(3))
  have "state (cur k') \<in> {RUNNING, ZOMBIE}" using assms(1) p(4) by (auto simp: tasks_ok_def)
  moreover have "cr3 k' = task_pml4e (cur k') \<and> tss_rsp0 k' = kstack_top k' (currentTask k')"
    using assms(1) unfolding p(4) by (simp add: tasks_ok_def)
  ultimately show ?thesis using t by (simp add: tasks_ok_def)
qed

text \<open>\<open>fork\<close>: a READY slot becomes a RUNNING child of the caller.\<close>

lemma fork_tasks_ok:
  assumes "tasks_ok k" and "fork ret k = Some (c, k')"
  shows "tasks_ok k'"
proof -
  have t: "table_ok k" using assms(1) by (rule tasks_okD)
  obtain d where d: "newPID k = Some d" using assms(2) by (auto simp: fork_def createChild_def split: bind_splits)
  have r: "d < MAX_TASKS" "state (taskQueue k d) = READY" using newPID_Some [OF d] by auto
  then have ne: "d \<noteq> currentTask k" "d \<noteq> 0" "d \<noteq> 1"
    using assms(1) table_ok_user_slot [OF t, of d] by (auto simp: tasks_ok_def)
  have copied: "copytask d k1 = Some k2 \<Longrightarrow> currentTask k1 = currentTask k \<Longrightarrow> currentTask k2 = currentTask k \<and> cr3 k2 = cr3 k1 \<and> tss_rsp0 k2 = tss_rsp0 k1
      \<and> kstack_top k2 = kstack_top k1 \<and> (\<forall>i. i \<noteq> d \<longrightarrow> core (taskQueue k2 i) = core (taskQueue k1 i))
      \<and> pid (taskQueue k2 d) = pid (taskQueue k1 d) \<and> ppid (taskQueue k2 d) = pid (cur k1)" for k1 k2
    using ne by (auto simp: copytask_def copyVMA_def Let_def split_def upd_task_def core_def split: bind_splits)
  obtain k2 where k2: "copytask d (upd_task d (\<lambda>t. t\<lparr>pid := d\<rparr>) k) = Some k2"
    and k': "currentTask k' = currentTask k2" "cr3 k' = cr3 k2" "tss_rsp0 k' = tss_rsp0 k2" "kstack_top k' = kstack_top k2"
      "\<forall>i. i \<noteq> d \<longrightarrow> core (taskQueue k' i) = core (taskQueue k2 i)"
      "state (taskQueue k' d) = RUNNING" "pid (taskQueue k' d) = pid (taskQueue k2 d)" "ppid (taskQueue k' d) = ppid (taskQueue k2 d)"
    using assms(2) d by (auto simp: fork_def createChild_def Let_def setStackTask_def increaseChildCount_def upd_task_def core_def split: bind_splits)
  have c: "currentTask k' = currentTask k" "cr3 k' = cr3 k" "tss_rsp0 k' = tss_rsp0 k" "kstack_top k' = kstack_top k"
      "\<forall>i. i \<noteq> d \<longrightarrow> core (taskQueue k' i) = core (taskQueue k i)" "pid (taskQueue k' d) = d" "ppid (taskQueue k' d) = pid (cur k)"
    using copied [OF k2] k' ne(1) by (auto simp: upd_task_def)
  have f: "i \<noteq> d \<Longrightarrow> state (taskQueue k' i) = state (taskQueue k i) \<and> pid (taskQueue k' i) = pid (taskQueue k i)
      \<and> ppid (taskQueue k' i) = ppid (taskQueue k i) \<and> task_pml4e (taskQueue k' i) = task_pml4e (taskQueue k i)" for i
    using c(5) by (simp add: core_def)
  have "cur_ok k'" using t c(1) f [of "currentTask k"] ne(1) by (simp add: table_ok_def cur_ok_def)
  moreover have "ppid (taskQueue k' i) < MAX_TASKS \<and> (2 \<le> i \<longrightarrow> ppid (taskQueue k' i) \<noteq> i)" "alive (state (taskQueue k' i)) \<longrightarrow> pid (taskQueue k' i) = i"
    if "i < MAX_TASKS" for i
    using t c(6,7) f [of i] that ne(1) by (cases "i = d"; simp add: table_ok_def cur_ok_def)+
  moreover have "state (taskQueue k' 1) = RUNNING" "state (taskQueue k' 0) \<in> {RUNNING, WAIT}"
    using t f [of 0] f [of 1] ne by (simp_all add: table_ok_def)
  ultimately have "table_ok k'" by (simp add: table_ok_def)
  then show ?thesis using assms(1) c f [of "currentTask k"] ne(1) by (simp add: tasks_ok_def)
qed

text \<open>The clock and the keyboard wake tasks, a fault maps a page or ends the task.\<close>

lemma taskTimer_tasks_ok: "tasks_ok k \<Longrightarrow> tasks_ok (taskTimer k)"
proof -
  assume k: "tasks_ok k"
  have f: "pid (tick_task t) = pid t" "ppid (tick_task t) = ppid t" "task_pml4e (tick_task t) = task_pml4e t"
    "state t \<noteq> HANG \<Longrightarrow> state (tick_task t) = state t" "alive (state (tick_task t)) \<longleftrightarrow> alive (state t)" for t
    by (auto simp: tick_task_def Let_def alive_def)
  have "table_ok (taskTimer k)"
    using k unfolding tasks_ok_def table_ok_def cur_ok_def by (auto simp: taskTimer_queue f) (simp_all add: taskTimer_def f)
  moreover have "currentTask (taskTimer k) = currentTask k" "cr3 (taskTimer k) = cr3 k" "tss_rsp0 (taskTimer k) = tss_rsp0 k"
    "kstack_top (taskTimer k) = kstack_top k" by (simp_all add: taskTimer_def)
  ultimately show ?thesis using k unfolding tasks_ok_def by (auto simp: taskTimer_queue f)
qed

lemma wake_process_tasks_ok: "tasks_ok k \<Longrightarrow> tasks_ok (wake_process k)"
proof -
  assume k: "tasks_ok k"
  have "tasks_ok (wokeUP i k)" if "state (taskQueue k i) = SLEEP" for i
  proof -
    have "table_ok (wokeUP i k)" using k that unfolding wokeUP_def by (auto intro!: table_ok_upd simp: tasks_okD alive_def)
    then show ?thesis using k that by (auto simp: tasks_ok_def wokeUP_def)
  qed
  then show ?thesis using k by (auto simp: wake_process_def first_index_Some split: option.split)
qed

lemma intWrite_tasks_ok: "tasks_ok k \<Longrightarrow> intWrite port (c, k) = Some (c', k') \<Longrightarrow> tasks_ok k'"
  by (auto simp: intWrite_def Let_def wake_process_tasks_ok split: if_splits bind_splits)

lemma intTimer_tasks_ok:
  assumes "tasks_ok k" and "intTimer resume t scr k = Some out"
  shows "case out of Ticked t' scr' k' \<Rightarrow> tasks_ok k' | Preempted t' scr' k' \<Rightarrow> tasks_ok k'"
  using assms schedule_tasks_ok [OF tasks_okD(1) [OF assms(1)], of resume]
  by (auto simp: intTimer_def Let_def intTimer_resume_def taskTimer_tasks_ok split: if_splits bind_splits)

lemma isr14_tasks_ok:
  assumes k: "tasks_ok k" "2 \<le> currentTask k" and "isr14 v resume k = Some out"
  shows "case out of Retried k' \<Rightarrow> tasks_ok k' | Switched k' \<Rightarrow> tasks_ok k'"
proof -
  have ex: "exit resume k1 = Some k' \<Longrightarrow> tasks_ok k'" if "tasks_ok k1" "2 \<le> currentTask k1" for k1 k'
    using exit_tasks_ok [OF tasks_okD(1) [OF that(1)] that(2), of resume] by auto
  have copied: "copyNewMemory v add k1 = Some k' \<Longrightarrow> same_tasks k1 (k'\<lparr>cr3 := cr3 k1\<rparr>)" for add k1 k'
    by (auto simp: copyNewMemory_def Let_def same_tasks_def split: bind_splits)
  have grown: "copyFromPML4 v k1 = Some k' \<Longrightarrow> same_tasks k1 k'" for k1 k'
    by (auto simp: copyFromPML4_def Let_def same_tasks_def split: bind_splits)
  obtain isValid k1 where k1: "checkValid k v = Some isValid" "(if isValid then Some k else exit resume k) = Some k1"
    using assms(3) by (auto simp: isr14_def split: bind_splits)
  have ok1: "tasks_ok k1" using k1(2) ex [OF k] k(1) by (auto split: if_splits)
  show ?thesis
  proof (cases "currentTask k1 = currentTask k")
    case False
    then show ?thesis using assms(3) k1 ok1 by (auto simp: isr14_def)
  next
    case True
    then have "2 \<le> currentTask k1" using k(2) by simp
    then show ?thesis
      using assms(3) k1 True ex [OF ok1] copied [of _ k1] grown [of k1] same_tasks_ok [OF _ ok1]
      by (auto simp: isr14_def Let_def split: if_splits bind_splits)
  qed
qed

section \<open>Every system call\<close>

fun trap_state :: "trap \<Rightarrow> system" where
  "trap_state (Back v s) = s"
| "trap_state (Away s) = s"

lemma trap_return_state [simp]: "kern (trap_state (trap_return v s)) = kern s" "tarfs (trap_state (trap_return v s)) = tarfs s"
  by (simp_all add: trap_return_def)

lemma set_simps [simp]:
  "kern (set_kernel k s) = k" "tarfs (set_kernel k s) = tarfs s" "kern (set_pages p s) = (kern s)\<lparr>pg := p\<rparr>" "tarfs (set_pages p s) = tarfs s"
  by (simp_all add: set_kernel_def set_pages_def)

lemma fork_mark_tasks_ok: "tasks_ok k \<Longrightarrow> fork_mark w k = (v, k') \<Longrightarrow> tasks_ok k'"
  by (rule same_tasks_ok) (auto simp: fork_mark_def split: if_splits)

lemmas case_defs = case_read_def case_write_def case_open_def case_close_def case_clear_def case_malloc_def case_opendir_def
  case_sleep_def case_getpid_def case_fork_def case_exec_def case_exit_def case_kill_def case_readdir_def case_getcwd_def
  case_chdir_def case_getppid_def case_waitpid_def case_ps_def

lemma case_read_ok: "tasks_ok (kern s) \<Longrightarrow> 2 \<le> currentTask (kern s) \<Longrightarrow> case_read fr r s = Some t \<Longrightarrow> tasks_ok (kern (trap_state t))"
  using intRead_tasks_ok [of "kern s" "uint (rcx r)" "resume_at fr" "con s" "\<lambda>_. NUL"]
  by (fastforce simp: case_read_def Let_def split: if_splits bind_splits read_outcome.splits)

lemma case_exec_ok: "tasks_ok (kern s) \<Longrightarrow> case_exec fr r s = Some t \<Longrightarrow> tasks_ok (kern (trap_state t))"
proof -
  assume k: "tasks_ok (kern s)" and t: "case_exec fr r s = Some t"
  have "same_but_tss k k' \<Longrightarrow> tss_rsp0 k' = kstack_top k (currentTask k) \<Longrightarrow> tasks_ok k \<Longrightarrow> tasks_ok k'" for k k'
    using same_tasks_table [of k "k'\<lparr>tss_rsp0 := tss_rsp0 k\<rparr>"]
    by (auto simp: same_but_tss_def tasks_ok_def same_tasks_def core_def table_ok_def cur_ok_def)
  then show ?thesis using t k
    by (auto simp: case_exec_def split: bind_splits exec_result.splits dest!: execvpe_same dest: same_tasks_ok)
qed

lemma isr128_tasks_ok:
  assumes k: "tasks_ok (kern s)" "2 \<le> currentTask (kern s)" and c: "code = 62 \<longrightarrow> int_of_reg (rbx r) \<noteq> 0 \<and> int_of_reg (rbx r) \<noteq> 1"
    and t: "isr128 fr code r s = Some t"
  shows "tasks_ok (kern (trap_state t))"
proof -
  let ?ok = "\<lambda>c. c = Some t \<longrightarrow> tasks_ok (kern (trap_state t))"
  note same = files_same [THEN same_tasks_ok, OF _ k(1)] malloc_same [THEN same_tasks_ok, OF _ k(1)]
  have files: "?ok (case_open r s)" "?ok (case_close r s)" "?ok (case_malloc r s)" "?ok (case_opendir r s)" "?ok (case_readdir r s)" "?ok (case_chdir r s)"
    by (auto simp: case_defs split: bind_splits option.splits dest!: same)
  have screen: "?ok (case_write r s)" "?ok (case_clear s)" "?ok (case_getpid s)" "?ok (case_getppid s)" "?ok (case_ps s)" "?ok (case_getcwd r s)"
    using k(1) by (auto simp: case_defs Let_def split: bind_splits if_splits)
  have outs: "tasks_ok (kern (trap_state (case out of Returned v k' \<Rightarrow> trap_return (word_of_int v) (set_kernel k' s) | Blocked k' \<Rightarrow> Away (set_kernel k' s))))"
    if "outcome_ok out" for out using that by (auto simp: outcome_ok_def split: outcome.split)
  have sleeps: "?ok (case_sleep fr r s)"
  proof
    assume "case_sleep fr r s = Some t"
    moreover obtain out where "sleep (resume_at fr) (ucast (rbx r)) (kern s) = Some out" "outcome_ok out" using sleep_tasks_ok [OF k] by blast
    ultimately show "tasks_ok (kern (trap_state t))" using outs by (auto simp: case_sleep_def)
  qed
  have waits: "?ok (case_waitpid fr r s)" using waitpid_tasks_ok(1) [OF k] outs by (auto simp: case_waitpid_def split: bind_splits)
  have exits: "?ok (case_exit fr s)" using exit_tasks_ok [OF tasks_okD(1) [OF k(1)] k(2), of "resume_at fr"] by (auto simp: case_exit_def)
  have forks: "?ok (case_fork fr s)"
    by (auto simp: case_fork_def split: bind_splits prod.splits dest: fork_mark_tasks_ok [OF fork_tasks_ok [OF k(1)]])
  have kills: "code = 62 \<Longrightarrow> ?ok (case_kill r s)" using kill_tasks_ok [OF k(1)] c by (auto simp: case_kill_def split: bind_splits)
  show ?thesis
    using t k(1) files screen sleeps waits exits forks kills case_read_ok [OF k] case_exec_ok [OF k(1)] unfolding isr128_def by (auto split: if_splits)
qed

section \<open>The steps\<close>

text \<open>\<open>fr\<close>, \<open>resume\<close> and \<open>rax\<close> are what the compiled code has on its stack and in its registers. User tasks are
  those from slot 2 on. Killing \<open>init\<close> or \<open>idle\<close> is left out: the kernel does not survive it.\<close>

inductive step :: "system \<Rightarrow> system \<Rightarrow> bool" where
  trap: "2 \<le> currentTask (kern s) \<Longrightarrow> code = 62 \<longrightarrow> int_of_reg (rbx r) \<noteq> 0 \<and> int_of_reg (rbx r) \<noteq> 1
    \<Longrightarrow> isr128 fr code r s = Some t \<Longrightarrow> step s (trap_state t)"
| sleep_over: "2 \<le> currentTask (kern s) \<Longrightarrow> step s (trap_state (resume_sleep s))"
| child_over: "2 \<le> currentTask (kern s) \<Longrightarrow> 0 \<le> int_of_reg (rbx r) \<Longrightarrow> int_of_reg (rbx r) < int MAX_TASKS
    \<Longrightarrow> resume_waitpid fr r s = Some t \<Longrightarrow> step s (trap_state t)"
| forked: "2 \<le> currentTask (kern s) \<Longrightarrow> step s (trap_state (resume_fork rax s))"
| tick: "intTimer resume (clock s) (screen (con s)) (kern s) = Some out
    \<Longrightarrow> step s (case out of Ticked t scr k \<Rightarrow> s\<lparr>clock := t, con := (con s)\<lparr>screen := scr\<rparr>, kern := k\<rparr>
                  | Preempted t scr k \<Rightarrow> s\<lparr>clock := t, con := (con s)\<lparr>screen := scr\<rparr>, kern := k\<rparr>)"
| tick_over: "intTimer_resume (clock s) (screen (con s)) (kern s) = (t, scr, k)
    \<Longrightarrow> step s (s\<lparr>clock := t, con := (con s)\<lparr>screen := scr\<rparr>, kern := k\<rparr>)"
| key: "intWrite port (con s, kern s) = Some (c, k) \<Longrightarrow> step s (s\<lparr>con := c, kern := k\<rparr>)"
| fault: "2 \<le> currentTask (kern s) \<Longrightarrow> isr14 v resume (kern s) = Some out
    \<Longrightarrow> step s (set_kernel (case out of Retried k \<Rightarrow> k | Switched k \<Rightarrow> k) s)"
| init_waits: "currentTask (kern s) = 0 \<Longrightarrow> wait_enter resume (kern s) = Some out \<or> wait_resume resume (kern s) = Some out
    \<Longrightarrow> step s (set_kernel (case out of Returned v k \<Rightarrow> k | Blocked k \<Rightarrow> k) s)"
| idle_yields: "currentTask (kern s) = 1 \<Longrightarrow> schedule resume (kern s) = Some k \<Longrightarrow> step s (set_kernel k s)"
| user_store: "2 \<le> currentTask (kern s) \<Longrightarrow> uput (pg (kern s)) (cr3 (kern s)) a ch = Some p \<Longrightarrow> step s (set_pages p s)"

lemma step_ok: "step s s' \<Longrightarrow> tasks_ok (kern s) \<Longrightarrow> tasks_ok (kern s')"
proof (induction rule: step.induct)
  case (trap s code r fr t)
  then show ?case by (intro isr128_tasks_ok)
next
  case (sleep_over s)
  then show ?case by (simp add: resume_sleep_def)
next
  case (child_over s r fr t)
  then show ?case using waitpid_tasks_ok(2) [of "kern s" "int_of_reg (rbx r)" "resume_at fr"]
    by (auto simp: resume_waitpid_def outcome_ok_def split: bind_splits outcome.splits)
next
  case (forked s rax)
  then show ?case by (auto simp: resume_fork_def split: prod.split intro: fork_mark_tasks_ok)
next
  case (tick resume s out)
  then show ?case using intTimer_tasks_ok [of "kern s"] by (fastforce split: tick.splits)
next
  case (tick_over s t scr k)
  then show ?case by (auto simp: intTimer_resume_def Let_def taskTimer_tasks_ok)
next
  case (key port s c k)
  then show ?case using intWrite_tasks_ok by simp
next
  case (fault s v resume out)
  then show ?case using isr14_tasks_ok [of "kern s" v resume out] by (auto split: fault.splits)
next
  case (init_waits s resume out)
  then have "outcome_ok out" using wait_tasks_ok [of "kern s" resume] by auto
  then show ?case by (auto simp: outcome_ok_def split: outcome.splits)
next
  case (idle_yields s resume k)
  then show ?case using schedule_tasks_ok [of "kern s" resume] by (auto simp: tasks_okD)
next
  case (user_store s a ch p)
  then show ?case by simp
qed

end
