(* ===== verification/Boot.thy ===== *)
theory Boot
  imports System DirectMap Gdt
begin

text \<open>
  \<open>start\<close> of \<^verbatim>\<open>sys/main.c\<close>: the order in which the components are brought up, up to the first program; and
  what this order guarantees: the task table the kernel then runs on is well formed, and stays so.
\<close>

section \<open>The order of initialisation\<close>

text \<open>What the boot loader and the linker supply: the memory map, the kernel's bounds, the archive's bounds
  and the addresses of the handlers, of the table and of the two kernel tasks.\<close>

record boot_info =
  modulep :: "u32 list"
  physfree :: u64
  kernmem :: u64
  physbase :: u64
  tarfs_start :: addr
  tarfs_end :: addr
  isr0_at :: u64
  isr14_at :: u64
  timer_at :: u64
  keyboard_at :: u64
  isr128_at :: u64
  idt_at :: u64
  in_at :: u64
  idle_at :: u64

text \<open>The lines \<open>initializeFreelist\<close> prints; \<^verbatim>\<open>%x\<close> takes an \<^verbatim>\<open>int\<close>.\<close>

fun print_regions :: "smap_t list \<Rightarrow> terminal \<Rightarrow> terminal option" where
  "print_regions [] scr = Some scr"
| "print_regions (e # es) scr =
     (if smap_type e = 1 \<and> smap_length e \<noteq> 0 then do {
        scr \<leftarrow> kprintf (''Available Physical Memory [%p-%p]'' @ [NL]) [ArgPtr (smap_base e), ArgPtr (smap_base e + smap_length e)] scr;
        print_regions es scr
      }
      else print_regions es scr)"

definition print_memory :: "boot_info \<Rightarrow> smap_t list \<Rightarrow> terminal \<Rightarrow> terminal option" where
  "print_memory b es scr = do {
     scr \<leftarrow> print_regions es scr;
     scr \<leftarrow> kprintf (''Kernmem = %x'' @ [NL]) [ArgInt (int_of_reg (kernmem b))] scr;
     scr \<leftarrow> kprintf (''Physbase = %x'' @ [NL]) [ArgInt (int_of_reg (physbase b))] scr;
     kprintf (''Kernbase = %x'' @ [NL]) [ArgInt (int_of_reg (kernmem b - physbase b))] scr
   }"

text \<open>The tail of \<open>start\<close>: the table is emptied, the two kernel tasks and the first program are set up.\<close>

definition start_tasks :: "boot_info \<Rightarrow> (nat \<Rightarrow> vmaStruct) \<Rightarrow> fs \<Rightarrow> kernel \<Rightarrow> kernel option" where
  "start_tasks b garbage f k = do {
     k \<leftarrow> initTask (in_at b) (idle_at b) (initFirstTask k);
     createNewTask f garbage ''bin/sbush'' k
   }"

definition start :: "boot_info \<Rightarrow> (nat \<Rightarrow> vmaStruct) \<Rightarrow> idt_table \<times> system \<Rightarrow> (idt_table \<times> idt_ptr \<times> system) option" where
  "start b garbage = (\<lambda>(idt, s). do {
     (p, lastFreeFrame) \<leftarrow> initializeFreelist (modulep b) (physfree b) (pg (kern s));
     es \<leftarrow> smap_entries (modulep b);
     scr \<leftarrow> print_memory b es (screen (con s));
     (p, _) \<leftarrow> setupPageTables 0 lastFreeFrame p;
     let k = (kern s)\<lparr>pg := p, cr3 := k_cr3 p\<rparr>;
     hs \<leftarrow> init_tarfs (tm (tarfs s)) (tarfs_start b) (tarfs_end b);
     let f = (tarfs s)\<lparr>headers := hs\<rparr>;
     let (idt, ptr) = IDTinitialise (isr0_at b) (isr14_at b) (timer_at b) (keyboard_at b) (isr128_at b) (idt_at b) idt;
     k \<leftarrow> start_tasks b garbage f k;
     Some (idt, ptr, s\<lparr>kern := k, tarfs := f, con := (con s)\<lparr>screen := scr\<rparr>\<rparr>)
   })"

text \<open>\<open>boot\<close>: the segment table is completed first; the loader left the physical address of the memory map and
  the end of the loaded kernel in words 3 and 4 of its stack. \<open>memory_words\<close> reads 32-bit words of memory. \<open>start\<close> does not return, so the
  \<^verbatim>\<open>hlt\<close> loop behind it is not reached.\<close>

definition boot :: "(u64 \<Rightarrow> u32 list) \<Rightarrow> u32 list \<Rightarrow> u64 \<Rightarrow> boot_info \<Rightarrow> (nat \<Rightarrow> vmaStruct) \<Rightarrow> u64 list \<Rightarrow> idt_table \<times> system
    \<Rightarrow> (u64 list \<times> idt_table \<times> idt_ptr \<times> system) option" where
  "boot memory_words loader_stack tss b garbage gdt st = do {
     let gdt = init_gdt tss gdt;
     (idt, ptr, s) \<leftarrow> start (b\<lparr>modulep := memory_words (ucast (loader_stack ! 3) + kernmem b - physbase b),
       physfree := ucast (loader_stack ! 4)\<rparr>) garbage st;
     Some (gdt, idt, ptr, s)
   }"

section \<open>The table after the boot\<close>

lemma createNewTask_table:
  assumes "createNewTask f garbage nm k = Some k'" and d: "newPID k = Some d"
  shows "currentTask k' = d \<and> state (taskQueue k' d) = RUNNING \<and> pid (taskQueue k' d) = d \<and> ppid (taskQueue k' d) = 0
    \<and> (\<forall>i. i \<noteq> d \<longrightarrow> core (taskQueue k' i) = core (taskQueue k i)) \<and> cr3 k' = task_pml4e (taskQueue k' d)
    \<and> tss_rsp0 k' = kstack_top k' d"
proof -
  have elf: "readELFandFork m g fa ts k1 = Some (p, k2) \<Longrightarrow>
      currentTask k2 = currentTask k1 \<and> task_pml4e (taskQueue k2 ts) = p - kernbase \<and> state (taskQueue k2 ts) = state (taskQueue k1 ts)
      \<and> pid (taskQueue k2 ts) = pid (taskQueue k1 ts) \<and> ppid (taskQueue k2 ts) = ppid (taskQueue k1 ts)
      \<and> (\<forall>i. i \<noteq> ts \<longrightarrow> core (taskQueue k2 i) = core (taskQueue k1 i)) \<and> kstack_top k2 = kstack_top k1" for m fa ts k1 k2 g p
    by (auto simp: readELFandFork_def Let_def same_tasks_def core_def split: bind_splits dest!: load_segments_same split: if_splits)
  show ?thesis using assms
    by (auto simp: createNewTask_def initTaskVariables_def setMyVMA_def setTaskRSP_def Let_def split_def loadCR3Virtual_def
        set_tss_rsp_def enter_user_def upd_task_def core_def split: bind_splits dest!: elf)
qed

text \<open>The first RUNNING slots: \<open>init\<close>, \<open>idle\<close>, the shell.\<close>

lemma newPID_first:
  assumes "\<forall>i < n. state (taskQueue k i) \<noteq> READY" "state (taskQueue k n) = READY" "n < MAX_TASKS"
  shows "newPID k = Some n"
  using assms by (auto simp: newPID_def first_index_Some checkTaskState_def)

lemma setupTask_eq:
  "newPID k = Some p \<Longrightarrow> length nm < 100 \<Longrightarrow> setupTask nm a k = Some (upd_task p (\<lambda>t. t\<lparr>pid := p, name := nm, state := RUNNING,
       regs := (regs t)\<lparr>rip := a, rsp := kstack_top k p\<rparr>, task_pml4e := cr3 k\<rparr>) k)"
  by (simp add: setupTask_def strcpy_field_def)

lemma initTask_table:
  "\<exists>k'. initTask a b (initFirstTask k) = Some k' \<and> newPID k' = Some 2 \<and> kstack_top k' = kstack_top k \<and> pg k' = pg k \<and> cr3 k' = cr3 k
    \<and> (\<forall>i < 2. state (taskQueue k' i) = RUNNING \<and> pid (taskQueue k' i) = i)
    \<and> (\<forall>i < MAX_TASKS. 2 \<le> i \<longrightarrow> state (taskQueue k' i) = READY)
    \<and> (\<forall>i. ppid (taskQueue k' i) = ppid (taskQueue k i))"
proof -
  let ?k = "initFirstTask k"
  have r: "state (taskQueue ?k i) = READY" if "i < MAX_TASKS" for i using that by (simp add: initFirstTask_eq)
  have f: "kstack_top ?k = kstack_top k" "pg ?k = pg k" "cr3 ?k = cr3 k" by (simp_all add: initFirstTask_def)
  have p0: "newPID ?k = Some 0" using r [of 0] by (intro newPID_first) (simp_all add: MAX_TASKS_def)
  obtain k1 where k1: "setupTask ''init'' a ?k = Some k1"
    "k1 = upd_task 0 (\<lambda>t. t\<lparr>pid := 0, name := ''init'', state := RUNNING, regs := (regs t)\<lparr>rip := a, rsp := kstack_top ?k 0\<rparr>, task_pml4e := cr3 ?k\<rparr>) ?k"
    using setupTask_eq [OF p0, of "''init''" a] by simp
  have p1: "newPID k1 = Some 1" using r [of 1] k1(2) by (intro newPID_first) (simp_all add: MAX_TASKS_def)
  obtain k2 where k2: "setupTask ''idle'' b k1 = Some k2"
    "k2 = upd_task 1 (\<lambda>t. t\<lparr>pid := 1, name := ''idle'', state := RUNNING, regs := (regs t)\<lparr>rip := b, rsp := kstack_top k1 1\<rparr>, task_pml4e := cr3 k1\<rparr>) k1"
    using setupTask_eq [OF p1, of "''idle''" b] by simp
  have st: "state (taskQueue k2 i) = (if i < 2 then RUNNING else READY)" if "i < MAX_TASKS" for i
    using r [OF that] k1(2) k2(2) by simp
  have "newPID k2 = Some 2" using st by (intro newPID_first) (simp_all add: MAX_TASKS_def)
  moreover have "initTask a b ?k = Some k2" using k1(1) k2(1) by (simp add: initTask_def)
  moreover have "pid (taskQueue k2 i) = i" if "i < 2" for i using that k1(2) k2(2) by auto
  moreover have "ppid (taskQueue k2 i) = ppid (taskQueue k i)" for i using k1(2) k2(2) by (simp add: initFirstTask_eq)
  moreover have "kstack_top k2 = kstack_top k" "pg k2 = pg k" "cr3 k2 = cr3 k" using k1(2) k2(2) f by (simp_all add: upd_task_def)
  ultimately show ?thesis using st by (intro exI [of _ k2]) (auto simp: MAX_TASKS_def)
qed

lemma start_tasks_ok:
  assumes "start_tasks b garbage f k = Some k'" and "\<forall>i < MAX_TASKS. ppid (taskQueue k i) = 0"
  shows "tasks_ok k' \<and> currentTask k' = 2"
proof -
  from initTask_table [of "in_at b" "idle_at b" k] obtain k1 where k1: "initTask (in_at b) (idle_at b) (initFirstTask k) = Some k1" "newPID k1 = Some 2"
    "\<forall>i < 2. state (taskQueue k1 i) = RUNNING \<and> pid (taskQueue k1 i) = i" "\<forall>i < MAX_TASKS. 2 \<le> i \<longrightarrow> state (taskQueue k1 i) = READY"
    "\<forall>i. ppid (taskQueue k1 i) = ppid (taskQueue k i)" by blast
  have "createNewTask f garbage ''bin/sbush'' k1 = Some k'" using assms(1) k1(1) by (simp add: start_tasks_def)
  from createNewTask_table [OF this k1(2)]
  have n: "currentTask k' = 2" "state (taskQueue k' 2) = RUNNING" "pid (taskQueue k' 2) = 2" "ppid (taskQueue k' 2) = 0"
    "cr3 k' = task_pml4e (taskQueue k' 2)" "tss_rsp0 k' = kstack_top k' 2"
    and f: "\<And>i. i \<noteq> 2 \<Longrightarrow> state (taskQueue k' i) = state (taskQueue k1 i) \<and> pid (taskQueue k' i) = pid (taskQueue k1 i) \<and> ppid (taskQueue k' i) = ppid (taskQueue k1 i)"
    by (auto simp: core_def)
  have pp: "ppid (taskQueue k' i) = 0" if "i < MAX_TASKS" for i using n(4) f [of i] k1(5) assms(2) that by (cases "i = 2") auto
  have al: "alive (state (taskQueue k' i)) \<longrightarrow> pid (taskQueue k' i) = i" if "i < MAX_TASKS" for i
    using n(3) f [of i] k1(3,4) that by (cases "i = 2"; cases "i < 2") (auto simp: alive_def)
  have "state (taskQueue k' 0) = RUNNING" "state (taskQueue k' 1) = RUNNING" using f [of 0] f [of 1] k1(3) by auto
  then have "table_ok k'" using n pp al by (auto simp: table_ok_def cur_ok_def MAX_TASKS_def)
  then show ?thesis using n by (simp add: tasks_ok_def)
qed

lemma start_ok:
  assumes "start b garbage (idt, s) = Some (idt', ptr, s')" and "\<forall>i < MAX_TASKS. ppid (taskQueue (kern s) i) = 0"
  shows "tasks_ok (kern s') \<and> currentTask (kern s') = 2"
  using assms(1) start_tasks_ok [of b garbage _ _ "kern s'"] assms(2)
  by (auto simp: start_def Let_def split: bind_splits prod.splits)

section \<open>The kernel's own tables\<close>

lemma upper_back:
  assumes b: "boot_pages fs n" and u: "upper A fs m"
  shows "upper A fs (back_entries fs n m)"
proof -
  have l: "1 < length fs" "2 < length fs" using boot_pagesD(6) [OF b] by auto
  have e: "back_entries fs n m (fs ! j + 8 * i) = m (fs ! j + 8 * i)" if "j = 1 \<or> j = 2" "i < 512" for i :: u64 and j
    using back_entries_other [OF b, of j "unat i" m] that l by (auto simp: word_less_nat_alt)
  then show ?thesis using u by (simp add: upper_def)
qed

text \<open>From memory that is zero, the tables reached by the kernel's addresses are frames taken from the list.\<close>

lemma final_kernel_tables:
  assumes b: "boot_pages fs n" and inv: "map_inv fs n s1" and u: "upper A fs (pm s1)" and A: "set (take (5 + n div 512) fs) \<subseteq> A"
  shows "kernel_tables (pm (final_state fs n s1)) (fs ! 0) \<subseteq> A"
proof
  let ?M = "back_entries fs n (pm s1)"
  have M: "pm (final_state fs n s1) = ?M" by (simp add: final_state_def)
  have uM: "upper A fs ?M" by (rule upper_back [OF b u])
  have l: "0 < length fs" "1 < length fs" "2 < length fs" using boot_pagesD(6) [OF b] by auto
  have in_A: "fs ! j \<in> A" if "j < 5" for j
  proof -
    have "j < length (take (5 + n div 512) fs)" using that boot_pagesD(6) [OF b] by simp
    then have "take (5 + n div 512) fs ! j \<in> set (take (5 + n div 512) fs)" by (rule nth_mem)
    then show ?thesis using A that by auto
  qed
  have root: "?M (fs ! 0 + 8 * 511) = fs ! 1 OR 3"
    using back_entries_other [OF b l(1), of 511 "pm s1"] inv by (simp add: map_inv_def)
  have v: "(fs ! 1 OR 3) AND validatebits = fs ! 1" using entry_OR_3(2) [OF boot_page_aligned [OF b l(2)]] .
  fix F assume "F \<in> kernel_tables (pm (final_state fs n s1)) (fs ! 0)"
  then obtain p where p: "kpath p" "tbl ?M (fs ! 0) p = Some F" unfolding kernel_tables_def M by blast
  consider "p = []" | "p = [511]" | i where "p = [511, i]" "i < 512" | i j where "p = [511, i, j]" "i < 512" "j < 512"
    using p(1) by (cases p rule: remdups_adj.cases; cases "tl (tl p)"; cases "tl (tl (tl p))") (auto simp: kpath_def)
  then show "F \<in> A"
  proof cases
    case 1
    then show ?thesis using p(2) in_A [of 0] by simp
  next
    case 2
    then show ?thesis using p(2) root v in_A [of 1] by (auto split: if_splits)
  next
    case (3 i)
    then show ?thesis using p(2) root v uM in_A [of 2] unfolding upper_def by (auto split: if_splits)
  next
    case (4 i j)
    then show ?thesis using p(2) root v uM unfolding upper_def by (auto split: if_splits)
  qed
qed

lemma setup_kspace:
  assumes ff: "free_frames s fs" and b: "boot_pages fs n" and z: "\<forall>f \<in> set fs. \<forall>i < 512. pm s (f + 8 * i) = 0"
    and lim: "\<forall>f \<in> set fs. f < phys n"
  shows "\<exists>s' as K. setupPageTables 0 (phys n) s = Some (s', as) \<and> k_cr3 s' = fs ! 0
     \<and> kspace s' (phys n) K (drop (5 + n div 512) fs) \<and> K \<inter> set (drop (5 + n div 512) fs) = {}"
proof -
  let ?A = "set (take (5 + n div 512) fs)"
  obtain s1 where s1: "setupPageTables 0 (phys n) s = Some (final_state fs n s1, [behind n 1, behind n 2, behind n 3, behind n 4])"
    "map_inv fs n s1" "upper ?A fs (pm s1)"
    using setup_run [OF ff b order_refl] z by blast
  let ?s = "final_state fs n s1" and ?gs = "drop (5 + n div 512) fs"
  have c: "k_cr3 ?s = fs ! 0" by (simp add: final_state_def)
  have "free_frames ?s ?gs" using s1(2) boot_pagesD(10) [OF b] by (simp add: map_inv_def final_state_def free_frames_def)
  moreover have "mapped_frames (phys n) ?gs" using boot_pagesD(2) [OF b] lim by (auto simp: mapped_frames_def dest: in_set_dropD)
  moreover have "0 < length fs" using boot_pagesD(6) [OF b] by linarith
  then have "aligned (fs ! 0)" using boot_page_aligned [OF b] by blast
  ultimately have "kspace ?s (phys n) (kernel_tables (pm ?s) (fs ! 0)) ?gs"
    using final_kernel_map [OF b s1(2)] boot_pagesD(1) [OF b] c by (simp add: kspace_def)
  moreover have "?A \<inter> set ?gs = {}" using boot_pagesD(1) [OF b] by (metis append_take_drop_id distinct_append)
  then have "kernel_tables (pm ?s) (fs ! 0) \<inter> set ?gs = {}"
    using final_kernel_tables [OF b s1(2,3) order_refl] by blast
  ultimately show ?thesis using s1(1) c by blast
qed

section \<open>Bringing up the shell\<close>

text \<open>The end of the last usable region: the bound of the direct map.\<close>

fun last_end :: "smap_t list \<Rightarrow> u64 \<Rightarrow> u64" where
  "last_end [] l = l"
| "last_end (e # es) l = last_end es (if e_used e then e_limit e else l)"

lemma smap_loop_end: "smap_loop pf es (st, l) = Some (st', l') \<Longrightarrow> l' = last_end es l"
proof (induction es arbitrary: st l)
  case (Cons e es)
  show ?case
  proof (cases "e_used e")
    case True
    then obtain st1 where "smap_loop pf es (st1, e_limit e) = Some (st', l')"
      using Cons.prems by (auto simp: e_used_def e_limit_def split: if_splits bind_splits)
    then show ?thesis using Cons.IH True by simp
  next
    case False
    then show ?thesis using Cons.prems Cons.IH by (auto simp: e_used_def split: if_splits)
  qed
qed simp

lemma last_end_mono: "regions_ok lo es \<Longrightarrow> unat l \<le> lo \<Longrightarrow> unat l \<le> unat (last_end es l)"
proof (induction es arbitrary: lo l)
  case (Cons e es)
  show ?case
  proof (cases "e_used e")
    case True
    then have ok: "lo \<le> unat (smap_base e)" "smap_base e \<le> e_limit e" "regions_ok ((unat (e_limit e) + 4095) div 4096 * 4096) es"
      using Cons.prems(1) by auto
    have "x \<le> (x + 4095) div 4096 * 4096" for x :: nat by linarith
    then have "unat (e_limit e) \<le> unat (last_end es (e_limit e))" using Cons.IH [OF ok(3)] by blast
    moreover have "unat l \<le> unat (e_limit e)" using Cons.prems(2) ok(1,2) by (simp add: word_le_nat_alt)
    ultimately show ?thesis using True by simp
  qed (use Cons in auto)
qed simp

lemma map_frames_below: "regions_ok lo es \<Longrightarrow> i \<in> set (map_frames pf es) \<Longrightarrow> i * 4096 < unat (last_end es l)"
proof (induction es arbitrary: lo l)
  case (Cons e es)
  show ?case
  proof (cases "e_used e")
    case True
    then have ok: "regions_ok ((unat (e_limit e) + 4095) div 4096 * 4096) es" using Cons.prems(1) by auto
    have le: "x \<le> (x + 4095) div 4096 * 4096" for x :: nat by linarith
    show ?thesis
    proof (cases "i \<in> set (map_frames pf es)")
      case False
      then have "i * 4096 < unat (e_limit e)" using Cons.prems(2) True by (auto simp: region_frames_def)
      then show ?thesis using last_end_mono [OF ok le] True by simp
    qed (use Cons.IH [OF ok] True in simp)
  qed (use Cons in auto)
qed simp

definition boot_frames :: "boot_info \<Rightarrow> smap_t list \<Rightarrow> u64 list" where
  "boot_frames b es = map (\<lambda>i. of_nat i * pageSize) (map_frames (physfree b) es)"

lemma boot_frames_listed:
  assumes "smap_entries (modulep b) = Some es" "regions_ok 0 es" "head p = None"
  shows "\<exists>p'. initializeFreelist (modulep b) (physfree b) p = Some (p', last_end es 0) \<and> free_frames p' (boot_frames b es) \<and> pm p' = pm p"
proof -
  have "build_inv (pagelist p, None, None) []" by (simp add: build_inv_def)
  from smap_loop_links [OF this assms(2), of "physfree b" 0] obtain pl h l last where
    r: "smap_loop (physfree b) es ((pagelist p, None, None), 0) = Some ((pl, h, l), last)" "build_inv (pl, h, l) (map_frames (physfree b) es)" by auto
  let ?p = "p\<lparr>pagelist := pl, head := h\<rparr>"
  have "initializeFreelist (modulep b) (physfree b) p = Some (?p, last_end es 0)"
    using r(1) smap_loop_end [OF r(1)] assms(1,3) by (simp add: initializeFreelist_def)
  moreover have "free_frames ?p (boot_frames b es)" using r(2) by (auto simp: free_frames_def build_inv_def boot_frames_def)
  ultimately show ?thesis by (intro exI [of _ ?p]) simp
qed

lemma print_memory_total: "print_memory b es scr \<noteq> None"
proof -
  have "print_regions es scr \<noteq> None" by (induction es arbitrary: scr) (auto simp: kprintf_def conversion_def)
  then show ?thesis by (auto simp: print_memory_def kprintf_def conversion_def)
qed

text \<open>What the boot needs: a memory map whose frames hold zeros, with room for the direct map and the program;
  an archive with the shell; a task table of zeros.\<close>

definition bootable :: "boot_info \<Rightarrow> smap_t list \<Rightarrow> nat \<Rightarrow> addr list \<Rightarrow> u64 \<Rightarrow> system \<Rightarrow> bool" where
  "bootable b es n hs fa s \<longleftrightarrow> smap_entries (modulep b) = Some es \<and> regions_ok 0 es \<and> head (pg (kern s)) = None
     \<and> last_end es 0 = phys n \<and> boot_pages (boot_frames b es) n
     \<and> (\<forall>f \<in> set (boot_frames b es). \<forall>i < 512. pm (pg (kern s)) (f + 8 * i) = 0)
     \<and> init_tarfs (tm (tarfs s)) (tarfs_start b) (tarfs_end b) = Some hs
     \<and> content_address ((tarfs s)\<lparr>headers := hs\<rparr>) ''bin/sbush'' = Some fa
     \<and> loadable (tm (tarfs s)) fa (header_count (tm (tarfs s)) fa)
     \<and> (\<forall>ep \<in> set (segments (tm (tarfs s)) fa (header_count (tm (tarfs s)) fa)). unat STACK_S div 4096 \<notin> seg_pages ep)
     \<and> 12 + n div 512 + load_cost (tm (tarfs s)) fa (header_count (tm (tarfs s)) fa) \<le> length (boot_frames b es)
     \<and> (\<forall>i < MAX_TASKS. ppid (taskQueue (kern s) i) = 0)"

lemma start_spec:
  assumes "bootable b es n hs fa s"
  shows "\<exists>idt' ptr s'. start b garbage (idt, s) = Some (idt', ptr, s') \<and> tasks_ok (kern s') \<and> currentTask (kern s') = 2
    \<and> headers (tarfs s') = hs \<and> name (cur (kern s')) = ''bin/sbush'' \<and> cpu_rip (kern s') = e_entry (read_Ehdr (tm (tarfs s)) fa)
    \<and> (\<forall>i < header_count (tm (tarfs s)) fa. p_type (phdr (tm (tarfs s)) fa i) = 1 \<longrightarrow>
         seg_loaded (tm (tarfs s)) fa (pg (kern s')) (cr3 (kern s')) (phdr (tm (tarfs s)) fa i))
    \<and> idt' = fst (IDTinitialise (isr0_at b) (isr14_at b) (timer_at b) (keyboard_at b) (isr128_at b) (idt_at b) idt)"
proof -
  let ?fs = "boot_frames b es" and ?m = "tm (tarfs s)"
  note B = assms [unfolded bootable_def]
  obtain p where p: "initializeFreelist (modulep b) (physfree b) (pg (kern s)) = Some (p, phys n)" "free_frames p ?fs" "pm p = pm (pg (kern s))"
    using boot_frames_listed [of b es "pg (kern s)"] B by auto
  have below: "\<forall>f \<in> set ?fs. f < phys n"
  proof
    fix f assume "f \<in> set ?fs"
    then obtain i where i: "f = of_nat i * pageSize" "i \<in> set (map_frames (physfree b) es)" by (auto simp: boot_frames_def)
    have "i * 4096 < unat (phys n)" using map_frames_below [OF _ i(2), of 0 0] B by simp
    moreover have "unat (phys n) < 2 ^ 64" using unsigned_less [of "phys n"] by simp
    ultimately have "i * 4096 < 2 ^ 64" by linarith
    then have "unat (of_nat (i * 4096) :: u64) = i * 4096" by (simp only: unat_of_nat) (rule mod_less, simp)
    moreover have "f = of_nat (i * 4096)" by (simp add: i(1) pageSize_def)
    ultimately show "f < phys n" using \<open>i * 4096 < unat (phys n)\<close> by (simp add: word_less_nat_alt)
  qed
  obtain p2 as K where p2: "setupPageTables 0 (phys n) p = Some (p2, as)" "kspace p2 (phys n) K (drop (5 + n div 512) ?fs)"
    "K \<inter> set (drop (5 + n div 512) ?fs) = {}"
    using setup_kspace [OF p(2), of n] B below p(3) by auto
  obtain f0 gs where gs: "drop (5 + n div 512) ?fs = f0 # gs" "6 + load_cost ?m fa (header_count ?m fa) \<le> length gs"
  proof -
    have "12 + n div 512 + load_cost ?m fa (header_count ?m fa) \<le> length ?fs" using B by blast
    then have "7 + load_cost ?m fa (header_count ?m fa) \<le> length (drop (5 + n div 512) ?fs)" by simp
    then show thesis using that by (cases "drop (5 + n div 512) ?fs") auto
  qed
  let ?k = "(kern s)\<lparr>pg := p2, cr3 := k_cr3 p2\<rparr>" and ?f = "(tarfs s)\<lparr>headers := hs\<rparr>"
  obtain k1 where k1: "initTask (in_at b) (idle_at b) (initFirstTask ?k) = Some k1" "newPID k1 = Some 2" "pg k1 = p2"
    using initTask_table [of "in_at b" "idle_at b" ?k] by auto
  have "content_address ?f ''bin/sbush'' = Some fa" "tm ?f = ?m" using B by simp_all
  moreover have "kspace (pg k1) (phys n) K (f0 # gs)" "K \<inter> set (f0 # gs) = {}" using p2 gs k1(3) by simp_all
  ultimately obtain k' where k': "createNewTask ?f garbage ''bin/sbush'' k1 = Some k'" "name (cur k') = ''bin/sbush''"
      "cpu_rip k' = e_entry (read_Ehdr ?m fa)"
      "\<forall>i < header_count ?m fa. p_type (phdr ?m fa i) = 1 \<longrightarrow> seg_loaded ?m fa (pg k') (cr3 k') (phdr ?m fa i)"
    using createNewTask_spec [OF k1(2), of "''bin/sbush''" ?f fa "phys n" K f0 gs garbage] B gs(2) by auto
  have st: "start_tasks b garbage ?f ?k = Some k'" using k1(1) k'(1) by (simp add: start_tasks_def)
  obtain scr where scr: "print_memory b es (screen (con s)) = Some scr" using print_memory_total by blast
  have "start b garbage (idt, s) = Some (fst (IDTinitialise (isr0_at b) (isr14_at b) (timer_at b) (keyboard_at b) (isr128_at b) (idt_at b) idt),
      snd (IDTinitialise (isr0_at b) (isr14_at b) (timer_at b) (keyboard_at b) (isr128_at b) (idt_at b) idt),
      s\<lparr>kern := k', tarfs := ?f, con := (con s)\<lparr>screen := scr\<rparr>\<rparr>)"
    using p(1) B scr p2(1) st by (simp add: start_def Let_def split_def)
  moreover have "tasks_ok k' \<and> currentTask k' = 2" using start_tasks_ok [OF st] B by simp
  ultimately show ?thesis using k'(2-4) by auto
qed

text \<open>C1: booting ends in the shell. From a memory map with room for the direct map (less than 1 GB of pages, of which the
  last page table gets at least one and at most 507) and the program, frames that hold zeros, an archive that contains \<^verbatim>\<open>bin/sbush\<close> and an empty task table, \<open>start\<close> reaches the first
  user instruction: the archive's headers are listed, slot 2 is the current task, its name is that of
  the shell, the processor is at the shell's entry point, every byte of the shell's segments is in the
  task's memory, the interrupt table is the one \<open>IDTinitialise\<close> makes, and \<open>init\<close> and \<open>idle\<close> wait in slots 0 and 1
  for the scheduler.\<close>

theorem start_boots_shell:
  assumes "bootable b es n hs fa s"
  shows "\<exists>idt' ptr s'. start b garbage (idt, s) = Some (idt', ptr, s') \<and> headers (tarfs s') = hs
    \<and> currentTask (kern s') = 2 \<and> name (cur (kern s')) = ''bin/sbush'' \<and> cpu_rip (kern s') = e_entry (read_Ehdr (tm (tarfs s)) fa)
    \<and> (\<forall>i < header_count (tm (tarfs s)) fa. p_type (phdr (tm (tarfs s)) fa i) = 1 \<longrightarrow>
         seg_loaded (tm (tarfs s)) fa (pg (kern s')) (cr3 (kern s')) (phdr (tm (tarfs s)) fa i))
    \<and> idt' = fst (IDTinitialise (isr0_at b) (isr14_at b) (timer_at b) (keyboard_at b) (isr128_at b) (idt_at b) idt)
    \<and> state (taskQueue (kern s') 0) \<in> {RUNNING, WAIT} \<and> state (taskQueue (kern s') 1) = RUNNING"
proof -
  from start_spec [OF assms, of garbage idt] obtain idt' ptr s' where
    r: "start b garbage (idt, s) = Some (idt', ptr, s')" and ok: "tasks_ok (kern s')" and
    q: "currentTask (kern s') = 2" "headers (tarfs s') = hs" "name (cur (kern s')) = ''bin/sbush''"
      "cpu_rip (kern s') = e_entry (read_Ehdr (tm (tarfs s)) fa)"
      "\<forall>i < header_count (tm (tarfs s)) fa. p_type (phdr (tm (tarfs s)) fa i) = 1 \<longrightarrow>
         seg_loaded (tm (tarfs s)) fa (pg (kern s')) (cr3 (kern s')) (phdr (tm (tarfs s)) fa i)"
      "idt' = fst (IDTinitialise (isr0_at b) (isr14_at b) (timer_at b) (keyboard_at b) (isr128_at b) (idt_at b) idt)" by blast
  have "state (taskQueue (kern s') 0) \<in> {RUNNING, WAIT}" "state (taskQueue (kern s') 1) = RUNNING"
    using tasks_okD(1) [OF ok] by (simp_all add: table_ok_def)
  then show ?thesis using r q by blast
qed

text \<open>C5: the task table is well formed in every reachable state. After the boot, whatever sequence of system
  calls, clock ticks, key strokes, page faults, user stores and switches follows (no user task kills
  \<open>init\<close> or \<open>idle\<close>), the current task is a slot named by its pid, and RUNNING unless it has just killed itself;
  its page tables and its kernel stack are installed; every live task sits in the slot its pid
  names and has a parent in the table other than itself; \<open>idle\<close> is RUNNING and \<open>init\<close> RUNNING or waiting. So
  \<open>schedule\<close> always returns, and always to a RUNNING task.\<close>

theorem system_well_formed:
  assumes "start b garbage (idt, s) = Some (idt', ptr, s0)" and "\<forall>i < MAX_TASKS. ppid (taskQueue (kern s) i) = 0"
    and "step\<^sup>*\<^sup>* s0 s'" and "k = kern s'"
  shows "currentTask k < MAX_TASKS \<and> pid (cur k) = currentTask k \<and> state (cur k) \<in> {RUNNING, ZOMBIE}
    \<and> cr3 k = task_pml4e (cur k) \<and> tss_rsp0 k = kstack_top k (currentTask k)
    \<and> (\<forall>i < MAX_TASKS. state (taskQueue k i) \<in> {RUNNING, SLEEP, WAIT, HANG} \<longrightarrow> pid (taskQueue k i) = i)
    \<and> (\<forall>i < MAX_TASKS. ppid (taskQueue k i) < MAX_TASKS \<and> (2 \<le> i \<longrightarrow> ppid (taskQueue k i) \<noteq> i))
    \<and> state (taskQueue k 1) = RUNNING \<and> state (taskQueue k 0) \<in> {RUNNING, WAIT}
    \<and> (\<exists>k'. schedule resume k = Some k' \<and> state (cur k') = RUNNING)"
proof -
  have "tasks_ok (kern s0)" using start_ok [OF assms(1,2)] by simp
  with assms(3) have "tasks_ok (kern s')" by (induction rule: rtranclp_induct) (auto intro: step_ok)
  then have ok: "tasks_ok k" using assms(4) by simp
  obtain k' where "schedule resume k = Some k'" "state (cur k') = RUNNING" using schedule_tasks_ok [OF tasks_okD(1) [OF ok], of resume] by blast
  moreover have "alive st \<longleftrightarrow> st \<in> {RUNNING, SLEEP, WAIT, HANG}" for st by (auto simp: alive_def)
  ultimately show ?thesis using ok unfolding tasks_ok_def table_ok_def cur_ok_def by simp
qed

section \<open>A machine to boot\<close>

text \<open>32 pages of memory; an archive with the shell, a file of one segment.\<close>

definition sbush_tar :: mem where
  "sbush_tar = (\<lambda>a. if 0x1200 \<le> a then elf_file (a - 0x1200) else if 0x1000 \<le> a \<and> a < 0x1009 then ''bin/sbush'' ! nat (a - 0x1000)
     else if 0x107C \<le> a \<and> a < 0x1087 then CHR ''0'' else NUL)"

definition boot_info0 :: boot_info where
  "boot_info0 = \<lparr>modulep = [0x9001, 20, 0, 0, 0x20000, 0, 1], physfree = 0, kernmem = 0xffffffff80200000, physbase = 0x200000,
     tarfs_start = 0x1000, tarfs_end = 0x1200, isr0_at = 1, isr14_at = 2, timer_at = 3, keyboard_at = 4, isr128_at = 5, idt_at = 6,
     in_at = 7, idle_at = 8\<rparr>"

definition region0 :: smap_t where
  "region0 = \<lparr>smap_base = 0, smap_length = 0x20000, smap_type = 1\<rparr>"

definition machine0 :: system where
  "machine0 = \<lparr>kern = kernel0\<lparr>taskQueue := (\<lambda>_. task0\<lparr>ppid := 0\<rparr>)\<rparr>, con = console0, tarfs = \<lparr>tm = sbush_tar, headers = [], stk = (\<lambda>_. NUL)\<rparr>,
     clock = \<lparr>timerCount = 0, totalSecs = 0, ports = []\<rparr>\<rparr>"

lemma sbush_tar_headers:
  "header_count sbush_tar 0x1200 = 1" "e_entry (read_Ehdr sbush_tar 0x1200) = 0x400000" "e_phoff (read_Ehdr sbush_tar 0x1200) = 64"
  "p_type (phdr sbush_tar 0x1200 0) = 1" "p_offset (phdr sbush_tar 0x1200 0) = 0" "p_vaddr (phdr sbush_tar 0x1200 0) = 0x400000"
  "p_filesz (phdr sbush_tar 0x1200 0) = 4" "p_memsz (phdr sbush_tar 0x1200 0) = 8"
  by (simp_all add: phdr_def read_Phdr_def read_Ehdr_def sbush_tar_def elf_file_def le_bytes_unfold)

lemma getsize_zeros: "\<forall>j < n. m (h + int j) = CHR ''0'' \<Longrightarrow> getsize_loop m h n 0 c = 0"
proof (induction n arbitrary: c)
  case (Suc n)
  have "c2i (CHR ''0'') = 48" by (simp add: c2i_def)
  then show ?case using Suc by (simp add: to_int32_def)
qed simp

lemma machine0_bootable: "bootable boot_info0 [region0] 32 [0x1000] 0x1200 machine0"
proof -
  have seg: "segments sbush_tar 0x1200 1 = [phdr sbush_tar 0x1200 0]" by (simp add: segments_def load_indices_def sbush_tar_headers)
  have "loadable sbush_tar 0x1200 (header_count sbush_tar 0x1200)"
    by (simp add: loadable_def seg_ok_def sbush_tar_headers seg del: One_nat_def)
  moreover have "load_cost sbush_tar 0x1200 (header_count sbush_tar 0x1200) = 5"
    by (simp add: load_cost_def seg_cost_def sbush_tar_headers seg first_page_def end_page_def del: One_nat_def)
  moreover have "\<forall>ep \<in> set (segments sbush_tar 0x1200 (header_count sbush_tar 0x1200)). unat STACK_S div 4096 \<notin> seg_pages ep"
    by (simp add: sbush_tar_headers(1) seg seg_pages_def first_page_def end_page_def sbush_tar_headers STACK_S_def del: One_nat_def)
  moreover have "smap_entries (modulep boot_info0) = Some [region0]"
    by (simp add: smap_entries_def boot_info0_def seek_smap.simps read_smap_def join64_def region0_def Let_def)
  moreover have "regions_ok 0 [region0]" "last_end [region0] 0 = phys 32"
    by (simp_all add: region0_def e_used_def e_limit_def MAXPAGES_def phys_def)
  moreover have fs: "boot_frames boot_info0 [region0] = map (\<lambda>i. of_nat i * pageSize) [2..<31]"
    by (simp add: boot_frames_def boot_info0_def region0_def e_used_def e_limit_def region_frames_def usable_def pageSize_def upt_conv_Cons)
  moreover have "boot_pages (boot_frames boot_info0 [region0]) 32"
    unfolding fs by (simp add: boot_pages_def pageSize_def aligned_def validatebits_def upt_conv_Cons)
  moreover have "init_tarfs sbush_tar 0x1000 0x1200 = Some [0x1000]"
  proof -
    have "getsize sbush_tar 0x107C = 0" unfolding getsize_def by (subst getsize_zeros) (simp_all add: sbush_tar_def)
    then have "moveTarfsHeader sbush_tar 0x1000 0x1000 = 0x1200" by (simp add: moveTarfsHeader_def ustar_size_def)
    then show ?thesis by (simp add: init_tarfs_def init_loop.simps)
  qed
  moreover have "content_address \<lparr>tm = sbush_tar, headers = [0x1000], stk = (\<lambda>_. NUL)\<rparr> ''bin/sbush'' = Some 0x1200"
  proof -
    have "cstr sbush_tar 0x1000 ''bin/sbush''" by (simp add: sbush_tar_def)
    then have "read_cstr sbush_tar 0x1000 = Some ''bin/sbush''" by (rule read_cstr_cstr)
    moreover have "strcmp_s ''bin/sbush'' ''bin/sbush'' = 0" by (simp add: strcmp_s_eq_0)
    ultimately show ?thesis by (simp add: content_address_def get_file_address_def)
  qed
  moreover have "head (pg (kern machine0)) = None" "pm (pg (kern machine0)) = (\<lambda>_. 0)" "tm (tarfs machine0) = sbush_tar"
    "\<forall>i < MAX_TASKS. ppid (taskQueue (kern machine0) i) = 0"
    "(tarfs machine0)\<lparr>headers := [0x1000]\<rparr> = \<lparr>tm = sbush_tar, headers = [0x1000], stk = (\<lambda>_. NUL)\<rparr>"
    by (simp_all add: machine0_def kernel0_def paging0_def)
  moreover have "tarfs_start boot_info0 = 0x1000" "tarfs_end boot_info0 = 0x1200" by (simp_all add: boot_info0_def)
  moreover have "length (boot_frames boot_info0 [region0]) = 29" unfolding fs by simp
  ultimately show ?thesis unfolding bootable_def by simp
qed

theorem start_boots_shell_witness:
  "\<exists>idt' ptr s'. start boot_info0 no_area (\<lambda>_. undefined, machine0) = Some (idt', ptr, s') \<and> name (cur (kern s')) = ''bin/sbush''
     \<and> cpu_rip (kern s') = 0x400000"
  using start_boots_shell [OF machine0_bootable, of no_area "\<lambda>_. undefined"] sbush_tar_headers(2) by (auto simp: machine0_def)

text \<open>After the boot the shell asks for its pid.\<close>

theorem system_well_formed_witness:
  "\<exists>idt' ptr s0 s1. start boot_info0 no_area (\<lambda>_. undefined, machine0) = Some (idt', ptr, s0)
     \<and> isr128 frame0 39 regs0 s0 = Some (Back 2 s1) \<and> step s0 s1 \<and> pid (cur (kern s1)) = 2"
proof -
  obtain idt' ptr s0 where s0: "start boot_info0 no_area (\<lambda>_. undefined, machine0) = Some (idt', ptr, s0)" "currentTask (kern s0) = 2"
      "tasks_ok (kern s0)"
    using start_spec [OF machine0_bootable, of no_area "\<lambda>_. undefined"] by blast
  let ?s1 = "s0\<lparr>clock := outportb 0x20 0x20 (clock s0)\<rparr>"
  have "pid (cur (kern s0)) = 2" using tasks_okD(5) [OF tasks_okD(1) [OF s0(3)]] s0(2) by simp
  then have c: "isr128 frame0 39 regs0 s0 = Some (Back 2 ?s1)" using s0(2) by (simp add: isr128_def case_getpid_def getTaskPID_def trap_return_def)
  then have st: "step s0 ?s1" using step.trap [of s0 39 regs0 frame0 "Back 2 ?s1"] s0(2) by simp
  then have "step\<^sup>*\<^sup>* s0 ?s1" by blast
  moreover have "\<forall>i < MAX_TASKS. ppid (taskQueue (kern machine0) i) = 0" by (simp add: machine0_def)
  ultimately show ?thesis using system_well_formed [OF s0(1) _ _ refl, of ?s1] s0(1,2) c st by (intro exI [of _ idt'] exI [of _ ptr] exI [of _ s0] exI [of _ ?s1]) simp
qed

end
