(* ===== verification/LibCalls.thy ===== *)
theory LibCalls
  imports Syscalls
begin

text \<open>
  The system call stubs of the C library (\<^verbatim>\<open>libc/file.c\<close>, \<^verbatim>\<open>libc/process_sys.c\<close>, the second half of
  \<^verbatim>\<open>libc/string_sys.c\<close>, and \<open>pipe\<close>, \<open>wait\<close>, \<open>waitpid\<close> of \<^verbatim>\<open>libc/util_sys.c\<close>): each loads its arguments
  into registers, executes \<^verbatim>\<open>int $0x80\<close>, which is \<open>isr128\<close>, and cuts the result to its type. \<open>r\<close> holds what
  the registers contain that a stub does not set. A stub whose call gives up the processor has the
  reply \<open>Gone\<close>. Addresses of locals and of static buffers are arguments.
\<close>

section \<open>Traps\<close>

datatype 'a reply = Reply 'a system | Gone system

fun reply_of :: "(u64 \<Rightarrow> 'a) \<Rightarrow> trap \<Rightarrow> 'a reply" where
  "reply_of f (Back v s) = Reply (f v) s"
| "reply_of f (Away s) = Gone s"

text \<open>\<^verbatim>\<open>return (int)retVal\<close>, the result of most stubs.\<close>

definition int80 :: "call_frame \<Rightarrow> u64 \<Rightarrow> registersAligned \<Rightarrow> system \<Rightarrow> int reply option" where
  "int80 fr code r s = map_option (reply_of int_of_reg) (isr128 fr code r s)"

abbreviation reg_of_int :: "int \<Rightarrow> u64" where
  "reg_of_int i \<equiv> word_of_int i"

section \<open>Files\<close>

definition chdirsyscall :: "call_frame \<Rightarrow> registersAligned \<Rightarrow> u64 \<Rightarrow> system \<Rightarrow> int reply option" where
  "chdirsyscall fr r inp s = int80 fr 80 (r\<lparr>rbx := inp\<rparr>) s"

text \<open>\<open>filePath\<close> is the address of the local array; the last character is looked up in \<open>path\<close> itself.\<close>

definition chdir_lib :: "call_frame \<Rightarrow> registersAligned \<Rightarrow> u64 \<Rightarrow> u64 \<Rightarrow> system \<Rightarrow> int reply option" where
  "chdir_lib fr r filePath path0 s = do {
     let M = cr3 (kern s);
     str \<leftarrow> user_str s path0;
     str \<leftarrow> strcpy_field 100 str;
     p \<leftarrow> copy_string M filePath str (pg (kern s));
     c \<leftarrow> ubyte p M (path0 + (of_nat (length str) - 1));
     p \<leftarrow> (if c \<noteq> CHR 0x2F then
             (if length str + 1 < 100 then copy_string M (filePath + of_nat (length str)) [CHR 0x2F] p else None)
           else Some p);
     chdirsyscall fr r filePath (set_pages p s)
   }"

definition currentDirSys :: "call_frame \<Rightarrow> registersAligned \<Rightarrow> u64 \<Rightarrow> u64 \<Rightarrow> system \<Rightarrow> int reply option" where
  "currentDirSys fr r buf n s = int80 fr 79 (r\<lparr>rbx := buf, rcx := n\<rparr>) s"

fun and_then :: "'a reply option \<Rightarrow> ('a \<Rightarrow> system \<Rightarrow> 'b reply option) \<Rightarrow> 'b reply option" where
  "and_then (Some (Reply v s)) f = f v s"
| "and_then (Some (Gone s)) f = Some (Gone s)"
| "and_then None f = None"

definition getCurrentDirectory_lib :: "call_frame \<Rightarrow> registersAligned \<Rightarrow> u64 \<Rightarrow> u64 \<Rightarrow> system \<Rightarrow> u64 reply option" where
  "getCurrentDirectory_lib fr r dirPath n s = and_then (currentDirSys fr r dirPath n s) (\<lambda>_ s. Some (Reply dirPath s))"

definition closecall :: "call_frame \<Rightarrow> registersAligned \<Rightarrow> int \<Rightarrow> system \<Rightarrow> int reply option" where
  "closecall fr r inp s = int80 fr 3 (r\<lparr>rbx := reg_of_int inp\<rparr>) s"

definition fclose :: "call_frame \<Rightarrow> registersAligned \<Rightarrow> int \<Rightarrow> system \<Rightarrow> int reply option" where
  "fclose fr r d s = closecall fr r d s"

definition dup2 :: "call_frame \<Rightarrow> registersAligned \<Rightarrow> int \<Rightarrow> int \<Rightarrow> system \<Rightarrow> int reply option" where
  "dup2 fr r fd1 fd2 s = int80 fr 33 (r\<lparr>rbx := reg_of_int fd1, rcx := reg_of_int fd2\<rparr>) s"

definition open_lib :: "call_frame \<Rightarrow> registersAligned \<Rightarrow> u64 \<Rightarrow> int \<Rightarrow> system \<Rightarrow> int reply option" where
  "open_lib fr r path0 flags s = int80 fr 2 (r\<lparr>rbx := path0, rcx := reg_of_int flags\<rparr>) s"

definition fopen :: "call_frame \<Rightarrow> registersAligned \<Rightarrow> u64 \<Rightarrow> system \<Rightarrow> int reply option" where
  "fopen fr r name0 s = open_lib fr r name0 0 s"

text \<open>The result type \<open>off_t\<close> has 64 bits.\<close>

definition lseek :: "call_frame \<Rightarrow> registersAligned \<Rightarrow> int \<Rightarrow> u64 \<Rightarrow> int \<Rightarrow> system \<Rightarrow> u64 reply option" where
  "lseek fr r d offset p s =
     map_option (reply_of (\<lambda>v. v)) (isr128 fr 8 (r\<lparr>rbx := reg_of_int d, rcx := offset, rdx := reg_of_int p\<rparr>) s)"

definition close_lib :: "call_frame \<Rightarrow> registersAligned \<Rightarrow> int \<Rightarrow> system \<Rightarrow> int reply option" where
  "close_lib fr r d s = int80 fr 3 (r\<lparr>rbx := reg_of_int d\<rparr>) s"

definition openDirFile_lib :: "call_frame \<Rightarrow> registersAligned \<Rightarrow> u64 \<Rightarrow> system \<Rightarrow> int reply option" where
  "openDirFile_lib fr r path0 s = int80 fr 16 (r\<lparr>rbx := path0\<rparr>) s"

subsection \<open>Directory streams\<close>

text \<open>The static arrays: \<open>dir\<close> by index, with a name and a descriptor; \<open>d\<close> is the address of the other, an
  entry of 256 bytes for every descriptor.\<close>

record streams =
  dir_name :: "nat \<Rightarrow> string"
  dir_fd :: "nat \<Rightarrow> int"
  d_at :: u64

definition opendir :: "call_frame \<Rightarrow> registersAligned \<Rightarrow> u64 \<Rightarrow> streams \<Rightarrow> system \<Rightarrow> (nat \<times> streams) reply option" where
  "opendir fr r name0 st s = and_then (openDirFile_lib fr r name0 s) (\<lambda>glDirVar s. do {
     let index = (if glDirVar = -1 then 0 else glDirVar);
     if 0 \<le> index \<and> index < 100 then do {
       nm \<leftarrow> user_str s name0;
       nm \<leftarrow> strcpy_field 256 nm;
       let st = st\<lparr>dir_fd := (dir_fd st)(nat index := glDirVar), dir_name := (dir_name st)(nat index := nm)\<rparr>;
       Some (Reply (nat index, st) s)
     } else None
   })"

definition direccall :: "call_frame \<Rightarrow> registersAligned \<Rightarrow> int \<Rightarrow> u64 \<Rightarrow> int \<Rightarrow> system \<Rightarrow> int reply option" where
  "direccall fr r d buff n s = int80 fr 78 (r\<lparr>rbx := reg_of_int d, rcx := buff, rdx := reg_of_int n\<rparr>) s"

text \<open>\<open>None\<close> as a reply is the null pointer.\<close>

definition readdir :: "call_frame \<Rightarrow> registersAligned \<Rightarrow> nat \<Rightarrow> streams \<Rightarrow> system \<Rightarrow> u64 option reply option" where
  "readdir fr r DIRpointer st s =
     (let d = dir_fd st DIRpointer; entry = d_at st + 256 * word_of_int d in
      if 0 \<le> d \<and> d < 100 then
        and_then (direccall fr r d entry 4096 s) (\<lambda>retVal s. Some (Reply (if retVal = 0 then None else Some entry) s))
      else None)"

definition closedir :: "call_frame \<Rightarrow> registersAligned \<Rightarrow> nat \<Rightarrow> streams \<Rightarrow> system \<Rightarrow> int reply option" where
  "closedir fr r DIRpointer st s = close_lib fr r (dir_fd st DIRpointer) s"

section \<open>Processes\<close>

definition sleep_call :: "call_frame \<Rightarrow> registersAligned \<Rightarrow> u32 \<Rightarrow> system \<Rightarrow> u32 reply option" where
  "sleep_call fr r seconds s = map_option (reply_of (\<lambda>v. word_of_int (int_of_reg v))) (isr128 fr 35 (r\<lparr>rbx := ucast seconds\<rparr>) s)"

definition sleep_lib :: "call_frame \<Rightarrow> registersAligned \<Rightarrow> u32 \<Rightarrow> system \<Rightarrow> u32 reply option" where
  "sleep_lib fr r seconds s = sleep_call fr r seconds s"

definition ps_call :: "call_frame \<Rightarrow> registersAligned \<Rightarrow> system \<Rightarrow> int reply option" where
  "ps_call fr r s = int80 fr 299 r s"

definition ps_lib :: "call_frame \<Rightarrow> registersAligned \<Rightarrow> system \<Rightarrow> int reply option" where
  "ps_lib fr r s = ps_call fr r s"

text \<open>\<open>pid_t\<close> is unsigned.\<close>

definition getpid_call :: "call_frame \<Rightarrow> registersAligned \<Rightarrow> system \<Rightarrow> u32 reply option" where
  "getpid_call fr r s = map_option (reply_of ucast) (isr128 fr 39 r s)"

definition getppid_call :: "call_frame \<Rightarrow> registersAligned \<Rightarrow> system \<Rightarrow> u32 reply option" where
  "getppid_call fr r s = map_option (reply_of ucast) (isr128 fr 110 r s)"

definition kill_call :: "call_frame \<Rightarrow> registersAligned \<Rightarrow> u32 \<Rightarrow> system \<Rightarrow> int reply option" where
  "kill_call fr r p s = int80 fr 62 (r\<lparr>rbx := ucast p\<rparr>) s"

definition kill_lib :: "call_frame \<Rightarrow> registersAligned \<Rightarrow> u32 \<Rightarrow> system \<Rightarrow> int reply option" where
  "kill_lib fr r p s = kill_call fr r p s"

definition forkcall :: "call_frame \<Rightarrow> registersAligned \<Rightarrow> system \<Rightarrow> u32 reply option" where
  "forkcall fr r s = map_option (reply_of ucast) (isr128 fr 57 r s)"

definition fork_lib :: "call_frame \<Rightarrow> registersAligned \<Rightarrow> system \<Rightarrow> u32 reply option" where
  "fork_lib fr r s = forkcall fr r s"

definition exitcall :: "call_frame \<Rightarrow> registersAligned \<Rightarrow> int \<Rightarrow> system \<Rightarrow> int reply option" where
  "exitcall fr r inp s = int80 fr 60 (r\<lparr>rbx := reg_of_int inp\<rparr>) s"

definition exit_lib :: "call_frame \<Rightarrow> registersAligned \<Rightarrow> int \<Rightarrow> system \<Rightarrow> int reply option" where
  "exit_lib fr r status s = exitcall fr r status s"

definition execvp :: "call_frame \<Rightarrow> registersAligned \<Rightarrow> u64 \<Rightarrow> u64 \<Rightarrow> u64 \<Rightarrow> system \<Rightarrow> int reply option" where
  "execvp fr r file0 argv env s = int80 fr 59 (r\<lparr>rbx := file0, rcx := argv, rdx := env\<rparr>) s"

definition pipe :: "call_frame \<Rightarrow> registersAligned \<Rightarrow> u64 \<Rightarrow> system \<Rightarrow> int reply option" where
  "pipe fr r fds s = int80 fr 22 (r\<lparr>rbx := fds\<rparr>) s"

definition wait_lib :: "call_frame \<Rightarrow> registersAligned \<Rightarrow> u64 \<Rightarrow> system \<Rightarrow> u32 reply option" where
  "wait_lib fr r status s = map_option (reply_of ucast) (isr128 fr 61 (r\<lparr>rbx := - 1, rcx := status, rdx := 0\<rparr>) s)"

definition waitpid_lib :: "call_frame \<Rightarrow> registersAligned \<Rightarrow> u32 \<Rightarrow> u64 \<Rightarrow> system \<Rightarrow> u32 reply option" where
  "waitpid_lib fr r p status s = map_option (reply_of ucast) (isr128 fr 247 (r\<lparr>rbx := ucast p, rcx := status\<rparr>) s)"

section \<open>Reading and writing\<close>

text \<open>\<open>putchar\<close> and \<open>fputchar\<close> pass the address of their argument, an \<^verbatim>\<open>int\<close> of four bytes.\<close>

definition int_bytes :: "int \<Rightarrow> nat \<Rightarrow> char" where
  "int_bytes c i = word_byte (word_of_int c) i"

definition writecall :: "call_frame \<Rightarrow> registersAligned \<Rightarrow> u64 \<Rightarrow> system \<Rightarrow> int reply option" where
  "writecall fr r c s = int80 fr 1 (r\<lparr>rbx := 1, rcx := c, rdx := 1\<rparr>) s"

definition putchar :: "call_frame \<Rightarrow> registersAligned \<Rightarrow> u64 \<Rightarrow> int \<Rightarrow> system \<Rightarrow> int reply option" where
  "putchar fr r c_at c s = do {
     p \<leftarrow> user_copy_up (\<lambda>i. int_bytes c (unat i)) (cr3 (kern s)) c_at 0 4 (pg (kern s));
     writecall fr r c_at (set_pages p s)
   }"

definition fputchar :: "call_frame \<Rightarrow> registersAligned \<Rightarrow> u64 \<Rightarrow> int \<Rightarrow> int \<Rightarrow> system \<Rightarrow> int reply option" where
  "fputchar fr r c_at c d s = do {
     p \<leftarrow> user_copy_up (\<lambda>i. int_bytes c (unat i)) (cr3 (kern s)) c_at 0 4 (pg (kern s));
     int80 fr 1 (r\<lparr>rbx := reg_of_int d, rcx := c_at, rdx := 1\<rparr>) (set_pages p s)
   }"

definition puts :: "call_frame \<Rightarrow> registersAligned \<Rightarrow> u64 \<Rightarrow> system \<Rightarrow> int reply option" where
  "puts fr r str s = do {
     l \<leftarrow> user_str s str;
     int80 fr 1 (r\<lparr>rbx := 1, rcx := str, rdx := of_nat (length l)\<rparr>) s
   }"

definition fputs :: "call_frame \<Rightarrow> registersAligned \<Rightarrow> u64 \<Rightarrow> int \<Rightarrow> system \<Rightarrow> int reply option" where
  "fputs fr r str fromFile s = puts fr r str s"

text \<open>The addresses of the static \<open>charRet\<close> (an \<^verbatim>\<open>int\<close>) and \<open>charRetF\<close> (a \<^verbatim>\<open>char\<close>).\<close>

definition readCall :: "call_frame \<Rightarrow> registersAligned \<Rightarrow> u64 \<Rightarrow> system \<Rightarrow> int reply option" where
  "readCall fr r charRet s = int80 fr 0 (r\<lparr>rbx := 0, rcx := charRet, rdx := 1\<rparr>) s"

definition load_int :: "u64 \<Rightarrow> system \<Rightarrow> int option" where
  "load_int a s = do {
     b0 \<leftarrow> ubyte (pg (kern s)) (cr3 (kern s)) a;
     b1 \<leftarrow> ubyte (pg (kern s)) (cr3 (kern s)) (a + 1);
     b2 \<leftarrow> ubyte (pg (kern s)) (cr3 (kern s)) (a + 2);
     b3 \<leftarrow> ubyte (pg (kern s)) (cr3 (kern s)) (a + 3);
     Some (to_int32 (of_char b0 + 256 * of_char b1 + 65536 * of_char b2 + 16777216 * of_char b3))
   }"

definition getchar :: "call_frame \<Rightarrow> registersAligned \<Rightarrow> u64 \<Rightarrow> system \<Rightarrow> int reply option" where
  "getchar fr r charRet s = and_then (readCall fr r charRet s) (\<lambda>_ s. do { c \<leftarrow> load_int charRet s; Some (Reply c s) })"

definition readcallString :: "call_frame \<Rightarrow> registersAligned \<Rightarrow> u64 \<Rightarrow> system \<Rightarrow> int reply option" where
  "readcallString fr r str s = int80 fr 0 (r\<lparr>rbx := 0, rcx := str, rdx := 4096\<rparr>) s"

definition gets :: "call_frame \<Rightarrow> registersAligned \<Rightarrow> u64 \<Rightarrow> system \<Rightarrow> u64 reply option" where
  "gets fr r inpString s = and_then (readcallString fr r inpString s) (\<lambda>_ s. Some (Reply inpString s))"

definition readFCall :: "call_frame \<Rightarrow> registersAligned \<Rightarrow> u64 \<Rightarrow> int \<Rightarrow> system \<Rightarrow> int reply option" where
  "readFCall fr r charRetF d s = int80 fr 0 (r\<lparr>rbx := reg_of_int d, rcx := charRetF, rdx := 1\<rparr>) s"

definition fgetc :: "call_frame \<Rightarrow> registersAligned \<Rightarrow> u64 \<Rightarrow> int \<Rightarrow> system \<Rightarrow> char reply option" where
  "fgetc fr r charRetF d s = and_then (readFCall fr r charRetF d s)
     (\<lambda>_ s. do { c \<leftarrow> ubyte (pg (kern s)) (cr3 (kern s)) charRetF; Some (Reply c s) })"

definition clearScreenSys :: "call_frame \<Rightarrow> registersAligned \<Rightarrow> system \<Rightarrow> int reply option" where
  "clearScreenSys fr r s = int80 fr 7 r s"

definition clearScreen_lib :: "call_frame \<Rightarrow> registersAligned \<Rightarrow> system \<Rightarrow> int reply option" where
  "clearScreen_lib fr r s = clearScreenSys fr r s"

text \<open>\<open>fgets\<close> reads whole lines one \<open>getchar\<close> at a time, whatever its bound; the store is a byte.\<close>

partial_function (option) fgets_loop :: "call_frame \<Rightarrow> registersAligned \<Rightarrow> u64 \<Rightarrow> u64 \<Rightarrow> system \<Rightarrow> u64 reply option" where
  "fgets_loop fr r charRet str s =
     Option.bind (getchar fr r charRet s) (\<lambda>c. case c of
       Gone s \<Rightarrow> Some (Gone s)
     | Reply num s \<Rightarrow>
         Option.bind (uput (pg (kern s)) (cr3 (kern s)) str (i2c num)) (\<lambda>p.
         if num \<noteq> 10 \<and> num \<noteq> -1 then fgets_loop fr r charRet (str + 1) (set_pages p s)
         else Some (Reply (str + 1) (set_pages p s))))"

definition fgets :: "call_frame \<Rightarrow> registersAligned \<Rightarrow> u64 \<Rightarrow> u64 \<Rightarrow> system \<Rightarrow> u64 reply option" where
  "fgets fr r charRet inpStr0 s = and_then (fgets_loop fr r charRet inpStr0 s) (\<lambda>str s. do {
     p \<leftarrow> uput (pg (kern s)) (cr3 (kern s)) str NL;
     Some (Reply inpStr0 (set_pages p s))
   })"

section \<open>Printing\<close>

lemma to_int32_consts [simp]: "to_int32 0 = 0" "to_int32 1 = 1"
  by (simp_all add: to_int32_def)

lemma case_write_string:
  assumes "user_str s a = Some str" "rbx r = 1" "rcx r = a"
  shows "case_write r s = Some (trap_return 0 (s\<lparr>con := (con s)\<lparr>screen := write_string str (screen (con s))\<rparr>\<rparr>))"
proof -
  have "kprintf ''%s'' [ArgStr str] (screen (con s)) = Some (write_string str (screen (con s)))" by (simp add: kprintf_def conversion_def)
  then show ?thesis using assms by (simp add: case_write_def)
qed

lemma puts_prints:
  assumes "user_str s a = Some str"
  shows "puts fr r a s = Some (Reply 0 (s\<lparr>con := (con s)\<lparr>screen := write_string str (screen (con s))\<rparr>,
     clock := outportb 0x20 0x20 (clock s)\<rparr>))"
  using assms case_write_string [OF assms, of "r\<lparr>rbx := 1, rcx := a, rdx := of_nat (length str)\<rparr>"]
  by (simp add: puts_def int80_def trap_return_def)

section \<open>Reading a line\<close>

text \<open>The bytes stored through the page tables are those the handler left in byte memory.\<close>

lemma store_bytes_spec:
  assumes t: "task_space p M fs lim K" and u: "user_range p M a n" and c: "\<forall>j < n. m (uint a + int j) = c j"
  shows "\<exists>p'. store_bytes M a n m p = Some p' \<and> task_space p' M fs lim K \<and> wrote p p' M a n c"
proof -
  obtain p' where p': "store_bytes M a n m p = Some p'" "task_space p' M fs lim K" "wrote p p' M a n (\<lambda>i. m (uint (a + of_nat i)))"
    using user_copy_up_wrote [OF t u, of "\<lambda>i. m (uint i)" a] unfolding store_bytes_def by blast
  have "m (uint (a + of_nat i)) = c i" if "i < n" for i
  proof -
    have "unat (a + of_nat i) = unat a + i" using user_range_part(2) [OF u, of i 0] that by simp
    then have "uint (a + of_nat i) = uint a + int i" by (metis of_nat_add uint_nat)
    then show ?thesis using c that by simp
  qed
  then show ?thesis using p' wrote_cong by metis
qed

text \<open>C34: \<open>gets\<close> stores the line and nothing else. When the keyboard buffer holds a finished line, \<open>gets\<close> returns
  its argument, and in the caller's memory exactly the characters of the line are stored there, however
  many they are, and no other byte is changed: no NUL is written behind them. The line is gone from the
  buffer, the next one is next, and the caller is RUNNING.\<close>

theorem gets_stores_line:
  assumes ty: "typed (con s, kern s) (l # ls) part"
    and t: "task_space (pg (kern s)) (cr3 (kern s)) fs lim K" and u: "user_range (pg (kern s)) (cr3 (kern s)) buf (length l)"
  shows "\<exists>s'. gets fr r buf s = Some (Reply buf s') \<and> typed (con s', kern s') ls part \<and> state (cur (kern s')) = RUNNING
    \<and> wrote (pg (kern s)) (pg (kern s')) (cr3 (kern s)) buf (length l) (\<lambda>i. l ! i)"
proof -
  let ?k = "upd_task (currentTask (kern s)) (\<lambda>t. t\<lparr>state := RUNNING\<rparr>) (kern s)"
  obtain c' m' where c': "intRead (uint buf) (resume_at fr) (con s) (\<lambda>_. NUL) (kern s) = Some (Line c' m' ?k)"
    "\<forall>j < length l. m' (uint buf + int j) = l ! j" "rd_offset c' = rd_offset (con s) + int (length l) + 1" "\<And>k'. typed (c', k') ls part"
    using intRead_line [OF ty, of "uint buf" "resume_at fr" "\<lambda>_. NUL"] unfolding typed_def by (auto split: prod.splits)
  have n: "nat (getoffset c' - 1 - getoffset (con s)) = length l" using c'(3) by (simp add: getoffset_def)
  have pg: "pg ?k = pg (kern s)" by (simp add: upd_task_def)
  obtain p' where p': "store_bytes (cr3 (kern s)) buf (length l) m' (pg ?k) = Some p'"
    "wrote (pg (kern s)) p' (cr3 (kern s)) buf (length l) (\<lambda>i. l ! i)"
    using store_bytes_spec [OF t u, of m' "\<lambda>i. l ! i"] c'(2) unfolding pg by blast
  let ?s = "s\<lparr>con := c', kern := ?k\<lparr>pg := p'\<rparr>, clock := outportb 0x20 0x20 (clock s)\<rparr>"
  have "gets fr r buf s = Some (Reply buf ?s)"
    using c'(1) p'(1) n
    by (simp add: gets_def readcallString_def int80_def case_read_def Let_def trap_return_def)
  moreover have "state (cur (kern ?s)) = RUNNING" by simp
  ultimately show ?thesis using p'(2) c'(4) by (intro exI [of _ ?s]) simp
qed

text \<open>A user address space of one page, for the examples, and a console with one typed line.\<close>

lemma one_page_space:
  "\<exists>p fs. task_space p 0x30000 fs 0x10000 (kernel_tables (pm fork_paging) 0x10000) \<and> user_range p 0x30000 0x5000 4096"
proof -
  let ?fs = "0x1000 # fork_frame_list" and ?K = "kernel_tables (pm fork_paging) 0x10000"
  have M: "aligned (0x30000 :: u64)" by (simp add: aligned_def validatebits_def)
  have "kspace fork_paging 0x10000 ?K ?fs" using fork_kspace .
  moreover have "?K \<inter> insert 0x30000 (set ?fs) = {}" using fork_kernel_tables by (auto simp del: fork_paging_simps)
  moreover have "pm fork_paging (0x30000 + 8 * i) AND 1 = 0" if "i < 511" for i
  proof -
    have "i < 512" using that by (rule order_less_trans) simp
    from fork_present(1) [OF M this] show ?thesis by (simp add: present_def fork_entries_def)
  qed
  ultimately have t: "task_space fork_paging 0x30000 ?fs 0x10000 ?K"
    by (intro empty_task_space(1) [OF _ _ M]) (simp_all del: fork_paging_simps)
  have v: "uaddr (0x5000 :: u64)" by (simp add: uaddr_def)
  obtain p j where p: "task_space p 0x30000 (drop j fork_frame_list) 0x10000 ?K" "maps fork_paging p 0x30000 0x5000 (0x1000 OR 7)"
    using task_space_page [OF t _ v] by auto
  have "ubyte p 0x30000 b \<noteq> None" if "unat (0x5000 :: u64) \<le> unat b" "unat b < unat (0x5000 :: u64) + 4096" for b
  proof -
    have b: "uaddr b" "unat b div 4096 = 5" using that by (simp_all add: uaddr_def)
    then have "same_page 0x5000 b" using same_page_iff [OF v b(1)] by simp
    then show ?thesis using p(2) uaddr_user [OF b(1)] by (simp add: maps_def ubyte_def)
  qed
  then have "user_range p 0x30000 0x5000 4096" by (simp add: user_range_def)
  then show ?thesis using p(1) by blast
qed

definition console_ls :: console where
  "console_ls = console0\<lparr>inpStr := (\<lambda>i. if i = 0 then CHR ''l'' else if i = 1 then CHR ''s'' else if i = 2 then NL else NUL),
     strOffset := 3, lineCount := 1\<rparr>"

lemma typed_console_ls: "typed (console_ls, k) [''ls''] []"
  by (simp add: typed_def console_ls_def console0_def buffered_def cells_def nth_Cons split: nat.splits)

theorem gets_stores_line_witness:
  "\<exists>p s'. gets frame0 regs0 0x5000 \<lparr>kern = kernel_fork\<lparr>cr3 := 0x30000, pg := p\<rparr>, con = console_ls, tarfs = elf_fs, clock = timer0 0\<rparr>
      = Some (Reply 0x5000 s') \<and> ubyte (pg (kern s')) 0x30000 0x5001 = Some (CHR ''s'')"
proof -
  obtain p fs where p: "task_space p 0x30000 fs 0x10000 (kernel_tables (pm fork_paging) 0x10000)" "user_range p 0x30000 0x5000 4096"
    using one_page_space by blast
  have u: "user_range p 0x30000 0x5000 2" using user_range_part(1) [OF p(2), of 0 2] by simp
  let ?s = "\<lparr>kern = kernel_fork\<lparr>cr3 := 0x30000, pg := p\<rparr>, con = console_ls, tarfs = elf_fs, clock = timer0 0\<rparr>"
  have "typed (con ?s, kern ?s) [''ls''] []" using typed_console_ls by simp
  moreover have "task_space (pg (kern ?s)) (cr3 (kern ?s)) fs 0x10000 (kernel_tables (pm fork_paging) 0x10000)" using p(1) by simp
  moreover have "user_range (pg (kern ?s)) (cr3 (kern ?s)) 0x5000 (length ''ls'')" using u by (simp add: numeral_2_eq_2)
  ultimately obtain s' where "gets frame0 regs0 0x5000 ?s = Some (Reply 0x5000 s')"
      "wrote (pg (kern ?s)) (pg (kern s')) (cr3 (kern ?s)) 0x5000 (length ''ls'') (\<lambda>i. ''ls'' ! i)"
    using gets_stores_line by blast
  moreover have "uaddr (0x5001 :: u64)" by (simp add: uaddr_def)
  ultimately show ?thesis by (intro exI [of _ p] exI [of _ s']) (simp add: wrote_def)
qed

section \<open>Calls the kernel does not have\<close>

text \<open>\<open>dup2\<close>, \<open>lseek\<close>, \<open>pipe\<close> and \<open>wait\<close> of the library use call numbers the kernel does not know: they all
  return 0, the value of success, and change nothing. In particular \<open>wait\<close> returns at once whether or not the caller has
  children, and \<open>pipe\<close> leaves its descriptors unset.\<close>

theorem missing_calls_succeed:
  shows "\<exists>s'. dup2 fr r fd1 fd2 s = Some (Reply 0 s') \<and> lseek fr r d offset whence s = Some (Reply 0 s')
    \<and> pipe fr r fds s = Some (Reply 0 s') \<and> wait_lib fr r status s = Some (Reply 0 s')
    \<and> kern s' = kern s \<and> con s' = con s \<and> tarfs s' = tarfs s"
  by (simp add: dup2_def lseek_def pipe_def wait_lib_def int80_def isr128_other trap_return_def)

section \<open>fork\<close>

lemma fork_lib_returns:
  assumes "newPID (kern s) = Some c" and "c \<noteq> currentTask (kern s)" and "forkable (kern s) lim K (f # fs)"
    and "kstack (cur (kern s)) 14 \<noteq> 9999"
  shows "\<exists>s1. fork_lib fr r s = Some (Reply (of_nat c) s1) \<and> currentTask (kern s1) = currentTask (kern s)
    \<and> rip (regs (taskQueue (kern s1) c)) = ret_at fr
    \<and> (\<forall>rax s2. currentTask (kern s2) = c \<longrightarrow> kstack (taskQueue (kern s2) c) 14 = kstack (taskQueue (kern s1) c) 14
        \<longrightarrow> (\<exists>s3. resume_fork rax s2 = Back 0 s3 \<and> kstack (cur (kern s3)) 14 = 0))"
proof -
  obtain k' where k': "fork (ret_at fr) (kern s) = Some (c, k')" "currentTask k' = currentTask (kern s)"
    "cur k' = (cur (kern s))\<lparr>child_count := to_int32 (child_count (cur (kern s)) + 1)\<rparr>"
    "taskQueue k' c = (taskQueue (kern s) c)\<lparr>pid := c, ppid := (pid (cur (kern s))), task_pml4e := f, name := name (cur (kern s)),
         curr_dir := curr_dir (cur (kern s)), vm := vm (cur (kern s)), ustack := STACK_S, task_rsp := STACK_S + 511 * 8, state := RUNNING,
         kstack := (\<lambda>i. if i < 512 then kstack (cur (kern s)) i else kstack (taskQueue (kern s) c) i)(14 := posInfinity),
         regs := (regs (taskQueue (kern s) c))\<lparr>rip := ret_at fr, rsp := kstack_top (kern s) c - (kstack_top (kern s) (currentTask (kern s)) - cpu_rsp (kern s))\<rparr>\<rparr>"
    using fork_spec [OF assms(1-3), of "ret_at fr"] by blast
  have m: "fork_mark (of_nat c) k' = (of_nat c, k')" using k'(3) assms(4) by (simp add: fork_mark_def)
  have c: "c < MAX_TASKS" using newPID_Some [OF assms(1)] by simp
  then have "(ucast (of_nat c :: u64) :: u32) = of_nat c" by (simp add: MAX_TASKS_def unsigned_of_nat take_bit_nat_eq_self)
  then have "fork_lib fr r s = Some (Reply (of_nat c) (s\<lparr>kern := k', clock := outportb 0x20 0x20 (clock s)\<rparr>))"
    using k'(1) m by (simp add: fork_lib_def forkcall_def case_fork_def trap_return_def set_kernel_def)
  moreover have "kstack (taskQueue k' c) 14 = 9999" "rip (regs (taskQueue k' c)) = ret_at fr" using k'(4) by (simp_all add: posInfinity_def)
  ultimately show ?thesis using k'(2)
    by (intro exI [of _ "s\<lparr>kern := k', clock := outportb 0x20 0x20 (clock s)\<rparr>"])
      (auto simp: resume_fork_def fork_mark_def trap_return_def set_kernel_def upd_task_def)
qed

text \<open>C33: \<open>fork\<close> returns twice. In a caller with a free slot and frames enough it returns the slot of the child;
  and whenever the child is chosen to run with its kernel stack as \<open>fork\<close> made it, the same call
  returns 0 there, and the mark that told it is cleared.\<close>

theorem fork_returns_twice:
  assumes "newPID (kern s) = Some c" and "c \<noteq> currentTask (kern s)" and "forkable (kern s) lim K (f # fs)"
    and "kstack (cur (kern s)) 14 \<noteq> 9999"
  shows "\<exists>s1. fork_lib fr r s = Some (Reply (of_nat c) s1) \<and> currentTask (kern s1) = currentTask (kern s)
    \<and> rip (regs (taskQueue (kern s1) c)) = ret_at fr
    \<and> (\<forall>rax s2. currentTask (kern s2) = c \<longrightarrow> kstack (taskQueue (kern s2) c) 14 = kstack (taskQueue (kern s1) c) 14
        \<longrightarrow> (\<exists>s3. resume_fork rax s2 = Back 0 s3 \<and> kstack (cur (kern s3)) 14 = 0))"
  using fork_lib_returns [OF assms] .

theorem fork_returns_twice_witness:
  "\<exists>s1. fork_lib frame0 regs0 \<lparr>kern = kernel_fork, con = console_ls, tarfs = elf_fs, clock = timer0 0\<rparr> = Some (Reply 0 s1)
     \<and> currentTask (kern s1) = 2 \<and> rip (regs (taskQueue (kern s1) 0)) = 0x600"
proof -
  let ?s = "\<lparr>kern = kernel_fork, con = console_ls, tarfs = elf_fs, clock = timer0 0\<rparr>"
  have k: "newPID (kern ?s) = Some 0" "0 \<noteq> currentTask (kern ?s)" "kstack (cur (kern ?s)) 14 \<noteq> 9999"
    using kernel_fork_slot by (simp_all add: kernel_fork_def kernel_fam_def upd_task_def task0_def)
  have "forkable (kern ?s) 0x10000 (kernel_tables (pm fork_paging) 0x10000) (0x1000 # fork_frame_list)" using kernel_fork_ready by simp
  from fork_returns_twice [OF k(1,2) this k(3), of frame0 regs0] show ?thesis by (auto simp: frame0_def)
qed

end
