(* ===== verification/Environment.thy ===== *)
theory Environment
  imports LibCalls
begin

text \<open>
  The environment of a program: the variables kept by \<^verbatim>\<open>libc/util_sys.c\<close> (\<open>getvar\<close>, \<open>getenv\<close>, \<open>setenv\<close>,
  \<open>pushenvs\<close>) and the start-up code of \<^verbatim>\<open>crt/crt1.c\<close>, which hands the arguments and the environment that
  \<open>execvpe\<close> left on the stack to \<^verbatim>\<open>main\<close>. The static arrays are functions of their indices; an access beyond
  a row or a buffer is \<open>None\<close>.
\<close>

section \<open>Rows\<close>

text \<open>A row is an array of 1000 characters; its string ends at the first NUL.\<close>

abbreviation ROW :: nat where
  "ROW \<equiv> 1000"

definition row_string :: "nat \<Rightarrow> (nat \<Rightarrow> char) \<Rightarrow> string option" where
  "row_string n row = (let w = takeWhile (\<lambda>c. c \<noteq> NUL) (map row [0..<n]) in if length w < n then Some w else None)"

definition put_string :: "nat \<Rightarrow> string \<Rightarrow> (nat \<Rightarrow> char) \<Rightarrow> nat \<Rightarrow> char" where
  "put_string k str row = (\<lambda>i. if k \<le> i \<and> i < k + length str then str ! (i - k) else if i = k + length str then NUL else row i)"

definition holds :: "nat \<Rightarrow> (nat \<Rightarrow> char) \<Rightarrow> string \<Rightarrow> bool" where
  "holds n row str \<longleftrightarrow> length str < n \<and> NUL \<notin> set str \<and> (\<forall>i < length str. row i = str ! i) \<and> row (length str) = NUL"

lemma holds_row_string: "holds n row str \<Longrightarrow> row_string n row = Some str"
proof -
  assume h: "holds n row str"
  then have n: "n = length str + Suc (n - Suc (length str))" by (simp add: holds_def)
  have "map row [0..<n] = str @ NUL # map row [Suc (length str)..<n]"
  proof (rule nth_equalityI)
    fix i assume "i < length (map row [0..<n])"
    then show "map row [0..<n] ! i = (str @ NUL # map row [Suc (length str)..<n]) ! i"
      using h by (cases "i < length str"; cases "i = length str") (auto simp: holds_def nth_append nth_Cons' )
  qed (use n in simp)
  then have "takeWhile (\<lambda>c. c \<noteq> NUL) (map row [0..<n]) = str"
    using h by (auto simp: holds_def takeWhile_append)
  then show ?thesis using h by (simp add: row_string_def holds_def)
qed

lemma put_string_holds: "length str < n \<Longrightarrow> NUL \<notin> set str \<Longrightarrow> holds n (put_string 0 str row) str"
  by (simp add: holds_def put_string_def)

text \<open>A string stored behind a prefix.\<close>

lemma put_string_append:
  assumes "holds n row (pre @ old)" and "length pre + length str < n" and "NUL \<notin> set str"
  shows "holds n (put_string (length pre) str row) (pre @ str)"
  using assms by (auto simp: holds_def put_string_def nth_append)

section \<open>The variables\<close>

record environ =
  env_var :: "nat \<Rightarrow> nat \<Rightarrow> char"
  env_length :: nat
  envBuffer :: "nat \<Rightarrow> char"

text \<open>\<open>getvar\<close> copies the characters up to the equal sign, and stops at nothing else.\<close>

partial_function (option) getvar_loop :: "(nat \<Rightarrow> char) \<Rightarrow> nat \<Rightarrow> (nat \<Rightarrow> char) \<Rightarrow> (nat \<Rightarrow> char) option" where
  "getvar_loop nm i buf =
     (if i < ROW then
        if nm i \<noteq> CHR ''='' then (if i < 100 then getvar_loop nm (i + 1) (buf(i := nm i)) else None)
        else if i < 100 then Some (buf(i := NUL)) else None
      else None)"

definition getvar :: "(nat \<Rightarrow> char) \<Rightarrow> environ \<Rightarrow> environ option" where
  "getvar nm v = do {
     buf \<leftarrow> getvar_loop nm 0 (envBuffer v);
     Some (v\<lparr>envBuffer := buf\<rparr>)
   }"

text \<open>Pointers into \<open>env_var\<close> are a row and a column.\<close>

definition getallenv :: "nat \<Rightarrow> nat \<times> nat" where
  "getallenv i = (i, 0)"

definition getenv :: "string \<Rightarrow> environ \<Rightarrow> ((nat \<times> nat) option \<times> environ) option" where
  "getenv nm v =
     (if 0 < env_length v then do {
        v \<leftarrow> getvar (env_var v 0) v;
        l \<leftarrow> row_string 100 (envBuffer v);
        Some (Some (0, length l), v)
      }
      else Some (None, v))"

definition getenvlength :: "environ \<Rightarrow> nat" where
  "getenvlength v = env_length v"

partial_function (option) setenv_loop :: "string \<Rightarrow> string \<Rightarrow> nat \<Rightarrow> environ \<Rightarrow> (int \<times> environ) option" where
  "setenv_loop nm value i v =
     (if i < env_length v then
        Option.bind (getvar (env_var v i) v) (\<lambda>v.
        Option.bind (row_string 100 (envBuffer v)) (\<lambda>l.
        if strcmp_s nm l = 0 then
          (if length l + 1 + length value < ROW
           then Some (1, v\<lparr>env_var := (env_var v)(i := put_string (length l + 1) value (env_var v i))\<rparr>)
           else None)
        else setenv_loop nm value (i + 1) v))
      else Some (0, v))"

definition setenv :: "string \<Rightarrow> string \<Rightarrow> int \<Rightarrow> environ \<Rightarrow> (int \<times> environ) option" where
  "setenv nm value overwrite v = setenv_loop nm value 0 v"

fun pushenvs_loop :: "string list \<Rightarrow> nat \<Rightarrow> environ \<Rightarrow> environ option" where
  "pushenvs_loop [] i v = Some (v\<lparr>env_length := i\<rparr>)"
| "pushenvs_loop (e # envp) i v =
     (if i < 1000 \<and> length e < ROW then pushenvs_loop envp (i + 1) (v\<lparr>env_var := (env_var v)(i := put_string 0 e (env_var v i))\<rparr>)
      else None)"

definition pushenvs :: "string list \<Rightarrow> environ \<Rightarrow> environ option" where
  "pushenvs envp v = pushenvs_loop envp 0 v"

section \<open>The start of a program\<close>

record crt =
  globalENV :: int
  iter :: int

definition checkforENV :: "crt \<Rightarrow> int" where
  "checkforENV c = (if iter c < globalENV c then globalENV c else 0)"

definition initEnvironment :: "crt \<Rightarrow> crt" where
  "initEnvironment c = c\<lparr>globalENV := checkforENV c\<rparr>"

text \<open>What \<open>pushenvs\<close> copies is read from the caller's memory.\<close>

fun read_strings :: "system \<Rightarrow> u64 list \<Rightarrow> string list option" where
  "read_strings s [] = Some []"
| "read_strings s (p # qs) = do {
     str \<leftarrow> user_str s p;
     strs \<leftarrow> read_strings s qs;
     Some (str # strs)
   }"

type_synonym program = "int \<Rightarrow> u64 list \<Rightarrow> u64 list \<Rightarrow> environ \<Rightarrow> system \<Rightarrow> int reply option"

text \<open>\<open>_start\<close> with \<^verbatim>\<open>main\<close>, which it calls, as an argument; \<open>sp\<close> is the stack pointer it reads.\<close>

definition start_program :: "program \<Rightarrow> call_frame \<Rightarrow> registersAligned \<Rightarrow> u64 \<Rightarrow> crt \<Rightarrow> environ \<Rightarrow> system \<Rightarrow> (crt \<times> int reply) option" where
  "start_program main fr r sp c v s = do {
     let c = initEnvironment c;
     let c = c\<lparr>globalENV := checkforENV c\<rparr>;
     (argc, argv, env) \<leftarrow> start_args (pg (kern s)) (cr3 (kern s)) sp;
     let c = c\<lparr>iter := max 0 argc\<rparr>;
     let c = c\<lparr>globalENV := globalENV c + 1\<rparr>;
     let c = c\<lparr>iter := 0\<rparr>;
     let c = c\<lparr>globalENV := checkforENV c\<rparr>;
     let c = c\<lparr>iter := int (length env), globalENV := globalENV c - 1\<rparr>;
     envs \<leftarrow> (if length env < 100 then read_strings s env else None);
     v \<leftarrow> pushenvs envs v;
     x \<leftarrow> and_then (main argc argv env v s) (\<lambda>retVal s. exit_lib fr r retVal s);
     Some (c, x)
   }"

section \<open>Looking variables up\<close>

text \<open>The list of variables, as names and values.\<close>

definition env_string :: "string \<times> string \<Rightarrow> string" where
  "env_string = (\<lambda>(n, v). n @ CHR ''='' # v)"

definition env_ok :: "(string \<times> string) list \<Rightarrow> environ \<Rightarrow> bool" where
  "env_ok es v \<longleftrightarrow> env_length v = length es \<and> length es \<le> 1000
     \<and> (\<forall>i < length es. holds ROW (env_var v i) (env_string (es ! i)) \<and> length (fst (es ! i)) < 100 \<and> CHR ''='' \<notin> set (fst (es ! i)))"

lemma getvar_loop_copies:
  assumes "holds ROW row (n @ CHR ''='' # v)" "CHR ''='' \<notin> set n" "length n < 100" "i \<le> length n" "\<forall>j < i. buf j = n ! j"
  shows "\<exists>buf'. getvar_loop row i buf = Some buf' \<and> holds 100 buf' n"
  using assms(4,5)
proof (induction "length n - i" arbitrary: i buf)
  case 0
  then have i: "i = length n" by simp
  have "row (length n) = CHR ''=''" using assms(1) by (auto simp: holds_def nth_append dest: spec [of _ "length n"])
  moreover have "length n < ROW" using assms(3) by simp
  moreover have "holds 100 (buf(length n := NUL)) n" using 0 assms(1,3) i by (simp add: holds_def)
  ultimately show ?case using assms(3) unfolding i by (subst getvar_loop.simps) simp
next
  case (Suc d)
  then have i: "i < length n" by simp
  then have r: "row i = n ! i" using assms(1) by (auto simp: holds_def nth_append dest: spec [of _ i])
  have "n ! i \<noteq> CHR ''=''" using assms(2) i nth_mem [OF i] by metis
  moreover have "\<forall>j < Suc i. (buf(i := row i)) j = n ! j" using Suc.prems(2) r by (simp add: less_Suc_eq)
  ultimately show ?case using Suc.hyps(1) [of "Suc i" "buf(i := row i)"] Suc.hyps(2) i assms(3) r
    by (subst getvar_loop.simps) simp
qed

lemma getvar_row:
  assumes "env_ok es v" "i < length es"
  shows "\<exists>v'. getvar (env_var v i) v = Some v' \<and> env_var v' = env_var v \<and> env_length v' = env_length v
    \<and> row_string 100 (envBuffer v') = Some (fst (es ! i))"
proof -
  have "holds ROW (env_var v i) (fst (es ! i) @ CHR ''='' # snd (es ! i))" "length (fst (es ! i)) < 100" "CHR ''='' \<notin> set (fst (es ! i))"
    using assms by (auto simp: env_ok_def env_string_def split_def)
  from getvar_loop_copies [OF this(1,3,2), of 0 "envBuffer v"] obtain buf where "getvar_loop (env_var v i) 0 (envBuffer v) = Some buf"
    "holds 100 buf (fst (es ! i))" by auto
  then show ?thesis by (simp add: getvar_def holds_row_string)
qed

lemma env_ok_same: "env_ok es v \<Longrightarrow> env_var v' = env_var v \<Longrightarrow> env_length v' = env_length v \<Longrightarrow> env_ok es v'"
  by (simp add: env_ok_def)

lemma env_name_no_NUL: "env_ok es v \<Longrightarrow> i < length es \<Longrightarrow> NUL \<notin> set (fst (es ! i))"
  by (auto simp: env_ok_def env_string_def holds_def split_def)

lemma pushenvs_loop_ok:
  "env_ok (take i es) (v\<lparr>env_length := i\<rparr>) \<Longrightarrow> i \<le> length es \<Longrightarrow> length es \<le> 1000 \<Longrightarrow>
   \<forall>(n, x) \<in> set es. NUL \<notin> set (n @ x) \<and> CHR ''='' \<notin> set n \<and> length n < 100 \<and> length n + 1 + length x < ROW \<Longrightarrow>
   \<exists>v'. pushenvs_loop (map env_string (drop i es)) i v = Some v' \<and> env_ok es v'"
proof (induction "length es - i" arbitrary: i v)
  case 0
  then have "i = length es" by simp
  then show ?case using 0 by simp
next
  case (Suc d)
  then have i: "i < length es" by simp
  let ?v = "v\<lparr>env_var := (env_var v)(i := put_string 0 (env_string (es ! i)) (env_var v i))\<rparr>"
  obtain n x where e: "es ! i = (n, x)" by fastforce
  have "(n, x) \<in> set es" using nth_mem [OF i] e by simp
  then have w: "NUL \<notin> set (n @ x)" "CHR ''='' \<notin> set n" "length n < 100" "length (env_string (es ! i)) < ROW"
    using Suc.prems(4) e by (auto simp: env_string_def)
  then have h: "holds ROW (put_string 0 (env_string (es ! i)) (env_var v i)) (env_string (es ! i))"
    by (intro put_string_holds) (auto simp: e env_string_def)
  have "env_ok (take (Suc i) es) (?v\<lparr>env_length := Suc i\<rparr>)"
    using Suc.prems(1,3) i h w by (auto simp: env_ok_def less_Suc_eq e)
  moreover have "drop i es = es ! i # drop (Suc i) es" using i by (rule Cons_nth_drop_Suc [symmetric])
  ultimately show ?case using Suc.hyps(1) [of "Suc i" ?v] Suc.hyps(2) Suc.prems(3,4) i w(4) by simp
qed

lemma pushenvs_ok:
  assumes "length es \<le> 1000"
    and "\<forall>(n, x) \<in> set es. NUL \<notin> set (n @ x) \<and> CHR ''='' \<notin> set n \<and> length n < 100 \<and> length n + 1 + length x < ROW"
  shows "\<exists>v'. pushenvs (map env_string es) v = Some v' \<and> env_ok es v'"
  using pushenvs_loop_ok [of 0 es v] assms by (simp add: pushenvs_def env_ok_def)

lemma setenv_loop_sets:
  assumes "env_ok es v" "NUL \<notin> set nm" "NUL \<notin> set x" "length nm + 1 + length x < ROW" "i \<le> length es" "\<forall>j < i. fst (es ! j) \<noteq> nm"
  shows "\<exists>v'. setenv_loop nm x i v = Some (if nm \<in> fst ` set es then 1 else 0, v')
    \<and> (case find (\<lambda>j. fst (es ! j) = nm) [i..<length es] of Some j \<Rightarrow> env_ok (es[j := (nm, x)]) v' | None \<Rightarrow> env_ok es v')"
  using assms(1,5,6)
proof (induction "length es - i" arbitrary: i v)
  case 0
  then have i: "i = length es" by simp
  then have "nm \<notin> fst ` set es" using 0(4) by (fastforce simp: in_set_conv_nth)
  then show ?case using 0 i by (subst setenv_loop.simps) (simp add: env_ok_def)
next
  case (Suc d)
  then have i: "i < length es" by simp
  obtain v1 where v1: "getvar (env_var v i) v = Some v1" "env_var v1 = env_var v" "env_length v1 = env_length v"
    "row_string 100 (envBuffer v1) = Some (fst (es ! i))" using getvar_row [OF Suc.prems(1) i] by blast
  have ok1: "env_ok es v1" using env_ok_same [OF Suc.prems(1) v1(2,3)] .
  have l: "env_length v = length es" using Suc.prems(1) by (simp add: env_ok_def)
  have up: "[i..<length es] = i # [Suc i..<length es]" using i by (rule upt_conv_Cons)
  have eq: "strcmp_s nm (fst (es ! i)) = 0 \<longleftrightarrow> nm = fst (es ! i)"
    using strcmp_s_eq_0 [OF assms(2) env_name_no_NUL [OF Suc.prems(1) i]] .
  show ?case
  proof (cases "nm = fst (es ! i)")
    case True
    let ?w = "v1\<lparr>env_var := (env_var v1)(i := put_string (length nm + 1) x (env_var v1 i))\<rparr>"
    obtain y where y: "es ! i = (nm, y)" using True by (cases "es ! i") simp
    have "holds ROW (env_var v1 i) ((nm @ [CHR ''='']) @ y)" using ok1 i y by (auto simp: env_ok_def env_string_def)
    then have "holds ROW (put_string (length nm + 1) x (env_var v1 i)) ((nm @ [CHR ''='']) @ x)"
      using put_string_append [of ROW _ "nm @ [CHR ''='']" y x] assms(3,4) by simp
    moreover have "length nm < 100" "CHR ''='' \<notin> set nm" using ok1 i y by (auto simp: env_ok_def)
    ultimately have "env_ok (es[i := (nm, x)]) ?w"
      using ok1 i by (auto simp: env_ok_def env_string_def nth_list_update)
    moreover have "nm \<in> fst ` set es" using nth_mem [OF i] y by force
    ultimately show ?thesis using v1 True i l assms(4) eq up by (subst setenv_loop.simps) simp
  next
    case False
    then have "\<forall>j < Suc i. fst (es ! j) \<noteq> nm" using Suc.prems(3) by (auto simp: less_Suc_eq)
    from Suc.hyps(1) [OF _ ok1 _ this] Suc.hyps(2) i show ?thesis
      using v1 False l eq up by (subst setenv_loop.simps) auto
  qed
qed

text \<open>After \<open>pushenvs\<close> has stored the variables a program was started with, \<open>setenv\<close> replaces the value of the
  first variable of that name and keeps every other one, and returns 1; for a name that is not there it returns 0
  and changes no variable: it never adds one. The flag \<open>overwrite\<close> makes no difference.\<close>

theorem setenv_replaces:
  assumes "length es \<le> 1000"
    and "\<forall>(n, y) \<in> set es. NUL \<notin> set (n @ y) \<and> CHR ''='' \<notin> set n \<and> length n < 100 \<and> length n + 1 + length y < ROW"
    and "NUL \<notin> set nm" and "NUL \<notin> set x" and "length nm + 1 + length x < ROW"
  shows "\<exists>v1 v2. pushenvs (map env_string es) v = Some v1 \<and> setenv nm x overwrite v1 = Some (if nm \<in> fst ` set es then 1 else 0, v2)
    \<and> env_length v2 = length es
    \<and> (\<forall>i < length es. row_string ROW (env_var v2 i)
         = Some (if fst (es ! i) = nm \<and> (\<forall>j < i. fst (es ! j) \<noteq> nm) then env_string (nm, x) else env_string (es ! i)))"
proof -
  obtain v1 where v1: "pushenvs (map env_string es) v = Some v1" "env_ok es v1" using pushenvs_ok [OF assms(1,2)] by blast
  obtain v2 where v2: "setenv_loop nm x 0 v1 = Some (if nm \<in> fst ` set es then 1 else 0, v2)"
    "case find (\<lambda>j. fst (es ! j) = nm) [0..<length es] of Some j \<Rightarrow> env_ok (es[j := (nm, x)]) v2 | None \<Rightarrow> env_ok es v2"
    using setenv_loop_sets [OF v1(2) assms(3-5), of 0] by auto
  have row: "env_ok es' v2 \<Longrightarrow> i < length es' \<Longrightarrow> row_string ROW (env_var v2 i) = Some (env_string (es' ! i))" for es' i
    by (simp add: env_ok_def holds_row_string)
  have "env_length v2 = length es \<and> (\<forall>i < length es. row_string ROW (env_var v2 i)
         = Some (if fst (es ! i) = nm \<and> (\<forall>j < i. fst (es ! j) \<noteq> nm) then env_string (nm, x) else env_string (es ! i)))"
  proof (cases "find (\<lambda>j. fst (es ! j) = nm) [0..<length es]")
    case None
    then have "\<forall>i < length es. fst (es ! i) \<noteq> nm" by (simp add: find_None_iff)
    then show ?thesis using v2(2) None row [of es] by (simp add: env_ok_def)
  next
    case (Some j)
    then have j: "j < length es" "fst (es ! j) = nm" "\<forall>i < j. fst (es ! i) \<noteq> nm"
      unfolding find_Some_iff by auto
    then have "fst (es ! i) = nm \<and> (\<forall>l < i. fst (es ! l) \<noteq> nm) \<longleftrightarrow> i = j" if "i < length es" for i
      using that by (metis linorder_neqE_nat)
    then show ?thesis using v2(2) Some row [of "es[j := (nm, x)]"] j(1)
      by (auto simp: env_ok_def nth_list_update)
  qed
  then show ?thesis using v1(1) v2(1) by (auto simp: setenv_def)
qed

text \<open>\<open>getenv\<close> ignores the name: whatever is asked for, it returns a pointer to the equal sign of the first
  variable, and a null pointer only when there is none.\<close>

theorem getenv_ignores_name:
  assumes "length es \<le> 1000"
    and "\<forall>(n, y) \<in> set es. NUL \<notin> set (n @ y) \<and> CHR ''='' \<notin> set n \<and> length n < 100 \<and> length n + 1 + length y < ROW"
  shows "\<exists>v1 v2. pushenvs (map env_string es) v = Some v1
    \<and> getenv nm v1 = Some (if es = [] then None else Some (0, length (fst (hd es))), v2)"
proof -
  obtain v1 where v1: "pushenvs (map env_string es) v = Some v1" "env_ok es v1" using pushenvs_ok [OF assms] by blast
  then show ?thesis using getvar_row [OF v1(2), of 0] by (cases es) (auto simp: getenv_def env_ok_def)
qed

theorem setenv_replaces_witness:
  "\<exists>v1 v2. pushenvs [''PATH=bin'', ''PS1=x''] undefined = Some v1 \<and> setenv ''PS1'' ''sh'' 1 v1 = Some (1, v2)
     \<and> row_string ROW (env_var v2 0) = Some ''PATH=bin'' \<and> row_string ROW (env_var v2 1) = Some ''PS1=sh''"
proof -
  have "length [(''PATH'', ''bin''), (''PS1'', ''x'')] \<le> 1000"
    "\<forall>(n, y) \<in> set [(''PATH'', ''bin''), (''PS1'', ''x'')]. NUL \<notin> set (n @ y) \<and> CHR ''='' \<notin> set n \<and> length n < 100 \<and> length n + 1 + length y < ROW"
    "NUL \<notin> set ''PS1''" "NUL \<notin> set ''sh''" "length ''PS1'' + 1 + length ''sh'' < ROW" by simp_all
  from setenv_replaces [OF this, of undefined 1] obtain v1 v2 where
    "pushenvs [''PATH=bin'', ''PS1=x''] undefined = Some v1" "setenv ''PS1'' ''sh'' 1 v1 = Some (1, v2)"
    "\<forall>i < 2. row_string ROW (env_var v2 i) = Some (if i = 1 then ''PS1=sh'' else ''PATH=bin'')"
    by (auto simp: env_string_def less_Suc_eq numeral_2_eq_2)
  then show ?thesis by (intro exI [of _ v1] exI [of _ v2]) simp
qed

theorem getenv_ignores_name_witness:
  "\<exists>v1 v2. pushenvs [''PATH=bin'', ''PS1=x''] undefined = Some v1 \<and> getenv ''PS1'' v1 = Some (Some (0, 4), v2)"
proof -
  have "length [(''PATH'', ''bin''), (''PS1'', ''x'')] \<le> 1000"
    "\<forall>(n, y) \<in> set [(''PATH'', ''bin''), (''PS1'', ''x'')]. NUL \<notin> set (n @ y) \<and> CHR ''='' \<notin> set n \<and> length n < 100 \<and> length n + 1 + length y < ROW"
    by simp_all
  from getenv_ignores_name [OF this, of undefined "''PS1''"] show ?thesis by (simp add: env_string_def numeral_eq_Suc)
qed

end
