(* ===== verification/Programs.thy ===== *)
theory Programs
  imports Environment System
begin

text \<open>
  The small programs of \<^verbatim>\<open>bin/\<close>: \<^verbatim>\<open>echo\<close>, \<^verbatim>\<open>cat\<close>, \<^verbatim>\<open>ls\<close>, \<^verbatim>\<open>kill\<close>, \<^verbatim>\<open>sleep\<close> and \<^verbatim>\<open>ps\<close>. Their strings are where the code
  has them, in the task's memory: arguments are the pointers that \<open>_start\<close> found on the stack, literals
  have the addresses \<open>lit\<close> gives them, local arrays have the address in their name. \<^verbatim>\<open>main\<close> has the
  type \<open>program\<close>; a value that its caller does not look at is dropped. \<^verbatim>\<open>-std=c99\<close> makes a \<^verbatim>\<open>main\<close> without \<^verbatim>\<open>return\<close>
  return 0.
\<close>

section \<open>Strings in the task's memory\<close>

text \<open>An entry of \<^verbatim>\<open>argv\<close>, a static array that is zero behind the arguments.\<close>

definition arg_ptr :: "u64 list \<Rightarrow> nat \<Rightarrow> u64" where
  "arg_ptr argv i = (if i < length argv then argv ! i else 0)"

definition strcat_user :: "u64 \<Rightarrow> u64 \<Rightarrow> system \<Rightarrow> system option" where
  "strcat_user str1 str2 s = do {
     a \<leftarrow> user_str s str1;
     b \<leftarrow> user_str s str2;
     p \<leftarrow> copy_string (cr3 (kern s)) (str1 + of_nat (length a)) b (pg (kern s));
     Some (set_pages p s)
   }"

definition strcpy_user :: "u64 \<Rightarrow> u64 \<Rightarrow> system \<Rightarrow> system option" where
  "strcpy_user str2 str1 s = do {
     a \<leftarrow> user_str s str1;
     p \<leftarrow> copy_string (cr3 (kern s)) str2 a (pg (kern s));
     Some (set_pages p s)
   }"

definition strtoInt_user :: "u64 \<Rightarrow> system \<Rightarrow> int option" where
  "strtoInt_user str s = do {
     a \<leftarrow> user_str s str;
     if length a < 2 ^ 31 then Some (digits_val 0 a) else None
   }"

type_synonym literals = "string \<Rightarrow> u64"

section \<open>echo\<close>

definition echo_validateARGS :: "call_frame \<Rightarrow> registersAligned \<Rightarrow> literals \<Rightarrow> u64 \<Rightarrow> system \<Rightarrow> int reply option" where
  "echo_validateARGS fr r lit str s =
     (if str = 0 then and_then (puts fr r (lit (''Usage : echo <type-something>'' @ [NL])) s) (\<lambda>_ s. Some (Reply (- 1) s))
      else Some (Reply 0 s))"

fun echo_loop :: "call_frame \<Rightarrow> registersAligned \<Rightarrow> literals \<Rightarrow> u64 list \<Rightarrow> system \<Rightarrow> unit reply option" where
  "echo_loop fr r lit [] s = Some (Reply () s)"
| "echo_loop fr r lit (a # as) s = do {
     s \<leftarrow> strcat_user a (lit '' '') s;
     and_then (puts fr r a s) (\<lambda>_ s. echo_loop fr r lit as s)
   }"

definition printEmAll :: "call_frame \<Rightarrow> registersAligned \<Rightarrow> literals \<Rightarrow> int \<Rightarrow> u64 list \<Rightarrow> system \<Rightarrow> int reply option" where
  "printEmAll fr r lit argc argv s =
     and_then (echo_loop fr r lit (map (arg_ptr argv) [1..<nat argc]) s) (\<lambda>_ s. puts fr r (lit [NL]) s)"

definition echo_main :: "call_frame \<Rightarrow> registersAligned \<Rightarrow> literals \<Rightarrow> program" where
  "echo_main fr r lit argc argv envp v s =
     and_then (echo_validateARGS fr r lit (arg_ptr argv 1) s) (\<lambda>ok s.
       if ok = - 1 then Some (Reply (- 1) s)
       else and_then (printEmAll fr r lit argc argv s) (\<lambda>_ s. Some (Reply 0 s)))"

section \<open>cat\<close>

definition cat_validateARGS :: "call_frame \<Rightarrow> registersAligned \<Rightarrow> literals \<Rightarrow> int \<Rightarrow> u64 \<Rightarrow> system \<Rightarrow> int reply option" where
  "cat_validateARGS fr r lit argc filename s =
     (if argc < 2 then and_then (puts fr r (lit (''Usage : cat <file nama>'' @ [NL])) s) (\<lambda>_ s. Some (Reply (- 1) s))
      else and_then (fopen fr r filename s) (\<lambda>file s.
        if file < 0 then and_then (puts fr r (lit (''File not found'' @ [NL])) s) (\<lambda>_ s. Some (Reply (- 1) s))
        else and_then (close_lib fr r file s) (\<lambda>_ s. Some (Reply 1 s))))"

definition readStr_sys :: "call_frame \<Rightarrow> registersAligned \<Rightarrow> int \<Rightarrow> u64 \<Rightarrow> int \<Rightarrow> system \<Rightarrow> int reply option" where
  "readStr_sys fr r d buf n s = int80 fr 0 (r\<lparr>rbx := reg_of_int d, rcx := buf, rdx := reg_of_int n\<rparr>) s"

definition cat_main :: "call_frame \<Rightarrow> registersAligned \<Rightarrow> literals \<Rightarrow> u64 \<Rightarrow> program" where
  "cat_main fr r lit inpString argc argv envp v s =
     and_then (cat_validateARGS fr r lit argc (arg_ptr argv 1) s) (\<lambda>ok s.
       if ok = - 1 then Some (Reply (- 1) s)
       else and_then (fopen fr r (arg_ptr argv 1) s) (\<lambda>file s.
            and_then (readStr_sys fr r file inpString 4096 s) (\<lambda>_ s.
            and_then (puts fr r inpString s) (\<lambda>_ s.
            and_then (close_lib fr r file s) (\<lambda>_ s. Some (Reply 0 s))))))"

section \<open>ls\<close>

text \<open>\<open>dir\<close> is the local array of 100 characters. Its last test looks at the terminating NUL and is always true.\<close>

definition openDirectory :: "call_frame \<Rightarrow> registersAligned \<Rightarrow> literals \<Rightarrow> u64 \<Rightarrow> int \<Rightarrow> u64 list \<Rightarrow> streams \<Rightarrow> system
    \<Rightarrow> (nat \<times> streams) reply option" where
  "openDirectory fr r lit dir argc argv st s =
     (if argc < 2 then
        and_then (getCurrentDirectory_lib fr r dir (- 1) s) (\<lambda>_ s. do {
          c \<leftarrow> ubyte (pg (kern s)) (cr3 (kern s)) (dir + 1);
          s \<leftarrow> (if c \<noteq> NUL then strcat_user dir (lit ''/'') s else Some s);
          opendir fr r dir st s
        })
      else do {
        s \<leftarrow> strcpy_user dir (arg_ptr argv 1) s;
        l \<leftarrow> user_str s dir;
        c \<leftarrow> ubyte (pg (kern s)) (cr3 (kern s)) (dir + of_nat (length l));
        s \<leftarrow> (if c \<noteq> CHR 0x2F then strcat_user dir (lit ''/'') s else Some s);
        if length l + 1 < 100 then opendir fr r dir st s else None
      })"

partial_function (option) printList_loop :: "call_frame \<Rightarrow> registersAligned \<Rightarrow> literals \<Rightarrow> nat \<Rightarrow> streams \<Rightarrow> system \<Rightarrow> unit reply option" where
  "printList_loop fr r lit dirPointer st s =
     Option.bind (readdir fr r dirPointer st s) (\<lambda>x. case x of
       Gone s \<Rightarrow> Some (Gone s)
     | Reply None s \<Rightarrow> Some (Reply () s)
     | Reply (Some file) s \<Rightarrow>
         Option.bind (puts fr r file s) (\<lambda>x. case x of
           Gone s \<Rightarrow> Some (Gone s)
         | Reply _ s \<Rightarrow>
             Option.bind (puts fr r (lit '' '') s) (\<lambda>x. case x of
               Gone s \<Rightarrow> Some (Gone s)
             | Reply _ s \<Rightarrow> printList_loop fr r lit dirPointer st s)))"

definition printList :: "call_frame \<Rightarrow> registersAligned \<Rightarrow> literals \<Rightarrow> nat \<Rightarrow> streams \<Rightarrow> system \<Rightarrow> int reply option" where
  "printList fr r lit dirPointer st s =
     and_then (printList_loop fr r lit dirPointer st s) (\<lambda>_ s. puts fr r (lit [NL]) s)"

definition ls_main :: "call_frame \<Rightarrow> registersAligned \<Rightarrow> literals \<Rightarrow> u64 \<Rightarrow> streams \<Rightarrow> program" where
  "ls_main fr r lit dir st argc argv envp v s =
     and_then (openDirectory fr r lit dir argc argv st s) (\<lambda>(dirPointer, st) s.
       if dir_fd st dirPointer = - 1 then and_then (puts fr r (lit (''Incorrect parameter'' @ [NL])) s) (\<lambda>_ s. Some (Reply 0 s))
       else and_then (printList fr r lit dirPointer st s) (\<lambda>_ s.
            and_then (close_lib fr r (dir_fd st dirPointer) s) (\<lambda>_ s. Some (Reply 0 s))))"

section \<open>kill, sleep and ps\<close>

definition kill_syscall :: "call_frame \<Rightarrow> registersAligned \<Rightarrow> u32 \<Rightarrow> system \<Rightarrow> int reply option" where
  "kill_syscall fr r p s = int80 fr 62 (r\<lparr>rbx := ucast p\<rparr>) s"

definition kill_validateARGS :: "call_frame \<Rightarrow> registersAligned \<Rightarrow> literals \<Rightarrow> int \<Rightarrow> u64 \<Rightarrow> system \<Rightarrow> int reply option" where
  "kill_validateARGS fr r lit argc pName s =
     (if argc < 3 then and_then (puts fr r (lit (''Must use : kill -9 PID'' @ [NL])) s) (\<lambda>_ s. Some (Reply (- 1) s))
      else do {
        p \<leftarrow> strtoInt_user pName s;
        if p < 0 then and_then (puts fr r (lit (''Incorrect PID'' @ [NL])) s) (\<lambda>_ s. Some (Reply (- 1) s))
        else Some (Reply 0 s)
      })"

definition kill_main :: "call_frame \<Rightarrow> registersAligned \<Rightarrow> literals \<Rightarrow> program" where
  "kill_main fr r lit argc argv envp v s =
     and_then (kill_validateARGS fr r lit argc (arg_ptr argv 2) s) (\<lambda>ok s.
       if ok = - 1 then Some (Reply (- 1) s)
       else do {
         p \<leftarrow> strtoInt_user (arg_ptr argv 2) s;
         and_then (kill_syscall fr r (word_of_int p) s) (\<lambda>_ s. Some (Reply 0 s))
       })"

definition sleep_main :: "call_frame \<Rightarrow> registersAligned \<Rightarrow> program" where
  "sleep_main fr r argc argv envp v s = do {
     n \<leftarrow> strtoInt_user (arg_ptr argv 1) s;
     and_then (sleep_lib fr r (word_of_int n) s) (\<lambda>_ s. Some (Reply 0 s))
   }"

definition ps_main :: "call_frame \<Rightarrow> registersAligned \<Rightarrow> program" where
  "ps_main fr r argc argv envp v s = and_then (ps_lib fr r s) (\<lambda>_ s. Some (Reply 0 s))"

section \<open>echo prints its arguments\<close>

text \<open>What a printing call leaves: only the screen and the interrupt controller's port have changed.\<close>

definition printed :: "string \<Rightarrow> system \<Rightarrow> system" where
  "printed str s = s\<lparr>con := (con s)\<lparr>screen := write_string str (screen (con s))\<rparr>, clock := outportb 0x20 0x20 (clock s)\<rparr>"

lemma printed_simps [simp]:
  "kern (printed str s) = kern s" "tarfs (printed str s) = tarfs s" "con (printed str s) = (con s)\<lparr>screen := write_string str (screen (con s))\<rparr>"
  "user_str (printed str s) a = user_str s a"
  by (simp_all add: printed_def user_str_def)

lemma puts_printed: "user_str s a = Some str \<Longrightarrow> puts fr r a s = Some (Reply 0 (printed str s))"
  using puts_prints by (simp add: printed_def)

lemma write_string_append: "write_string (a @ b) t = write_string b (write_string a t)"
  by (simp add: write_string_def)

lemma set_pages_simps [simp]: "kern (set_pages p s) = (kern s)\<lparr>pg := p\<rparr>" "con (set_pages p s) = con s" "tarfs (set_pages p s) = tarfs s"
  by (simp_all add: set_pages_def)

lemma string_at_append:
  assumes "\<forall>i < length a. ubyte s M (q + of_nat i) = Some (a ! i)" and "string_at s M (q + of_nat (length a)) b"
  shows "string_at s M q (a @ b)"
  using assms
proof (induction a arbitrary: q)
  case (Cons c a)
  have "ubyte s M q = Some c" using Cons.prems(1)[THEN spec, of 0] by simp
  moreover have "\<forall>i < length a. ubyte s M (q + 1 + of_nat i) = Some (a ! i)"
    using Cons.prems(1) by (auto simp: add.assoc dest: spec [of _ "Suc _"])
  ultimately show ?case using Cons.IH [of "q + 1"] Cons.prems(2) by (simp add: string_at_Cons add.assoc)
qed simp

text \<open>The pages, the tables and the page-table pointer of a system, as the facts on memory need them.\<close>

abbreviation upages :: "system \<Rightarrow> paging" where
  "upages s \<equiv> pg (kern s)"

abbreviation uroot :: "system \<Rightarrow> u64" where
  "uroot s \<equiv> cr3 (kern s)"

lemma strcat_user_appends:
  assumes t: "task_space (upages s) (uroot s) fs lim K" and a: "string_at (upages s) (uroot s) q a" "NUL \<notin> set a"
    and b: "user_str s l = Some b" and r: "user_range (upages s) (uroot s) q (length a + length b + 1)"
  shows "\<exists>p. strcat_user q l s = Some (set_pages p s) \<and> task_space p (uroot s) fs lim K
    \<and> only (upages s) p (uroot s) (unat q + length a) (unat q + (length a + length b + 1)) \<and> string_at p (uroot s) q (a @ b)"
proof -
  let ?d = "q + of_nat (length a)"
  have ua: "user_str s q = Some a" using user_string_at [OF a] by (simp add: user_str_def)
  have d: "user_range (upages s) (uroot s) ?d (length b + 1)" "unat ?d = unat q + length a"
    using user_range_part [OF r, of "length a" "length b + 1"] by simp_all
  obtain p where p: "copy_string (uroot s) ?d b (upages s) = Some p" "task_space p (uroot s) fs lim K"
    "only (upages s) p (uroot s) (unat ?d) (unat ?d + (length b + 1))" "string_at p (uroot s) ?d b"
    using copy_string_at [OF t d(1)] by blast
  have "ubyte p (uroot s) (q + of_nat i) = Some (a ! i)" if i: "i < length a" for i
  proof -
    have u: "unat (q + of_nat i) = unat q + i" using user_range_part(2) [OF r, of i 1] i by simp
    have "uaddr (q + of_nat i)" using user_range_uaddr [OF r, of "q + of_nat i"] u i by simp
    then have "ubyte p (uroot s) (q + of_nat i) = ubyte (upages s) (uroot s) (q + of_nat i)"
      using p(3) u d(2) i unfolding only_def by simp
    also have "\<dots> = Some ((a @ [NUL]) ! i)" using a(1) i unfolding string_at_def by simp
    finally show ?thesis using i by (simp add: nth_append)
  qed
  then have "string_at p (uroot s) q (a @ b)" using p(4) by (intro string_at_append) blast
  then show ?thesis using p ua b d(2) by (intro exI [of _ p]) (simp add: strcat_user_def add.assoc)
qed

text \<open>A literal outside of the block of the arguments.\<close>

definition literal :: "paging \<Rightarrow> u64 \<Rightarrow> nat \<Rightarrow> nat \<Rightarrow> u64 \<Rightarrow> string \<Rightarrow> bool" where
  "literal p M lo hi a str \<longleftrightarrow> string_at p M a str \<and> NUL \<notin> set str \<and> unat a + length str + 1 \<le> 511 * 2 ^ 39
     \<and> (hi \<le> unat a \<or> unat a + length str + 1 \<le> lo)"

lemma literal_only: "literal p M lo hi a str \<Longrightarrow> only p p' M lo hi \<Longrightarrow> literal p' M lo hi a str"
  using string_at_only by (auto simp: literal_def)

lemma literal_mono: "literal p M lo hi a str \<Longrightarrow> lo \<le> lo' \<Longrightarrow> hi' \<le> hi \<Longrightarrow> literal p M lo' hi' a str"
  by (auto simp: literal_def)

lemma literal_user_str: "literal (upages s) (uroot s) lo hi a str \<Longrightarrow> user_str s a = Some str"
  by (simp add: literal_def user_str_def user_string_at)

lemma strings_in_Cons:
  assumes "strings_in s M lo hi (q # qs) (a # as)"
  shows "string_slot s M lo hi q a" "strings_in s M (unat q + 8 * (length a + 1)) hi qs as"
proof -
  show "string_slot s M lo hi q a" using assms by (simp add: strings_in_def)
  have a: "list_all2 (string_slot s M lo hi) qs as" "\<forall>p \<in> set qs. unat q + 8 * (length a + 1) \<le> unat p" "spaced qs as"
    using assms by (simp_all add: strings_in_def)
  have "string_slot s M (unat q + 8 * (length a + 1)) hi (qs ! i) (as ! i)" if i: "i < length qs" for i
    using a(1) i bspec [OF a(2) nth_mem [OF i]] by (simp add: list_all2_conv_all_nth string_slot_def)
  then have "list_all2 (string_slot s M (unat q + 8 * (length a + 1)) hi) qs as"
    using a(1) by (simp add: list_all2_conv_all_nth)
  then show "strings_in s M (unat q + 8 * (length a + 1)) hi qs as" using a(3) by (simp only: strings_in_def)
qed

lemma only_mono: "only s s' M lo hi \<Longrightarrow> lo' \<le> lo \<Longrightarrow> hi \<le> hi' \<Longrightarrow> only s s' M lo' hi'"
  by (auto simp: only_def)

lemma echo_loop_prints:
  "task_space (upages s) (uroot s) fs lim K \<Longrightarrow> strings_in (upages s) (uroot s) lo hi qs as \<Longrightarrow> hi \<le> 511 * 2 ^ 39 \<Longrightarrow>
   \<forall>a \<in> set as. NUL \<notin> set a \<Longrightarrow> literal (upages s) (uroot s) lo hi (lit '' '') '' '' \<Longrightarrow>
   \<exists>s'. echo_loop fr r lit qs s = Some (Reply () s') \<and> only (upages s) (upages s') (uroot s) lo hi \<and> uroot s' = uroot s
     \<and> con s' = (con s)\<lparr>screen := write_string (concat (map (\<lambda>a. a @ '' '') as)) (screen (con s))\<rparr>
     \<and> kern s' = (kern s)\<lparr>pg := upages s'\<rparr>"
proof (induction as arbitrary: qs s lo)
  case Nil
  then have "qs = []" by (simp add: strings_in_def)
  then show ?case by (simp add: write_string_def)
next
  case (Cons a as)
  then obtain q qs' where qs: "qs = q # qs'" by (cases qs) (auto simp: strings_in_def)
  let ?M = "uroot s" and ?h = "unat q + 8 * (length a + 1)"
  note slot = strings_in_Cons [OF Cons.prems(2) [unfolded qs]]
  have q: "lo \<le> unat q" "?h \<le> hi" "string_at (upages s) ?M q a" "user_range (upages s) ?M q (8 * (length a + 1))"
    using slot(1) by (simp_all add: string_slot_def)
  have r: "user_range (upages s) ?M q (length a + length '' '' + 1)" by (rule user_range_sub [OF q(4)]) simp_all
  obtain p where p: "strcat_user q (lit '' '') s = Some (set_pages p s)" "task_space p ?M fs lim K"
    "only (upages s) p ?M (unat q + length a) (unat q + (length a + length '' '' + 1))" "string_at p ?M q (a @ '' '')"
    using strcat_user_appends [OF Cons.prems(1) q(3) _ literal_user_str [OF Cons.prems(5)] r] Cons.prems(4) by auto
  have o: "only (upages s) p ?M lo ?h" by (rule only_mono [OF p(3)]) (use q(1) in simp_all)
  have oh: "only (upages s) p ?M lo hi" by (rule only_mono [OF o]) (use q(2) in simp_all)
  have st: "strings_in p ?M ?h hi qs' as" using strings_in_only [OF o le_refl Cons.prems(3) slot(2)] .
  have li: "literal p ?M ?h hi (lit '' '') '' ''"
    using literal_mono [OF literal_only [OF Cons.prems(5) oh], of ?h hi] q(1) by simp
  let ?s1 = "printed (a @ '' '') (set_pages p s)"
  have "user_string p ?M q = Some (a @ '' '')" using user_string_at [OF p(4)] Cons.prems(4) by auto
  then have "puts fr r q (set_pages p s) = Some (Reply 0 ?s1)" by (intro puts_printed) (simp add: user_str_def)
  moreover have "\<exists>s'. echo_loop fr r lit qs' ?s1 = Some (Reply () s') \<and> only (upages ?s1) (upages s') (uroot ?s1) ?h hi \<and> uroot s' = uroot ?s1
     \<and> con s' = (con ?s1)\<lparr>screen := write_string (concat (map (\<lambda>a. a @ '' '') as)) (screen (con ?s1))\<rparr>
     \<and> kern s' = (kern ?s1)\<lparr>pg := upages s'\<rparr>"
    by (rule Cons.IH) (use p(2) st Cons.prems(3,4) li in simp_all)
  then obtain s' where s': "echo_loop fr r lit qs' ?s1 = Some (Reply () s')" "only p (upages s') ?M ?h hi" "uroot s' = ?M"
    "con s' = (con s)\<lparr>screen := write_string (concat (map (\<lambda>a. a @ '' '') as)) (write_string (a @ '' '') (screen (con s)))\<rparr>"
    "kern s' = (kern s)\<lparr>pg := upages s'\<rparr>" by auto
  have "only p (upages s') ?M lo hi" by (rule only_mono [OF s'(2)]) (use q(1) in simp_all)
  then have "only (upages s) (upages s') ?M lo hi" using only_trans [OF oh] by simp
  ultimately show ?case using p(1) s' unfolding qs by (simp add: write_string_append [symmetric])
qed


text \<open>\<open>echo\<close> as the system runs it: \<open>execvpe\<close> with the arguments, \<open>_start\<close>, and \<^verbatim>\<open>main\<close>.\<close>

lemma echo_main_prints:
  assumes t: "task_space (upages s) (uroot s) fs lim K" and st: "strings_in (upages s) (uroot s) lo hi qs (p # as)"
    and hi: "hi \<le> 511 * 2 ^ 39" and lo: "0 < lo" and n: "\<forall>a \<in> set (p # as). NUL \<notin> set a" and as: "as \<noteq> []"
    and sp: "literal (upages s) (uroot s) lo hi (lit '' '') '' ''" and nl: "literal (upages s) (uroot s) lo hi (lit [NL]) [NL]"
  shows "\<exists>s'. echo_main fr r lit (int (length (p # as))) qs envp v s = Some (Reply 0 s')
    \<and> con s' = (con s)\<lparr>screen := write_string (concat (map (\<lambda>a. a @ '' '') as) @ [NL]) (screen (con s))\<rparr>
    \<and> (\<exists>p. kern s' = (kern s)\<lparr>pg := p\<rparr>)"
proof -
  obtain q qs' where qs: "qs = q # qs'" using st by (cases qs) (auto simp: strings_in_def)
  note slot = strings_in_Cons [OF st [unfolded qs]]
  have l: "length qs' = length as" using slot(2) by (auto simp: strings_in_def dest: list_all2_lengthD)
  let ?h = "unat q + 8 * (length p + 1)"
  have h: "lo \<le> ?h" using slot(1) by (simp add: string_slot_def)
  have "nat (int (length (p # as))) = Suc (length as)" by simp
  then have m: "map (arg_ptr qs) [1..<nat (int (length (p # as)))] = qs'"
    unfolding qs by (simp only:) (rule nth_equalityI, simp_all add: arg_ptr_def l del: upt_Suc)
  have na: "\<forall>a \<in> set as. NUL \<notin> set a" using n by simp
  have "literal (upages s) (uroot s) ?h hi (lit '' '') '' ''" using literal_mono [OF sp h le_refl] .
  then obtain s1 where s1: "echo_loop fr r lit qs' s = Some (Reply () s1)" "only (upages s) (upages s1) (uroot s) ?h hi" "uroot s1 = uroot s"
    "con s1 = (con s)\<lparr>screen := write_string (concat (map (\<lambda>a. a @ '' '') as)) (screen (con s))\<rparr>"
    "kern s1 = (kern s)\<lparr>pg := upages s1\<rparr>"
    using echo_loop_prints [OF t slot(2) hi na, of lit fr r] by blast
  have "literal (upages s1) (uroot s1) ?h hi (lit [NL]) [NL]"
    unfolding s1(3) using literal_only [OF literal_mono [OF nl h le_refl] s1(2)] .
  then have nl1: "puts fr r (lit [NL]) s1 = Some (Reply 0 (printed [NL] s1))" by (intro puts_printed literal_user_str)
  have "qs' ! 0 \<in> set qs'" using l as by (intro nth_mem) simp
  from strings_in_above [OF slot(2) this] have "arg_ptr qs 1 \<noteq> 0" using l as lo h by (auto simp: arg_ptr_def qs)
  then have "echo_main fr r lit (int (length (p # as))) qs envp v s = Some (Reply 0 (printed [NL] s1))"
    using s1(1) nl1 m by (simp add: echo_main_def echo_validateARGS_def printEmAll_def)
  moreover have "\<exists>p. kern (printed [NL] s1) = (kern s)\<lparr>pg := p\<rparr>" using s1(5) by auto
  ultimately show ?thesis using s1(4) by (simp add: write_string_append)
qed

lemma page_apart:
  fixes S v z :: nat
  assumes "S < v div 4096 \<or> (v + z + 4095) div 4096 \<le> S"
  shows "4096 * S + 4096 \<le> v \<or> v + z \<le> 4096 * S"
proof -
  have e: "4096 * (v div 4096) \<le> v" "v + z + 4095 < 4096 * ((v + z + 4095) div 4096) + 4096"
    using div_mult_mod_eq [of v 4096] mod_less_divisor [of 4096 v]
      div_mult_mod_eq [of "v + z + 4095" 4096] mod_less_divisor [of 4096 "v + z + 4095"] by linarith+
  show ?thesis using assms
  proof
    assume "S < v div 4096"
    then show ?thesis using e(1) by linarith
  next
    assume "(v + z + 4095) div 4096 \<le> S"
    then show ?thesis using e(2) by linarith
  qed
qed

text \<open>A literal that the loaded program contains.\<close>

definition in_image :: "mem \<Rightarrow> u64 \<Rightarrow> u64 \<Rightarrow> string \<Rightarrow> bool" where
  "in_image m fa a str \<longleftrightarrow> NUL \<notin> set str \<and> (\<exists>i < header_count m fa. \<exists>o0. p_type (phdr m fa i) = 1
     \<and> a = p_vaddr (phdr m fa i) + of_nat o0 \<and> o0 + length str + 1 \<le> unat (p_memsz (phdr m fa i))
     \<and> (\<forall>j \<le> length str. seg_byte m fa (phdr m fa i) (o0 + j) = (str @ [NUL]) ! j))"

lemma in_image_literal:
  assumes im: "in_image m fa a str" and st: "loadable m fa (header_count m fa)"
    "\<forall>ep \<in> set (segments m fa (header_count m fa)). unat STACK_S div 4096 \<notin> seg_pages ep"
    and l: "\<forall>i < header_count m fa. p_type (phdr m fa i) = 1 \<longrightarrow> seg_loaded m fa p M (phdr m fa i)"
  shows "literal p M (unat STACK_S) (unat STACK_S + 4096) a str"
proof -
  obtain i o0 where i: "i < header_count m fa" "p_type (phdr m fa i) = 1" "a = p_vaddr (phdr m fa i) + of_nat o0"
    "o0 + length str + 1 \<le> unat (p_memsz (phdr m fa i))" "\<forall>j \<le> length str. seg_byte m fa (phdr m fa i) (o0 + j) = (str @ [NUL]) ! j"
    and n: "NUL \<notin> set str" using im unfolding in_image_def by blast
  let ?e = "phdr m fa i"
  have e: "?e \<in> set (segments m fa (header_count m fa))" using i by (auto simp: segments_def load_indices_def)
  then have ok: "unat (p_vaddr ?e) + unat (p_memsz ?e) \<le> 511 * 2 ^ 39" and na: "unat STACK_S div 4096 \<notin> seg_pages ?e"
    using st by (auto simp: loadable_def list_all_iff seg_ok_def)
  have o0: "unat (p_vaddr ?e) + o0 < 2 ^ 64" using i(4) ok by simp
  then have "unat (of_nat o0 :: u64) = o0" by (simp only: unat_of_nat) (rule mod_less, simp)
  then have u: "unat a = unat (p_vaddr ?e) + o0" unfolding i(3) using o0 by (subst unat_add_lem [THEN iffD1]) simp_all
  have "string_at p M a str" unfolding string_at_def
  proof (intro allI impI)
    fix j assume j: "j \<le> length str"
    then have "o0 + j < unat (p_memsz ?e)" using i(4) by simp
    then have "ubyte p M (p_vaddr ?e + of_nat (o0 + j)) = Some (seg_byte m fa ?e (o0 + j))" using l i(1,2) unfolding seg_loaded_def by blast
    then show "ubyte p M (a + of_nat j) = Some ((str @ [NUL]) ! j)" using i(3,5) j by (simp add: add.assoc)
  qed
  moreover have "unat STACK_S + 4096 \<le> unat a \<or> unat a + length str + 1 \<le> unat STACK_S"
  proof -
    define v z S where "v = unat (p_vaddr ?e)" and "z = unat (p_memsz ?e)" and "S = unat STACK_S div 4096"
    have S: "unat STACK_S = 4096 * S" using STACK_page(1) unfolding S_def .
    have "S < v div 4096 \<or> (v + z + 4095) div 4096 \<le> S" using na by (auto simp: seg_pages_def first_page_def end_page_def v_def z_def S_def)
    then have "4096 * S + 4096 \<le> v \<or> v + z \<le> 4096 * S" by (rule page_apart)
    then show ?thesis using i(4) unfolding u S v_def [symmetric] z_def [symmetric] by linarith
  qed
  ultimately show ?thesis using n i(4) ok u by (simp add: literal_def)
qed

lemma echo_runs:
  assumes "startable (tarfs s) ref fa fs" and "args_fit (cmd # as)" and "as \<noteq> []" and "exec_space (kern s) fs lim K"
    and "table_ok (kern s)" and "2 \<le> currentTask (kern s)"
    and "in_image (tm (tarfs s)) fa (lit '' '') '' ''" and "in_image (tm (tarfs s)) fa (lit [NL]) [NL]"
  shows "\<exists>k' c' s'. execvpe (tarfs s) garbage behind args0 envs0 ref (cmd # as) [] (kern s) = Some (Entered k')
    \<and> start_program (echo_main fr r lit) fr r (cpu_rsp k' - 8) c v (s\<lparr>kern := k'\<rparr>) = Some (c', Gone s')
    \<and> con s' = (con s)\<lparr>screen := write_string (concat (map (\<lambda>a. a @ '' '') as) @ [NL]) (screen (con s))\<rparr>
    \<and> tasks_ok (kern s') \<and> state (taskQueue (kern s') (currentTask (kern s))) = ZOMBIE
    \<and> currentTask (kern s') \<noteq> currentTask (kern s) \<and> state (cur (kern s')) = RUNNING"
proof -
  obtain k' av where k': "execvpe (tarfs s) garbage behind args0 envs0 ref (cmd # as) [] (kern s) = Some (Entered k')"
    "start_args (pg k') (cr3 k') (cpu_rsp k' - 8) = Some (int (length (cmd # as)), av, [])"
    "strings_in (pg k') (cr3 k') (unat STACK_S) (unat STACK_S + 4096) av (cmd # as)"
    "\<exists>g. task_space (pg k') (cr3 k') (drop g fs) lim K" "currentTask k' = currentTask (kern s)"
    "\<forall>i < header_count (tm (tarfs s)) fa. p_type (phdr (tm (tarfs s)) fa i) = 1 \<longrightarrow> seg_loaded (tm (tarfs s)) fa (pg k') (cr3 k') (phdr (tm (tarfs s)) fa i)"
    using execvpe_enters [OF assms(1,2,4), of garbage behind args0 envs0] by blast
  let ?s = "s\<lparr>kern := k'\<rparr>"
  have sd: "loadable (tm (tarfs s)) fa (header_count (tm (tarfs s)) fa)"
    "\<forall>ep \<in> set (segments (tm (tarfs s)) fa (header_count (tm (tarfs s)) fa)). unat STACK_S div 4096 \<notin> seg_pages ep"
    using assms(1) by (simp_all add: startable_def)
  have lits: "literal (pg k') (cr3 k') (unat STACK_S) (unat STACK_S + 4096) (lit '' '') '' ''"
    "literal (pg k') (cr3 k') (unat STACK_S) (unat STACK_S + 4096) (lit [NL]) [NL]"
    using in_image_literal [OF _ sd k'(6)] assms(7,8) by blast+
  obtain g where g: "task_space (pg k') (cr3 k') (drop g fs) lim K" using k'(4) by blast
  have n: "\<forall>a \<in> set (cmd # as). NUL \<notin> set a" using assms(2) by (auto simp: args_fit_def)
  obtain v1 where v1: "pushenvs [] v = Some v1" by (simp add: pushenvs_def)
  have at: "task_space (upages ?s) (uroot ?s) (drop g fs) lim K" "strings_in (upages ?s) (uroot ?s) (unat STACK_S) (unat STACK_S + 4096) av (cmd # as)"
    "literal (upages ?s) (uroot ?s) (unat STACK_S) (unat STACK_S + 4096) (lit '' '') '' ''"
    "literal (upages ?s) (uroot ?s) (unat STACK_S) (unat STACK_S + 4096) (lit [NL]) [NL]" using g k'(3) lits by simp_all
  obtain s1 p where s1: "echo_main fr r lit (int (length (cmd # as))) av [] v1 ?s = Some (Reply 0 s1)"
    "con s1 = (con s)\<lparr>screen := write_string (concat (map (\<lambda>a. a @ '' '') as) @ [NL]) (screen (con s))\<rparr>" "kern s1 = k'\<lparr>pg := p\<rparr>"
    using echo_main_prints [OF at(1,2) STACK_page(2,4) n assms(3) at(3,4), of fr r "[]" v1] by auto
  have "same_but_tss (kern s) k'" using execvpe_same [OF k'(1)] by simp
  then have "table_ok (k'\<lparr>tss_rsp0 := tss_rsp0 (kern s)\<rparr>)" using same_tasks_table [OF _ assms(5)] by (simp only: same_but_tss_def)
  then have "table_ok k'" by (simp add: table_ok_def cur_ok_def)
  then have "table_ok (kern s1)" "2 \<le> currentTask (kern s1)" using k'(5) assms(6) s1(3) by simp_all
  then obtain k2 where k2: "exit (resume_at fr) (kern s1) = Some k2" "tasks_ok k2" using exit_tasks_ok by blast
  have z: "state (taskQueue k2 (currentTask (kern s))) = ZOMBIE \<and> state (cur k2) = RUNNING \<and> currentTask k2 \<noteq> currentTask (kern s)"
    using exit_switches [OF \<open>table_ok (kern s1)\<close> \<open>2 \<le> currentTask (kern s1)\<close> k2(1)] s1(3) k'(5) by simp
  have "start_program (echo_main fr r lit) fr r (cpu_rsp k' - 8) c v ?s
      = Some (c\<lparr>globalENV := (if 0 < checkforENV (initEnvironment c) + 1 then checkforENV (initEnvironment c) + 1 else 0) - 1, iter := 0\<rparr>, Gone (set_kernel k2 s1))"
    using k'(2) v1 s1(1) k2(1)
    by (simp add: start_program_def Let_def exit_lib_def exitcall_def int80_def case_exit_def checkforENV_def initEnvironment_def set_kernel_def)
  then show ?thesis using k'(1) s1(2) k2(2) z by (auto simp: set_kernel_def)
qed

text \<open>C35: \<^verbatim>\<open>echo\<close>, from the system call that starts it to its exit. When a task, in a well-formed table, executes the program, which can be loaded and has its two literals in its image, with one
  argument or more, \<open>as\<close> (with the command at most 20 words; without an argument it prints its usage line instead), \<open>_start\<close> calls \<^verbatim>\<open>main\<close>, which writes to the screen the arguments, each followed by a space, and a
  newline, and nothing else; then the task is a ZOMBIE and the current task is another one, which is RUNNING. The space is appended to each
  argument in place, on the stack: the eightfold room that the kernel gives to every argument keeps the
  next one intact.\<close>

theorem echo_prints_arguments:
  assumes "startable (tarfs s) ref fa fs" and "args_fit (cmd # as)" and "as \<noteq> []" and "exec_space (kern s) fs lim K"
    and "table_ok (kern s)" and "2 \<le> currentTask (kern s)"
    and "in_image (tm (tarfs s)) fa (lit '' '') '' ''" and "in_image (tm (tarfs s)) fa (lit [NL]) [NL]"
  shows "\<exists>k' c' s'. execvpe (tarfs s) garbage behind args0 envs0 ref (cmd # as) [] (kern s) = Some (Entered k')
    \<and> start_program (echo_main fr r lit) fr r (cpu_rsp k' - 8) c v (s\<lparr>kern := k'\<rparr>) = Some (c', Gone s')
    \<and> con s' = (con s)\<lparr>screen := write_string (concat (map (\<lambda>a. a @ '' '') as) @ [NL]) (screen (con s))\<rparr>
    \<and> tasks_ok (kern s') \<and> state (taskQueue (kern s') (currentTask (kern s))) = ZOMBIE
    \<and> currentTask (kern s') \<noteq> currentTask (kern s) \<and> state (cur (kern s')) = RUNNING"
  using echo_runs [OF assms] .

section \<open>cat prints the file's name\<close>

text \<open>\<open>p\<close>, in the current directory, is the file whose header is at \<open>h\<close>, with the name \<open>nm\<close>. \<open>v\<close> is
  the size the kernel believes in: \<open>toBinaryFile\<close> of the size field, which is the binary digits of that octal
  number read as a decimal one (11 for 3, 10000 for octal 20, 1100100 for octal 144, but 0 for octal 70).\<close>

definition file_named :: "fs \<Rightarrow> kernel \<Rightarrow> string \<Rightarrow> addr \<Rightarrow> string \<Rightarrow> u64 \<Rightarrow> bool" where
  "file_named f k p h nm v \<longleftrightarrow> (\<exists>i sz. isfileexists f k p = Some i \<and> i \<noteq> - 1 \<and> headers f ! nat i = h \<and> cstr (tm f) h nm
     \<and> length nm < 50 \<and> cstr (tm f) (h + ustar_size) sz \<and> toBinaryFile sz = Some v)"

text \<open>Only the descriptor table of the current task changes.\<close>

definition fd_changed :: "kernel \<Rightarrow> kernel \<Rightarrow> bool" where
  "fd_changed k k' \<longleftrightarrow> (\<exists>g n. k' = upd_task (currentTask k) (\<lambda>t. t\<lparr>fd := g, fd_c := n\<rparr>) k)"

lemma fd_changed_simps:
  assumes "fd_changed k k'"
  shows "pg k' = pg k" "cr3 k' = cr3 k" "currentTask k' = currentTask k" "curr_dir (cur k') = curr_dir (cur k)"
    "file_named f k' p h nm v = file_named f k p h nm v"
  using assms by (auto simp: fd_changed_def file_named_def isfileexists_def)

lemma fd_changed_trans: "fd_changed k k1 \<Longrightarrow> fd_changed k1 k2 \<Longrightarrow> fd_changed k k2"
  unfolding fd_changed_def by (auto simp: upd_task_def) (metis fun_upd_upd)

lemma fd_changed_upd_fd: "fd_changed k (upd_fd i g k)"
  unfolding fd_changed_def upd_fd_def
  by (rule exI [of _ "(fd (cur k))(i := g (fd (cur k) i))"], rule exI [of _ "fd_c (cur k)"])
    (rule kernel.equality, auto simp: upd_task_def intro!: taskStruct.equality)

lemma fd_changed_fd_c: "fd_changed k (upd_task (currentTask k) (\<lambda>t. t\<lparr>fd_c := fd_c t + 1\<rparr>) k)"
  unfolding fd_changed_def
  by (rule exI [of _ "fd (cur k)"], rule exI [of _ "fd_c (cur k) + 1"])
    (rule kernel.equality, auto simp: upd_task_def intro!: taskStruct.equality)

lemma open_file:
  assumes "file_named f k p h nm v" and "0 \<le> fd_c (cur k) + 3" and "fd_c (cur k) + 3 < 100"
  shows "\<exists>k'. openTarfsFile p flags f k = Some (fd_c (cur k) + 3, k') \<and> fd_changed k k' \<and> fd_c (cur k') = fd_c (cur k) + 1
    \<and> f_address (fd (cur k') (nat (fd_c (cur k) + 3))) = word_of_int h \<and> f_size (fd (cur k') (nat (fd_c (cur k) + 3))) = v"
proof -
  let ?n = "fd_c (cur k) + 3"
  let ?k1 = "upd_task (currentTask k) (\<lambda>t. t\<lparr>fd_c := fd_c t + 1\<rparr>) k"
  let ?k2 = "upd_fd (nat ?n) (\<lambda>d. d\<lparr>file_name := nm, f_entry := 0, aval := 1, f_size := v, f_address := word_of_int h, f_fd := ?n\<rparr>) ?k1"
  let ?k3 = "upd_fd (nat ?n) (\<lambda>d. d\<lparr>f_flags := word_of_int flags\<rparr>) ?k2"
  have "openTarfsFile p flags f k = Some (?n, ?k3)"
    using assms by (auto simp: file_named_def openTarfsFile_def setCurrentTaskVal_def Let_def read_cstr_cstr strcpy_field_def)
  moreover have "fd_changed k ?k3"
    using fd_changed_trans [OF fd_changed_trans [OF fd_changed_fd_c fd_changed_upd_fd] fd_changed_upd_fd] by blast
  moreover have "fd_c (cur ?k3) = fd_c (cur k) + 1" "f_address (fd (cur ?k3) (nat ?n)) = word_of_int h" "f_size (fd (cur ?k3) (nat ?n)) = v"
    by (simp_all add: upd_fd_def)
  ultimately show ?thesis by blast
qed

lemma close_file:
  assumes "0 \<le> d" "d < 100"
  shows "\<exists>k' v. closeTarfsFile d k = Some (v, k') \<and> fd_changed k k' \<and> fd_c (cur k') = fd_c (cur k)"
  using assms fd_changed_upd_fd by (auto simp: closeTarfsFile_def Let_def) (simp add: upd_fd_def)


lemma int_of_reg_of_int:
  assumes "- (2 ^ 31) \<le> d" "d < 2 ^ 31"
  shows "int_of_reg (reg_of_int d) = d"
proof -
  have "to_int32 (uint (word_of_int d :: u64)) = to_int32 d"
    by (simp add: to_int32_def uint_word_of_int_eq signed_take_bit_take_bit)
  then show ?thesis using to_int32_id [OF assms] by simp
qed

lemma cstr_bytes: "cstr m p str \<Longrightarrow> j \<le> length str \<Longrightarrow> m (p + int j) = (str @ [NUL]) ! j"
proof (induction str arbitrary: p j)
  case (Cons c str)
  then show ?case using Cons.IH [of "p + 1" "j - 1"] by (cases j) (auto simp: add.assoc)
qed simp

text \<open>A file is read by copying its header from the second byte on.\<close>

lemma read_file:
  assumes "0 \<le> d" "d < 100" and e: "f_address (fd (cur k) (nat d)) = word_of_int h" "f_size (fd (cur k) (nat d)) = v"
    and h: "0 \<le> h" "h < 2 ^ 64" and c: "cstr (tm f) h (c # nm)" and n: "length nm \<le> 4096"
  shows "\<exists>m'. readTarfsFile d buf 4096 f k m = Some (int (min (unat v) 4096), m')
    \<and> (\<forall>j \<le> length (take (unat v) nm). m' (buf + int j) = (take (unat v) nm @ [NUL]) ! j)"
proof -
  let ?n = "min (unat v) 4096" and ?nm = "take (unat v) nm"
  have cnt: "(if v < word_of_int 4096 then to_int32 (uint v) else 4096) = int ?n"
  proof (cases "v < 4096")
    case True
    then have "unat v < 4096" by (simp add: word_less_nat_alt)
    then have "uint v < 4096" unfolding uint_nat by linarith
    then have "uint v < 2 ^ 31" by simp
    moreover have "- (2 ^ 31) \<le> uint v" by (rule order_trans [OF _ uint_ge_0]) simp
    ultimately have "to_int32 (uint v) = int (unat v)" by (simp add: to_int32_id)
    with \<open>unat v < 4096\<close> show ?thesis using True by simp
  next
    case False
    then have "4096 \<le> unat v" by (simp add: word_less_nat_alt)
    then show ?thesis using False by simp
  qed
  have a: "uint (word_of_int h :: u64) = h" using h by (simp only: uint_word_of_int) simp
  let ?m = "(path_loop ?n buf (h + 1) (tm f) m)(buf + int ?n := NUL)"
  have "readTarfsFile d buf 4096 f k m = Some (int ?n, ?m)"
    using assms(1,2) e a cnt by (simp add: readTarfsFile_def Let_def setFilePath_def split del: if_split cong del: if_weak_cong)
  moreover have "?m (buf + int j) = (?nm @ [NUL]) ! j" if j: "j \<le> length ?nm" for j
  proof (cases "j = ?n")
    case True
    then have "j = length ?nm" using n j by auto
    then show ?thesis using True by (simp add: nth_append)
  next
    case False
    then have l: "j < ?n" "j \<le> length nm" using n j by auto
    then have "?m (buf + int j) = tm f (h + 1 + int j)" by (auto simp: path_loop_eq cell_range_def)
    moreover have "cstr (tm f) (h + 1) nm" using c by simp
    ultimately have "?m (buf + int j) = (nm @ [NUL]) ! j" using cstr_bytes l(2) False by simp
    then show ?thesis using l by (auto simp: nth_append)
  qed
  ultimately show ?thesis by blast
qed

lemma wrote_string_at:
  assumes w: "wrote p p' M a n (\<lambda>j. if j \<le> length str then (str @ [NUL]) ! j else g j)" and n: "length str < n" and r: "user_range p M a n"
  shows "string_at p' M a str"
  unfolding string_at_def
proof (intro allI impI)
  fix j assume j: "j \<le> length str"
  have u: "unat (a + of_nat j) = unat a + j" using user_range_part(2) [OF r, of j 1] j n by simp
  then have "uaddr (a + of_nat j)" using user_range_uaddr [OF r, of "a + of_nat j"] j n by simp
  then show "ubyte p' M (a + of_nat j) = Some ((str @ [NUL]) ! j)" using w u j n by (simp add: wrote_def)
qed

text \<open>The same at the level of the system calls.\<close>

definition eoi :: "system \<Rightarrow> system" where
  "eoi s = s\<lparr>clock := outportb 0x20 0x20 (clock s)\<rparr>"

lemma eoi_simps [simp]: "kern (eoi s) = kern s" "con (eoi s) = con s" "tarfs (eoi s) = tarfs s" "user_str (eoi s) a = user_str s a"
  by (simp_all add: eoi_def user_str_def)

lemma readStr_sys_file:
  assumes "0 < d" "d < 100" and e: "f_address (fd (cur (kern s)) (nat d)) = word_of_int h" "f_size (fd (cur (kern s)) (nat d)) = v"
    and h: "0 \<le> h" "h < 2 ^ 64" and c: "cstr (tm (tarfs s)) h (c # nm)" and n: "length nm \<le> 4096"
    and t: "task_space (upages s) (uroot s) fs lim K" and u: "user_range (upages s) (uroot s) buf (min (unat v) 4096 + 1)"
  shows "\<exists>p x. readStr_sys fr r d buf 4096 s = Some (Reply x (eoi (set_pages p s)))
    \<and> task_space p (uroot s) fs lim K \<and> string_at p (uroot s) buf (take (unat v) nm)"
proof -
  let ?n = "min (unat v) 4096" and ?nm = "take (unat v) nm"
  obtain m' where m': "readTarfsFile d (uint buf) 4096 (tarfs s) (kern s) (\<lambda>_. NUL) = Some (int ?n, m')"
    "\<forall>j \<le> length ?nm. m' (uint buf + int j) = (?nm @ [NUL]) ! j"
    using read_file [OF _ assms(2) e h c n, of "uint buf" "\<lambda>_. NUL"] assms(1) by auto
  note r = u
  have eq: "\<forall>j < ?n + 1. m' (uint buf + int j) = (if j \<le> length ?nm then (?nm @ [NUL]) ! j else m' (uint buf + int j))"
    using m'(2) by simp
  obtain p where p: "store_bytes (uroot s) buf (?n + 1) m' (upages s) = Some p" "task_space p (uroot s) fs lim K"
    "wrote (upages s) p (uroot s) buf (?n + 1) (\<lambda>j. if j \<le> length ?nm then (?nm @ [NUL]) ! j else m' (uint buf + int j))"
    using store_bytes_spec [OF t r, of m' "\<lambda>j. if j \<le> length ?nm then (?nm @ [NUL]) ! j else m' (uint buf + int j)", OF eq] by blast
  have "string_at p (uroot s) buf ?nm" by (rule wrote_string_at [OF p(3) _ r]) (use n in simp)
  moreover have "int_of_reg (reg_of_int d) = d" "int_of_reg (4096 :: u64) = 4096"
    using int_of_reg_of_int [of d] int_of_reg_of_int [of 4096] assms(1,2) by simp_all
  moreover from this have "reg_of_int d \<noteq> (0 :: u64)" using assms(1) by (intro notI) simp
  ultimately show ?thesis using m'(1) p(1,2)
    by (intro exI [of _ p] exI [of _ "to_int32 (uint (word_of_int (int ?n) :: u64))"])
      (simp add: readStr_sys_def int80_def case_read_def Let_def trap_return_def nat_add_distrib set_pages_def eoi_def)
qed

lemma fopen_file:
  assumes "user_str s a = Some p" "file_named (tarfs s) (kern s) p h nm v" "0 \<le> fd_c (cur (kern s)) + 3" "fd_c (cur (kern s)) + 3 < 100"
  shows "\<exists>k'. fopen fr r a s = Some (Reply (fd_c (cur (kern s)) + 3) (eoi (set_kernel k' s))) \<and> fd_changed (kern s) k'
    \<and> fd_c (cur k') = fd_c (cur (kern s)) + 1 \<and> f_address (fd (cur k') (nat (fd_c (cur (kern s)) + 3))) = word_of_int h
    \<and> f_size (fd (cur k') (nat (fd_c (cur (kern s)) + 3))) = v"
proof -
  obtain k' where k': "openTarfsFile p 0 (tarfs s) (kern s) = Some (fd_c (cur (kern s)) + 3, k')" "fd_changed (kern s) k'"
    "fd_c (cur k') = fd_c (cur (kern s)) + 1" "f_address (fd (cur k') (nat (fd_c (cur (kern s)) + 3))) = word_of_int h"
    "f_size (fd (cur k') (nat (fd_c (cur (kern s)) + 3))) = v"
    using open_file [OF assms(2-4), of 0] by blast
  have "int_of_reg (reg_of_int (fd_c (cur (kern s)) + 3)) = fd_c (cur (kern s)) + 3" using assms(3,4) by (intro int_of_reg_of_int) simp_all
  then show ?thesis using k' assms(1)
    by (intro exI [of _ k']) (simp add: fopen_def open_lib_def int80_def case_open_def trap_return_def eoi_def set_kernel_def user_str_def)
qed

lemma close_file_call:
  assumes "0 \<le> d" "d < 100"
  shows "\<exists>k' x. close_lib fr r d s = Some (Reply x (eoi (set_kernel k' s))) \<and> fd_changed (kern s) k' \<and> fd_c (cur k') = fd_c (cur (kern s))"
proof -
  have "int_of_reg (reg_of_int d) = d" using assms by (intro int_of_reg_of_int) simp_all
  then show ?thesis using close_file [OF assms, of "kern s"]
    by (auto simp: close_lib_def int80_def case_close_def trap_return_def eoi_def set_kernel_def)
qed

text \<open>C37: \<^verbatim>\<open>cat\<close> prints the name of the file and not its contents. For an existing file with name \<open>c # nm\<close>
  the screen receives the first \<open>v\<close> characters of \<open>nm\<close>, the path in the archive without its first character, and nothing else:
  the kernel copies \<open>v\<close> bytes (at most 4096) of the tar header from the second on, and \<open>puts\<close> stops at the NUL behind the name.
  \<open>v\<close> is not the size of the file but what \<open>toBinaryFile\<close> makes of its size field, the binary digits read as a decimal
  number: a file of 3 bytes counts as 11, one of 100 bytes as 1100100, and one of 56 bytes as 0, for which nothing is printed. Two
  descriptor numbers are used up, although both descriptors are closed again.\<close>

theorem cat_prints_name:
  assumes "1 < length argv" and "2 \<le> argc" and "user_str s (argv ! 1) = Some p"
    and "file_named (tarfs s) (kern s) p h (c # nm) v" and "0 \<le> h" and "h < 2 ^ 64"
    and "0 \<le> fd_c (cur (kern s)) + 3" and "fd_c (cur (kern s)) + 4 < 100"
    and "task_space (upages s) (uroot s) fs lim K" and "user_range (upages s) (uroot s) inpString (min (unat v) 4096 + 1)"
  shows "\<exists>s'. cat_main fr r lit inpString argc argv envp w s = Some (Reply 0 s')
    \<and> con s' = (con s)\<lparr>screen := write_string (take (unat v) nm) (screen (con s))\<rparr> \<and> fd_c (cur (kern s')) = fd_c (cur (kern s)) + 2"
proof -
  let ?d = "fd_c (cur (kern s)) + 3" and ?a = "argv ! 1" and ?nm = "take (unat v) nm"
  have arg: "arg_ptr argv 1 = ?a" using assms(1) by (simp add: arg_ptr_def)
  obtain k1 where k1: "fopen fr r ?a s = Some (Reply ?d (eoi (set_kernel k1 s)))" "fd_changed (kern s) k1" "fd_c (cur k1) = fd_c (cur (kern s)) + 1"
    using fopen_file [OF assms(3,4,7), of fr r] assms(8) by auto
  let ?s1 = "eoi (set_kernel k1 s)"
  obtain k2 x where k2: "close_lib fr r ?d ?s1 = Some (Reply x (eoi (set_kernel k2 ?s1)))" "fd_changed k1 k2" "fd_c (cur k2) = fd_c (cur k1)"
    using close_file_call [of ?d fr r ?s1] assms(7,8) by auto
  let ?s2 = "eoi (set_kernel k2 ?s1)"
  have ch: "fd_changed (kern s) k2" using fd_changed_trans [OF k1(2) k2(2)] .
  have v1: "cat_validateARGS fr r lit argc ?a s = Some (Reply 1 ?s2)"
    using assms(2,7) k1(1) k2(1) by (simp add: cat_validateARGS_def)
  have s2: "user_str ?s2 ?a = Some p" "file_named (tarfs ?s2) (kern ?s2) p h (c # nm) v" "upages ?s2 = upages s" "uroot ?s2 = uroot s"
    using assms(3,4) fd_changed_simps [OF ch] by (simp_all add: user_str_def)
  have d2: "0 \<le> fd_c (cur (kern ?s2)) + 3" "fd_c (cur (kern ?s2)) + 3 < 100" "fd_c (cur (kern ?s2)) = fd_c (cur (kern s)) + 1"
    using assms(7,8) k1(3) k2(3) by simp_all
  obtain k3 where k3: "fopen fr r ?a ?s2 = Some (Reply (?d + 1) (eoi (set_kernel k3 ?s2)))" "fd_changed k2 k3" "fd_c (cur k3) = fd_c (cur (kern s)) + 2"
    "f_address (fd (cur k3) (nat (?d + 1))) = word_of_int h" "f_size (fd (cur k3) (nat (?d + 1))) = v"
    using fopen_file [OF s2(1,2) d2(1,2), of fr r] d2(3) by (auto simp: algebra_simps)
  let ?s3 = "eoi (set_kernel k3 ?s2)"
  have s3: "upages ?s3 = upages s" "uroot ?s3 = uroot s" "tarfs ?s3 = tarfs s" using fd_changed_simps [OF fd_changed_trans [OF ch k3(2)]] by simp_all
  have c: "cstr (tm (tarfs ?s3)) h (c # nm)" "length nm \<le> 4096" using assms(4) by (auto simp: file_named_def)
  have t3: "task_space (upages ?s3) (uroot ?s3) fs lim K" "user_range (upages ?s3) (uroot ?s3) inpString (min (unat v) 4096 + 1)" using assms(9,10) s3 by simp_all
  have fd3: "f_address (fd (cur (kern ?s3)) (nat (?d + 1))) = word_of_int h" "f_size (fd (cur (kern ?s3)) (nat (?d + 1))) = v"
    "0 < ?d + 1" "?d + 1 < 100" using k3(4,5) assms(7,8) by simp_all
  obtain q y where q: "readStr_sys fr r (?d + 1) inpString 4096 ?s3 = Some (Reply y (eoi (set_pages q ?s3)))" "string_at q (uroot ?s3) inpString ?nm"
    using readStr_sys_file [OF fd3(3,4,1,2) assms(5,6) c t3, of fr r] by blast
  let ?s4 = "eoi (set_pages q ?s3)"
  have "NUL \<notin> set ?nm" using cstr_no_NUL [OF c(1)] set_take_subset [of "unat v" nm] by auto
  then have "user_str ?s4 inpString = Some ?nm" using user_string_at [OF q(2)] by (simp add: user_str_def)
  then have p4: "puts fr r inpString ?s4 = Some (Reply 0 (printed ?nm ?s4))" by (rule puts_printed)
  obtain k5 z where k5: "close_lib fr r (?d + 1) (printed ?nm ?s4) = Some (Reply z (eoi (set_kernel k5 (printed ?nm ?s4))))"
    "fd_changed (kern (printed ?nm ?s4)) k5" "fd_c (cur k5) = fd_c (cur k3)"
    using close_file_call [of "?d + 1" fr r "printed ?nm ?s4"] assms(7,8) by auto
  have "cat_main fr r lit inpString argc argv envp w s = Some (Reply 0 (eoi (set_kernel k5 (printed ?nm ?s4))))"
    using v1 k3(1) q(1) p4 k5(1) by (simp add: cat_main_def arg del: One_nat_def)
  then show ?thesis using k5(3) k3(3) by (simp add: set_kernel_def)
qed

section \<open>ls lists a directory\<close>

lemma readdir_pg: "readDirTarfsFile d f (k\<lparr>pg := p\<rparr>) = map_option (\<lambda>(e, k). (e, k\<lparr>pg := p\<rparr>)) (readDirTarfsFile d f k)"
  by (auto simp: readDirTarfsFile_def Let_def upd_fd_def upd_task_def split_def map_option_case split: option.splits bind_split)

lemma readdir_calls_pg: "readdir_calls c d f (k\<lparr>pg := p\<rparr>) = readdir_calls c d f k"
proof (induction c arbitrary: k)
  case (Suc c)
  then show ?case by (auto simp: readdir_pg split: option.splits bind_split)
qed simp

lemma readdir_step:
  assumes "readDirTarfsFile d f k = Some (r, k')"
  shows "pg k' = pg k" "cr3 k' = cr3 k"
  using assms by (auto simp: readDirTarfsFile_def Let_def upd_fd_def upd_task_def split: bind_splits if_splits)

text \<open>The address of the entry that \<open>readdir\<close> fills in.\<close>

definition dirent_at :: "streams \<Rightarrow> int \<Rightarrow> u64" where
  "dirent_at st d = d_at st + 256 * word_of_int d"

lemma readdir_entry:
  assumes d: "dir_fd st ptr = d" "0 \<le> d" "d < 100" and r: "readDirTarfsFile d (tarfs s) (kern s) = Some (Some e, k')"
    and e: "length e < 256" and t: "task_space (upages s) (uroot s) fs lim K" and u: "user_range (upages s) (uroot s) (dirent_at st d) 256"
  shows "\<exists>p. readdir fr q ptr st s = Some (Reply (Some (dirent_at st d)) (eoi (set_kernel (k'\<lparr>pg := p\<rparr>) s))) \<and> task_space p (uroot s) fs lim K
    \<and> only (upages s) p (uroot s) (unat (dirent_at st d)) (unat (dirent_at st d) + 256) \<and> string_at p (uroot s) (dirent_at st d) e"
proof -
  note k' = readdir_step [OF r]
  have u1: "user_range (upages s) (uroot s) (dirent_at st d) (length e + 1)" by (rule user_range_sub [OF u]) (use e in simp_all)
  obtain p where p: "copy_string (uroot s) (dirent_at st d) e (upages s) = Some p" "task_space p (uroot s) fs lim K"
    "only (upages s) p (uroot s) (unat (dirent_at st d)) (unat (dirent_at st d) + (length e + 1))" "string_at p (uroot s) (dirent_at st d) e"
    using copy_string_at [OF t u1] by blast
  have o: "only (upages s) p (uroot s) (unat (dirent_at st d)) (unat (dirent_at st d) + 256)"
    by (rule only_mono [OF p(3)]) (use e in simp_all)
  have di: "int_of_reg (reg_of_int d) = d" using d by (intro int_of_reg_of_int) simp_all
  show ?thesis using p(1,2,4) o r k' d di
    by (intro exI [of _ p]) (simp add: readdir_def direccall_def int80_def case_readdir_def dirent_at_def Let_def trap_return_def eoi_def set_kernel_def)
qed

lemma readdir_end:
  assumes d: "dir_fd st ptr = d" "0 \<le> d" "d < 100" and r: "readDirTarfsFile d (tarfs s) (kern s) = Some (None, k')"
  shows "readdir fr q ptr st s = Some (Reply None (eoi (set_kernel k' s)))"
proof -
  have di: "int_of_reg (reg_of_int d) = d" using d by (intro int_of_reg_of_int) simp_all
  show ?thesis using r d di
    by (simp add: readdir_def direccall_def int80_def case_readdir_def Let_def trap_return_def eoi_def set_kernel_def)
qed

lemma printList_loop_prints:
  "readdir_calls (length es + 1) d (tarfs s) (kern s) = Some (map Some es @ [None]) \<Longrightarrow> dir_fd st ptr = d \<Longrightarrow> 0 \<le> d \<Longrightarrow> d < 100 \<Longrightarrow>
   \<forall>e \<in> set es. NUL \<notin> set e \<and> length e < 256 \<Longrightarrow> task_space (upages s) (uroot s) fs lim K \<Longrightarrow>
   user_range (upages s) (uroot s) (dirent_at st d) 256 \<Longrightarrow>
   literal (upages s) (uroot s) (unat (dirent_at st d)) (unat (dirent_at st d) + 256) (lit '' '') '' '' \<Longrightarrow>
   \<exists>s'. printList_loop fr q lit ptr st s = Some (Reply () s') \<and> uroot s' = uroot s
     \<and> only (upages s) (upages s') (uroot s) (unat (dirent_at st d)) (unat (dirent_at st d) + 256)
     \<and> con s' = (con s)\<lparr>screen := write_string (concat (map (\<lambda>e. e @ '' '') es)) (screen (con s))\<rparr>"
proof (induction es arbitrary: s)
  case Nil
  then obtain k' where k': "readDirTarfsFile d (tarfs s) (kern s) = Some (None, k')" by (auto split: bind_splits)
  have "printList_loop fr q lit ptr st s = Some (Reply () (eoi (set_kernel k' s)))"
    by (subst printList_loop.simps) (simp add: readdir_end [OF Nil.prems(2-4) k'])
  then show ?case using readdir_step [OF k'] by (simp add: set_kernel_def write_string_def)
next
  case (Cons e es)
  let ?a = "dirent_at st d" and ?M = "uroot s"
  obtain k' where k': "readDirTarfsFile d (tarfs s) (kern s) = Some (Some e, k')" "readdir_calls (length es + 1) d (tarfs s) k' = Some (map Some es @ [None])"
    using Cons.prems(1) by (auto split: bind_splits simp del: readdir_calls.simps) (auto split: bind_splits)
  note c = readdir_step [OF k'(1)]
  have le: "length e < 256" using Cons.prems(5) by simp
  obtain p where p: "readdir fr q ptr st s = Some (Reply (Some ?a) (eoi (set_kernel (k'\<lparr>pg := p\<rparr>) s)))" "task_space p ?M fs lim K"
    "only (upages s) p ?M (unat ?a) (unat ?a + 256)" "string_at p ?M ?a e"
    using readdir_entry [OF Cons.prems(2-4) k'(1) le Cons.prems(6,7), of fr q] by blast
  let ?s1 = "eoi (set_kernel (k'\<lparr>pg := p\<rparr>) s)"
  have r1: "upages ?s1 = p" "uroot ?s1 = ?M" using c by simp_all
  have "user_str ?s1 ?a = Some e" using user_string_at [OF p(4)] Cons.prems(5) c by (simp add: user_str_def)
  then have w1: "puts fr q ?a ?s1 = Some (Reply 0 (printed e ?s1))" by (rule puts_printed)
  have li: "literal p ?M (unat ?a) (unat ?a + 256) (lit '' '') '' ''" using literal_only [OF Cons.prems(8) p(3)] .
  then have "user_str (printed e ?s1) (lit '' '') = Some '' ''" using literal_user_str [of ?s1] r1 by simp
  then have w2: "puts fr q (lit '' '') (printed e ?s1) = Some (Reply 0 (printed '' '' (printed e ?s1)))" by (rule puts_printed)
  let ?s2 = "printed '' '' (printed e ?s1)"
  have k2: "kern ?s2 = k'\<lparr>pg := p\<rparr>" "tarfs ?s2 = tarfs s" by simp_all
  have "\<exists>s'. printList_loop fr q lit ptr st ?s2 = Some (Reply () s') \<and> uroot s' = uroot ?s2
     \<and> only (upages ?s2) (upages s') (uroot ?s2) (unat ?a) (unat ?a + 256)
     \<and> con s' = (con ?s2)\<lparr>screen := write_string (concat (map (\<lambda>e. e @ '' '') es)) (screen (con ?s2))\<rparr>"
    by (rule Cons.IH) (use k2 k'(2) readdir_calls_pg c p(2) li Cons.prems only_range [OF p(3) Cons.prems(7)] in simp_all)
  then obtain s' where s': "printList_loop fr q lit ptr st ?s2 = Some (Reply () s')" "uroot s' = ?M" "only p (upages s') ?M (unat ?a) (unat ?a + 256)"
    "con s' = (con s)\<lparr>screen := write_string (concat (map (\<lambda>e. e @ '' '') es)) (write_string '' '' (write_string e (screen (con s))))\<rparr>"
    using c by (auto simp: set_kernel_def)
  have "printList_loop fr q lit ptr st s = Some (Reply () s')"
    by (subst printList_loop.simps) (simp add: p(1) w1 w2 s'(1))
  moreover have "only (upages s) (upages s') ?M (unat ?a) (unat ?a + 256)" using only_trans [OF p(3) s'(3)] by simp
  ultimately show ?case using s'(2,4) by (simp add: write_string_append [symmetric])
qed

text \<open>C36: what \<open>printList\<close> of \<^verbatim>\<open>ls\<close> prints for an opened directory. A header matches when the directory is \<open>/\<close> or when
  it has at least its first two characters in common with the directory's name. Of the first 32 headers, all that
  match but the first of them are printed once, in archive order, each without the common beginning and followed by a
  space; then a newline, and the loop ends. The one that is left out is whichever comes first: the directory's own header when the archive
  has it before its contents, but an ordinary entry otherwise; for \<open>/\<close> it is the first header of the archive. Every
  entry passes through the same buffer of \<open>readdir\<close>.\<close>

theorem printList_lists_directory:
  assumes "names_of (tm (tarfs s)) (headers (tarfs s)) ns" and "dir_fd st ptr = d" and "0 \<le> d" and "d < 100"
    and "entry_of d (kern s) = 0" and "ms = tl (filter (dir_match (dirname_of d (kern s))) (take 32 ns))"
    and "es = map (shown (dirname_of d (kern s))) ms" and "\<forall>e \<in> set es. NUL \<notin> set e \<and> length e < 256"
    and "task_space (upages s) (uroot s) fs lim K" and "user_range (upages s) (uroot s) (dirent_at st d) 256"
    and "literal (upages s) (uroot s) (unat (dirent_at st d)) (unat (dirent_at st d) + 256) (lit '' '') '' ''"
    and "literal (upages s) (uroot s) (unat (dirent_at st d)) (unat (dirent_at st d) + 256) (lit [NL]) [NL]"
  shows "\<exists>s'. printList fr q lit ptr st s = Some (Reply 0 s')
    \<and> con s' = (con s)\<lparr>screen := write_string (concat (map (\<lambda>e. e @ '' '') es) @ [NL]) (screen (con s))\<rparr>
    \<and> (dirname_of d (kern s) = ''/'' \<longrightarrow> ms = tl (take 32 ns))"
proof -
  have "map (\<lambda>i. if i < length ms then Some (shown (dirname_of d (kern s)) (ms ! i)) else None) [0..<length ms + 1]
      = map Some es @ [None]"
    using assms(7) by (intro nth_equalityI) (auto simp: nth_append simp del: upt_Suc)
  then have "readdir_calls (length es + 1) d (tarfs s) (kern s) = Some (map Some es @ [None])"
    using readdir_lists_spec [OF assms(1,3-6), of "length ms + 1"] assms(7) by simp
  from printList_loop_prints [where s = s and st = st and d = d and lit = lit, OF this assms(2-4,8-11), of fr q] obtain s1 where
    s1: "printList_loop fr q lit ptr st s = Some (Reply () s1)" "uroot s1 = uroot s"
    "only (upages s) (upages s1) (uroot s) (unat (dirent_at st d)) (unat (dirent_at st d) + 256)"
    "con s1 = (con s)\<lparr>screen := write_string (concat (map (\<lambda>e. e @ '' '') es)) (screen (con s))\<rparr>" by blast
  have "user_str s1 (lit [NL]) = Some [NL]"
    using literal_user_str [of s1] literal_only [OF assms(12) s1(3)] s1(2) by simp
  then have "puts fr q (lit [NL]) s1 = Some (Reply 0 (printed [NL] s1))" by (rule puts_printed)
  moreover have "ms = tl (take 32 ns)" if "dirname_of d (kern s) = ''/''"
    using assms(6) by (simp add: that dir_match_def isRootDirectory_def)
  ultimately show ?thesis using s1(1,4) by (simp add: printList_def write_string_append)
qed

section \<open>A program to run\<close>

text \<open>A program whose segment is the two literals; the kernel of the examples with \<open>init\<close> and \<open>idle\<close> running.\<close>

definition echo_archive :: mem where
  "echo_archive = elf_archive(0x1200 := CHR '' '', 0x1201 := NUL, 0x1202 := NL, 0x1203 := NUL)"

definition echo_fs :: fs where
  "echo_fs = elf_fs\<lparr>tm := echo_archive\<rparr>"

lemma echo_archive_headers:
  "header_count echo_archive 0x1200 = 1" "e_entry (read_Ehdr echo_archive 0x1200) = 0x400000" "e_phoff (read_Ehdr echo_archive 0x1200) = 64"
  "p_type (phdr echo_archive 0x1200 0) = 1" "p_offset (phdr echo_archive 0x1200 0) = 0" "p_vaddr (phdr echo_archive 0x1200 0) = 0x400000"
  "p_filesz (phdr echo_archive 0x1200 0) = 4" "p_memsz (phdr echo_archive 0x1200 0) = 8"
  by (simp_all add: phdr_def read_Phdr_def read_Ehdr_def echo_archive_def elf_archive_def elf_file_def le_bytes_unfold)

lemma echo_fs_file: "content_address echo_fs ''bin/a'' = Some 0x1200"
proof -
  have "cstr echo_archive 0x1000 ''bin/a''" by (simp add: echo_archive_def elf_archive_def)
  then have "read_cstr echo_archive 0x1000 = Some ''bin/a''" by (rule read_cstr_cstr)
  moreover have "strcmp_s ''bin/a'' ''bin/a'' = 0" by simp
  ultimately show ?thesis by (simp add: content_address_def get_file_address_def echo_fs_def elf_fs_def)
qed

lemma echo_startable: "startable echo_fs ''a'' 0x1200 (0x1000 # fork_frame_list)"
proof -
  have s: "segments echo_archive 0x1200 1 = [phdr echo_archive 0x1200 0]" by (simp add: segments_def load_indices_def echo_archive_headers)
  have "loadable echo_archive 0x1200 (header_count echo_archive 0x1200)"
    by (simp add: loadable_def seg_ok_def echo_archive_headers s del: One_nat_def)
  moreover have "load_cost echo_archive 0x1200 (header_count echo_archive 0x1200) = 5"
    by (simp add: load_cost_def seg_cost_def echo_archive_headers s first_page_def end_page_def del: One_nat_def)
  moreover have "\<forall>ep \<in> set (segments echo_archive 0x1200 (header_count echo_archive 0x1200)). unat STACK_S div 4096 \<notin> seg_pages ep"
    by (simp add: echo_archive_headers(1) s seg_pages_def first_page_def end_page_def echo_archive_headers STACK_S_def del: One_nat_def)
  ultimately show ?thesis using echo_fs_file by (simp add: startable_def validPath_def echo_fs_def)
qed

definition echo_lit :: literals where
  "echo_lit str = (if str = '' '' then 0x400000 else 0x400002)"

lemma echo_literals: "in_image echo_archive 0x1200 (echo_lit '' '') '' ''" "in_image echo_archive 0x1200 (echo_lit [NL]) [NL]"
proof -
  have b: "seg_byte echo_archive 0x1200 (phdr echo_archive 0x1200 0) j = [CHR '' '', NUL, NL, NUL] ! j" if "j < 4" for j
  proof -
    have "j = 0 \<or> j = 1 \<or> j = 2 \<or> j = 3" using that by auto
    then show ?thesis unfolding seg_byte_def echo_archive_headers by (auto simp: echo_archive_def)
  qed
  have "\<forall>j \<le> 1. seg_byte echo_archive 0x1200 (phdr echo_archive 0x1200 0) (0 + j) = ('' '' @ [NUL]) ! j"
    "\<forall>j \<le> 1. seg_byte echo_archive 0x1200 (phdr echo_archive 0x1200 0) (2 + j) = ([NL] @ [NUL]) ! j"
    using b by (auto simp: le_Suc_eq)
  moreover have im: "in_image echo_archive 0x1200 (0x400000 + of_nat o0) str"
    if "NUL \<notin> set str" "o0 + length str + 1 \<le> 8" "\<forall>j \<le> length str. seg_byte echo_archive 0x1200 (phdr echo_archive 0x1200 0) (o0 + j) = (str @ [NUL]) ! j"
    for o0 str
    unfolding in_image_def echo_archive_headers(1)
    by (rule conjI [OF that(1)], rule exI [of _ 0]) (use that(2,3) echo_archive_headers in auto)
  ultimately show "in_image echo_archive 0x1200 (echo_lit '' '') '' ''" "in_image echo_archive 0x1200 (echo_lit [NL]) [NL]"
    using im [of "'' ''" 0] im [of "[NL]" 2] by (simp_all add: echo_lit_def)
qed

definition kernel_user :: kernel where
  "kernel_user = upd_task 0 (\<lambda>t. t\<lparr>state := RUNNING\<rparr>) (upd_task 1 (\<lambda>t. t\<lparr>state := RUNNING\<rparr>) kernel_fork)"

lemma kernel_user_table: "table_ok kernel_user"
proof -
  have "ppid (taskQueue kernel_fork i) = (if i = 2 then 1 else if i = 5 then 2 else 0)" for i
    by (simp add: kernel_fork_def)
  then show ?thesis by (auto simp: table_ok_def cur_ok_def kernel_user_def MAX_TASKS_def)
qed

lemma kernel_user_space: "exec_space kernel_user (0x1000 # fork_frame_list) 0x10000 (kernel_tables (pm fork_paging) 0x10000)"
  using kernel_fork_exec_space by (simp add: exec_space_def kernel_user_def del: fork_paging_simps)

theorem echo_prints_arguments_witness:
  "\<exists>k' c' s'. execvpe echo_fs no_area 0 (\<lambda>_. []) (\<lambda>_. []) ''a'' [''a'', ''hi''] [] kernel_user = Some (Entered k')
     \<and> start_program (echo_main frame0 regs0 echo_lit) frame0 regs0 (cpu_rsp k' - 8) \<lparr>globalENV = 0, iter = 0\<rparr> undefined
         \<lparr>kern = k', con = console0, tarfs = echo_fs, clock = timer0 0\<rparr> = Some (c', Gone s')
     \<and> screen (con s') = write_string (''hi '' @ [NL]) (screen console0)"
proof -
  let ?s = "\<lparr>kern = kernel_user, con = console0, tarfs = echo_fs, clock = timer0 0\<rparr>"
  have a: "startable (tarfs ?s) ''a'' 0x1200 (0x1000 # fork_frame_list)" "args_fit [''a'', ''hi'']" "[''hi''] \<noteq> []"
    "exec_space (kern ?s) (0x1000 # fork_frame_list) 0x10000 (kernel_tables (pm fork_paging) 0x10000)"
    "table_ok (kern ?s)" "2 \<le> currentTask (kern ?s)" "in_image (tm (tarfs ?s)) 0x1200 (echo_lit '' '') '' ''"
    "in_image (tm (tarfs ?s)) 0x1200 (echo_lit [NL]) [NL]"
    using echo_startable kernel_user_space kernel_user_table echo_literals
    by (simp_all add: args_fit_def strings_size_def echo_fs_def kernel_user_def)
  from echo_prints_arguments [OF a, of no_area 0 "\<lambda>_. []" "\<lambda>_. []" frame0 regs0 "\<lparr>globalENV = 0, iter = 0\<rparr>" undefined] show ?thesis by auto
qed

lemma bin_ls_file: "curr_dir (cur k) = ''/'' \<Longrightarrow> file_named fs3 k ''bin/ls'' 2000 ''bin/ls'' 11"
proof -
  assume k: "curr_dir (cur k) = ''/''"
  have "derive_string (\<lambda>_. NUL) ''/'' (join_path [''bin''] @ ''ls'') = Some (join_path (resolve [] [''bin'']) @ ''ls'')"
    by (rule derive_string_file_path)
      (simp_all add: file_path_def good_component_def component_def previousDir_def)
  then have "derive_string (\<lambda>_. NUL) ''/'' ''bin/ls'' = Some ''bin/ls''" by (simp add: dotdot_def)
  moreover have "checkFile fs3 ''bin/ls'' = Some 1"
    using checkFile_find [OF fs3_simps(3), of "''bin/ls''"] by (simp add: upt_rec)
  ultimately have e: "isfileexists fs3 k ''bin/ls'' = Some 1" using k by (simp add: isfileexists_def fs3_simps)
  have c: "cstr (tm fs3) 2000 ''bin/ls''" "cstr (tm fs3) (2000 + ustar_size) ''3''"
    by (simp_all add: fs3_def ustar_size_def)
  show ?thesis unfolding file_named_def
    by (rule exI [of _ 1], rule exI [of _ "''3''"]) (use e c toBinaryFile_3 in \<open>simp add: fs3_simps\<close>)
qed

theorem cat_prints_name_witness:
  "\<exists>p s'. cat_main frame0 regs0 echo_lit 0x5000 2 [0, 0x5020] [] undefined
      \<lparr>kern = kernel_fork\<lparr>cr3 := 0x30000, pg := p\<rparr>, con = console0, tarfs = fs3, clock = timer0 0\<rparr> = Some (Reply 0 s')
    \<and> screen (con s') = write_string ''in/ls'' (screen console0)"
proof -
  obtain p0 fs where p0: "task_space p0 0x30000 fs 0x10000 (kernel_tables (pm fork_paging) 0x10000)" "user_range p0 0x30000 0x5000 4096"
    using one_page_space by blast
  have "user_range p0 0x30000 0x5020 (length ''bin/ls'' + 1)" by (rule user_range_sub [OF p0(2)]) simp_all
  then obtain p where p: "task_space p 0x30000 fs 0x10000 (kernel_tables (pm fork_paging) 0x10000)" "string_at p 0x30000 0x5020 ''bin/ls''"
    "only p0 p 0x30000 (unat (0x5020 :: u64)) (unat (0x5020 :: u64) + (length ''bin/ls'' + 1))"
    using copy_string_at [OF p0(1)] by blast
  let ?s = "\<lparr>kern = kernel_fork\<lparr>cr3 := 0x30000, pg := p\<rparr>, con = console0, tarfs = fs3, clock = timer0 0\<rparr>"
  have r: "user_range p 0x30000 0x5000 (min (unat (11 :: u64)) 4096 + 1)" by (rule user_range_sub [OF only_range [OF p(3) p0(2)]]) simp_all
  have "user_string p 0x30000 0x5020 = Some ''bin/ls''" by (rule user_string_at [OF p(2)]) simp
  then have a: "user_str ?s ([0, 0x5020] ! 1) = Some ''bin/ls''" by (simp add: user_str_def)
  have k: "fd_c (cur (kern ?s)) = 0" "curr_dir (cur (kern ?s)) = ''/''"
    by (simp_all add: kernel_fork_def kernel_fam_def upd_task_def kernel0_def task0_def)
  have "file_named (tarfs ?s) (kern ?s) ''bin/ls'' 2000 (CHR ''b'' # ''in/ls'') 11" using bin_ls_file [OF k(2)] by simp
  from cat_prints_name [OF _ _ a this, of 2 fs "0x10000" "kernel_tables (pm fork_paging) 0x10000" "0x5000" frame0 regs0 echo_lit "[]" undefined]
  obtain s' where "cat_main frame0 regs0 echo_lit 0x5000 2 [0, 0x5020] [] undefined ?s = Some (Reply 0 s')"
    "con s' = console0\<lparr>screen := write_string ''in/ls'' (screen console0)\<rparr>" using k(1) p(1) r by auto
  then show ?thesis by (intro exI [of _ p] exI [of _ s']) simp
qed

lemma two_strings_at:
  assumes t: "task_space p M fs lim K" and u: "user_range p M B n" and a: "unat B \<le> unat a" "unat a + length x + 1 \<le> unat b"
    "unat b + length y + 1 \<le> unat B + n"
  shows "\<exists>p'. task_space p' M fs lim K \<and> user_range p' M B n \<and> string_at p' M a x \<and> string_at p' M b y"
proof -
  have n: "unat B + n \<le> 511 * 2 ^ 39" using u by (simp add: user_range_def)
  have ra: "user_range p M a (length x + 1)" by (rule user_range_sub [OF u]) (use a in linarith)+
  obtain p1 where p1: "task_space p1 M fs lim K" "only p p1 M (unat a) (unat a + (length x + 1))" "string_at p1 M a x"
    using copy_string_at [OF t ra] by blast
  have rb: "user_range p1 M b (length y + 1)" by (rule user_range_sub [OF only_range [OF p1(2) u]]) (use a in linarith)+
  obtain p2 where p2: "task_space p2 M fs lim K" "only p1 p2 M (unat b) (unat b + (length y + 1))" "string_at p2 M b y"
    using copy_string_at [OF p1(1) rb] by blast
  have "string_at p2 M a x" using string_at_only [OF p2(2) _ _ p1(3)] a n by auto
  then show ?thesis using p2 only_range [OF p2(2) only_range [OF p1(2) u]] by blast
qed

theorem printList_lists_directory_witness:
  "\<exists>s s'. dirname_of 3 (kern s) = ''bin/''
    \<and> printList frame0 regs0 (\<lambda>x. if x = '' '' then 0x5200 else 0x5210) 3 \<lparr>dir_name = (\<lambda>_. []), dir_fd = (\<lambda>_. 3), d_at = 0x4D00\<rparr> s = Some (Reply 0 s')
    \<and> screen (con s') = write_string (''ls ps '' @ [NL]) (screen (con s))"
proof -
  let ?K = "kernel_tables (pm fork_paging) 0x10000" and ?st = "\<lparr>dir_name = (\<lambda>_. []), dir_fd = (\<lambda>_. 3), d_at = 0x4D00\<rparr> :: streams"
  let ?lit = "(\<lambda>x. if x = '' '' then 0x5200 else 0x5210) :: literals"
  obtain p0 fs where p0: "task_space p0 0x30000 fs 0x10000 ?K" "user_range p0 0x30000 0x5000 4096"
    using one_page_space by blast
  obtain p where p: "task_space p 0x30000 fs 0x10000 ?K" "user_range p 0x30000 0x5000 4096" "string_at p 0x30000 0x5200 '' ''" "string_at p 0x30000 0x5210 [NL]"
    using two_strings_at [OF p0, of "0x5200" "'' ''" "0x5210" "[NL]"] by auto
  let ?k = "upd_fd 3 (\<lambda>d. d\<lparr>file_name := ''bin/'', f_entry := 0\<rparr>) (kernel_fork\<lparr>cr3 := 0x30000, pg := p\<rparr>)"
  let ?s = "\<lparr>kern = ?k, con = console0, tarfs = fs3, clock = timer0 0\<rparr>"
  have k: "upages ?s = p" "uroot ?s = 0x30000" by (simp_all add: upd_fd_def)
  have e: "entry_of 3 (kern ?s) = 0" and d: "dirname_of 3 (kern ?s) = ''bin/''" by (simp_all add: dirname_of_def entry_of_def upd_fd_def)
  have m: "[''bin/ls'', ''bin/ps''] = tl (filter (dir_match (dirname_of 3 (kern ?s))) (take 32 [''bin/'', ''bin/ls'', ''bin/ps'']))"
    unfolding d by (simp add: dir_match_def starts_with_s_def isRootDirectory_def)
  have es: "[''ls'', ''ps''] = map (shown (dirname_of 3 (kern ?s))) [''bin/ls'', ''bin/ps'']"
    unfolding d by (simp add: shown_def substring_s_def starts_with_s_def)
  have n: "names_of (tm (tarfs ?s)) (headers (tarfs ?s)) [''bin/'', ''bin/ls'', ''bin/ps'']" using fs3_simps(3) by simp
  have a: "dirent_at ?st 3 = 0x5000" by (simp add: dirent_at_def)
  have u: "user_range (upages ?s) (uroot ?s) (dirent_at ?st 3) 256" unfolding a k by (rule user_range_sub [OF p(2)]) simp_all
  have l: "literal (upages ?s) (uroot ?s) (unat (dirent_at ?st 3)) (unat (dirent_at ?st 3) + 256) (?lit '' '') '' ''"
    "literal (upages ?s) (uroot ?s) (unat (dirent_at ?st 3)) (unat (dirent_at ?st 3) + 256) (?lit [NL]) [NL]"
    using p(3,4) unfolding a k by (simp_all add: literal_def)
  have t: "task_space (upages ?s) (uroot ?s) fs 0x10000 ?K" using p(1) unfolding k .
  have x: "\<forall>e \<in> set [''ls'', ''ps'']. NUL \<notin> set e \<and> length e < 256" by simp
  have "dir_fd ?st 3 = 3" "(0 :: int) \<le> 3" "(3 :: int) < 100" by simp_all
  from printList_lists_directory [OF n this e m es x t u l, of frame0 regs0] obtain s' where
    "printList frame0 regs0 ?lit 3 ?st ?s = Some (Reply 0 s')"
    "con s' = (con ?s)\<lparr>screen := write_string (concat (map (\<lambda>e. e @ '' '') [''ls'', ''ps'']) @ [NL]) (screen (con ?s))\<rparr>" by blast
  then show ?thesis using d by (intro exI [of _ ?s] exI [of _ s']) simp
qed

end
