(* ===== verification/Shell.thy ===== *)
theory Shell
  imports Programs
begin

text \<open>
  The shell, \<^verbatim>\<open>bin/sbush/sbush.c\<close>. Its variables are the record \<open>shell\<close>: character arrays are functions of the index
  when the code writes them character by character, and strings of bounded length otherwise. The rows
  \<open>arg\<close> are reached through the pointers \<open>args\<close>; a null pointer is \<open>None\<close> there, and reading or writing
  through it, or beyond an array, is the result \<open>None\<close>.

  The library calls are those of \<open>LibCalls\<close> with the strings themselves for their addresses: their names end in
  \<open>_s\<close>. They call the kernel as the stubs do; what a stub leaves in the program's memory is their result. A call
  that gives up the processor ends the run with \<open>Gone\<close>; how the call goes on later is part of \<open>Syscalls\<close> and \<open>System\<close>.

  The lemmas compute the tokenizer against the reference \<open>words_of\<close>, follow a typed line to the entry point of the program it
  names, and show where the shell leaves its arrays: null pointers, the growing prompt, scripts.
\<close>

section \<open>The calls with strings\<close>

definition puts_s :: "string \<Rightarrow> system \<Rightarrow> int reply option" where
  "puts_s str s = do {
     scr \<leftarrow> kprintf ''%s'' [ArgStr str] (screen (con s));
     Some (Reply 0 (eoi (s\<lparr>con := (con s)\<lparr>screen := scr\<rparr>\<rparr>)))
   }"

definition getcwd_s :: "system \<Rightarrow> string reply option" where
  "getcwd_s s = do {
     d \<leftarrow> getCurrentDirectory (kern s);
     Some (Reply d (eoi s))
   }"

text \<open>\<open>before\<close> is the character in front of the string, which the test for a slash reads when the string is empty.\<close>

definition chdir_s :: "char \<Rightarrow> string \<Rightarrow> system \<Rightarrow> int reply option" where
  "chdir_s before str s = do {
     filePath \<leftarrow> strcpy_field 100 str;
     filePath \<leftarrow> (if last (before # str) \<noteq> CHR 0x2F then strcpy_field 100 (filePath @ ''/'') else Some filePath);
     (v, k) \<leftarrow> chdir filePath (tarfs s) (kern s);
     Some (Reply (int_of_reg (word_of_int v)) (eoi (set_kernel k s)))
   }"

text \<open>The line is stored over the buffer; its old contents stay behind it.\<close>

definition gets_s :: "call_frame \<Rightarrow> nat \<Rightarrow> (nat \<Rightarrow> char) \<Rightarrow> system \<Rightarrow> (nat \<Rightarrow> char) reply option" where
  "gets_s fr n buf s = do {
     out \<leftarrow> intRead 0 (resume_at fr) (con s) (\<lambda>_. NUL) (kern s);
     case out of
       Line c m k \<Rightarrow>
         (let l = nat (getoffset c - 1 - getoffset (con s)) in
          if l \<le> n then Some (Reply (\<lambda>i. if i < l then m (int i) else buf i) (eoi (s\<lparr>con := c, kern := k\<rparr>))) else None)
     | Asleep c m k \<Rightarrow> Some (Gone (s\<lparr>con := c, kern := k\<rparr>))
   }"

definition fopen_s :: "string \<Rightarrow> system \<Rightarrow> int reply option" where
  "fopen_s nm s = do {
     (d, k) \<leftarrow> openTarfsFile nm 0 (tarfs s) (kern s);
     Some (Reply (int_of_reg (word_of_int d)) (eoi (set_kernel k s)))
   }"

text \<open>Reading a file into an array of \<open>n\<close> characters, which must hold the count and the NUL behind it.\<close>

definition readStr_s :: "call_frame \<Rightarrow> int \<Rightarrow> nat \<Rightarrow> (nat \<Rightarrow> char) \<Rightarrow> system \<Rightarrow> (nat \<Rightarrow> char) reply option" where
  "readStr_s fr d n buf s =
     (if d = 0 then gets_s fr n buf s
      else do {
        (count, m) \<leftarrow> readTarfsFile d 0 (int n) (tarfs s) (kern s) (\<lambda>_. NUL);
        if 0 \<le> count \<and> count < int n then Some (Reply (\<lambda>i. if int i \<le> count then m (int i) else buf i) (eoi s)) else None
      })"

definition execvp_s :: "call_frame \<Rightarrow> string \<Rightarrow> string list \<Rightarrow> string list \<Rightarrow> system \<Rightarrow> int reply option" where
  "execvp_s fr file0 argv env s = do {
     out \<leftarrow> execvpe (tarfs s) (fresh_area fr) (behind_argc fr) (args_rows fr) (envs_rows fr) file0 argv env (kern s);
     Some (case out of Exec_Failed k \<Rightarrow> Reply (- 1) (eoi (set_kernel k s)) | Entered k \<Rightarrow> Gone (set_kernel k s))
   }"

section \<open>The variables\<close>

record tokens =
  strs :: "nat \<Rightarrow> nat option"
  rows_of :: "nat \<Rightarrow> nat \<Rightarrow> char"

text \<open>\<open>command\<close> points to a row of \<open>arg\<close>; its first value, the address of \<open>com\<close>, is never used.\<close>

record shell =
  isBackground :: int
  input :: "nat \<Rightarrow> char"
  pwd :: string
  com :: "nat \<Rightarrow> char"
  toks :: tokens
  prompt :: string
  command :: "nat option"
  envpe :: "nat \<Rightarrow> nat option"
  commandSet :: "nat \<Rightarrow> nat \<Rightarrow> char"
  commandList :: "nat \<Rightarrow> nat option"
  cmdNum :: nat
  cmdOffset :: nat

text \<open>\<open>strs[i][j] = c\<close>, in an array of \<open>n\<close> pointers; \<open>strs[i]\<close> as a string; \<open>strs[i] = NULL\<close>.\<close>

definition put_tok :: "nat \<Rightarrow> nat \<Rightarrow> nat \<Rightarrow> char \<Rightarrow> tokens \<Rightarrow> tokens option" where
  "put_tok n i j c t =
     (if i < n \<and> j < ROW then
        (case strs t i of None \<Rightarrow> None
         | Some p \<Rightarrow> Some (t\<lparr>rows_of := (rows_of t)(p := (rows_of t p)(j := c))\<rparr>))
      else None)"

definition tok_string :: "nat \<Rightarrow> nat \<Rightarrow> tokens \<Rightarrow> string option" where
  "tok_string n i t = (if i < n then do { p \<leftarrow> strs t i; row_string ROW (rows_of t p) } else None)"

definition null_tok :: "nat \<Rightarrow> nat \<Rightarrow> tokens \<Rightarrow> tokens option" where
  "null_tok n i t = (if i < n then Some (t\<lparr>strs := (strs t)(i := None)\<rparr>) else None)"

section \<open>The tokenizer\<close>

definition makeNullExecvp :: "nat \<Rightarrow> nat \<Rightarrow> nat \<Rightarrow> tokens \<Rightarrow> tokens option" where
  "makeNullExecvp n index j t = do {
     t \<leftarrow> (if j = 0 then null_tok n index t else Some t);
     null_tok n (index + 1) t
   }"

partial_function (option) skipspaces :: "(nat \<Rightarrow> char) \<Rightarrow> nat \<Rightarrow> nat option" where
  "skipspaces str k =
     (if k < ROW then
        if str k \<noteq> NL then (if k = 0 \<and> str k = CHR '' '' then skipspaces str (k + 1) else Some k)
        else Some k
      else None)"

definition isBackgroundTask :: "nat \<Rightarrow> tokens \<Rightarrow> nat \<Rightarrow> int option" where
  "isBackgroundTask n t index = do {
     str \<leftarrow> tok_string n index t;
     Some (if strcmp_s str ''&'' = 0 then 1 else 0)
   }"

text \<open>\<open>parseNEWprompt\<close>, which nothing calls, does not stop at a NUL.\<close>

partial_function (option) parseNEWprompt :: "nat \<Rightarrow> (nat \<Rightarrow> char) \<Rightarrow> char \<Rightarrow> nat \<Rightarrow> nat \<Rightarrow> tokens \<Rightarrow> tokens option" where
  "parseNEWprompt n str delimiter j k t =
     (if k < ROW then
        if str k \<noteq> NL then
          Option.bind (skipspaces str k) (\<lambda>k.
          if str k = CHR 0x22 \<and> delimiter = CHR ''='' then parseNEWprompt n str delimiter j (k + 1) t
          else Option.bind (put_tok n 0 j (str k) t) (parseNEWprompt n str delimiter (j + 1) (k + 1)))
        else Some t
      else None)"

text \<open>\<open>strtokBeta\<close> with its loop variables; the result has the new value of \<open>isBackground\<close>.\<close>

partial_function (option) strtok_loop :: "nat \<Rightarrow> (nat \<Rightarrow> char) \<Rightarrow> char \<Rightarrow> nat \<Rightarrow> nat \<Rightarrow> nat \<Rightarrow> tokens \<Rightarrow> int \<Rightarrow> (tokens \<times> int) option" where
  "strtok_loop n str delimiter i j k t bg =
     (if k < ROW then
        if str k \<noteq> NL then
          Option.bind (skipspaces str k) (\<lambda>k.
          if str k = delimiter \<or> str k = NUL then
            Option.bind (put_tok n i j NUL t) (\<lambda>t.
            Option.bind (isBackgroundTask n t i) (\<lambda>bg.
            Option.bind (if bg \<noteq> 0 then null_tok n i t else Some t) (\<lambda>t.
            if str k = NUL then Option.bind (makeNullExecvp n i j t) (\<lambda>t. Some (t, bg))
            else strtok_loop n str delimiter (i + 1) 0 (k + 1) t bg)))
          else if str k = CHR 0x22 \<and> delimiter = CHR ''='' then strtok_loop n str delimiter i j (k + 1) t bg
          else Option.bind (put_tok n i j (str k) t) (\<lambda>t. strtok_loop n str delimiter i (j + 1) (k + 1) t bg))
        else Some (t, bg)
      else None)"

definition strtokBeta :: "nat \<Rightarrow> (nat \<Rightarrow> char) \<Rightarrow> char \<Rightarrow> tokens \<Rightarrow> int \<Rightarrow> (tokens \<times> int) option" where
  "strtokBeta n str delimiter t bg = strtok_loop n str delimiter 0 0 0 t bg"

definition clearArguments :: "shell \<Rightarrow> shell" where
  "clearArguments sh = sh\<lparr>toks := \<lparr>strs = (\<lambda>i. if i < 1000 then Some i else strs (toks sh) i),
     rows_of = (\<lambda>i j. if i < 1000 \<and> j < ROW then NUL else rows_of (toks sh) i j)\<rparr>\<rparr>"

definition initArgs :: "shell \<Rightarrow> shell" where
  "initArgs sh = sh\<lparr>toks := (toks sh)\<lparr>strs := (\<lambda>i. if i < 1000 then Some i else strs (toks sh) i)\<rparr>\<rparr>"

definition clearInput :: "shell \<Rightarrow> shell" where
  "clearInput sh = sh\<lparr>input := (\<lambda>i. if i < 1000 then NUL else input sh i)\<rparr>"

definition clearCommand :: "shell \<Rightarrow> shell" where
  "clearCommand sh = sh\<lparr>com := (\<lambda>i. if i < 1000 then NUL else com sh i)\<rparr>"

text \<open>The strings of a vector up to its null pointer, in an array with \<open>m\<close> entries left.\<close>

fun vector_strings :: "nat \<Rightarrow> (nat \<Rightarrow> nat option) \<Rightarrow> (nat \<Rightarrow> nat \<Rightarrow> char) \<Rightarrow> nat \<Rightarrow> string list option" where
  "vector_strings 0 ptrs rs i = None"
| "vector_strings (Suc m) ptrs rs i =
     (case ptrs i of None \<Rightarrow> Some []
      | Some p \<Rightarrow> do { x \<leftarrow> row_string ROW (rs p); xs \<leftarrow> vector_strings m ptrs rs (i + 1); Some (x # xs) })"

partial_function (option) getInputArgCounts_loop :: "shell \<Rightarrow> nat \<Rightarrow> nat option" where
  "getInputArgCounts_loop sh i =
     (if i < 1000 then if strs (toks sh) i \<noteq> None then getInputArgCounts_loop sh (i + 1) else Some i else None)"

definition getInputArgCounts :: "shell \<Rightarrow> nat option" where
  "getInputArgCounts sh = getInputArgCounts_loop sh 0"

section \<open>The built-in commands\<close>

definition setprompt :: "string \<Rightarrow> shell \<Rightarrow> system \<Rightarrow> shell reply option" where
  "setprompt sbush sh s = and_then (getcwd_s s) (\<lambda>d s. do {
     d \<leftarrow> strcpy_field 100 d;
     p \<leftarrow> strcpy_field 100 sbush;
     p \<leftarrow> strcpy_field 100 (p @ '':'');
     p \<leftarrow> strcpy_field 100 (p @ d);
     p \<leftarrow> strcpy_field 100 (p @ ''>'');
     Some (Reply (sh\<lparr>pwd := d, prompt := p\<rparr>) s)
   })"

definition changeDirectory :: "shell \<Rightarrow> system \<Rightarrow> shell reply option" where
  "changeDirectory sh s =
     and_then (case strs (toks sh) 1 of
         None \<Rightarrow> puts_s (''Usage : cd <path>'' @ [NL]) s
       | Some p \<Rightarrow> do {
           str \<leftarrow> row_string ROW (rows_of (toks sh) p);
           before \<leftarrow> (if 0 < p then Some (rows_of (toks sh) (p - 1) (ROW - 1)) else None);
           and_then (chdir_s before str s) (\<lambda>v s. if v \<noteq> 0 then puts_s (''Invalid path'' @ [NL]) s else Some (Reply 0 s))
         })
       (\<lambda>_ s. setprompt (prompt sh) sh s)"

text \<open>\<open>temp\<close> are the contents of the local array, of which three rows are used.\<close>

definition changeSbush :: "(nat \<Rightarrow> nat \<Rightarrow> char) \<Rightarrow> shell \<Rightarrow> system \<Rightarrow> shell reply option" where
  "changeSbush temp sh s = do {
     p \<leftarrow> strs (toks sh) 1;
     (t, bg) \<leftarrow> strtokBeta 3 (rows_of (toks sh) p) (CHR ''='') \<lparr>strs = (\<lambda>i. if i < 3 then Some i else None), rows_of = temp\<rparr> (isBackground sh);
     let sh = sh\<lparr>isBackground := bg\<rparr>;
     x \<leftarrow> tok_string 3 0 t;
     if strcmp_s ''PS1'' x = 0 then do { y \<leftarrow> tok_string 3 1 t; setprompt y sh s } else Some (Reply sh s)
   }"

definition getPWD :: "shell \<Rightarrow> system \<Rightarrow> shell reply option" where
  "getPWD sh s = and_then (getcwd_s s) (\<lambda>d s. do {
     d \<leftarrow> strcpy_field 100 d;
     and_then (puts_s d s) (\<lambda>_ s. and_then (puts_s [NL] s) (\<lambda>_ s. Some (Reply (sh\<lparr>pwd := d\<rparr>) s)))
   })"

text \<open>What the child of \<open>execCommand\<close> does, and the parent's part. The type of \<open>pid\<close> is unsigned: the branch for
  a failed \<open>fork\<close> is dead code.\<close>

definition exec_child :: "call_frame \<Rightarrow> registersAligned \<Rightarrow> string \<Rightarrow> string list \<Rightarrow> string list \<Rightarrow> system \<Rightarrow> int reply option" where
  "exec_child fr r cmd argv env s = and_then (execvp_s fr cmd argv env s) (\<lambda>v s.
     and_then (if v = - 1 then
         and_then (puts_s ''-sbush: '' s) (\<lambda>_ s. and_then (puts_s cmd s) (\<lambda>_ s. puts_s ('': No such command. '' @ [NL]) s))
       else Some (Reply 0 s))
     (\<lambda>_ s. exit_lib fr r 1 s))"

definition after_fork :: "call_frame \<Rightarrow> registersAligned \<Rightarrow> string \<Rightarrow> string list \<Rightarrow> string list \<Rightarrow> shell \<Rightarrow> u32 \<Rightarrow> system \<Rightarrow> shell reply option" where
  "after_fork fr r cmd argv env sh ret s =
     (if ret = 0 then and_then (exec_child fr r cmd argv env s) (\<lambda>_ s. Some (Reply sh s))
      else if isBackground sh = 1 then Some (Reply sh s)
      else and_then (waitpid_lib fr r ret 0 s) (\<lambda>_ s. Some (Reply sh s)))"

definition execCommand :: "call_frame \<Rightarrow> registersAligned \<Rightarrow> environ \<Rightarrow> shell \<Rightarrow> system \<Rightarrow> shell reply option" where
  "execCommand fr r v sh s = do {
     p \<leftarrow> command sh;
     cmd \<leftarrow> row_string ROW (rows_of (toks sh) p);
     argv \<leftarrow> vector_strings 1000 (strs (toks sh)) (rows_of (toks sh)) 0;
     env \<leftarrow> vector_strings 100 (envpe sh) (env_var v) 0;
     and_then (fork_lib fr r s) (after_fork fr r cmd argv env sh)
   }"

definition run_command :: "call_frame \<Rightarrow> registersAligned \<Rightarrow> (nat \<Rightarrow> nat \<Rightarrow> char) \<Rightarrow> environ \<Rightarrow> shell \<Rightarrow> system \<Rightarrow> shell reply option" where
  "run_command fr r temp v sh s = do {
     p \<leftarrow> command sh;
     cmd \<leftarrow> row_string ROW (rows_of (toks sh) p);
     if strcmp_s cmd ''cd'' = 0 then changeDirectory sh s
     else if strcmp_s cmd ''export'' = 0 then changeSbush temp sh s
     else if strcmp_s cmd ''clear'' = 0 then and_then (clearScreen_lib fr r s) (\<lambda>_ s. Some (Reply sh s))
     else if strcmp_s cmd ''pwd'' = 0 then getPWD sh s
     else execCommand fr r v sh s
   }"

definition parseInput :: "call_frame \<Rightarrow> registersAligned \<Rightarrow> (nat \<Rightarrow> nat \<Rightarrow> char) \<Rightarrow> environ \<Rightarrow> shell \<Rightarrow> system \<Rightarrow> shell reply option" where
  "parseInput fr r temp v sh s = do {
     (t, bg) \<leftarrow> strtokBeta 1000 (input sh) (CHR ''|'') (toks sh) (isBackground sh);
     let sh = clearArguments (sh\<lparr>toks := t, isBackground := bg\<rparr>);
     (t, bg) \<leftarrow> strtokBeta 1000 (input sh) (CHR '' '') (toks sh) (isBackground sh);
     run_command fr r temp v (sh\<lparr>toks := t, isBackground := bg, command := strs t 0\<rparr>) s
   }"

definition clearCommandData :: "call_frame \<Rightarrow> registersAligned \<Rightarrow> (nat \<Rightarrow> nat \<Rightarrow> char) \<Rightarrow> environ \<Rightarrow> shell \<Rightarrow> system \<Rightarrow> shell reply option" where
  "clearCommandData fr r temp v sh s = and_then (parseInput fr r temp v sh s) (\<lambda>sh s.
     Some (Reply (clearArguments (clearCommand (clearInput sh))) s))"

section \<open>Scripts\<close>

definition initCommandList :: "shell \<Rightarrow> shell" where
  "initCommandList sh = sh\<lparr>commandList := (\<lambda>i. if i < 100 then Some i else commandList sh i)\<rparr>"

text \<open>\<open>commandList[cmdNum][cmdOffset++] = c\<close>.\<close>

definition put_command :: "char \<Rightarrow> shell \<Rightarrow> shell option" where
  "put_command c sh =
     (if cmdNum sh < 100 \<and> cmdOffset sh < 100 then do {
        p \<leftarrow> commandList sh (cmdNum sh);
        Some (sh\<lparr>commandSet := (commandSet sh)(p := (commandSet sh p)(cmdOffset sh := c)), cmdOffset := cmdOffset sh + 1\<rparr>)
      }
      else None)"

fun makeCommandList_loop :: "string \<Rightarrow> shell \<Rightarrow> shell option" where
  "makeCommandList_loop [] sh = Some sh"
| "makeCommandList_loop (c # cs) sh =
     (if c = NL then do {
        sh \<leftarrow> put_command NUL sh;
        makeCommandList_loop cs (sh\<lparr>cmdNum := cmdNum sh + 1, cmdOffset := 0\<rparr>)
      }
      else do {
        sh \<leftarrow> put_command c sh;
        makeCommandList_loop cs sh
      })"

definition makeCommandList :: "(nat \<Rightarrow> char) \<Rightarrow> shell \<Rightarrow> shell option" where
  "makeCommandList inpString sh = do {
     str \<leftarrow> row_string 4096 inpString;
     makeCommandList_loop str sh
   }"

section \<open>The main program\<close>

definition readInput :: "call_frame \<Rightarrow> shell \<Rightarrow> system \<Rightarrow> shell reply option" where
  "readInput fr sh s = and_then (gets_s fr 1000 (input sh) s) (\<lambda>b s. Some (Reply (sh\<lparr>input := b\<rparr>) s))"

text \<open>\<open>envpe[i] = getallenv(i)\<close>; the entries are columns 0, so the row is the pointer.\<close>

definition setenvs :: "environ \<Rightarrow> shell \<Rightarrow> shell option" where
  "setenvs v sh =
     (if getenvlength v \<le> 100 then Some (sh\<lparr>envpe := (\<lambda>i. if i < getenvlength v then Some (fst (getallenv i)) else envpe sh i)\<rparr>) else None)"

text \<open>One turn of the loop: \<open>None\<close> as the reply is the end of the program.\<close>

definition shell_turn :: "call_frame \<Rightarrow> registersAligned \<Rightarrow> (nat \<Rightarrow> nat \<Rightarrow> char) \<Rightarrow> environ \<Rightarrow> shell \<Rightarrow> system \<Rightarrow> shell option reply option" where
  "shell_turn fr r temp v sh s =
     and_then (puts_s (prompt sh) s) (\<lambda>_ s.
     and_then (readInput fr sh s) (\<lambda>sh s.
       if input sh 0 = NUL then Some (Reply (Some sh) s)
       else do {
         str \<leftarrow> row_string 1000 (input sh);
         if strcmp_s str ''exit'' = 0 \<or> strcmp_s str ''quit'' = 0 then Some (Reply None s)
         else and_then (clearCommandData fr r temp v sh s) (\<lambda>sh s. Some (Reply (Some sh) s))
       }))"

partial_function (option) shell_loop :: "call_frame \<Rightarrow> registersAligned \<Rightarrow> (nat \<Rightarrow> nat \<Rightarrow> char) \<Rightarrow> environ \<Rightarrow> shell \<Rightarrow> system \<Rightarrow> int reply option" where
  "shell_loop fr r temp v sh s =
     Option.bind (shell_turn fr r temp v sh s) (\<lambda>x. case x of
       Gone s \<Rightarrow> Some (Gone s)
     | Reply None s \<Rightarrow> Some (Reply 0 s)
     | Reply (Some sh) s \<Rightarrow> shell_loop fr r temp v sh s)"

text \<open>The lines of a script; \<open>n\<close> are left of \<open>cmdNum\<close>.\<close>

fun script_loop :: "call_frame \<Rightarrow> registersAligned \<Rightarrow> (nat \<Rightarrow> nat \<Rightarrow> char) \<Rightarrow> environ \<Rightarrow> nat \<Rightarrow> nat \<Rightarrow> shell \<Rightarrow> system \<Rightarrow> shell reply option" where
  "script_loop fr r temp v 0 index sh s = Some (Reply sh s)"
| "script_loop fr r temp v (Suc n) index sh s = do {
     p \<leftarrow> (if index < 100 then commandList sh index else None);
     str \<leftarrow> row_string 100 (commandSet sh p);
     and_then (clearCommandData fr r temp v (sh\<lparr>input := put_string 0 str (input sh)\<rparr>) s) (\<lambda>sh s.
       script_loop fr r temp v n (index + 1) sh s)
   }"

text \<open>\<open>sh0\<close> is the zeroed data segment; \<open>temp\<close> and \<open>buf\<close> the contents of local arrays.\<close>

definition sbush_main :: "call_frame \<Rightarrow> registersAligned \<Rightarrow> (nat \<Rightarrow> nat \<Rightarrow> char) \<Rightarrow> (nat \<Rightarrow> char) \<Rightarrow> shell \<Rightarrow> program" where
  "sbush_main fr r temp buf sh0 argc argv envp v s =
     and_then (setprompt ''sbush'' (initArgs sh0) s) (\<lambda>sh s. do {
       sh \<leftarrow> setenvs v sh;
       if argc = 1 then and_then (clearScreen_lib fr r s) (\<lambda>_ s. shell_loop fr r temp v sh s)
       else do {
         let sh = sh\<lparr>cmdNum := 0, cmdOffset := 0\<rparr>;
         nm \<leftarrow> user_str s (arg_ptr argv 1);
         and_then (fopen_s nm s) (\<lambda>filePointer s.
           if filePointer = - 1 then and_then (puts_s ''File not found, Exiting!'' s) (\<lambda>_ s. Some (Reply 0 s))
           else and_then (readStr_s fr filePointer 4096 buf s) (\<lambda>inpString s. do {
             sh \<leftarrow> makeCommandList inpString (initCommandList sh);
             and_then (script_loop fr r temp v (cmdNum sh) 0 sh s) (\<lambda>_ s. Some (Reply 0 s))
           }))
       }
     })"

section \<open>What the tokenizer computes\<close>

text \<open>The reference: the words between delimiters, of which the first goes on after \<open>w0\<close>.\<close>

fun words_of :: "char \<Rightarrow> string \<Rightarrow> string \<Rightarrow> string list" where
  "words_of d w0 [] = [w0]"
| "words_of d w0 (c # cs) = (if c = d then w0 # words_of d [] cs else words_of d (w0 @ [c]) cs)"

lemma words_of_not_Nil [simp]: "words_of d w0 cs \<noteq> []"
  by (induction cs arbitrary: w0) auto

text \<open>The words \<open>ws\<close> in the rows from \<open>i\<close> on: a word \<open>&\<close> and an empty last word have no pointer, nor has the
  entry behind the last word.\<close>

definition parsed :: "nat \<Rightarrow> string list \<Rightarrow> tokens \<Rightarrow> tokens \<Rightarrow> bool" where
  "parsed i ws t t' \<longleftrightarrow> (\<forall>m < length ws. holds ROW (rows_of t' (i + m)) (ws ! m)
       \<and> strs t' (i + m) = (if ws ! m = ''&'' \<or> Suc m = length ws \<and> ws ! m = [] then None else Some (i + m)))
     \<and> strs t' (i + length ws) = None \<and> (\<forall>m < i. strs t' m = strs t m \<and> rows_of t' m = rows_of t m)"

definition last_is_amp :: "string list \<Rightarrow> int" where
  "last_is_amp ws = (if last ws = ''&'' then 1 else 0)"

lemma skipspaces_later: "k < ROW \<Longrightarrow> k \<noteq> 0 \<or> str k \<noteq> CHR '' '' \<Longrightarrow> skipspaces str k = Some k"
  by (subst skipspaces.simps) auto

text \<open>The steps at the end of a word.\<close>

lemma end_of_word:
  assumes "i < n" "length w0 < ROW" "strs t i = Some i" "\<forall>m < length w0. rows_of t i m = w0 ! m" "NUL \<notin> set w0"
  obtains t1 where "put_tok n i (length w0) NUL t = Some t1" "isBackgroundTask n t1 i = Some (if w0 = ''&'' then 1 else 0)"
    "holds ROW (rows_of t1 i) w0" "\<forall>m. m \<noteq> i \<longrightarrow> rows_of t1 m = rows_of t m" "strs t1 = strs t"
proof
  let ?t = "t\<lparr>rows_of := (rows_of t)(i := (rows_of t i)(length w0 := NUL))\<rparr>"
  show "put_tok n i (length w0) NUL t = Some ?t" using assms(1-3) by (simp add: put_tok_def)
  show h: "holds ROW (rows_of ?t i) w0" using assms by (simp add: holds_def)
  have "strcmp_s w0 ''&'' = 0 \<longleftrightarrow> w0 = ''&''" using assms(5) by (intro strcmp_s_eq_0) simp_all
  then show "isBackgroundTask n ?t i = Some (if w0 = ''&'' then 1 else 0)"
    using holds_row_string [OF h] assms(1,3) by (simp add: isBackgroundTask_def tok_string_def)
qed simp_all

lemma parsed_Cons:
  assumes "parsed (Suc i) ws t2 t'" and "holds ROW (rows_of t2 i) w0" and "strs t2 i = (if w0 = ''&'' then None else Some i)"
    and "\<forall>m < i. strs t2 m = strs t m \<and> rows_of t2 m = rows_of t m" and "ws \<noteq> []"
  shows "parsed i (w0 # ws) t t'"
  unfolding parsed_def
proof (intro conjI allI impI)
  fix m assume m: "m < length (w0 # ws)"
  show "holds ROW (rows_of t' (i + m)) ((w0 # ws) ! m)"
    "strs t' (i + m) = (if (w0 # ws) ! m = ''&'' \<or> Suc m = length (w0 # ws) \<and> (w0 # ws) ! m = [] then None else Some (i + m))"
    using assms m by (cases m; simp add: parsed_def)+
qed (use assms in \<open>auto simp: parsed_def\<close>)

lemma strtok_loop_words:
  assumes "\<forall>m < length cs. str (k + m) = cs ! m" "str (k + length cs) = NUL" "k + length cs < ROW"
    and "NUL \<notin> set cs" "NL \<notin> set cs" and d: "d \<noteq> NUL" and q: "d = CHR ''='' \<Longrightarrow> CHR 0x22 \<notin> set cs" and "k \<noteq> 0 \<or> str k \<noteq> CHR '' ''"
    and "\<forall>m < length w0. rows_of t i m = w0 ! m" "NUL \<notin> set w0" "length w0 + length cs < ROW"
    and "\<forall>m. i \<le> m \<longrightarrow> m < n \<longrightarrow> strs t m = Some m" "i + length (words_of d w0 cs) < n"
  shows "\<exists>t'. strtok_loop n str d i (length w0) k t bg = Some (t', last_is_amp (words_of d w0 cs)) \<and> parsed i (words_of d w0 cs) t t'"
  using assms(1-5,8-13) q
proof (induction cs arbitrary: i k t bg w0)
  case Nil
  have si: "i < n" "Suc i < n" "strs t i = Some i" using Nil.prems(10,11) by simp_all
  have "length w0 < ROW" using Nil.prems(9) by simp
  from end_of_word [OF si(1) this si(3) Nil.prems(7,8)] obtain t1 where
    t1: "put_tok n i (length w0) NUL t = Some t1" "isBackgroundTask n t1 i = Some (if w0 = ''&'' then 1 else 0)"
    "holds ROW (rows_of t1 i) w0" "\<forall>m. m \<noteq> i \<longrightarrow> rows_of t1 m = rows_of t m" "strs t1 = strs t" by blast
  have k: "k < ROW" "str k = NUL" using Nil.prems(2,3) by simp_all
  let ?t2 = "if w0 = ''&'' then t1\<lparr>strs := (strs t1)(i := None)\<rparr> else t1"
  let ?t3 = "(if w0 = [] then ?t2\<lparr>strs := (strs ?t2)(i := None)\<rparr> else ?t2)"
  have "strtok_loop n str d i (length w0) k t bg = Some (?t3\<lparr>strs := (strs ?t3)(Suc i := None)\<rparr>, if w0 = ''&'' then 1 else 0)"
    using k t1(1,2) skipspaces_later [where str = str, OF k(1) Nil.prems(6)] si(1,2)
    by (subst strtok_loop.simps) (simp add: null_tok_def makeNullExecvp_def)
  moreover have "parsed i [w0] t (?t3\<lparr>strs := (strs ?t3)(Suc i := None)\<rparr>)"
    using t1(3-5) si(3) by (auto simp: parsed_def)
  ultimately show ?case by (simp add: last_is_amp_def)
next
  case (Cons c cs)
  have k: "k < ROW" "str k = c" using Cons.prems(1,3) by (auto dest: spec [of _ 0])
  have c: "c \<noteq> NUL" "c \<noteq> NL" using Cons.prems(4,5) by auto
  have tail: "\<forall>m < length cs. str (Suc k + m) = cs ! m" "str (Suc k + length cs) = NUL" "Suc k + length cs < ROW" "NUL \<notin> set cs" "NL \<notin> set cs"
    "Suc k \<noteq> 0 \<or> str (Suc k) \<noteq> CHR '' ''" using Cons.prems(1-5) by (auto dest: spec [of _ "Suc _"])
  note sk = skipspaces_later [where str = str, OF k(1) Cons.prems(6)]
  have si: "i < n" "strs t i = Some i" using Cons.prems(10,11) by simp_all
  show ?case
  proof (cases "c = d")
    case True
    have w: "words_of d w0 (c # cs) = w0 # words_of d [] cs" using True by simp
    have "length w0 < ROW" using Cons.prems(9) by simp
    from end_of_word [OF si(1) this si(2) Cons.prems(7,8)] obtain t1 where
      t1: "put_tok n i (length w0) NUL t = Some t1" "isBackgroundTask n t1 i = Some (if w0 = ''&'' then 1 else 0)"
      "holds ROW (rows_of t1 i) w0" "\<forall>m. m \<noteq> i \<longrightarrow> rows_of t1 m = rows_of t m" "strs t1 = strs t" by blast
    let ?t2 = "if w0 = ''&'' then t1\<lparr>strs := (strs t1)(i := None)\<rparr> else t1"
    have "\<exists>t'. strtok_loop n str d (Suc i) (length ([] :: string)) (Suc k) ?t2 (if w0 = ''&'' then 1 else 0)
        = Some (t', last_is_amp (words_of d [] cs)) \<and> parsed (Suc i) (words_of d [] cs) ?t2 t'"
      by (rule Cons.IH) (use tail Cons.prems(9-12) t1(5) w in auto)
    then obtain t' where t': "strtok_loop n str d (Suc i) 0 (Suc k) ?t2 (if w0 = ''&'' then 1 else 0) = Some (t', last_is_amp (words_of d [] cs))"
      "parsed (Suc i) (words_of d [] cs) ?t2 t'" by auto
    have "strtok_loop n str d i (length w0) k t bg = Some (t', last_is_amp (words_of d [] cs))"
      using k c True sk t1(1,2) t'(1) si(1) by (subst strtok_loop.simps) (simp add: null_tok_def split: if_splits)
    moreover have "parsed i (w0 # words_of d [] cs) t t'"
      by (rule parsed_Cons [OF t'(2)]) (use t1(3-5) si(2) in auto)
    ultimately show ?thesis using w by (simp add: last_is_amp_def)
  next
    case False
    let ?t1 = "t\<lparr>rows_of := (rows_of t)(i := (rows_of t i)(length w0 := c))\<rparr>"
    have w: "words_of d w0 (c # cs) = words_of d (w0 @ [c]) cs" using False by simp
    have "\<exists>t'. strtok_loop n str d i (length (w0 @ [c])) (Suc k) ?t1 bg = Some (t', last_is_amp (words_of d (w0 @ [c]) cs))
        \<and> parsed i (words_of d (w0 @ [c]) cs) ?t1 t'"
      by (rule Cons.IH) (use tail Cons.prems(7-12) c w in \<open>auto simp: nth_append less_Suc_eq\<close>)
    then obtain t' where t': "strtok_loop n str d i (Suc (length w0)) (Suc k) ?t1 bg = Some (t', last_is_amp (words_of d (w0 @ [c]) cs))"
      "parsed i (words_of d (w0 @ [c]) cs) ?t1 t'" by auto
    have "put_tok n i (length w0) c t = Some ?t1" using si Cons.prems(9) by (simp add: put_tok_def)
    moreover have "\<not> (c = CHR 0x22 \<and> d = CHR ''='')" using Cons.prems(12) by auto
    ultimately have "strtok_loop n str d i (length w0) k t bg = Some (t', last_is_amp (words_of d (w0 @ [c]) cs))"
      using k c False sk t'(1) by (subst strtok_loop.simps) auto
    moreover have "parsed i (words_of d (w0 @ [c]) cs) t t'" using t'(2) by (simp add: parsed_def)
    ultimately show ?thesis using w by simp
  qed
qed

text \<open>\<open>strtokBeta\<close> on a whole line that does not begin with a space.\<close>

definition rows_ready :: "tokens \<Rightarrow> bool" where
  "rows_ready t \<longleftrightarrow> (\<forall>m < 1000. strs t m = Some m)"

lemma words_of_length: "length (words_of d w0 cs) \<le> Suc (length cs)"
  by (induction cs arbitrary: w0) (auto intro: le_SucI)

lemma strtokBeta_words:
  assumes h: "holds ROW str cs" and nl: "NL \<notin> set cs" and d: "d \<noteq> NUL" "d = CHR ''='' \<Longrightarrow> CHR 0x22 \<notin> set cs" and f: "cs \<noteq> [] \<Longrightarrow> hd cs \<noteq> CHR '' ''"
    and n: "length (words_of d [] cs) < n" and t: "\<forall>m < n. strs t m = Some m"
  obtains t' where "strtokBeta n str d t bg = Some (t', last_is_amp (words_of d [] cs))" "parsed 0 (words_of d [] cs) t t'"
proof -
  have "str 0 \<noteq> CHR '' ''" using h f by (cases cs) (auto simp: holds_def)
  then have "\<exists>t'. strtok_loop n str d 0 (length ([] :: string)) 0 t bg = Some (t', last_is_amp (words_of d [] cs)) \<and> parsed 0 (words_of d [] cs) t t'"
    using h nl d n t by (intro strtok_loop_words) (auto simp: holds_def)
  then show ?thesis using that by (auto simp: strtokBeta_def)
qed

text \<open>The vector of arguments ends at the first word that has no pointer.\<close>

fun args_of :: "string list \<Rightarrow> string list" where
  "args_of [] = []"
| "args_of (w # ws) = (if w = ''&'' \<or> ws = [] \<and> w = [] then [] else w # args_of ws)"

lemma vector_strings_parsed:
  "parsed i ws t t' \<Longrightarrow> length ws < m \<Longrightarrow> vector_strings m (strs t') (rows_of t') i = Some (args_of ws)"
proof (induction ws arbitrary: i m t)
  case Nil
  then show ?case by (cases m) (simp_all add: parsed_def)
next
  case (Cons w ws)
  obtain m' where m: "m = Suc m'" using Cons.prems(2) by (cases m) simp_all
  have all: "holds ROW (rows_of t' (i + n)) ((w # ws) ! n)"
    "strs t' (i + n) = (if (w # ws) ! n = ''&'' \<or> Suc n = length (w # ws) \<and> (w # ws) ! n = [] then None else Some (i + n))"
    if "n < length (w # ws)" for n using Cons.prems(1) that unfolding parsed_def by blast+
  have w: "row_string ROW (rows_of t' i) = Some w" "strs t' i = (if w = ''&'' \<or> ws = [] \<and> w = [] then None else Some i)"
    using all [of 0] holds_row_string by simp_all
  have "strs t' (Suc i + length ws) = None" using Cons.prems(1) by (simp add: parsed_def)
  then have "parsed (Suc i) ws t' t'" using all [of "Suc _"] by (simp add: parsed_def)
  from Cons.IH [OF this, of m'] Cons.prems(2) have "vector_strings m' (strs t') (rows_of t') (Suc i) = Some (args_of ws)" by (simp add: m)
  then show ?case using w by (auto simp: m)
qed

section \<open>Lines of words\<close>

definition plain_word :: "string \<Rightarrow> bool" where
  "plain_word w \<longleftrightarrow> w \<noteq> [] \<and> w \<noteq> ''&'' \<and> CHR '' '' \<notin> set w \<and> NUL \<notin> set w \<and> NL \<notin> set w"

fun line_of :: "string list \<Rightarrow> string" where
  "line_of [] = []"
| "line_of (w # ws) = (if ws = [] then w else w @ CHR '' '' # line_of ws)"

lemma words_of_append: "d \<notin> set w \<Longrightarrow> words_of d w0 (w @ d # cs) = (w0 @ w) # words_of d [] cs"
  by (induction w arbitrary: w0) auto

lemma words_of_last: "d \<notin> set w \<Longrightarrow> words_of d w0 w = [w0 @ w]"
  by (induction w arbitrary: w0) auto

lemma words_of_line: "ws \<noteq> [] \<Longrightarrow> \<forall>w \<in> set ws. CHR '' '' \<notin> set w \<Longrightarrow> words_of (CHR '' '') [] (line_of ws) = ws"
  by (induction ws rule: line_of.induct) (auto simp: words_of_append words_of_last)

lemma line_of_append: "ws \<noteq> [] \<Longrightarrow> us \<noteq> [] \<Longrightarrow> line_of (ws @ us) = line_of ws @ CHR '' '' # line_of us"
  by (induction ws rule: line_of.induct) auto

lemma args_of_plain: "\<forall>w \<in> set ws. plain_word w \<Longrightarrow> args_of (ws @ us) = ws @ args_of us"
  by (induction ws) (auto simp: plain_word_def)

lemma line_of_chars: "\<forall>w \<in> set ws. c \<notin> set w \<Longrightarrow> c \<noteq> CHR '' '' \<Longrightarrow> c \<notin> set (line_of ws)"
  by (induction ws rule: line_of.induct) auto

lemma hd_line_of: "ws \<noteq> [] \<Longrightarrow> hd ws \<noteq> [] \<Longrightarrow> line_of ws \<noteq> [] \<and> hd (line_of ws) = hd (hd ws)"
  by (cases ws) (auto simp: hd_append)

lemma length_words: "length ws \<le> Suc (length (line_of ws))"
  by (induction ws rule: line_of.induct) auto

text \<open>The rest of a line after its words: nothing, an ampersand, an ampersand and a space.\<close>

fun tail_words :: "string \<Rightarrow> string list" where
  "tail_words [] = []"
| "tail_words l = (if l = '' &'' then [''&''] else [''&'', []])"

lemma line_tail:
  assumes "ws \<noteq> []" "tail \<in> {[], '' &'', '' & ''}"
  shows "line_of ws @ tail = line_of (ws @ tail_words tail)"
  using assms by (auto simp: line_of_append)

lemma tail_words_simps:
  "tail \<in> {[], '' &'', '' & ''} \<Longrightarrow> last_is_amp (ws @ tail_words tail) = (if tail = '' &'' then 1 else if tail = [] then last_is_amp ws else 0)"
  "tail \<in> {[], '' &'', '' & ''} \<Longrightarrow> args_of (tail_words tail) = []"
  "tail \<in> {[], '' &'', '' & ''} \<Longrightarrow> w \<in> set (tail_words tail) \<Longrightarrow> CHR '' '' \<notin> set w \<and> NUL \<notin> set w \<and> NL \<notin> set w"
  by (auto simp: last_is_amp_def)

lemma plain_not_amp: "ws \<noteq> [] \<Longrightarrow> \<forall>w \<in> set ws. plain_word w \<Longrightarrow> last_is_amp ws = 0"
  using last_in_set by (auto simp: last_is_amp_def plain_word_def)

lemma plain_line:
  assumes "ws \<noteq> []" "\<forall>w \<in> set ws. plain_word w" "tail \<in> {[], '' &'', '' & ''}"
  shows "words_of (CHR '' '') [] (line_of ws @ tail) = ws @ tail_words tail" "NL \<notin> set (line_of ws @ tail)"
    "line_of ws @ tail \<noteq> [] \<and> hd (line_of ws @ tail) \<noteq> CHR '' ''"
    "last_is_amp (ws @ tail_words tail) = (if tail = '' &'' then 1 else 0)" "args_of (ws @ tail_words tail) = ws"
proof -
  have c: "\<forall>w \<in> set (ws @ tail_words tail). CHR '' '' \<notin> set w \<and> NUL \<notin> set w \<and> NL \<notin> set w"
    using assms(2) tail_words_simps(3) [OF assms(3)] by (auto simp: plain_word_def)
  note e = line_tail [OF assms(1,3)]
  show "words_of (CHR '' '') [] (line_of ws @ tail) = ws @ tail_words tail"
    unfolding e using assms(1) c by (intro words_of_line) auto
  show "NL \<notin> set (line_of ws @ tail)" unfolding e using c by (intro line_of_chars) auto
  have h: "plain_word (hd ws)" using assms(1,2) by simp
  then have "hd ws \<noteq> []" "CHR '' '' \<notin> set (hd ws)" by (simp_all add: plain_word_def)
  then show "line_of ws @ tail \<noteq> [] \<and> hd (line_of ws @ tail) \<noteq> CHR '' ''"
    using hd_line_of [OF assms(1)] hd_in_set [of "hd ws"] by (metis append_is_Nil_conv hd_append2)
  show "last_is_amp (ws @ tail_words tail) = (if tail = '' &'' then 1 else 0)"
    using tail_words_simps(1) [OF assms(3)] plain_not_amp [OF assms(1,2)] by simp
  show "args_of (ws @ tail_words tail) = ws" using args_of_plain [OF assms(2)] tail_words_simps(2) [OF assms(3)] by simp
qed

lemma words_fit:
  assumes "ws \<noteq> []" "\<forall>w \<in> set ws. plain_word w" "tail \<in> {[], '' &'', '' & ''}" "length (line_of ws @ tail) < 999"
  shows "length (ws @ tail_words tail) < 1000"
proof -
  have "length (ws @ tail_words tail) \<le> Suc (length (line_of ws @ tail))"
    using words_of_length [of "CHR '' ''" "[]" "line_of ws @ tail"] plain_line(1) [OF assms(1-3)] by simp
  then show ?thesis using assms(4) by linarith
qed

text \<open>C4: a typed line becomes the argument vector. For words that are not empty and have no space, NUL or newline in
  them, and are not \<^verbatim>\<open>&\<close>, \<open>strtokBeta\<close> on the words with one space between them leaves exactly these words in the
  vector and stops at a null pointer. An ampersand behind the last word is taken off and makes the command a
  background command, unless the line goes on with a space behind it: then it is taken off and forgotten.\<close>

theorem typed_words_become_arguments:
  assumes "ws \<noteq> []" and "\<forall>w \<in> set ws. plain_word w" and "tail \<in> {[], '' &'', '' & ''}"
    and "length (line_of ws @ tail) < 999" and "holds ROW str (line_of ws @ tail)" and "rows_ready t"
  shows "\<exists>t'. strtokBeta 1000 str (CHR '' '') t bg = Some (t', if tail = '' &'' then 1 else 0)
    \<and> vector_strings 1000 (strs t') (rows_of t') 0 = Some ws"
proof -
  note p = plain_line [OF assms(1-3)]
  have n: "length (words_of (CHR '' '') [] (line_of ws @ tail)) < 1000" using words_fit [OF assms(1-4)] unfolding p(1) .
  have t: "\<forall>m < 1000. strs t m = Some m" using assms(6) by (simp add: rows_ready_def)
  obtain t' where "strtokBeta 1000 str (CHR '' '') t bg = Some (t', if tail = '' &'' then 1 else 0)" "parsed 0 (ws @ tail_words tail) t t'"
    using strtokBeta_words [OF assms(5) p(2) _ _ _ n t, of bg] p(1,3,4) by auto
  then show ?thesis using vector_strings_parsed [of 0 "ws @ tail_words tail" t t' 1000] words_fit [OF assms(1-4)] p(5) by auto
qed

section \<open>Parsing a line\<close>

lemma parseInput_words:
  assumes "holds ROW (input sh) cs" "NL \<notin> set cs" "cs \<noteq> [] \<Longrightarrow> hd cs \<noteq> CHR '' ''" "length cs < 999" "rows_ready (toks sh)"
  obtains t t' where "parsed 0 (words_of (CHR '' '') [] cs) t t'"
    "parseInput fr r temp v sh s
      = run_command fr r temp v (sh\<lparr>toks := t', isBackground := last_is_amp (words_of (CHR '' '') [] cs), command := strs t' 0\<rparr>) s"
proof -
  have n: "length (words_of d [] cs) < 1000" for d using words_of_length [of d "[]" cs] assms(4) by linarith
  have r: "\<forall>m < 1000. strs (toks sh) m = Some m" using assms(5) by (simp add: rows_ready_def)
  obtain t1 b1 where 1: "strtokBeta 1000 (input sh) (CHR ''|'') (toks sh) (isBackground sh) = Some (t1, b1)"
    by (rule strtokBeta_words [OF assms(1,2) _ _ assms(3) n r, of "CHR ''|''" "isBackground sh"]) simp_all
  let ?sh = "clearArguments (sh\<lparr>toks := t1, isBackground := b1\<rparr>)"
  have i: "input ?sh = input sh" "\<forall>m < 1000. strs (toks ?sh) m = Some m" by (simp_all add: clearArguments_def)
  obtain t' where 2: "strtokBeta 1000 (input ?sh) (CHR '' '') (toks ?sh) (isBackground ?sh) = Some (t', last_is_amp (words_of (CHR '' '') [] cs))"
    "parsed 0 (words_of (CHR '' '') [] cs) (toks ?sh) t'"
    unfolding i(1) by (rule strtokBeta_words [OF assms(1,2) _ _ assms(3) n i(2), of "CHR '' ''" "isBackground ?sh"]) simp_all
  show ?thesis by (rule that [OF 2(2)]) (use 1 2(1) in \<open>simp add: parseInput_def Let_def\<close>, simp add: clearArguments_def)
qed

section \<open>Lines that read through a null pointer\<close>

lemma strcmp_s_words: "strcmp_s ''export'' ''cd'' \<noteq> 0" "strcmp_s ''export'' ''export'' = 0" "strcmp_s ''PS1'' ''PS1'' = 0"
    "c2i (CHR ''e'') \<noteq> c2i (CHR ''c'')"
  by (simp_all add: strcmp_s_eq_0 c2i_inj)

lemma parsed_first:
  assumes "parsed 0 (w # ws) t t'" and "w \<noteq> ''&''" and "ws \<noteq> [] \<or> w \<noteq> []"
  shows "strs t' 0 = Some 0" "row_string ROW (rows_of t' 0) = Some w"
proof -
  have "holds ROW (rows_of t' (0 + 0)) ((w # ws) ! 0)
    \<and> strs t' (0 + 0) = (if (w # ws) ! 0 = ''&'' \<or> Suc 0 = length (w # ws) \<and> (w # ws) ! 0 = [] then None else Some (0 + 0))"
    using assms(1) unfolding parsed_def by blast
  then show "strs t' 0 = Some 0" "row_string ROW (rows_of t' 0) = Some w" using assms(2,3) holds_row_string by auto
qed

lemma parsed_end: "parsed 0 ws t t' \<Longrightarrow> n = length ws \<Longrightarrow> strs t' n = None"
  by (simp add: parsed_def)

lemma parsed_amp: "parsed 0 (''&'' # ws) t t' \<Longrightarrow> strs t' 0 = None"
  unfolding parsed_def by (auto dest: spec [of _ 0])

lemma parsed_second:
  assumes "parsed 0 (w # w1 # ws) t t'" and "w1 \<noteq> ''&''" and "ws \<noteq> [] \<or> w1 \<noteq> []"
  shows "strs t' 1 = Some 1" "holds ROW (rows_of t' 1) w1"
proof -
  have "1 < length (w # w1 # ws)" by simp
  then have "holds ROW (rows_of t' (0 + 1)) ((w # w1 # ws) ! 1)
    \<and> strs t' (0 + 1) = (if (w # w1 # ws) ! 1 = ''&'' \<or> Suc 1 = length (w # w1 # ws) \<and> (w # w1 # ws) ! 1 = [] then None else Some (0 + 1))"
    using assms(1) unfolding parsed_def by blast
  then show "strs t' 1 = Some 1" "holds ROW (rows_of t' 1) w1" using assms(2,3) by auto
qed

text \<open>A line of one space: the only word is empty.\<close>

lemma strtokBeta_space:
  assumes "holds ROW str '' ''" and "d \<noteq> NUL" and "rows_ready t"
  obtains t' where "strtokBeta 1000 str d t bg = Some (t', 0)" "strs t' 0 = None"
proof -
  have c: "str 0 = CHR '' ''" "str 1 = NUL" using assms(1) by (auto simp: holds_def)
  have "skipspaces str 1 = Some 1" using skipspaces_later [of 1 str] by simp
  then have sk: "skipspaces str 0 = Some 1" using c by (subst skipspaces.simps) simp
  have t: "strs t 0 = Some 0" using assms(3) by (simp add: rows_ready_def)
  obtain t1 where t1: "put_tok 1000 0 0 NUL t = Some t1" "isBackgroundTask 1000 t1 0 = Some 0" "strs t1 = strs t"
    using end_of_word [of 0 1000 "[]" t] t by auto
  have "strtok_loop 1000 str d 0 0 0 t bg = Some (t1\<lparr>strs := (strs t1)(0 := None, Suc 0 := None)\<rparr>, 0)"
    using c sk t1 by (subst strtok_loop.simps) (simp add: makeNullExecvp_def null_tok_def)
  then show ?thesis using that by (simp add: strtokBeta_def)
qed

lemma parseInput_space:
  assumes "holds ROW (input sh) '' ''" and "rows_ready (toks sh)"
  shows "parseInput fr r temp v sh s = None"
proof -
  obtain t1 where 1: "strtokBeta 1000 (input sh) (CHR ''|'') (toks sh) (isBackground sh) = Some (t1, 0)"
    by (rule strtokBeta_space [OF assms(1) _ assms(2), of "CHR ''|''" "isBackground sh"]) simp_all
  let ?sh = "clearArguments (sh\<lparr>toks := t1, isBackground := 0\<rparr>)"
  have i: "holds ROW (input ?sh) '' ''" "rows_ready (toks ?sh)" using assms(1) by (simp_all add: clearArguments_def rows_ready_def)
  obtain t2 where 2: "strtokBeta 1000 (input ?sh) (CHR '' '') (toks ?sh) (isBackground ?sh) = Some (t2, 0)" "strs t2 0 = None"
    by (rule strtokBeta_space [OF i(1) _ i(2), of "CHR '' ''" "isBackground ?sh"]) simp_all
  show ?thesis using 1 2 by (simp add: parseInput_def run_command_def Let_def)
qed

text \<open>C38: four short lines make the shell read through a null pointer, in whatever state the system is and with any contents
  of the shell's variables, as long as its argument pointers are set, as \<open>initArgs\<close> and \<open>clearArguments\<close> leave them: a
  single space and a single ampersand (the command has no pointer), \<^verbatim>\<open>export\<close> (its argument has none) and
  \<^verbatim>\<open>export PS1\<close> (the part behind the equal sign has none).\<close>

theorem null_pointer_lines:
  assumes "holds ROW (input sh) line" and "line \<in> {'' '', ''&'', ''export'', ''export PS1''}" and "rows_ready (toks sh)"
  shows "parseInput fr r temp v sh s = None"
proof (cases "line = '' ''")
  case True
  then show ?thesis using parseInput_space assms(1,3) by simp
next
  case False
  then have l: "NL \<notin> set line" "hd line \<noteq> CHR '' ''" "length line < 999" using assms(2) by auto
  let ?ws = "words_of (CHR '' '') [] line"
  obtain t t' where p: "parsed 0 ?ws t t'" "parseInput fr r temp v sh s
      = run_command fr r temp v (sh\<lparr>toks := t', isBackground := last_is_amp ?ws, command := strs t' 0\<rparr>) s"
    by (rule parseInput_words [OF assms(1) l(1) l(2) l(3) assms(3), of fr r temp v s])
  consider "?ws = [''&'']" | "?ws = [''export'']" | "?ws = [''export'', ''PS1'']" using assms(2) False by auto
  then show ?thesis
  proof cases
    case 1
    have "strs t' 0 = None" using p(1) unfolding 1 by (rule parsed_amp)
    then show ?thesis unfolding p(2) by (simp add: run_command_def)
  next
    case 2
    have pp: "parsed 0 [''export''] t t'" using p(1) unfolding 2 .
    have f: "strs t' 0 = Some 0" "row_string ROW (rows_of t' 0) = Some ''export''" by (rule parsed_first [OF pp], simp_all)+
    have "strs t' 1 = None" by (rule parsed_end [OF pp]) simp
    then show ?thesis unfolding p(2) using f by (simp add: run_command_def strcmp_s_words changeSbush_def)
  next
    case 3
    have pp: "parsed 0 [''export'', ''PS1''] t t'" using p(1) unfolding 3 .
    have f: "strs t' 0 = Some 0" "row_string ROW (rows_of t' 0) = Some ''export''" by (rule parsed_first [OF pp], simp_all)+
    have g: "strs t' 1 = Some 1" "holds ROW (rows_of t' 1) ''PS1''" using parsed_second [OF pp] by simp_all
    have w: "words_of (CHR ''='') [] ''PS1'' = [''PS1'']" by simp
    let ?t = "\<lparr>strs = (\<lambda>i. if i < 3 then Some i else None), rows_of = temp\<rparr>"
    obtain u where u: "strtokBeta 3 (rows_of t' 1) (CHR ''='') ?t (last_is_amp ?ws) = Some (u, last_is_amp [''PS1''])" "parsed 0 [''PS1''] ?t u"
      by (rule strtokBeta_words [OF g(2), of "CHR ''=''" 3 ?t "last_is_amp ?ws", unfolded w]) simp_all
    have "tok_string 3 0 u = Some ''PS1''" using parsed_first [OF u(2)] by (simp add: tok_string_def)
    moreover have "strs u 1 = None" by (rule parsed_end [OF u(2)]) simp
    then have "tok_string 3 1 u = None" by (simp add: tok_string_def)
    ultimately show ?thesis unfolding p(2) using f g(1) u(1) by (simp add: run_command_def strcmp_s_words changeSbush_def)
  qed
qed

section \<open>The prompt\<close>

text \<open>A series of \<^verbatim>\<open>cd\<close> commands, each with the token table that its line left; what comes behind
  \<^verbatim>\<open>cd\<close> is no word, or a string in some row.\<close>

fun cds :: "tokens list \<Rightarrow> shell \<Rightarrow> system \<Rightarrow> shell reply option" where
  "cds [] sh s = Some (Reply sh s)"
| "cds (t # ts) sh s = and_then (changeDirectory (sh\<lparr>toks := t\<rparr>) s) (cds ts)"

fun cd_word :: "tokens \<Rightarrow> string option \<Rightarrow> bool" where
  "cd_word t None \<longleftrightarrow> strs t 1 = None"
| "cd_word t (Some str) \<longleftrightarrow> (\<exists>p > 0. strs t 1 = Some p \<and> holds ROW (rows_of t p) str \<and> length str < 99
     \<and> (str = [] \<longrightarrow> rows_of t (p - 1) (ROW - 1) \<noteq> CHR 0x2F))"

text \<open>What the kernel makes of them: a word is a path for \<open>chdir\<close>, which may be refused; the states after each.\<close>

fun cd_dir :: "fs \<Rightarrow> string option \<Rightarrow> kernel \<Rightarrow> kernel option" where
  "cd_dir f None k = Some k"
| "cd_dir f (Some str) k = map_option snd (chdir (if str \<noteq> [] \<and> last str = CHR 0x2F then str else str @ ''/'') f k)"

fun cd_dirs :: "fs \<Rightarrow> string option list \<Rightarrow> kernel \<Rightarrow> kernel list option" where
  "cd_dirs f [] k = Some []"
| "cd_dirs f (a # as) k = do {
     k \<leftarrow> cd_dir f a k;
     ks \<leftarrow> cd_dirs f as k;
     Some (k # ks)
   }"

lemma puts_s_printed: "puts_s str s = Some (Reply 0 (printed str s))"
  by (simp add: puts_s_def kprintf_def conversion_def printed_def eoi_def)

lemma puts_s_stub: "user_str s a = Some str \<Longrightarrow> puts fr r a s = puts_s str s"
  by (simp add: puts_s_printed puts_printed)

lemma setprompt_eq:
  assumes "getCurrentDirectory (kern s) = Some d"
  shows "setprompt p sh s = (if length p + length d + 2 < 100 then Some (Reply (sh\<lparr>pwd := d, prompt := p @ '':'' @ d @ ''>''\<rparr>) (eoi s)) else None)"
proof -
  have "setprompt p sh s = do {
     d \<leftarrow> strcpy_field 100 d;
     p \<leftarrow> strcpy_field 100 p;
     p \<leftarrow> strcpy_field 100 (p @ '':'');
     p \<leftarrow> strcpy_field 100 (p @ d);
     p \<leftarrow> strcpy_field 100 (p @ ''>'');
     Some (Reply (sh\<lparr>pwd := d, prompt := p\<rparr>) (eoi s))
   }" using assms unfolding setprompt_def getcwd_s_def by simp
  then show ?thesis unfolding strcpy_field_def by (cases "length p + length d + 2 < 100") (auto split: if_splits)
qed

lemma chdir_s_eq:
  assumes "length str < 99" and "str = [] \<longrightarrow> before \<noteq> CHR 0x2F"
    and "cd_dir (tarfs s) (Some str) (kern s) = Some k"
  shows "\<exists>v. chdir_s before str s = Some (Reply v (eoi (set_kernel k s)))"
proof -
  let ?p = "if str \<noteq> [] \<and> last str = CHR 0x2F then str else str @ ''/''"
  obtain v where v: "chdir ?p (tarfs s) (kern s) = Some (v, k)" using assms(3) by auto
  have "(if last (before # str) \<noteq> CHR 0x2F then str @ ''/'' else str) = ?p" using assms(2) by simp
  then show ?thesis using v assms(1) by (auto simp: chdir_s_def strcpy_field_def split: if_splits)
qed

lemma changeDirectory_step:
  assumes w: "cd_word t a" and k: "cd_dir (tarfs s) a (kern s) = Some k" and d: "getCurrentDirectory k = Some d"
  shows "\<exists>s'. kern s' = k \<and> tarfs s' = tarfs s \<and> changeDirectory (sh\<lparr>toks := t\<rparr>) s
     = (if length (prompt sh) + length d + 2 < 100 then Some (Reply (sh\<lparr>toks := t, pwd := d, prompt := prompt sh @ '':'' @ d @ ''>''\<rparr>) s') else None)"
proof -
  have "\<exists>s1. kern s1 = k \<and> tarfs s1 = tarfs s \<and> changeDirectory (sh\<lparr>toks := t\<rparr>) s = setprompt (prompt sh) (sh\<lparr>toks := t\<rparr>) s1"
  proof (cases a)
    case None
    then show ?thesis using w k
      by (intro exI [of _ "printed (''Usage : cd <path>'' @ [NL]) s"]) (simp add: changeDirectory_def puts_s_printed)
  next
    case (Some str)
    then obtain p where p: "0 < p" "strs t 1 = Some p" "row_string ROW (rows_of t p) = Some str" "length str < 99"
      "str = [] \<longrightarrow> rows_of t (p - 1) (ROW - 1) \<noteq> CHR 0x2F"
      using w holds_row_string by auto
    obtain v where v: "chdir_s (rows_of t (p - 1) (ROW - 1)) str s = Some (Reply v (eoi (set_kernel k s)))"
      using chdir_s_eq [OF p(4,5)] k Some by blast
    show ?thesis using p(1,2,3) v
      by (intro exI [of _ "if v \<noteq> 0 then printed (''Invalid path'' @ [NL]) (eoi (set_kernel k s)) else eoi (set_kernel k s)"])
        (simp add: changeDirectory_def puts_s_printed set_kernel_def)
  qed
  then obtain s1 where s1: "kern s1 = k" "tarfs s1 = tarfs s" "changeDirectory (sh\<lparr>toks := t\<rparr>) s = setprompt (prompt sh) (sh\<lparr>toks := t\<rparr>) s1"
    by blast
  then show ?thesis using setprompt_eq [of s1 d "prompt sh" "sh\<lparr>toks := t\<rparr>"] d by (intro exI [of _ "eoi s1"]) simp
qed

lemma cds_spec:
  "list_all2 cd_word ts as \<Longrightarrow> cd_dirs (tarfs s) as (kern s) = Some ks \<Longrightarrow> map getCurrentDirectory ks = map Some ds \<Longrightarrow> length (prompt sh) < 100 \<Longrightarrow>
   if length (prompt sh) + sum_list (map (\<lambda>d. length d + 2) ds) < 100
   then \<exists>sh' s'. cds ts sh s = Some (Reply sh' s') \<and> prompt sh' = prompt sh @ concat (map (\<lambda>d. '':'' @ d @ ''>'') ds)
      \<and> kern s' = last (kern s # ks)
   else cds ts sh s = None"
proof (induction ts arbitrary: as ks ds sh s)
  case Nil
  then show ?case by auto
next
  case (Cons t ts)
  obtain a as' where as: "as = a # as'" "cd_word t a" "list_all2 cd_word ts as'" using Cons.prems(1) by (cases as) auto
  obtain k ks' where k: "ks = k # ks'" "cd_dir (tarfs s) a (kern s) = Some k" "cd_dirs (tarfs s) as' k = Some ks'"
    using Cons.prems(2) unfolding as(1) by (auto split: bind_splits)
  obtain d ds' where d: "ds = d # ds'" "getCurrentDirectory k = Some d" "map getCurrentDirectory ks' = map Some ds'"
    using Cons.prems(3) unfolding k(1) by (cases ds) auto
  obtain s1 where s1: "kern s1 = k" "tarfs s1 = tarfs s" "changeDirectory (sh\<lparr>toks := t\<rparr>) s
     = (if length (prompt sh) + length d + 2 < 100 then Some (Reply (sh\<lparr>toks := t, pwd := d, prompt := prompt sh @ '':'' @ d @ ''>''\<rparr>) s1) else None)"
    using changeDirectory_step [OF as(2) k(2) d(2), of sh] by blast
  show ?case
  proof (cases "length (prompt sh) + length d + 2 < 100")
    case True
    let ?sh = "sh\<lparr>toks := t, pwd := d, prompt := prompt sh @ '':'' @ d @ ''>''\<rparr>"
    have l: "length (prompt ?sh) = length (prompt sh) + (length d + 2)" by simp
    then have lt: "length (prompt ?sh) < 100" using True by linarith
    have e: "cds (t # ts) sh s = cds ts ?sh s1" using True s1(3) by simp
    have sum: "length (prompt sh) + sum_list (map (\<lambda>d. length d + 2) ds) = length (prompt ?sh) + sum_list (map (\<lambda>d. length d + 2) ds')"
      unfolding d(1) l by simp
    have c: "prompt ?sh @ concat (map (\<lambda>d. '':'' @ d @ ''>'') ds') = prompt sh @ concat (map (\<lambda>d. '':'' @ d @ ''>'') ds)"
      unfolding d(1) by simp
    have ks': "cd_dirs (tarfs s1) as' (kern s1) = Some ks'" using k(3) s1(1,2) by simp
    have lst: "last (kern s # ks) = last (k # ks')" unfolding k(1) by simp
    have "if length (prompt sh) + sum_list (map (\<lambda>d. length d + 2) ds) < 100
      then \<exists>sh' s'. cds (t # ts) sh s = Some (Reply sh' s') \<and> prompt sh' = prompt sh @ concat (map (\<lambda>d. '':'' @ d @ ''>'') ds)
        \<and> kern s' = last (k # ks')
      else cds (t # ts) sh s = None" using Cons.IH [OF as(3) ks' d(3) lt] unfolding sum e c s1(1) .
    then show ?thesis unfolding lst .
  next
    case False
    then show ?thesis using s1(3) unfolding d(1) by simp
  qed
qed

text \<open>C39: every \<^verbatim>\<open>cd\<close> makes the prompt longer, with a path or without one (then it prints its usage), whether the
  path (below 99 characters) is a directory or not. Over any series of \<^verbatim>\<open>cd\<close> commands each appends a colon, the directory the task is in
  afterwards and an angle bracket to the old prompt, and the kernel's state is the one the calls of \<open>chdir\<close> lead to, as long as all of this fits
  the array of 100 characters; otherwise some \<^verbatim>\<open>cd\<close> of the series writes behind it.\<close>

theorem prompt_outgrows_its_array:
  assumes "list_all2 cd_word ts as" and "cd_dirs (tarfs s) as (kern s) = Some ks" and "map getCurrentDirectory ks = map Some ds"
    and "length (prompt sh) < 100"
  shows "if length (prompt sh) + sum_list (map (\<lambda>d. length d + 2) ds) < 100
     then \<exists>sh' s'. cds ts sh s = Some (Reply sh' s') \<and> prompt sh' = prompt sh @ concat (map (\<lambda>d. '':'' @ d @ ''>'') ds)
        \<and> kern s' = last (kern s # ks)
     else cds ts sh s = None"
  using cds_spec [OF assms] .

section \<open>Scripts do not run\<close>

lemma fopen_s_stub: "user_str s a = Some nm \<Longrightarrow> fopen fr r a s = fopen_s nm s"
proof -
  have "int_of_reg (reg_of_int 0) = 0" by simp
  then show "user_str s a = Some nm \<Longrightarrow> fopen fr r a s = fopen_s nm s"
    by (cases "openTarfsFile nm 0 (tarfs s) (kern s)")
      (auto simp: fopen_def fopen_s_def open_lib_def int80_def case_open_def trap_return_def eoi_def set_kernel_def user_str_def)
qed

lemma readStr_s_file:
  assumes "0 < d" "d < 100" and e: "f_address (fd (cur (kern s)) (nat d)) = word_of_int h" "f_size (fd (cur (kern s)) (nat d)) = v"
    and h: "0 \<le> h" "h < 2 ^ 64" and c: "cstr (tm (tarfs s)) h (c # nm)" and n: "length nm \<le> 4096"
  shows "if unat v < 4096 then \<exists>b. readStr_s fr d 4096 buf s = Some (Reply b (eoi s)) \<and> holds 4096 b (take (unat v) nm)
    else readStr_s fr d 4096 buf s = None"
proof -
  let ?nm = "take (unat v) nm"
  obtain m' where m': "readTarfsFile d 0 4096 (tarfs s) (kern s) (\<lambda>_. NUL) = Some (int (min (unat v) 4096), m')"
    "\<forall>j \<le> length ?nm. m' (int j) = (?nm @ [NUL]) ! j"
    using read_file [OF _ assms(2) e h c n, of 0 "\<lambda>_. NUL"] assms(1) by auto
  obtain q where q: "q = min (unat v) 4096" by blast
  have r: "readStr_s fr d 4096 buf s
      = (if q < 4096 then Some (Reply (\<lambda>i. if int i \<le> int q then m' (int i) else buf i) (eoi s)) else None)"
    using m'(1) assms(1) unfolding q [symmetric] by (simp add: readStr_s_def)
  show ?thesis
  proof (cases "unat v < 4096")
    case True
    let ?b = "\<lambda>i. if int i \<le> int q then m' (int i) else buf i"
    have "cstr (tm (tarfs s)) (h + 1) nm" using c by simp
    then have "NUL \<notin> set ?nm" using cstr_no_NUL set_take_subset [of "unat v" nm] by blast
    moreover have "length ?nm \<le> q" "length ?nm < 4096" using True n unfolding q by auto
    ultimately have "holds 4096 ?b ?nm" using m'(2) by (auto simp: holds_def nth_append)
    moreover have "q < 4096" using True unfolding q by simp
    ultimately show ?thesis using r True by auto
  next
    case False
    then show ?thesis using r unfolding q by simp
  qed
qed

lemma one_line_no_command:
  "NL \<notin> set cs \<Longrightarrow> cmdNum sh = 0 \<Longrightarrow> commandList sh 0 = Some p \<Longrightarrow> cmdOffset sh + length cs \<le> 100 \<Longrightarrow>
   \<exists>sh'. makeCommandList_loop cs sh = Some sh' \<and> cmdNum sh' = 0"
proof (induction cs arbitrary: sh)
  case (Cons c cs)
  let ?sh = "sh\<lparr>commandSet := (commandSet sh)(p := (commandSet sh p)(cmdOffset sh := c)), cmdOffset := cmdOffset sh + 1\<rparr>"
  have "\<exists>sh'. makeCommandList_loop cs ?sh = Some sh' \<and> cmdNum sh' = 0"
    by (rule Cons.IH) (use Cons.prems in auto)
  moreover have "c \<noteq> NL" using Cons.prems(1) by auto
  ultimately show ?case using Cons.prems by (simp add: put_command_def)
qed simp

text \<open>C40: a script is never run. The shell started with the name of an existing file, with a descriptor left, opens it and reads the tar header in
  place of the contents, in which no line ends. What happens depends on \<open>sz\<close>, which the kernel takes for the size: the
  binary digits of the octal size field read as a decimal number. If it is below 4096 (a file of at most 15 bytes, and few others, for instance
  one of 56 bytes, octal 70, since the digit 7 counts as 0), the shell ends with the result 0: nothing is printed, no command
  is run, and in the kernel only the caller's descriptors have changed. Otherwise (10000 already for 16 bytes) the kernel
  writes a NUL behind the array \<open>inpString\<close> of 4096 characters.\<close>

theorem script_never_runs:
  assumes "argc \<noteq> 1" and "1 < length argv" and "user_str s (argv ! 1) = Some p"
    and "file_named (tarfs s) (kern s) p h (c # nm) sz" and "0 \<le> h" and "h < 2 ^ 64" and "NL \<notin> set nm"
    and "0 \<le> fd_c (cur (kern s))" and "fd_c (cur (kern s)) + 3 < 100"
    and "getCurrentDirectory (kern s) = Some d" and "length d < 93" and "getenvlength v \<le> 100"
  shows "if unat sz < 4096
    then \<exists>s'. sbush_main fr r temp buf sh0 argc argv envp v s = Some (Reply 0 s') \<and> con s' = con s \<and> fd_changed (kern s) (kern s')
    else sbush_main fr r temp buf sh0 argc argv envp v s = None"
proof -
  let ?d = "fd_c (cur (kern s)) + 3" and ?nm = "take (unat sz) nm"
  have arg: "arg_ptr argv 1 = argv ! 1" using assms(2) by (simp add: arg_ptr_def)
  have l: "length nm < 50" using assms(4) by (auto simp: file_named_def)
  obtain sh1 where sp: "setprompt ''sbush'' (initArgs sh0) s = Some (Reply sh1 (eoi s))"
    using setprompt_eq [OF assms(10), of "''sbush''" "initArgs sh0"] assms(11) by simp
  obtain k1 where k1: "fopen fr r (argv ! 1) (eoi s) = Some (Reply ?d (eoi (set_kernel k1 (eoi s))))" "fd_changed (kern s) k1"
    "f_address (fd (cur k1) (nat ?d)) = word_of_int h" "f_size (fd (cur k1) (nat ?d)) = sz"
    using fopen_file [of "eoi s" "argv ! 1" p h "c # nm" sz fr r] assms(3,4,8,9) by auto
  have f: "fopen_s p (eoi s) = Some (Reply ?d (eoi (set_kernel k1 (eoi s))))"
    using fopen_s_stub [of "eoi s" "argv ! 1" p fr r] assms(3) k1(1) by simp
  let ?s1 = "eoi (set_kernel k1 (eoi s))"
  have s1: "kern ?s1 = k1" "tarfs ?s1 = tarfs s" "con ?s1 = con s" by (simp_all add: set_kernel_def)
  have cs: "cstr (tm (tarfs ?s1)) h (c # nm)" using assms(4) unfolding s1 by (auto simp: file_named_def)
  have d: "0 < ?d" "?d < 100" "?d \<noteq> - 1" using assms(8,9) by simp_all
  have l4: "length nm \<le> 4096" using l by simp
  have fd1: "f_address (fd (cur (kern ?s1)) (nat ?d)) = word_of_int h" "f_size (fd (cur (kern ?s1)) (nat ?d)) = sz"
    using k1(3,4) unfolding s1 .
  note b = readStr_s_file [OF d(1,2) fd1 assms(5,6) cs l4, of fr buf]
  let ?sh = "initCommandList (sh1\<lparr>envpe := \<lambda>i. if i < getenvlength v then Some (fst (getallenv i)) else envpe sh1 i,
     cmdNum := 0, cmdOffset := 0\<rparr>)"
  show ?thesis
  proof (cases "unat sz < 4096")
    case True
    then obtain b where b: "readStr_s fr ?d 4096 buf ?s1 = Some (Reply b (eoi ?s1))" "holds 4096 b ?nm" using b by auto
    have "NL \<notin> set ?nm" using assms(7) set_take_subset [of "unat sz" nm] by blast
    moreover have "cmdNum ?sh = 0" "commandList ?sh 0 = Some 0" "cmdOffset ?sh + length ?nm \<le> 100"
      using l by (simp_all add: initCommandList_def)
    ultimately obtain sh' where sh': "makeCommandList_loop ?nm ?sh = Some sh'" "cmdNum sh' = 0"
      using one_line_no_command by blast
    have m: "makeCommandList b ?sh = Some sh'" using holds_row_string [OF b(2)] sh'(1) by (simp add: makeCommandList_def)
    have "sbush_main fr r temp buf sh0 argc argv envp v s = Some (Reply 0 (eoi ?s1))"
      unfolding sbush_main_def sp using assms(1,3,12) d(3) arg f b(1) m sh'(2) by (simp add: setenvs_def Let_def)
    then show ?thesis using k1(2) s1 True by auto
  next
    case False
    then have n: "readStr_s fr ?d 4096 buf ?s1 = None" using b by simp
    have "sbush_main fr r temp buf sh0 argc argv envp v s = None"
      unfolding sbush_main_def sp using assms(1,3,12) d(3) arg f n by (simp add: setenvs_def Let_def)
    then show ?thesis using False by simp
  qed
qed

section \<open>A typed line starts a program\<close>

text \<open>The arrays as the shell leaves them between two lines, without environment.\<close>

definition shell_ready :: "shell \<Rightarrow> bool" where
  "shell_ready sh \<longleftrightarrow> rows_ready (toks sh) \<and> (\<forall>i < 1000. input sh i = NUL) \<and> envpe sh 0 = None"

lemma gets_s_line:
  assumes "typed (con s, kern s) (l # ls) part" and "length l \<le> n" and "state (cur (kern s)) = RUNNING"
  shows "\<exists>s'. gets_s fr n buf s = Some (Reply (\<lambda>i. if i < length l then l ! i else buf i) s')
    \<and> kern s' = kern s \<and> tarfs s' = tarfs s \<and> typed (con s', kern s') ls part"
proof -
  let ?k = "upd_task (currentTask (kern s)) (\<lambda>t. t\<lparr>state := RUNNING\<rparr>) (kern s)"
  have k: "?k = kern s" using assms(3) by (intro kernel.equality) (auto simp: upd_task_def intro: taskStruct.equality)
  obtain c' m' where c': "intRead 0 (resume_at fr) (con s) (\<lambda>_. NUL) (kern s) = Some (Line c' m' ?k)" "typed (c', kern s) ls part"
    "rd_offset c' = rd_offset (con s) + int (length l) + 1" "\<forall>j < length l. m' (0 + int j) = l ! j"
    using intRead_line [OF assms(1), of 0 "resume_at fr" "\<lambda>_. NUL" "kern s"] by blast
  have "nat (getoffset c' - 1 - getoffset (con s)) = length l" using c'(3) by (simp add: getoffset_def)
  moreover have "(\<lambda>i. if i < length l then m' (int i) else buf i) = (\<lambda>i. if i < length l then l ! i else buf i)"
    using c'(4) by auto
  ultimately show ?thesis using c'(1,2) k assms(2)
    by (intro exI [of _ "eoi (s\<lparr>con := c', kern := ?k\<rparr>)"]) (simp add: gets_s_def Let_def)
qed

lemma typed_printed: "typed (con s, k) ls part \<Longrightarrow> typed (con (printed str s), k') ls part"
  by (simp add: typed_def)

lemma shell_turn_line:
  assumes "typed (con s, kern s) (l # ls) part" and "state (cur (kern s)) = RUNNING" and "l \<noteq> []" and "length l < 999" and "NUL \<notin> set l"
    and "l \<noteq> ''exit''" and "l \<noteq> ''quit''" and "\<forall>i < 1000. input sh i = NUL"
  shows "\<exists>s1 b. kern s1 = kern s \<and> tarfs s1 = tarfs s \<and> typed (con s1, kern s1) ls part \<and> holds ROW b l
    \<and> shell_turn fr r temp v sh s = and_then (clearCommandData fr r temp v (sh\<lparr>input := b\<rparr>) s1) (\<lambda>sh s. Some (Reply (Some sh) s))"
proof -
  let ?s = "printed (prompt sh) s" and ?b = "\<lambda>i. if i < length l then l ! i else input sh i"
  have "typed (con ?s, kern ?s) (l # ls) part" using typed_printed [OF assms(1)] by simp
  then obtain s1 where s1: "gets_s fr 1000 (input sh) ?s = Some (Reply ?b s1)" "kern s1 = kern s" "tarfs s1 = tarfs s" "typed (con s1, kern s1) ls part"
    using gets_s_line [of ?s l ls part 1000 fr "input sh"] assms(2,4) by auto
  have h: "holds ROW ?b l" using assms(4,5,8) by (auto simp: holds_def)
  have "?b 0 = l ! 0" using assms(3) by simp
  then have "?b 0 \<noteq> NUL" using assms(3,5) by (metis length_greater_0_conv nth_mem)
  moreover have "strcmp_s l ''exit'' \<noteq> 0" "strcmp_s l ''quit'' \<noteq> 0" using assms(5-7) by (simp_all add: strcmp_s_eq_0)
  ultimately have "shell_turn fr r temp v sh s = and_then (clearCommandData fr r temp v (sh\<lparr>input := ?b\<rparr>) s1) (\<lambda>sh s. Some (Reply (Some sh) s))"
    using s1(1) holds_row_string [OF h] by (simp add: shell_turn_def readInput_def puts_s_printed)
  then show ?thesis using s1(2-4) h by blast
qed

lemma run_command_starts:
  assumes "command sh = Some 0" "row_string ROW (rows_of (toks sh) 0) = Some w" "w \<notin> {''cd'', ''export'', ''clear'', ''pwd''}" "NUL \<notin> set w"
    and "vector_strings 1000 (strs (toks sh)) (rows_of (toks sh)) 0 = Some ws" "envpe sh 0 = None"
  shows "run_command fr r temp v sh s = and_then (fork_lib fr r s) (after_fork fr r w ws [] sh)"
proof -
  have "strcmp_s w ''cd'' \<noteq> 0" "strcmp_s w ''export'' \<noteq> 0" "strcmp_s w ''clear'' \<noteq> 0" "strcmp_s w ''pwd'' \<noteq> 0"
    using assms(3,4) by (simp_all add: strcmp_s_eq_0)
  moreover have n: "(100 :: nat) = Suc 99" by simp
  have "vector_strings 100 (envpe sh) (env_var v) 0 = Some []" unfolding n vector_strings.simps assms(6) by simp
  ultimately show ?thesis using assms(1,2,5) by (simp add: run_command_def execCommand_def)
qed

lemma child_starts_program:
  assumes "startable (tarfs s) w fa fs" "args_fit ws" "exec_space (kern s) fs lim K"
  shows "\<exists>s' av. after_fork fr r w ws [] sh 0 s = Some (Gone s') \<and> cpu_rip (kern s') = e_entry (read_Ehdr (tm (tarfs s)) fa)
    \<and> name (cur (kern s')) = ''bin/'' @ w \<and> currentTask (kern s') = currentTask (kern s)
    \<and> start_args (pg (kern s')) (cr3 (kern s')) (cpu_rsp (kern s') - 8) = Some (int (length ws), av, [])
    \<and> map (user_string (pg (kern s')) (cr3 (kern s'))) av = map Some ws"
proof -
  obtain k' av where k': "execvpe (tarfs s) (fresh_area fr) (behind_argc fr) (args_rows fr) (envs_rows fr) w ws [] (kern s) = Some (Entered k')"
    "cpu_rip k' = e_entry (read_Ehdr (tm (tarfs s)) fa)" "currentTask k' = currentTask (kern s)" "name (cur k') = ''bin/'' @ w"
    "start_args (pg k') (cr3 k') (cpu_rsp k' - 8) = Some (int (length ws), av, [])" "map (user_string (pg k') (cr3 k')) av = map Some ws"
    using execvpe_enters [OF assms, of "fresh_area fr" "behind_argc fr" "args_rows fr" "envs_rows fr"] by blast
  have "after_fork fr r w ws [] sh 0 s = Some (Gone (set_kernel k' s))"
    using k'(1) by (simp add: after_fork_def exec_child_def execvp_s_def)
  then show ?thesis using k'(2-6) by (intro exI [of _ "set_kernel k' s"] exI [of _ av]) (simp add: set_kernel_def)
qed

lemma and_then_assoc: "and_then (and_then x f) g = and_then x (\<lambda>v s. and_then (f v s) g)"
  by (cases "(x, f)" rule: and_then.cases) auto

text \<open>What a turn does with a line of words: it calls \<open>fork\<close>, and goes on with the child's pid or 0.\<close>

abbreviation turn_after :: "call_frame \<Rightarrow> registersAligned \<Rightarrow> string list \<Rightarrow> shell \<Rightarrow> u32 \<Rightarrow> system \<Rightarrow> shell option reply option" where
  "turn_after fr r ws sh child0 s \<equiv> and_then (after_fork fr r (hd ws) ws [] sh child0 s)
     (\<lambda>sh s. Some (Reply (Some (clearArguments (clearCommand (clearInput sh)))) s))"

lemma shell_line_forks:
  assumes "typed (con s, kern s) ((line_of ws @ tail) # ls) part" and "state (cur (kern s)) = RUNNING" and "shell_ready sh"
    and "ws \<noteq> []" and "\<forall>w \<in> set ws. plain_word w" and "hd ws \<notin> {''cd'', ''export'', ''clear'', ''pwd'', ''exit'', ''quit''}"
    and "tail \<in> {[], '' &'', '' & ''}" and "length (line_of ws @ tail) < 999"
  shows "\<exists>s1 sh1. kern s1 = kern s \<and> tarfs s1 = tarfs s \<and> typed (con s1, kern s1) ls part
    \<and> shell_turn fr r temp v sh s = and_then (fork_lib fr r s1) (turn_after fr r ws sh1)
    \<and> isBackground sh1 = (if tail = '' &'' then 1 else 0) \<and> shell_ready (clearArguments (clearCommand (clearInput sh1)))"
proof -
  let ?l = "line_of ws @ tail" and ?wt = "ws @ tail_words tail"
  note p = plain_line [OF assms(4,5,7)]
  have w: "\<forall>x \<in> set ?wt. CHR '' '' \<notin> set x \<and> NUL \<notin> set x \<and> NL \<notin> set x"
    using assms(5) tail_words_simps(3) [OF assms(7)] by (auto simp: plain_word_def)
  have nul: "NUL \<notin> set ?l" unfolding line_tail [OF assms(4,7)] by (rule line_of_chars) (use w in auto)
  have ne: "words_of (CHR '' '') [] ?l \<noteq> [x]" if "x \<in> {''exit'', ''quit''}" for x
    using assms(4,6) that unfolding p(1) by (cases ws) auto
  have q: "?l \<noteq> ''exit''" "?l \<noteq> ''quit''" using ne [of "''exit''"] ne [of "''quit''"] by fastforce+
  have i0: "\<forall>i < 1000. input sh i = NUL" and rr: "rows_ready (toks sh)" and e0: "envpe sh 0 = None" using assms(3) by (simp_all add: shell_ready_def)
  obtain s1 b where s1: "kern s1 = kern s" "typed (con s1, kern s1) ls part" "holds ROW b ?l" "tarfs s1 = tarfs s"
    "shell_turn fr r temp v sh s = and_then (clearCommandData fr r temp v (sh\<lparr>input := b\<rparr>) s1) (\<lambda>sh s. Some (Reply (Some sh) s))"
    using shell_turn_line [OF assms(1,2) _ assms(8) nul q i0, of fr r temp v] p(3) by blast
  let ?sh = "sh\<lparr>input := b\<rparr>"
  obtain t t' where t: "parsed 0 ?wt t t'" "parseInput fr r temp v ?sh s1 = run_command fr r temp v
      (?sh\<lparr>toks := t', isBackground := if tail = '' &'' then 1 else 0, command := strs t' 0\<rparr>) s1"
    using parseInput_words [of ?sh ?l fr r temp v s1] s1(3) p assms(8) rr by auto
  obtain w0 wr where ws: "ws = w0 # wr" using assms(4) by (cases ws) auto
  have w0: "plain_word w0" using assms(5) ws by simp
  have f: "strs t' 0 = Some 0" "row_string ROW (rows_of t' 0) = Some w0"
    using parsed_first [of w0 "wr @ tail_words tail" t t'] t(1) w0 unfolding ws by (simp_all add: plain_word_def)
  have a: "vector_strings 1000 (strs t') (rows_of t') 0 = Some ws"
    using vector_strings_parsed [OF t(1), of 1000] words_fit [OF assms(4,5,7,8)] p(5) by simp
  let ?sh1 = "?sh\<lparr>toks := t', isBackground := if tail = '' &'' then 1 else 0, command := Some 0\<rparr>"
  have run: "parseInput fr r temp v ?sh s1 = and_then (fork_lib fr r s1) (after_fork fr r w0 ws [] ?sh1)"
    unfolding t(2) f(1) by (rule run_command_starts) (use f a e0 w0 ws assms(6) in \<open>auto simp: plain_word_def\<close>)
  have "shell_turn fr r temp v sh s = and_then (fork_lib fr r s1) (turn_after fr r ws ?sh1)"
    unfolding s1(5) clearCommandData_def run ws list.sel(1) and_then_assoc by simp
  moreover have "shell_ready (clearArguments (clearCommand (clearInput ?sh1)))"
    using e0 by (simp add: shell_ready_def rows_ready_def clearArguments_def clearCommand_def clearInput_def)
  ultimately show ?thesis using s1(1,2,4) by (intro exI [of _ s1] exI [of _ ?sh1]) simp
qed

lemma child_enters:
  assumes "execvpe (tarfs s) (fresh_area fr) (behind_argc fr) (args_rows fr) (envs_rows fr) (hd ws) ws [] (kern s) = Some (Entered k')"
  shows "turn_after fr r ws sh 0 s = Some (Gone (s\<lparr>kern := k'\<rparr>))"
  using assms by (simp add: after_fork_def exec_child_def execvp_s_def set_kernel_def)

text \<open>C3: a typed line starts a program. In the loop of the shell, with a line of words in the keyboard buffer of which the first is
  no built-in command, one turn prints the prompt, takes the line, calls \<open>fork\<close>, and goes on with its result. With a free task slot and
  frames enough, that result is the child's pid in the parent, which is then
  ready for the next line: at once for a line that ends with an ampersand, otherwise when \<open>waitpid\<close> for the child's pid
  returns. With the result 0, in the child, whatever has become of the system: if the first word names a program that can be
  loaded and there are at most 20 words (the \<open>argv[20]\<close> of \<^verbatim>\<open>crt1.c\<close>), each below 100 characters, which fit the stack's page, the turn enters that program, and \<open>_start\<close> finds as its arguments exactly the words of the line.\<close>

theorem shell_starts_program:
  assumes "typed (con s, kern s) ((line_of ws @ tail) # ls) part" and "state (cur (kern s)) = RUNNING" and "shell_ready sh"
    and "ws \<noteq> []" and "\<forall>w \<in> set ws. plain_word w" and "hd ws \<notin> {''cd'', ''export'', ''clear'', ''pwd'', ''exit'', ''quit''}"
    and "tail \<in> {[], '' &'', '' & ''}" and "length (line_of ws @ tail) < 999"
    and "newPID (kern s) = Some c" and "0 < c" and "c \<noteq> currentTask (kern s)" and "forkable (kern s) lim K (f # fs)"
    and "kstack (cur (kern s)) 14 \<noteq> 9999"
  shows "\<exists>s1 s2 sh1 sh2. kern s1 = kern s \<and> typed (con s1, kern s1) ls part \<and> shell_ready sh2
    \<and> shell_turn fr r temp v sh s = and_then (fork_lib fr r s1) (turn_after fr r ws sh1)
    \<and> fork_lib fr r s1 = Some (Reply (of_nat c) s2) \<and> rip (regs (taskQueue (kern s2) c)) = ret_at fr
    \<and> turn_after fr r ws sh1 (of_nat c) s2 = (if tail = '' &'' then Some (Reply (Some sh2) s2)
        else and_then (waitpid_lib fr r (of_nat c) 0 s2) (\<lambda>_ s. Some (Reply (Some sh2) s)))
    \<and> (\<forall>s3 fa fs lim K. startable (tarfs s3) (hd ws) fa fs \<longrightarrow> args_fit ws \<longrightarrow> exec_space (kern s3) fs lim K \<longrightarrow>
         (\<exists>s4 av. turn_after fr r ws sh1 0 s3 = Some (Gone s4) \<and> currentTask (kern s4) = currentTask (kern s3)
            \<and> cpu_rip (kern s4) = e_entry (read_Ehdr (tm (tarfs s3)) fa) \<and> name (cur (kern s4)) = ''bin/'' @ hd ws
            \<and> start_args (pg (kern s4)) (cr3 (kern s4)) (cpu_rsp (kern s4) - 8) = Some (int (length ws), av, [])
            \<and> map (user_string (pg (kern s4)) (cr3 (kern s4))) av = map Some ws))"
proof -
  obtain s1 sh1 where s1: "kern s1 = kern s" "typed (con s1, kern s1) ls part"
    "shell_turn fr r temp v sh s = and_then (fork_lib fr r s1) (turn_after fr r ws sh1)"
    "isBackground sh1 = (if tail = '' &'' then 1 else 0)" "shell_ready (clearArguments (clearCommand (clearInput sh1)))"
    using shell_line_forks [OF assms(1-8), of fr r temp v] by blast
  obtain s2 where s2: "fork_lib fr r s1 = Some (Reply (of_nat c) s2)" "rip (regs (taskQueue (kern s2) c)) = ret_at fr"
    using fork_lib_returns [of s1 c lim K f fs fr r] assms(9,11-13) s1(1) by auto
  let ?sh2 = "clearArguments (clearCommand (clearInput sh1))"
  have "c < MAX_TASKS" using newPID_Some [OF assms(9)] by simp
  then have "(of_nat c :: u32) \<noteq> 0" using assms(10) by (simp add: word_unat_eq_iff unat_of_nat MAX_TASKS_def)
  then have "turn_after fr r ws sh1 (of_nat c) s2 = (if tail = '' &'' then Some (Reply (Some ?sh2) s2)
        else and_then (waitpid_lib fr r (of_nat c) 0 s2) (\<lambda>_ s. Some (Reply (Some ?sh2) s)))"
    using s1(4) by (simp add: after_fork_def and_then_assoc)
  moreover note s1(1-3,5) s2
  moreover have "\<exists>s4 av. turn_after fr r ws sh1 0 s3 = Some (Gone s4) \<and> currentTask (kern s4) = currentTask (kern s3)
            \<and> cpu_rip (kern s4) = e_entry (read_Ehdr (tm (tarfs s3)) fa) \<and> name (cur (kern s4)) = ''bin/'' @ hd ws
            \<and> start_args (pg (kern s4)) (cr3 (kern s4)) (cpu_rsp (kern s4) - 8) = Some (int (length ws), av, [])
            \<and> map (user_string (pg (kern s4)) (cr3 (kern s4))) av = map Some ws"
    if c: "startable (tarfs s3) (hd ws) fa fs" "args_fit ws" "exec_space (kern s3) fs lim K" for s3 fa fs lim K
  proof -
    obtain s4 av where "after_fork fr r (hd ws) ws [] sh1 0 s3 = Some (Gone s4)" "cpu_rip (kern s4) = e_entry (read_Ehdr (tm (tarfs s3)) fa)"
      "name (cur (kern s4)) = ''bin/'' @ hd ws" "currentTask (kern s4) = currentTask (kern s3)"
      "start_args (pg (kern s4)) (cr3 (kern s4)) (cpu_rsp (kern s4) - 8) = Some (int (length ws), av, [])"
      "map (user_string (pg (kern s4)) (cr3 (kern s4))) av = map Some ws" using child_starts_program [OF c, of fr r sh1] by blast
    then show ?thesis by (intro exI [of _ s4] exI [of _ av]) simp
  qed
  ultimately show ?thesis by (intro exI [of _ s1] exI [of _ s2] exI [of _ sh1] exI [of _ ?sh2]) simp
qed

section \<open>Examples\<close>

text \<open>The zeroed data segment with the pointers set, and a console on which a line was typed.\<close>

abbreviation blank :: "nat \<Rightarrow> char" where
  "blank \<equiv> \<lambda>_. NUL"

definition shell0 :: shell where
  "shell0 = \<lparr>isBackground = 0, input = blank, pwd = ''/'', com = blank, toks = \<lparr>strs = Some, rows_of = (\<lambda>_. blank)\<rparr>,
     prompt = ''sbush:/>'', command = None, envpe = (\<lambda>_. None), commandSet = (\<lambda>_. blank), commandList = (\<lambda>_. None), cmdNum = 0, cmdOffset = 0\<rparr>"

definition console_line :: "string \<Rightarrow> console" where
  "console_line l = console0\<lparr>inpStr := (\<lambda>i. if 0 \<le> i \<and> nat i \<le> length l then (l @ [NL]) ! nat i else NUL),
     strOffset := int (length l) + 1, lineCount := 1\<rparr>"

lemma typed_console_line: "NL \<notin> set l \<Longrightarrow> length l < 4096 \<Longrightarrow> typed (console_line l, k) [l] []"
  by (auto simp: typed_def console_line_def console0_def buffered_def cells_def)

lemma shell0_ready: "shell_ready shell0" "rows_ready (toks shell0)"
  by (simp_all add: shell_ready_def rows_ready_def shell0_def)

theorem typed_words_become_arguments_witness:
  "\<exists>t'. strtokBeta 1000 (put_string 0 ''ls bin &'' blank) (CHR '' '') (toks shell0) 0 = Some (t', 1)
     \<and> vector_strings 1000 (strs t') (rows_of t') 0 = Some [''ls'', ''bin'']"
proof -
  have "holds ROW (put_string 0 (line_of [''ls'', ''bin''] @ '' &'') blank) (line_of [''ls'', ''bin''] @ '' &'')"
    by (rule put_string_holds) simp_all
  then show ?thesis using typed_words_become_arguments [OF _ _ _ _ _ shell0_ready(2), of "[''ls'', ''bin'']" "'' &''" _ 0]
    by (simp add: plain_word_def)
qed

theorem null_pointer_lines_witness:
  "parseInput frame0 regs0 (\<lambda>_. blank) undefined (shell0\<lparr>input := put_string 0 ''export PS1'' blank\<rparr>)
     \<lparr>kern = kernel_user, con = console0, tarfs = echo_fs, clock = timer0 0\<rparr> = None"
proof -
  let ?sh = "shell0\<lparr>input := put_string 0 ''export PS1'' blank\<rparr>"
  have "holds ROW (put_string 0 ''export PS1'' blank) ''export PS1''" by (rule put_string_holds) simp_all
  then show ?thesis using null_pointer_lines [of ?sh "''export PS1''"] shell0_ready(2) by simp
qed

lemma kernel_user_simps:
  "newPID kernel_user = Some 3" "state (cur kernel_user) = RUNNING" "kstack (cur kernel_user) 14 \<noteq> 9999" "currentTask kernel_user = 2"
  "getCurrentDirectory kernel_user = Some ''/''"
  by (auto simp: newPID_def first_index_Some checkTaskState_def MAX_TASKS_def kernel_user_def less_Suc_eq numeral_eq_Suc)
    (simp_all add: getCurrentDirectory_def kernel_fork_def kernel_fam_def upd_task_def kernel0_def task0_def)

text \<open>From \<open>/\<close>: to \<^verbatim>\<open>bin\<close>, a name that is no directory, and thirty times without an argument.\<close>

lemma cd_bin_dirs:
  defines "k \<equiv> upd_task 2 (\<lambda>t. t\<lparr>curr_dir := ''/bin/''\<rparr>) kernel_user"
  shows "cd_dirs fs3 (Some ''bin'' # Some ''x'' # replicate n None) kernel_user = Some (k # k # replicate n k)"
    and "getCurrentDirectory k = Some ''/bin''"
proof -
  have c: "curr_dir (cur kernel_user) = ''/''" "currentTask kernel_user = 2" "currentTask k = 2" "curr_dir (cur k) = ''/bin/''"
    by (simp_all add: k_def kernel_fork_def kernel_fam_def upd_task_def kernel0_def task0_def kernel_user_def)
  show "getCurrentDirectory k = Some ''/bin''" unfolding getCurrentDirectory_def c(4) by simp
  have d1: "derive_string (\<lambda>_. NUL) ''/'' (join_path [''bin''] @ []) = Some (join_path (resolve [] [''bin'']) @ [])"
    by (rule derive_string_file_path) (simp_all add: file_path_def good_component_def component_def previousDir_def)
  then have "derive_string (stk fs3) (curr_dir (cur kernel_user)) ''bin/'' = Some ''bin/''" unfolding c(1) fs3_simps by (simp add: dotdot_def)
  note d1 = this
  have "derive_string (\<lambda>_. NUL) (CHR 0x2F # join_path [''bin'']) (join_path [''x''] @ []) = Some (join_path (resolve [] [''bin'', ''x'']) @ [])"
    by (rule derive_string_file_path) (simp_all add: file_path_def good_component_def component_def previousDir_def)
  then have d2: "derive_string (stk fs3) (curr_dir (cur k)) ''x/'' = Some ''bin/x/''" unfolding c(4) fs3_simps by (simp add: dotdot_def)
  have "\<exists>i. isValidDirectory fs3 kernel_user ''bin/'' = Some i \<and> (i > -1 \<longleftrightarrow> ''bin/'' \<in> set (take 32 [''bin/'', ''bin/ls'', ''bin/ps'']))"
    by (rule isValidDirectory_eq [OF fs3_simps(3) d1]) simp_all
  then obtain i where i: "isValidDirectory fs3 kernel_user ''bin/'' = Some i" "i > -1" by auto
  have "\<exists>i. isValidDirectory fs3 k ''x/'' = Some i \<and> (i > -1 \<longleftrightarrow> ''bin/x/'' \<in> set (take 32 [''bin/'', ''bin/ls'', ''bin/ps'']))"
    by (rule isValidDirectory_eq [OF fs3_simps(3) d2]) simp_all
  then obtain j where j: "isValidDirectory fs3 k ''x/'' = Some j" "\<not> j > -1" by auto
  have ne: "strcmp_s ''../'' ''bin/'' \<noteq> 0" "strcmp_s ''../'' ''x/'' \<noteq> 0" by (subst strcmp_s_eq_0; simp)+
  have "cd_dir fs3 (Some ''bin'') kernel_user = Some k"
    using i d1 ne by (simp add: chdir_def strcpy_field_def k_def c(2))
  moreover have "cd_dir fs3 (Some ''x'') k = Some k" using j ne by (simp add: chdir_def)
  moreover have "cd_dirs fs3 (replicate n None) k = Some (replicate n k)" by (induction n) simp_all
  ultimately show "cd_dirs fs3 (Some ''bin'' # Some ''x'' # replicate n None) kernel_user = Some (k # k # replicate n k)"
    by (simp del: cd_dir.simps)
qed

theorem prompt_outgrows_its_array_witness:
  "\<exists>t1 t2 t3. let s = \<lparr>kern = kernel_user, con = console0, tarfs = fs3, clock = timer0 0\<rparr> in
   (\<exists>sh' s'. cds [t1, t2, t3] shell0 s = Some (Reply sh' s') \<and> prompt sh' = ''sbush:/>:/bin>:/bin>:/bin>'' \<and> curr_dir (cur (kern s')) = ''/bin/'')
   \<and> cds (t1 # t2 # replicate 30 t3) shell0 s = None"
proof -
  let ?s = "\<lparr>kern = kernel_user, con = console0, tarfs = fs3, clock = timer0 0\<rparr>"
  let ?k = "upd_task 2 (\<lambda>t. t\<lparr>curr_dir := ''/bin/''\<rparr>) kernel_user"
  let ?t = "\<lambda>w. \<lparr>strs = Some, rows_of = (\<lambda>_. blank)(1 := put_string 0 w blank)\<rparr>" and ?t3 = "\<lparr>strs = (\<lambda>_. None), rows_of = (\<lambda>_. blank)\<rparr>"
  have w: "cd_word (?t str) (Some str)" if "NUL \<notin> set str" "str \<noteq> []" "length str < 99" for str
    using that put_string_holds [of str ROW blank] by auto
  have tw: "list_all2 cd_word (?t ''bin'' # ?t ''x'' # replicate n ?t3) (Some ''bin'' # Some ''x'' # replicate n None)" for n
  proof -
    have "list_all2 cd_word (replicate n ?t3) (replicate n None)" by (simp add: list_all2_conv_all_nth)
    then show ?thesis using w [of "''bin''"] w [of "''x''"] by (simp del: cd_word.simps(2))
  qed
  have c: "cd_dirs (tarfs ?s) (Some ''bin'' # Some ''x'' # replicate n None) (kern ?s) = Some (?k # ?k # replicate n ?k)" for n
    using cd_bin_dirs(1) by simp
  have g: "map getCurrentDirectory (?k # ?k # replicate n ?k) = map Some (''/bin'' # ''/bin'' # replicate n ''/bin'')" for n
    using cd_bin_dirs(2) by simp
  have p: "prompt shell0 = ''sbush:/>''" "length (prompt shell0) < 100" by (simp_all add: shell0_def)
  have k: "curr_dir (cur ?k) = ''/bin/''" by (simp add: kernel_user_simps(4))
  show ?thesis unfolding Let_def
    using prompt_outgrows_its_array [OF tw [of 1] c [of 1] g [of 1] p(2)] prompt_outgrows_its_array [OF tw [of 30] c [of 30] g [of 30] p(2)]
      k unfolding p(1) by (intro exI [of _ "?t ''bin''"] exI [of _ "?t ''x''"] exI [of _ ?t3]) (auto simp: sum_list_replicate)
qed

theorem script_never_runs_witness:
  "\<exists>p s'. sbush_main frame0 regs0 (\<lambda>_. blank) blank shell0 2 [0, 0x5020] [] \<lparr>env_var = (\<lambda>_. blank), env_length = 0, envBuffer = blank\<rparr>
      \<lparr>kern = kernel_fork\<lparr>cr3 := 0x30000, pg := p\<rparr>, con = console0, tarfs = fs3, clock = timer0 0\<rparr> = Some (Reply 0 s') \<and> con s' = console0"
proof -
  obtain p0 fs where p0: "task_space p0 0x30000 fs 0x10000 (kernel_tables (pm fork_paging) 0x10000)" "user_range p0 0x30000 0x5000 4096"
    using one_page_space by blast
  have "user_range p0 0x30000 0x5020 (length ''bin/ls'' + 1)" by (rule user_range_sub [OF p0(2)]) simp_all
  then obtain p where p: "string_at p 0x30000 0x5020 ''bin/ls''" using copy_string_at [OF p0(1)] by blast
  let ?s = "\<lparr>kern = kernel_fork\<lparr>cr3 := 0x30000, pg := p\<rparr>, con = console0, tarfs = fs3, clock = timer0 0\<rparr>"
    and ?v = "\<lparr>env_var = (\<lambda>_. blank), env_length = 0, envBuffer = blank\<rparr>"
  have "user_string p 0x30000 0x5020 = Some ''bin/ls''" by (rule user_string_at [OF p]) simp
  then have a: "user_str ?s ([0, 0x5020] ! 1) = Some ''bin/ls''" by (simp add: user_str_def)
  have k: "fd_c (cur (kern ?s)) = 0" "curr_dir (cur (kern ?s)) = ''/''" "getCurrentDirectory (kern ?s) = Some ''/''"
    by (simp_all add: kernel_fork_def kernel_fam_def upd_task_def kernel0_def task0_def getCurrentDirectory_def)
  have f: "file_named (tarfs ?s) (kern ?s) ''bin/ls'' 2000 (CHR ''b'' # ''in/ls'') 11" using bin_ls_file [OF k(2)] by simp
  obtain s' where "sbush_main frame0 regs0 (\<lambda>_. blank) blank shell0 2 [0, 0x5020] [] ?v ?s = Some (Reply 0 s')" "con s' = con ?s"
    using script_never_runs [OF _ _ a f _ _ _ _ _ k(3), of 2 ?v frame0 regs0 "\<lambda>_. blank" blank shell0 "[]"] k(1)
    by (auto simp: getenvlength_def)
  then show ?thesis by (intro exI [of _ p] exI [of _ s']) simp
qed

lemma kernel_user_forkable: "forkable kernel_user 0x10000 (kernel_tables (pm fork_paging) 0x10000) (0x1000 # fork_frame_list)"
  using kernel_fork_ready by (simp add: forkable_def kernel_user_def del: fork_paging_simps)

theorem shell_starts_program_witness:
  "let s = \<lparr>kern = kernel_user, con = console_line ''a -x &'', tarfs = echo_fs, clock = timer0 0\<rparr> in
   (\<exists>s' sh'. shell_turn frame0 regs0 (\<lambda>_. blank) undefined shell0 s = Some (Reply (Some sh') s') \<and> shell_ready sh')
   \<and> (\<exists>sh1 s4. turn_after frame0 regs0 [''a'', ''-x''] sh1 0 s = Some (Gone s4) \<and> name (cur (kern s4)) = ''bin/a'')"
proof -
  let ?s = "\<lparr>kern = kernel_user, con = console_line ''a -x &'', tarfs = echo_fs, clock = timer0 0\<rparr>" and ?ws = "[''a'', ''-x'']"
  have "typed (con ?s, kern ?s) [''a -x &''] []" using typed_console_line by simp
  then have t: "typed (con ?s, kern ?s) ((line_of ?ws @ '' &'') # []) []" by simp
  have w: "?ws \<noteq> []" "\<forall>w \<in> set ?ws. plain_word w" "hd ?ws \<notin> {''cd'', ''export'', ''clear'', ''pwd'', ''exit'', ''quit''}"
    "'' &'' \<in> {[], '' &'', '' & ''}" "length (line_of ?ws @ '' &'') < 999" by (simp_all add: plain_word_def)
  have k: "state (cur (kern ?s)) = RUNNING" "newPID (kern ?s) = Some 3" "0 < (3 :: nat)" "3 \<noteq> currentTask (kern ?s)"
    "forkable (kern ?s) 0x10000 (kernel_tables (pm fork_paging) 0x10000) (0x1000 # fork_frame_list)" "kstack (cur (kern ?s)) 14 \<noteq> 9999"
    using kernel_user_simps(1-4) kernel_user_forkable by (simp_all del: fork_paging_simps)
  have c: "startable (tarfs ?s) (hd ?ws) 0x1200 (0x1000 # fork_frame_list)" "args_fit ?ws"
    "exec_space (kern ?s) (0x1000 # fork_frame_list) 0x10000 (kernel_tables (pm fork_paging) 0x10000)"
    using echo_startable kernel_user_space by (simp_all add: args_fit_def strings_size_def del: fork_paging_simps)
  obtain s2 sh1 sh2 where r: "shell_ready sh2" "shell_turn frame0 regs0 (\<lambda>_. blank) undefined shell0 ?s = Some (Reply (Some sh2) s2)"
    and ch: "\<forall>s3 fa fs lim K. startable (tarfs s3) (hd ?ws) fa fs \<longrightarrow> args_fit ?ws \<longrightarrow> exec_space (kern s3) fs lim K \<longrightarrow>
         (\<exists>s4 av. turn_after frame0 regs0 ?ws sh1 0 s3 = Some (Gone s4) \<and> currentTask (kern s4) = currentTask (kern s3)
            \<and> cpu_rip (kern s4) = e_entry (read_Ehdr (tm (tarfs s3)) fa) \<and> name (cur (kern s4)) = ''bin/'' @ hd ?ws
            \<and> start_args (pg (kern s4)) (cr3 (kern s4)) (cpu_rsp (kern s4) - 8) = Some (int (length ?ws), av, [])
            \<and> map (user_string (pg (kern s4)) (cr3 (kern s4))) av = map Some ?ws)"
    using shell_starts_program [OF t k(1) shell0_ready(1) w k(2-6), of frame0 regs0 "\<lambda>_. blank" undefined] by auto
  from ch c obtain s4 where "turn_after frame0 regs0 ?ws sh1 0 ?s = Some (Gone s4)" "name (cur (kern s4)) = ''bin/'' @ hd ?ws" by blast
  then show ?thesis using r unfolding Let_def by auto
qed

end
