(* ===== verification/Spec2Isabelle.thy ===== *)
theory Spec2Isabelle
  imports Keyboard Files Fork DirectMap UserHeap LibStrings Interrupts UserMemory Exec Boot LibCalls Environment Programs Shell
begin

text \<open>
  A model of the lateOS kernel (\<^verbatim>\<open>sys/*.c\<close>), of its C library (\<^verbatim>\<open>libc/*.c\<close>), of its start-up code
  (\<^verbatim>\<open>crt/crt1.c\<close>) and of its programs and shell (\<^verbatim>\<open>bin/*/*.c\<close>), with the theorems that make their parts correct
  and those that show where they are not.

  \<^bold>\<open>The program.\<close> lateOS is a small 64 bit kernel. It boots from a memory map and a tar archive, builds a
  direct map of physical memory from 0 up to the last free frame and four-level page tables, keeps 1100 task slots in an array, switches
  between tasks in \<open>schedule\<close>, runs ELF programs from the archive in user mode, duplicates address
  spaces copy-on-write, and offers its services through interrupt 128.

  \<^bold>\<open>State.\<close> The record \<open>kernel\<close> of \<open>Tasks\<close> is \<open>currentTask\<close>, \<open>taskQueue\<close> and the registers that the assembly
  in \<open>process.c\<close> reads and writes (\<open>cpu_rsp\<close>, \<open>cpu_rip\<close>, \<open>cr3\<close>, the stack pointer in the TSS). Its field
  \<open>pg\<close> is the record \<open>paging\<close> of \<open>Frames\<close>: physical memory as a function from the addresses of 64 bit words to words, the free list and the
  static pointers of \<^verbatim>\<open>sys/paging.c\<close>. Byte memory that no page table describes (the archive, kernel strings) is a function
  \<open>mem\<close> from addresses to characters. The screen is the record \<open>terminal\<close>, the keyboard the record
  \<open>console\<close>, the headers of the archive the record \<open>fs\<close>. The record \<open>system\<close> of \<open>Syscalls\<close> joins them.

  \<^bold>\<open>Errors.\<close> A function that may read or write outside the memory it has, index outside an array, divide by
  zero or loop for ever returns an \<open>option\<close>; \<open>None\<close> is that undefined behaviour. Loops without a bound
  are \<open>partial_function (option)\<close>, so not returning is \<open>None\<close> too, and the theorems show that a result
  exists. A call that gives the processor to another task is split where \<open>schedule\<close> switches: the outcome
  says whether it returned or blocked. There is no fuel.

  \<^bold>\<open>Theories.\<close>
  \<^item> \<open>LatePrelude\<close>: word and list lemmas, \<open>bind\<close> splitting rules and abbreviations shared by all of them.
  \<^item> \<open>CStrings\<close> (\<^verbatim>\<open>sys/string.c\<close>, \<open>memset\<close>, \<open>memcpy\<close>): C strings in byte memory, each function against its
    specification on Isabelle strings.
  \<^item> \<open>Frames\<close>, \<open>PageTables\<close>, \<open>KernelMap\<close>, \<open>DirectMap\<close>, \<open>KernelHeap\<close>, \<open>UserMemory\<close> (\<^verbatim>\<open>sys/paging.c\<close>): the free
    list built from the boot memory map, as a queue contract (\<open>frame_source\<close>); mapping one page, with the
    isolation of the other addresses; the kernel's tables and \<open>kmalloc\<close>; what user code reads through them.
  \<^item> \<open>CowTables\<close>, \<open>ForkTables\<close>, \<open>Fork\<close>, \<open>PageFaults\<close> (\<open>copytables\<close>, \<open>fork\<close>, \<open>isr14\<close>): parent and child read the
    same memory, and after a write of one the other still reads the old word.
  \<^item> \<open>Tasks\<close>, \<open>Scheduler\<close>, \<open>Lifecycle\<close> (\<^verbatim>\<open>sys/process.c\<close>): the task table; \<open>schedule\<close> as round-robin selection;
    exit, wait, waitpid, kill, sleep and the timer.
  \<^item> \<open>Loader\<close>, \<open>Exec\<close> (\<open>readELFandFork\<close>, \<open>readELFandExec\<close>, \<open>execvpe\<close>, \<open>createNewTask\<close>, \<open>_start\<close>): the segments are
    in user memory, and the program reads from its stack the arguments it was given.
  \<^item> \<open>Archive\<close>, \<open>Paths\<close>, \<open>Files\<close> (\<^verbatim>\<open>sys/tarfs.c\<close>): headers of the archive, path normalisation, descriptors.
  \<^item> \<open>Terminal\<close>, \<open>Keyboard\<close> (\<^verbatim>\<open>sys/kprintf.c\<close>, \<^verbatim>\<open>sys/keyboard.c\<close>): the text screen and the line editor.
  \<^item> \<open>Interrupts\<close>, \<open>Gdt\<close> (\<^verbatim>\<open>sys/idt.c\<close>, \<^verbatim>\<open>sys/gdt.c\<close>): gates, the clock and its preemption, descriptors.
  \<^item> \<open>UserHeap\<close>, \<open>LibStrings\<close> (\<^verbatim>\<open>libc/util_sys.c\<close>, \<^verbatim>\<open>libc/string_sys.c\<close>): the free-list allocator of the
    library, with the invariant that allocated blocks never overlap; its string functions.
  \<^item> \<open>Syscalls\<close>, \<open>LibCalls\<close> (\<open>isr128\<close>; the stubs of \<^verbatim>\<open>libc/*.c\<close>): each case of the dispatch over the whole
    system, with the caller's strings and buffers read and written through its page tables, and the stubs
    on top of it: a stub is the register loads of its inline assembly followed by \<open>isr128\<close>.
  \<^item> \<open>System\<close>, \<open>Boot\<close> (\<^verbatim>\<open>sys/main.c\<close>): one step relation of system calls, clock, keys, faults, switches and
    user stores; every step keeps the task table well formed, and the boot, which ends in the shell, sets it up.
  \<^item> \<open>Environment\<close> (\<^verbatim>\<open>libc/util_sys.c\<close>, \<^verbatim>\<open>crt/crt1.c\<close>): the environment array, and \<open>_start\<close>, which reads the
    arguments from the stack, calls \<open>main\<close> and exits with its result. A program is the type \<open>program\<close>.
  \<^item> \<open>Programs\<close> (\<^verbatim>\<open>bin/echo\<close>, \<^verbatim>\<open>cat\<close>, \<^verbatim>\<open>ls\<close>, \<^verbatim>\<open>kill\<close>, \<^verbatim>\<open>sleep\<close>, \<^verbatim>\<open>ps\<close>): their \<open>main\<close> over the stubs, their strings in user
    memory; \<^verbatim>\<open>echo\<close> is followed from \<open>execvpe\<close> to the screen.
  \<^item> \<open>Shell\<close> (\<^verbatim>\<open>bin/sbush/sbush.c\<close>): the shell, followed from a typed line to the arguments that the program it
    names finds. It works on its own arrays, which are a record, so its library calls take strings for addresses.

  \<^bold>\<open>Lemmas.\<close> Each theory has its operations, then the invariant or specification they keep, then the
  properties. The contracts between theories are locales (\<open>frame_source\<close>, the allocator and the string
  interfaces), each interpreted on the operations of the model. The theorem of this theory joins the keyboard,
  the shell, \<open>fork\<close>, \<open>execvpe\<close>, the C runtime, \<^verbatim>\<open>echo\<close> and the terminal.

  \<^bold>\<open>Not modelled.\<close> \<^verbatim>\<open>include/sys/ahci.h\<close> declares a disk controller that no code uses. The assembly files
  and the inline assembly that saves registers, loads descriptor tables or halts have no model beyond the
  registers named above. Values that the hardware or uninitialised memory supplies (scan codes, the fault
  address, stack garbage) are arguments. Compiled programs are bytes of the archive: that the code at the entry
  point of a file is the \<open>main\<close> modelled here is not stated, and the theorems on programs begin behind \<open>execvpe\<close>. The depth of a task's kernel stack of 4096 bytes is not
  modelled: the local arrays of \<open>execvpe\<close> alone take 20100. The headers of the user allocator's blocks are maps
  beside the memory of the task, so an access to a header never faults. The nodes of a task's list of memory areas are list
  elements, taken from \<open>kmalloc\<close> but not written to physical memory.
\<close>

section \<open>From the keyboard to the screen\<close>

text \<open>C2: what is typed on the keyboard is printed by \<^verbatim>\<open>echo\<close>. When keys and then Enter are pressed at an empty input
  buffer, and the keys spell the name of a program and one word or more (at most 20 words in all, each below 100 characters), the next turn of the shell calls \<open>fork\<close> and goes on with
  its result; and with the result 0, in the child, the turn enters the program. If that
  program is \<^verbatim>\<open>echo\<close>, that is, if \<open>main\<close> is the model's and its two literals are in the image, its run from \<open>_start\<close> on writes
  exactly the typed words to the screen, each followed by a space, and a newline, and ends as a ZOMBIE while the current
  task is another one, which is RUNNING. The handlers, the
  buffer, the line editor, the tokenizer, the argument stack, user memory through the page tables, the
  \<open>write\<close> call and the terminal all take part.\<close>

theorem typed_echo_prints:
  assumes "typed (c0, k0) [] []" and "\<forall>key \<in> set keys. good_key key" and "length keys < inp_room (c0, k0)"
    and "type_keys (map Stroke keys @ [Enter]) (c0, k0) = Some (con s, kern s)"
    and "map key_ch keys = line_of (ref # words) @ tail" and "tail \<in> {[], '' &'', '' & ''}" and "length keys < 999"
    and "\<forall>w \<in> set (ref # words). plain_word w" and "ref \<notin> {''cd'', ''export'', ''clear'', ''pwd'', ''exit'', ''quit''}" and "words \<noteq> []"
    and "state (cur (kern s)) = RUNNING" and "shell_ready sh"
  shows "\<exists>s1 sh1. kern s1 = kern s \<and> shell_turn fr r temp v sh s = and_then (fork_lib fr r s1) (turn_after fr r (ref # words) sh1)
    \<and> (\<forall>s2 fa fs lim K. startable (tarfs s2) ref fa fs \<and> args_fit (ref # words) \<and> exec_space (kern s2) fs lim K \<and> table_ok (kern s2)
         \<and> 2 \<le> currentTask (kern s2) \<and> in_image (tm (tarfs s2)) fa (lit '' '') '' '' \<and> in_image (tm (tarfs s2)) fa (lit [NL]) [NL] \<longrightarrow>
         (\<exists>s3 g s4. turn_after fr r (ref # words) sh1 0 s2 = Some (Gone s3)
            \<and> start_program (echo_main fr r lit) fr r (cpu_rsp (kern s3) - 8) c w s3 = Some (g, Gone s4)
            \<and> con s4 = (con s2)\<lparr>screen := write_string (concat (map (\<lambda>a. a @ '' '') words) @ [NL]) (screen (con s2))\<rparr>
            \<and> tasks_ok (kern s4) \<and> state (taskQueue (kern s4) (currentTask (kern s2))) = ZOMBIE
            \<and> currentTask (kern s4) \<noteq> currentTask (kern s2) \<and> state (cur (kern s4)) = RUNNING))"
proof -
  have "typed (con s, kern s) [map key_ch keys] []" using typed_keys_line [OF assms(1-3)] assms(4) by auto
  then have t: "typed (con s, kern s) ((line_of (ref # words) @ tail) # []) []" unfolding assms(5) .
  have h: "hd (ref # words) \<notin> {''cd'', ''export'', ''clear'', ''pwd'', ''exit'', ''quit''}" using assms(9) by simp
  have l: "length (line_of (ref # words) @ tail) < 999" using assms(7) unfolding assms(5) [symmetric] by simp
  obtain s1 sh1 where s1: "kern s1 = kern s" "shell_turn fr r temp v sh s = and_then (fork_lib fr r s1) (turn_after fr r (ref # words) sh1)"
    using shell_line_forks [OF t assms(11,12) list.simps(3) assms(8) h assms(6) l, of fr r temp v] by blast
  have "\<exists>s3 g s4. turn_after fr r (ref # words) sh1 0 s2 = Some (Gone s3)
            \<and> start_program (echo_main fr r lit) fr r (cpu_rsp (kern s3) - 8) c w s3 = Some (g, Gone s4)
            \<and> con s4 = (con s2)\<lparr>screen := write_string (concat (map (\<lambda>a. a @ '' '') words) @ [NL]) (screen (con s2))\<rparr>
            \<and> tasks_ok (kern s4) \<and> state (taskQueue (kern s4) (currentTask (kern s2))) = ZOMBIE
            \<and> currentTask (kern s4) \<noteq> currentTask (kern s2) \<and> state (cur (kern s4)) = RUNNING"
    if e: "startable (tarfs s2) ref fa fs" "args_fit (ref # words)" "exec_space (kern s2) fs lim K" "table_ok (kern s2)"
      "2 \<le> currentTask (kern s2)" "in_image (tm (tarfs s2)) fa (lit '' '') '' ''" "in_image (tm (tarfs s2)) fa (lit [NL]) [NL]" for s2 fa fs lim K
  proof -
    obtain k' g s4 where x: "execvpe (tarfs s2) (fresh_area fr) (behind_argc fr) (args_rows fr) (envs_rows fr) ref (ref # words) [] (kern s2) = Some (Entered k')"
      "start_program (echo_main fr r lit) fr r (cpu_rsp k' - 8) c w (s2\<lparr>kern := k'\<rparr>) = Some (g, Gone s4)"
      "con s4 = (con s2)\<lparr>screen := write_string (concat (map (\<lambda>a. a @ '' '') words) @ [NL]) (screen (con s2))\<rparr>"
      "tasks_ok (kern s4) \<and> state (taskQueue (kern s4) (currentTask (kern s2))) = ZOMBIE
        \<and> currentTask (kern s4) \<noteq> currentTask (kern s2) \<and> state (cur (kern s4)) = RUNNING"
      using echo_runs [OF e(1,2) assms(10) e(3-7), of "fresh_area fr" "behind_argc fr" "args_rows fr" "envs_rows fr" fr r c w] by blast
    have "turn_after fr r (ref # words) sh1 0 s2 = Some (Gone (s2\<lparr>kern := k'\<rparr>))"
      by (rule child_enters) (use x(1) in simp)
    then show ?thesis using x(2-4) by (intro exI [of _ "s2\<lparr>kern := k'\<rparr>"] exI [of _ g] exI [of _ s4]) simp
  qed
  then show ?thesis using s1 by blast
qed

theorem typed_echo_prints_witness:
  "\<exists>c1 k1 sh1 s3 g s4. type_keys (map Stroke [(False, 30), (False, 57), (False, 35), (False, 23)] @ [Enter]) (console0, kernel_user) = Some (c1, k1)
     \<and> turn_after frame0 regs0 [''a'', ''hi''] sh1 0 \<lparr>kern = kernel_user, con = c1, tarfs = echo_fs, clock = timer0 0\<rparr> = Some (Gone s3)
     \<and> start_program (echo_main frame0 regs0 echo_lit) frame0 regs0 (cpu_rsp (kern s3) - 8) \<lparr>globalENV = 0, iter = 0\<rparr> undefined s3 = Some (g, Gone s4)
     \<and> screen (con s4) = write_string (''hi '' @ [NL]) (screen c1)"
proof -
  let ?keys = "[(False, 30), (False, 57), (False, 35), (False, 23)]"
  have g: "\<forall>key \<in> set ?keys. good_key key" by (simp add: good_key_def)
  have ch: "map key_ch ?keys = line_of (''a'' # [''hi'']) @ []" by (simp add: key_ch_def code_map_def)
  have room: "length ?keys < inp_room (console0, kernel_user)" using typed_console0(2) by simp
  obtain c1 k1 where t: "type_keys (map Stroke ?keys @ [Enter]) (console0, kernel_user) = Some (c1, k1)"
    using typed_keys_line [OF typed_console0(1) g room] by blast
  have "\<forall>i. state (taskQueue kernel_user i) \<noteq> SLEEP" by (simp add: kernel_user_def)
  then have k1: "k1 = kernel_user" using type_keys_kernel [OF t] by blast
  let ?s = "\<lparr>kern = kernel_user, con = c1, tarfs = echo_fs, clock = timer0 0\<rparr>"
  have a: "startable (tarfs ?s) ''a'' 0x1200 (0x1000 # fork_frame_list)" "args_fit (''a'' # [''hi''])"
    "exec_space (kern ?s) (0x1000 # fork_frame_list) 0x10000 (kernel_tables (pm fork_paging) 0x10000)"
    "table_ok (kern ?s)" "2 \<le> currentTask (kern ?s)" "in_image (tm (tarfs ?s)) 0x1200 (echo_lit '' '') '' ''"
    "in_image (tm (tarfs ?s)) 0x1200 (echo_lit [NL]) [NL]"
    using echo_startable kernel_user_space kernel_user_table echo_literals
    by (simp_all add: args_fit_def strings_size_def echo_fs_def kernel_user_def)
  have p: "type_keys (map Stroke ?keys @ [Enter]) (console0, kernel_user) = Some (con ?s, kern ?s)" using t k1 by simp
  have w: "\<forall>w \<in> set (''a'' # [''hi'']). plain_word w" "''a'' \<notin> {''cd'', ''export'', ''clear'', ''pwd'', ''exit'', ''quit''}"
    "[] \<in> {[], '' &'', '' & ''}" "length ?keys < 999" "[''hi''] \<noteq> []" "state (cur (kern ?s)) = RUNNING" using kernel_user_simps(2) by (simp_all add: plain_word_def)
  from typed_echo_prints [OF typed_console0(1) g room p ch w(3,4,1,2,5,6) shell0_ready(1), of frame0 regs0 "\<lambda>_. blank" undefined echo_lit "\<lparr>globalENV = 0, iter = 0\<rparr>" undefined]
  obtain sh1 where "\<forall>s2 fa fs lim K. startable (tarfs s2) ''a'' fa fs \<and> args_fit (''a'' # [''hi'']) \<and> exec_space (kern s2) fs lim K \<and> table_ok (kern s2)
         \<and> 2 \<le> currentTask (kern s2) \<and> in_image (tm (tarfs s2)) fa (echo_lit '' '') '' '' \<and> in_image (tm (tarfs s2)) fa (echo_lit [NL]) [NL] \<longrightarrow>
         (\<exists>s3 g s4. turn_after frame0 regs0 (''a'' # [''hi'']) sh1 0 s2 = Some (Gone s3)
            \<and> start_program (echo_main frame0 regs0 echo_lit) frame0 regs0 (cpu_rsp (kern s3) - 8) \<lparr>globalENV = 0, iter = 0\<rparr> undefined s3 = Some (g, Gone s4)
            \<and> con s4 = (con s2)\<lparr>screen := write_string (concat (map (\<lambda>a. a @ '' '') [''hi'']) @ [NL]) (screen (con s2))\<rparr>
            \<and> tasks_ok (kern s4) \<and> state (taskQueue (kern s4) (currentTask (kern s2))) = ZOMBIE
            \<and> currentTask (kern s4) \<noteq> currentTask (kern s2) \<and> state (cur (kern s4)) = RUNNING)" by blast
  with a obtain s3 g s4 where "turn_after frame0 regs0 (''a'' # [''hi'']) sh1 0 ?s = Some (Gone s3)"
    "start_program (echo_main frame0 regs0 echo_lit) frame0 regs0 (cpu_rsp (kern s3) - 8) \<lparr>globalENV = 0, iter = 0\<rparr> undefined s3 = Some (g, Gone s4)"
    "con s4 = (con ?s)\<lparr>screen := write_string (concat (map (\<lambda>a. a @ '' '') [''hi'']) @ [NL]) (screen (con ?s))\<rparr>" by blast
  then show ?thesis using t by (intro exI [of _ c1] exI [of _ k1] exI [of _ sh1] exI [of _ s3] exI [of _ g] exI [of _ s4]) simp
qed

end
